(* ===== verification/Maq_Prelude.thy ===== *)
theory Maq_Prelude
  imports Main "HOL-Library.Word" "HOL-Library.Multiset"
begin

text \<open>
  Shared vocabulary of the development: the fixed-width integers and the saturating and
  checked conversions of the Rust standard library the sources use, \<open>slice::chunks\<close>,
  the guarded row update that every fenced SQL statement is an instance of, and the
  collections of rewrite rules (\<open>maq_num\<close>, \<open>maq_list\<close>) the component proofs use.
\<close>

named_theorems maq_num "saturating and checked integer operations"
named_theorems maq_list "lists of rows, chunks and guarded updates"

section \<open>Integers\<close>

type_synonym i64 = int
type_synonym u8 = "8 word"
type_synonym u16 = "16 word"
type_synonym u32 = "32 word"
type_synonym u64 = "64 word"
type_synonym bytes = "u8 list"

text \<open>An \<open>i64\<close> is an integer; where the code saturates or converts, the bounds are written out.\<close>

definition i64_max :: i64 where
  "i64_max = 9223372036854775807"

definition i64_min :: i64 where
  "i64_min = - 9223372036854775808"

definition i64_saturating_add :: "i64 \<Rightarrow> i64 \<Rightarrow> i64" where
  "i64_saturating_add a b = max i64_min (min i64_max (a + b))"

definition i64_saturating_mul :: "i64 \<Rightarrow> i64 \<Rightarrow> i64" where
  "i64_saturating_mul a b = max i64_min (min i64_max (a * b))"

text \<open>\<open>u64 as i64\<close> reinterprets the bits.\<close>

definition u64_as_i64 :: "u64 \<Rightarrow> i64" where
  "u64_as_i64 w = sint w"

definition u32_max :: u32 where
  "u32_max = 4294967295"

definition u32_try_from :: "int \<Rightarrow> u32 option" where
  "u32_try_from i = (if 0 \<le> i \<and> i < 4294967296 then Some (word_of_int i) else None)"

definition u64_try_from :: "int \<Rightarrow> u64 option" where
  "u64_try_from i = (if 0 \<le> i \<and> i < 18446744073709551616 then Some (word_of_int i) else None)"

definition u32_saturating_add :: "u32 \<Rightarrow> u32 \<Rightarrow> u32" where
  "u32_saturating_add a b = (if unat a + unat b < 4294967296 then a + b else u32_max)"

definition u32_saturating_sub :: "u32 \<Rightarrow> u32 \<Rightarrow> u32" where
  "u32_saturating_sub a b = (if b \<le> a then a - b else 0)"

definition u8_saturating_add :: "u8 \<Rightarrow> u8 \<Rightarrow> u8" where
  "u8_saturating_add a b = (if unat a + unat b < 256 then a + b else 255)"

text \<open>\<open>Ord::clamp\<close> on \<open>usize\<close> and on durations.\<close>

definition clamp :: "nat \<Rightarrow> nat \<Rightarrow> nat \<Rightarrow> nat" where
  "clamp x lo hi = max lo (min hi x)"

lemma clamp_bounds: "lo \<le> hi \<Longrightarrow> lo \<le> clamp x lo hi \<and> clamp x lo hi \<le> hi"
  by (simp add: clamp_def)

lemma unat_u32_lt [simp]: "unat (w :: u32) < 4294967296"
  using unsigned_less [of w, where 'a = nat] by simp

lemma unat_u32_max [simp]: "unat u32_max = 4294967295"
  by (simp add: u32_max_def)

lemma unat_u32_saturating_add [maq_num]:
  "unat (u32_saturating_add a b) = min 4294967295 (unat a + unat b)"
  by (simp add: u32_saturating_add_def unat_word_ariths)

lemma unat_u32_saturating_sub [maq_num]:
  "unat (u32_saturating_sub a b) = unat a - unat b"
  by (auto simp: u32_saturating_sub_def unat_sub_if' word_le_nat_alt)

lemma unat_u32_max_fun [maq_num]: "unat (max a b :: u32) = max (unat a) (unat b)"
  by (simp add: max_def word_le_nat_alt)

lemma u32_try_from_uint [simp]: "u32_try_from (uint (w :: u32)) = Some w"
  using unsigned_less [of w, where 'a = int] by (simp add: u32_try_from_def)

lemma u64_try_from_uint [simp]: "u64_try_from (uint (w :: u64)) = Some w"
  using unsigned_less [of w, where 'a = int] by (simp add: u64_try_from_def)

lemma uint_u32_try_from: "u32_try_from i = Some w \<Longrightarrow> uint w = i"
  by (auto simp: u32_try_from_def uint_word_of_int take_bit_int_eq_self split: if_splits)

lemma u32_try_from_eq_Some: "u32_try_from i = Some w \<longleftrightarrow> i = uint w"
  using uint_u32_try_from by auto

lemma i64_saturating_add_bounds [maq_num]:
  "i64_min \<le> i64_saturating_add a b \<and> i64_saturating_add a b \<le> i64_max"
  by (auto simp: i64_saturating_add_def i64_min_def i64_max_def)

section \<open>Chunks\<close>

text \<open>\<open>slice::chunks\<close>: consecutive pieces of \<open>n\<close> elements, the last one possibly shorter.\<close>

function chunks :: "nat \<Rightarrow> 'a list \<Rightarrow> 'a list list" where
  "chunks n xs = (if xs = [] \<or> n = 0 then [] else take n xs # chunks n (drop n xs))"
  by pat_completeness auto
termination
  by (relation "measure (\<lambda>(n, xs). length xs)") auto

declare chunks.simps [simp del]

lemma chunks_Nil [simp]: "chunks n [] = []"
  by (simp add: chunks.simps)

lemma concat_chunks [maq_list]: "0 < n \<Longrightarrow> concat (chunks n xs) = xs"
proof (induction n xs rule: chunks.induct)
  case (1 n xs)
  then show ?case
    by (cases "xs = []") (simp_all add: chunks.simps [of n xs])
qed

lemma chunks_nonempty: "c \<in> set (chunks n xs) \<Longrightarrow> c \<noteq> []"
proof (induction n xs rule: chunks.induct)
  case (1 n xs)
  then show ?case
    by (auto simp: chunks.simps [of n xs] split: if_splits)
qed

lemma length_chunk_le: "c \<in> set (chunks n xs) \<Longrightarrow> length c \<le> n"
proof (induction n xs rule: chunks.induct)
  case (1 n xs)
  then show ?case
    by (auto simp: chunks.simps [of n xs] split: if_splits)
qed

lemma chunks_short: "xs \<noteq> [] \<Longrightarrow> length xs \<le> n \<Longrightarrow> chunks n xs = [xs]"
  by (subst chunks.simps) (cases n, auto)

section \<open>Lists with keys\<close>

lemma zip_upt_Cons:
  "zip [0..<Suc (length xs)] (x # xs) = (0, x) # map (\<lambda>(k, y). (Suc k, y)) (zip [0..<length xs] xs)"
  by (simp add: upt_conv_Cons zip_map1 del: upt_Suc flip: map_Suc_upt)

lemma filter_fst_eq:
  "distinct (map fst vs) \<Longrightarrow>
     filter (\<lambda>v. k = fst v) vs = (case map_of vs k of None \<Rightarrow> [] | Some d \<Rightarrow> [(k, d)])"
  by (induction vs) (auto simp: filter_empty_conv split: option.splits dest: map_of_SomeD)

lemma filter_key_single:
  "distinct (map key xs) \<Longrightarrow> x \<in> set xs \<Longrightarrow> filter (\<lambda>y. key y = key x) xs = [x]"
  by (induction xs) (auto simp: filter_empty_conv rev_image_eqI image_iff)

lemma filter_notin_take:
  "distinct (map key xs) \<Longrightarrow> filter (\<lambda>x. key x \<notin> key ` set (take n xs)) xs = drop n xs"
proof (induction xs arbitrary: n)
  case Nil
  then show ?case by simp
next
  case (Cons x xs)
  show ?case
  proof (cases n)
    case 0
    then show ?thesis by simp
  next
    case (Suc m)
    have "filter (\<lambda>y. key y \<notin> insert (key x) (key ` set (take m xs))) xs =
        filter (\<lambda>y. key y \<notin> key ` set (take m xs)) xs"
      using Cons.prems by (intro filter_cong) (auto dest: image_eqI [OF sym])
    with Cons Suc show ?thesis by simp
  qed
qed

lemma map_pair_zip: "map (\<lambda>c. (f c, g c)) xs = zip (map f xs) (map g xs)"
  by (induction xs) simp_all

lemma chunks_map: "chunks n (map f xs) = map (map f) (chunks n xs)"
proof (induction n xs rule: chunks.induct)
  case (1 n xs)
  then show ?case
    by (cases "xs = [] \<or> n = 0") (auto simp: chunks.simps [of n xs] chunks.simps [of n "map f xs"] take_map drop_map)
qed

lemma filter_prefix_ids:
  assumes "distinct (map key (xs @ ys))"
  shows "filter (\<lambda>r. key r \<in> key ` set xs) (xs @ ys) = xs"
    and "filter (\<lambda>r. key r \<notin> key ` set xs) (xs @ ys) = ys"
proof -
  have ys: "key r \<notin> key ` set xs" if "r \<in> set ys" for r
    using assms that by (auto simp: disjoint_iff)
  show "filter (\<lambda>r. key r \<in> key ` set xs) (xs @ ys) = xs"
    using ys by (simp add: filter_empty_conv)
  show "filter (\<lambda>r. key r \<notin> key ` set xs) (xs @ ys) = ys"
    using ys by (auto simp: filter_empty_conv intro!: filter_True)
qed

lemma distinct_map_replace:
  assumes "distinct (map f rows)" and "\<And>x. x \<in> set rows \<Longrightarrow> f x = f r' \<Longrightarrow> x = r"
  shows "distinct (map f (map (\<lambda>x. if x = r then r' else x) rows))"
proof -
  have inj: "inj_on f (set rows)" and "distinct rows" using assms(1) by (simp_all add: distinct_map)
  have "inj_on (\<lambda>x. f (if x = r then r' else x)) (set rows)"
  proof (rule inj_onI)
    fix x y assume xy: "x \<in> set rows" "y \<in> set rows" "f (if x = r then r' else x) = f (if y = r then r' else y)"
    show "x = y"
      using xy(3) assms(2) [OF xy(1)] assms(2) [OF xy(2)] inj_onD [OF inj _ xy(1,2)] by (metis (full_types))
  qed
  with \<open>distinct rows\<close> show ?thesis by (simp add: distinct_map comp_def)
qed

lemma find_map_same:
  assumes "\<And>r. r \<in> set rows \<Longrightarrow> g r = r \<or> (\<not> P r \<and> \<not> P (g r))"
  shows "find P (map g rows) = find P rows"
  using assms
proof (induction rows)
  case (Cons r rows)
  then show ?case by (metis (no_types, lifting) find.simps(2) list.set_intros(1,2) list.simps(9))
qed simp

lemma fold_set_nth:
  "length (fold (\<lambda>i ds. if P i then ds[i := f i] else ds) idxs ds) = length ds"
  "j < length ds \<Longrightarrow>
     fold (\<lambda>i ds. if P i then ds[i := f i] else ds) idxs ds ! j = (if j \<in> set idxs \<and> P j then f j else ds ! j)"
  by (induction idxs arbitrary: ds) (auto simp: nth_list_update intro: nth_list_update_neq)

lemma fold_set_all_nth:
  "length (fold (\<lambda>i ds. ds[i := f i]) idxs ds) = length ds"
  "j < length ds \<Longrightarrow> fold (\<lambda>i ds. ds[i := f i]) idxs ds ! j = (if j \<in> set idxs then f j else ds ! j)"
  using fold_set_nth [where P = "\<lambda>_. True" and f = f and idxs = idxs and ds = ds] by simp_all

lemma map_upds_nth:
  assumes "distinct ks" and "length vs = length ks" and "k < length ks"
  shows "(m(ks [\<mapsto>] vs)) (ks ! k) = Some (vs ! k)"
proof -
  have "(ks ! k, vs ! k) \<in> set (rev (zip ks vs))"
    using assms(2,3) by (auto simp: set_zip)
  moreover have "distinct (map fst (rev (zip ks vs)))"
    using assms(1,2) by (simp flip: rev_map)
  ultimately have "map_of (rev (zip ks vs)) (ks ! k) = Some (vs ! k)" by simp
  then show ?thesis by (simp add: map_upds_def)
qed

end
