(* ===== verification/Maq_Types.thy ===== *)
theory Maq_Types
  imports Maq_Text
begin

text \<open>
  The data model shared by every crate: \<open>crates/engine/src/types.rs\<close> (jobs, executions,
  queues, statuses, store errors) and the data types of \<open>crates/engine/src/lib.rs\<close>
  (outcomes, worker results and events, engine and dispatch errors, dispatch options).
  Field names carry a prefix for their struct. The clock (\<open>unix_now\<close>) is an argument.
\<close>

section \<open>types.rs\<close>

record AcceptedJob =
  aj_id :: i64
  aj_queue_name :: string
  aj_payload :: bytes
  aj_dispatch_id :: "string option"
  aj_created_at :: i64
  aj_updated_at :: i64

definition AcceptedJob_new :: "i64 \<Rightarrow> string \<Rightarrow> bytes \<Rightarrow> AcceptedJob" where
  "AcceptedJob_new now queue_name payload =
     \<lparr>aj_id = 0, aj_queue_name = queue_name, aj_payload = payload, aj_dispatch_id = None,
      aj_created_at = now, aj_updated_at = now\<rparr>"

datatype ExecutionStatus = Pending | Running | Completed | Failed

fun as_str :: "ExecutionStatus \<Rightarrow> string" where
  "as_str Pending = ''pending''"
| "as_str Running = ''running''"
| "as_str Completed = ''completed''"
| "as_str Failed = ''failed''"

definition parse_status :: "string \<Rightarrow> ExecutionStatus option" where
  "parse_status value =
     (if value = ''pending'' then Some Pending
      else if value = ''running'' then Some Running
      else if value = ''completed'' then Some Completed
      else if value = ''failed'' then Some Failed
      else None)"

record Execution =
  ex_id :: i64
  ex_job_id :: i64
  ex_queue_name :: string
  ex_status :: ExecutionStatus
  ex_execution_count :: u32
  ex_lease_expires_at :: "i64 option"
  ex_dispatch_id :: string
  ex_result_payload :: "bytes option"
  ex_result_error :: "string option"
  ex_created_at :: i64
  ex_updated_at :: i64

record JobQueue =
  jq_name :: string
  jq_max_retries :: u32
  jq_timeout_secs :: u64
  jq_created_at :: i64
  jq_updated_at :: i64

definition JobQueue_new :: "i64 \<Rightarrow> string \<Rightarrow> JobQueue" where
  "JobQueue_new now name =
     \<lparr>jq_name = name, jq_max_retries = 3, jq_timeout_secs = 60,
      jq_created_at = now, jq_updated_at = now\<rparr>"

record ExecutionWithQueueConfig =
  ewq_execution :: Execution
  ewq_queue :: JobQueue

record Job =
  job_id :: i64
  job_name :: string
  job_status :: ExecutionStatus
  job_payload :: bytes
  job_execution_count :: u32
  job_lease_expires_at :: "i64 option"
  job_dispatch_id :: "string option"
  job_result_payload :: "bytes option"
  job_result_error :: "string option"
  job_created_at :: i64
  job_updated_at :: i64

definition from_accepted :: "AcceptedJob \<Rightarrow> Execution option \<Rightarrow> Job" where
  "from_accepted accepted execution =
     (let job = \<lparr>job_id = aj_id accepted, job_name = aj_queue_name accepted,
                 job_status = Pending, job_payload = aj_payload accepted,
                 job_execution_count = 0, job_lease_expires_at = None,
                 job_dispatch_id = aj_dispatch_id accepted,
                 job_result_payload = None, job_result_error = None,
                 job_created_at = aj_created_at accepted,
                 job_updated_at = aj_updated_at accepted\<rparr>
      in case execution of
           None \<Rightarrow> job
         | Some e \<Rightarrow>
             job\<lparr>job_execution_count := ex_execution_count e,
                 job_lease_expires_at := ex_lease_expires_at e,
                 job_dispatch_id := Some (ex_dispatch_id e),
                 job_result_payload := ex_result_payload e,
                 job_result_error := ex_result_error e,
                 job_updated_at := ex_updated_at e,
                 job_status :=
                   (if ex_status e = Failed \<and> aj_dispatch_id accepted = None then Pending
                    else ex_status e)\<rparr>)"

datatype StoreError = NotFound i64 | QueueNotFound string | Internal string

fun show_StoreError :: "StoreError \<Rightarrow> string" where
  "show_StoreError (NotFound i) = ''job not found: '' @ show_int i"
| "show_StoreError (QueueNotFound q) = ''queue not found: '' @ q"
| "show_StoreError (Internal m) = ''internal store error: '' @ m"

section \<open>lib.rs: outcomes, events, errors, options\<close>

definition MAX_CLAIM_BATCH_SIZE :: nat where
  "MAX_CLAIM_BATCH_SIZE = 1048576"

datatype JobOutcome = Succeeded bytes | OutcomeFailed string

record WorkerResult =
  wr_job_id :: i64
  wr_dispatch_id :: string
  wr_outcome :: JobOutcome

datatype WorkerEvent = EvRegistered string | EvResult string WorkerResult

datatype EngineError = UnknownQueue string | JobNotFound i64 | Storage StoreError | PayloadError string

fun EngineError_from :: "StoreError \<Rightarrow> EngineError" where
  "EngineError_from (QueueNotFound name) = UnknownQueue name"
| "EngineError_from (NotFound i) = JobNotFound i"
| "EngineError_from (Internal m) = Storage (Internal m)"

fun show_EngineError :: "EngineError \<Rightarrow> string" where
  "show_EngineError (UnknownQueue q) = ''unknown job queue: '' @ q"
| "show_EngineError (JobNotFound i) = ''job not found: '' @ show_int i"
| "show_EngineError (Storage s) = ''engine storage is unavailable''"
| "show_EngineError (PayloadError m) = ''failed to serialize payload: '' @ m"

datatype DispatchError = NoCapacity | DispatchInternal string

record QueueReservation =
  qres_queue_name :: string
  qres_count :: nat

record 'json SubmitJob =
  sj_name :: string
  sj_payload :: 'json

record JobView =
  jv_id :: i64
  jv_name :: string
  jv_status :: ExecutionStatus

text \<open>A \<open>Duration\<close> is a number of nanoseconds.\<close>

type_synonym duration = nat

definition from_millis :: "nat \<Rightarrow> duration" where
  "from_millis ms = ms * 1000000"

definition from_secs :: "nat \<Rightarrow> duration" where
  "from_secs s = s * 1000000000"

definition as_millis :: "duration \<Rightarrow> nat" where
  "as_millis d = d div 1000000"

record DispatchOptions =
  do_batch_size_max :: nat
  do_max_delivery_in_flight :: nat
  do_idle_probe_interval :: duration
  do_idle_probe_batch_size :: nat

definition DispatchOptions_default :: DispatchOptions where
  "DispatchOptions_default =
     \<lparr>do_batch_size_max = 8192, do_max_delivery_in_flight = 8192,
      do_idle_probe_interval = from_secs 1, do_idle_probe_batch_size = 64\<rparr>"

definition DispatchOptions_validate :: "DispatchOptions \<Rightarrow> string + unit" where
  "DispatchOptions_validate o' =
     (if do_batch_size_max o' = 0 \<or> MAX_CLAIM_BATCH_SIZE < do_batch_size_max o' then
        Inl (''dispatch.batch_size_max must be in 1..='' @ show_nat MAX_CLAIM_BATCH_SIZE)
      else if do_max_delivery_in_flight o' = 0 then
        Inl ''dispatch.max_delivery_in_flight must be greater than zero''
      else if do_idle_probe_interval o' = 0 then
        Inl ''dispatch.idle_probe_interval must be greater than zero''
      else if do_idle_probe_batch_size o' = 0 then
        Inl ''dispatch.idle_probe_batch_size must be greater than zero''
      else Inr ())"

section \<open>Facts about the data model\<close>

lemma as_millis_from_millis [simp]: "as_millis (from_millis n) = n"
  by (simp add: as_millis_def from_millis_def)

lemma parse_status_as_str [simp]: "parse_status (as_str s) = Some s"
  by (cases s) (simp_all add: parse_status_def)

lemma parse_status_eq_Some: "parse_status v = Some s \<longleftrightarrow> v = as_str s"
proof
  assume "parse_status v = Some s"
  then show "v = as_str s" by (auto simp: parse_status_def split: if_splits)
qed simp

lemma as_str_inj [simp]: "as_str s = as_str t \<longleftrightarrow> s = t"
  by (metis option.inject parse_status_as_str)

text \<open>What a caller can observe of a job depends on both rows only through these facts.\<close>

lemma from_accepted_identity [simp]:
  "job_id (from_accepted a e) = aj_id a"
  "job_name (from_accepted a e) = aj_queue_name a"
  "job_payload (from_accepted a e) = aj_payload a"
  "job_created_at (from_accepted a e) = aj_created_at a"
  by (simp_all add: from_accepted_def Let_def split: option.split)

lemma from_accepted_status_None [simp]: "job_status (from_accepted a None) = Pending"
  by (simp add: from_accepted_def)

lemma from_accepted_status_Some [simp]:
  "job_status (from_accepted a (Some e)) =
     (if ex_status e = Failed \<and> aj_dispatch_id a = None then Pending else ex_status e)"
  by (simp add: from_accepted_def)

lemma DispatchOptions_validate_Inr:
  "DispatchOptions_validate o' = Inr () \<longleftrightarrow>
     0 < do_batch_size_max o' \<and> do_batch_size_max o' \<le> MAX_CLAIM_BATCH_SIZE \<and>
     0 < do_max_delivery_in_flight o' \<and> 0 < do_idle_probe_interval o' \<and>
     0 < do_idle_probe_batch_size o'"
  by (auto simp: DispatchOptions_validate_def)

end
