(* ===== verification/Maq_Protocol.thy ===== *)
theory Maq_Protocol
  imports Maq_Types
begin

text \<open>
  The worker protocol (\<open>crates/worker-protocol/src/lib.rs\<close>): the messages, the length-prefixed
  frames and their codec, and the three frame readers and writers that use it (the blocking ones
  of the protocol crate, the ones of the dispatcher and the ones of the worker SDK). The CBOR
  serialiser (\<open>serde_cbor\<close>) is a third-party crate and an argument of the model. A byte stream
  is the bytes still to come and what happens after them.
\<close>

section \<open>Messages\<close>

type_synonym Uuid = "128 word"

definition PROTOCOL_VERSION :: u16 where
  "PROTOCOL_VERSION = 1"

definition MAX_FRAME_BYTES :: nat where
  "MAX_FRAME_BYTES = 1024 * 1024"

datatype JobResult = ResultSucceeded bytes | ResultFailed string

datatype WorkerMessage =
    Register (reg_instance_id: Uuid) (reg_queue_name: string) (reg_running_jobs: u32) (reg_free_slots: u32)
  | JobDispatch (jd_job_id: i64) (jd_dispatch_id: string) (jd_execution_count: u32) (jd_payload: bytes)
  | JobResultMsg (jr_job_id: i64) (jr_dispatch_id: string) (jr_result: JobResult) (jr_running_jobs: u32)
      (jr_free_slots: u32)
  | Drain
  | Draining
  | Heartbeat
  | Registered (rd_queue_name: string)
  | ErrorMsg (err_code: string) (err_message: string)

record WireFrame =
  protocol_version :: u16
  payload :: WorkerMessage

definition v1 :: "WorkerMessage \<Rightarrow> WireFrame" where
  "v1 p = \<lparr>protocol_version = PROTOCOL_VERSION, payload = p\<rparr>"

datatype IoErrorKind = UnexpectedEof | InvalidData | OtherIo

datatype ProtocolError =
    UnsupportedVersion u16
  | FrameTooLarge
  | Malformed string
  | Io IoErrorKind string

fun show_ProtocolError :: "ProtocolError \<Rightarrow> string" where
  "show_ProtocolError (UnsupportedVersion v) = ''unsupported protocol version '' @ show_nat (unat v)"
| "show_ProtocolError FrameTooLarge = ''frame exceeds '' @ show_nat MAX_FRAME_BYTES @ '' byte limit''"
| "show_ProtocolError (Malformed m) = ''malformed frame: '' @ m"
| "show_ProtocolError (Io k m) = ''I/O error: '' @ m"

text \<open>\<open>serde_cbor::to_vec\<close> and \<open>serde_cbor::from_slice\<close> on frames.\<close>

record Cbor =
  to_vec :: "WireFrame \<Rightarrow> string + bytes"
  from_slice :: "bytes \<Rightarrow> string + WireFrame"

text \<open>What the code relies on: what was serialised is read back.\<close>

definition cbor_roundtrips :: "Cbor \<Rightarrow> bool" where
  "cbor_roundtrips C \<longleftrightarrow> (\<forall>f b. to_vec C f = Inr b \<longrightarrow> from_slice C b = Inr f)"

section \<open>Big-endian integers\<close>

text \<open>
  \<open>to_be_bytes\<close> of an unsigned integer of \<open>k\<close> bytes (\<open>u32\<close> has 4; \<open>usize\<close> has 8 on the 64-bit
  targets) and \<open>from_be_bytes\<close>. The conversion \<open>body.len() as u32\<close> keeps the low 32 bits, which
  is what four bytes of the length are.
\<close>

fun to_be_bytes :: "nat \<Rightarrow> nat \<Rightarrow> bytes" where
  "to_be_bytes 0 n = []"
| "to_be_bytes (Suc k) n = to_be_bytes k (n div 256) @ [of_nat n]"

definition from_be_bytes :: "bytes \<Rightarrow> nat" where
  "from_be_bytes bs = foldl (\<lambda>a b. 256 * a + unat b) 0 bs"

definition USIZE_BYTES :: nat where
  "USIZE_BYTES = 8"

section \<open>Frames\<close>

definition encode_frame :: "Cbor \<Rightarrow> WireFrame \<Rightarrow> ProtocolError + bytes" where
  "encode_frame C frame =
     (if protocol_version frame \<noteq> PROTOCOL_VERSION then Inl (UnsupportedVersion (protocol_version frame))
      else case to_vec C frame of
        Inl e \<Rightarrow> Inl (Malformed e)
      | Inr body \<Rightarrow>
          if MAX_FRAME_BYTES < length body then Inl FrameTooLarge
          else Inr (to_be_bytes 4 (length body) @ body))"

definition decode_frame :: "Cbor \<Rightarrow> bytes \<Rightarrow> ProtocolError + WireFrame" where
  "decode_frame C bs =
     (if length bs < 4 then Inl (Io UnexpectedEof ''missing frame length'')
      else let len = from_be_bytes (take 4 bs) in
        if MAX_FRAME_BYTES < len then Inl FrameTooLarge
        else if length bs \<noteq> len + 4 then Inl (Io InvalidData ''frame length mismatch'')
        else case from_slice C (drop 4 bs) of
          Inl e \<Rightarrow> Inl (Malformed e)
        | Inr frame \<Rightarrow>
            if protocol_version frame \<noteq> PROTOCOL_VERSION then Inl (UnsupportedVersion (protocol_version frame))
            else Inr frame)"

section \<open>Streams\<close>

text \<open>
  A reader holds the bytes that will arrive and, after them, either the end of the stream or a
  transport error. A writer may accept only so many further bytes before it fails.
\<close>

record Reader =
  rd_bytes :: bytes
  rd_fault :: "(IoErrorKind \<times> string) option"

record Writer =
  wt_bytes :: bytes
  wt_fault :: "(nat \<times> IoErrorKind \<times> string) option"

definition read_exact :: "nat \<Rightarrow> Reader \<Rightarrow> (IoErrorKind \<times> string + bytes) \<times> Reader" where
  "read_exact n r =
     (if n \<le> length (rd_bytes r) then (Inr (take n (rd_bytes r)), r\<lparr>rd_bytes := drop n (rd_bytes r)\<rparr>)
      else (Inl (case rd_fault r of None \<Rightarrow> (UnexpectedEof, ''failed to fill whole buffer'') | Some e \<Rightarrow> e),
            r\<lparr>rd_bytes := []\<rparr>))"

definition write_all :: "bytes \<Rightarrow> Writer \<Rightarrow> (IoErrorKind \<times> string + unit) \<times> Writer" where
  "write_all bs w =
     (case wt_fault w of
        None \<Rightarrow> (Inr (), w\<lparr>wt_bytes := wt_bytes w @ bs\<rparr>)
      | Some (k, e) \<Rightarrow>
          if length bs \<le> k then (Inr (), w\<lparr>wt_bytes := wt_bytes w @ bs, wt_fault := Some (k - length bs, e)\<rparr>)
          else (Inl e, w\<lparr>wt_bytes := wt_bytes w @ take k bs, wt_fault := Some (0, e)\<rparr>))"

text \<open>The blocking pair of the protocol crate; \<open>len\<close> is a \<open>usize\<close> when it is turned into bytes again.\<close>

definition protocol_write_frame :: "Cbor \<Rightarrow> WireFrame \<Rightarrow> Writer \<Rightarrow> (ProtocolError + unit) \<times> Writer" where
  "protocol_write_frame C frame w =
     (case encode_frame C frame of
        Inl e \<Rightarrow> (Inl e, w)
      | Inr bs \<Rightarrow>
          (case write_all bs w of
             (Inl (k, m), w') \<Rightarrow> (Inl (Io k m), w')
           | (Inr _, w') \<Rightarrow> (Inr (), w')))"

definition protocol_read_frame :: "Cbor \<Rightarrow> Reader \<Rightarrow> (ProtocolError + WireFrame) \<times> Reader" where
  "protocol_read_frame C r =
     (case read_exact 4 r of
        (Inl (k, m), r1) \<Rightarrow> (Inl (Io k m), r1)
      | (Inr lenb, r1) \<Rightarrow>
          let len = from_be_bytes lenb in
          if MAX_FRAME_BYTES < len then (Inl FrameTooLarge, r1)
          else case read_exact len r1 of
            (Inl (k, m), r2) \<Rightarrow> (Inl (Io k m), r2)
          | (Inr body, r2) \<Rightarrow> (decode_frame C (to_be_bytes USIZE_BYTES len @ body), r2))"

text \<open>The dispatcher's pair; its errors are \<open>anyhow\<close> errors, kept as their messages.\<close>

definition dispatcher_read_frame :: "Cbor \<Rightarrow> Reader \<Rightarrow> (string + WireFrame) \<times> Reader" where
  "dispatcher_read_frame C r =
     (case read_exact 4 r of
        (Inl (k, m), r1) \<Rightarrow> (Inl m, r1)
      | (Inr len, r1) \<Rightarrow>
          let size = from_be_bytes len in
          if \<not> size \<le> MAX_FRAME_BYTES then (Inl ''oversized worker frame'', r1)
          else case read_exact size r1 of
            (Inl (k, m), r2) \<Rightarrow> (Inl m, r2)
          | (Inr body, r2) \<Rightarrow>
              (case decode_frame C (len @ body) of
                 Inl e \<Rightarrow> (Inl (show_ProtocolError e), r2)
               | Inr f \<Rightarrow> (Inr f, r2)))"

definition dispatcher_write_frame :: "Cbor \<Rightarrow> WireFrame \<Rightarrow> Writer \<Rightarrow> (string + unit) \<times> Writer" where
  "dispatcher_write_frame C frame w =
     (case encode_frame C frame of
        Inl e \<Rightarrow> (Inl (show_ProtocolError e), w)
      | Inr bs \<Rightarrow>
          (case write_all bs w of
             (Inl (k, m), w') \<Rightarrow> (Inl m, w')
           | (Inr _, w') \<Rightarrow> (Inr (), w')))"

text \<open>The worker SDK's pair.\<close>

definition read_async_frame :: "Cbor \<Rightarrow> Reader \<Rightarrow> (ProtocolError + WireFrame) \<times> Reader" where
  "read_async_frame C r =
     (case read_exact 4 r of
        (Inl (k, m), r1) \<Rightarrow> (Inl (Io k m), r1)
      | (Inr len, r1) \<Rightarrow>
          let size = from_be_bytes len in
          if MAX_FRAME_BYTES < size then (Inl FrameTooLarge, r1)
          else case read_exact size r1 of
            (Inl (k, m), r2) \<Rightarrow> (Inl (Io k m), r2)
          | (Inr body, r2) \<Rightarrow> (decode_frame C (len @ body), r2))"

section \<open>Facts about the bytes\<close>

lemma length_to_be_bytes [simp]: "length (to_be_bytes k n) = k"
  by (induction k arbitrary: n) simp_all

lemma from_be_bytes_snoc [simp]: "from_be_bytes (bs @ [b]) = 256 * from_be_bytes bs + unat b"
  by (simp add: from_be_bytes_def)

lemma from_be_bytes_Nil [simp]: "from_be_bytes [] = 0"
  by (simp add: from_be_bytes_def)

lemma from_to_be_bytes: "from_be_bytes (to_be_bytes k n) = n mod 256 ^ k"
proof (induction k arbitrary: n)
  case (Suc k)
  have "unat (of_nat n :: u8) = n mod 256" by (simp add: unat_of_nat)
  then show ?case
    by (simp add: Suc mod_mult2_eq [of n 256 "256 ^ k"])
qed simp

lemma to_from_be_bytes: "to_be_bytes (length bs) (from_be_bytes bs) = bs"
proof (induction bs rule: rev_induct)
  case (snoc b bs)
  have "unat b < 256" using unsigned_less [of b, where 'a = nat] by simp
  then have "(256 * from_be_bytes bs + unat b) div 256 = from_be_bytes bs" by simp
  moreover have "(of_nat (256 * from_be_bytes bs + unat b) :: u8) = b"
  proof -
    have "(256 :: u8) = 0" by simp
    then have "(of_nat (256 * from_be_bytes bs) :: u8) = 0"
      by (metis mult_zero_left of_nat_mult of_nat_numeral)
    then show ?thesis by simp
  qed
  ultimately show ?case using snoc by simp
qed simp

lemma from_to_be_bytes_small: "n \<le> MAX_FRAME_BYTES \<Longrightarrow> from_be_bytes (to_be_bytes 4 n) = n"
  by (simp add: from_to_be_bytes MAX_FRAME_BYTES_def)

lemma to_be_bytes_4:
  "to_be_bytes 4 n = [of_nat (n div 16777216), of_nat (n div 65536), of_nat (n div 256), of_nat n]"
proof -
  have "n div 256 div 256 = n div 65536" "n div 65536 div 256 = n div 16777216"
    using div_mult2_eq [of n 256 256] div_mult2_eq [of n 65536 256] by simp_all
  moreover have "(4 :: nat) = Suc (Suc (Suc (Suc 0)))" by simp
  ultimately show ?thesis by (simp only: to_be_bytes.simps append.simps)
qed

lemma take_to_be_bytes: "take j (to_be_bytes (j + k) n) = to_be_bytes j (n div 256 ^ k)"
  by (induction k arbitrary: n) (simp_all add: div_mult2_eq)

text \<open>The first half of an eight-byte length is zero: the frame it heads is never well-formed.\<close>

lemma take_usize_bytes: "n \<le> MAX_FRAME_BYTES \<Longrightarrow> from_be_bytes (take 4 (to_be_bytes USIZE_BYTES n)) = 0"
  using take_to_be_bytes [of 4 4 n] from_to_be_bytes [of 4 0] by (simp add: USIZE_BYTES_def MAX_FRAME_BYTES_def)

section \<open>Decoding\<close>

lemma encode_frame_Inr:
  "encode_frame C f = Inr bs \<longleftrightarrow>
     protocol_version f = PROTOCOL_VERSION \<and>
     (\<exists>body. to_vec C f = Inr body \<and> length body \<le> MAX_FRAME_BYTES \<and> bs = to_be_bytes 4 (length body) @ body)"
  by (auto simp: encode_frame_def split: sum.splits)

text \<open>
  \<open>decode_frame\<close> accepts exactly the frames of the protocol: a four-byte big-endian length of at
  most \<open>MAX_FRAME_BYTES\<close>, as many bytes as it says and no more, which the CBOR reader accepts as a
  frame of the supported version.
\<close>

theorem decode_frame_accepts_exactly:
  "decode_frame C bs = Inr f \<longleftrightarrow>
     (\<exists>body. length body \<le> MAX_FRAME_BYTES \<and> bs = to_be_bytes 4 (length body) @ body \<and>
             from_slice C body = Inr f \<and> protocol_version f = PROTOCOL_VERSION)"
  (is "?dec \<longleftrightarrow> (\<exists>body. ?ok body)")
proof
  assume d: ?dec
  have "length bs \<ge> 4" using d by (simp add: decode_frame_def split: if_splits)
  then have len: "length (take 4 bs) = 4" by simp
  from d \<open>length bs \<ge> 4\<close> have f: "from_be_bytes (take 4 bs) \<le> MAX_FRAME_BYTES"
      "length bs = from_be_bytes (take 4 bs) + 4" "from_slice C (drop 4 bs) = Inr f"
      "protocol_version f = PROTOCOL_VERSION"
    by (auto simp: decode_frame_def Let_def split: if_splits sum.splits)
  have "take 4 bs = to_be_bytes 4 (length (drop 4 bs))"
    using to_from_be_bytes [of "take 4 bs"] f(2) len by simp
  then have "bs = to_be_bytes 4 (length (drop 4 bs)) @ drop 4 bs" by (metis append_take_drop_id)
  with f show "\<exists>body. ?ok body" by (intro exI [of _ "drop 4 bs"]) simp
next
  assume "\<exists>body. ?ok body"
  then show ?dec by (auto simp: decode_frame_def from_to_be_bytes_small)
qed

lemma decode_encoded:
  assumes "cbor_roundtrips C" and "encode_frame C f = Inr bs"
  shows "decode_frame C bs = Inr f"
proof -
  from assms(2) obtain body where "protocol_version f = PROTOCOL_VERSION" "to_vec C f = Inr body"
      "length body \<le> MAX_FRAME_BYTES" "bs = to_be_bytes 4 (length body) @ body"
    by (auto simp: encode_frame_Inr)
  moreover have "from_slice C body = Inr f"
    using assms(1) \<open>to_vec C f = Inr body\<close> by (simp add: cbor_roundtrips_def)
  ultimately show ?thesis by (simp add: decode_frame_def from_to_be_bytes_small)
qed

section \<open>Reading from a stream\<close>

text \<open>A well-formed frame at the head of the stream is consumed and nothing after it.\<close>

lemma read_encoded:
  assumes C: "cbor_roundtrips C" and f: "encode_frame C f = Inr bs"
  shows "dispatcher_read_frame C \<lparr>rd_bytes = bs @ rest, rd_fault = e\<rparr> = (Inr f, \<lparr>rd_bytes = rest, rd_fault = e\<rparr>)"
    and "read_async_frame C \<lparr>rd_bytes = bs @ rest, rd_fault = e\<rparr> = (Inr f, \<lparr>rd_bytes = rest, rd_fault = e\<rparr>)"
proof -
  from f obtain body where body: "length body \<le> MAX_FRAME_BYTES" "bs = to_be_bytes 4 (length body) @ body"
    by (auto simp: encode_frame_Inr)
  then show "dispatcher_read_frame C \<lparr>rd_bytes = bs @ rest, rd_fault = e\<rparr> = (Inr f, \<lparr>rd_bytes = rest, rd_fault = e\<rparr>)"
    and "read_async_frame C \<lparr>rd_bytes = bs @ rest, rd_fault = e\<rparr> = (Inr f, \<lparr>rd_bytes = rest, rd_fault = e\<rparr>)"
    using decode_encoded [OF C f]
    by (simp_all add: dispatcher_read_frame_def read_async_frame_def read_exact_def from_to_be_bytes_small)
qed

text \<open>The frames a reader delivers until its first error.\<close>

fun read_frames :: "(Reader \<Rightarrow> ('e + WireFrame) \<times> Reader) \<Rightarrow> nat \<Rightarrow> Reader \<Rightarrow> WireFrame list \<times> Reader" where
  "read_frames rd 0 r = ([], r)"
| "read_frames rd (Suc n) r =
     (case rd r of
        (Inl _, r') \<Rightarrow> ([], r')
      | (Inr f, r') \<Rightarrow> (let (fs, r'') = read_frames rd n r' in (f # fs, r'')))"

fun write_frames :: "Cbor \<Rightarrow> WireFrame list \<Rightarrow> Writer \<Rightarrow> (string + unit) \<times> Writer" where
  "write_frames C [] w = (Inr (), w)"
| "write_frames C (f # fs) w =
     (case dispatcher_write_frame C f w of
        (Inl e, w') \<Rightarrow> (Inl e, w')
      | (Inr _, w') \<Rightarrow> write_frames C fs w')"

lemma write_frames_ok:
  assumes "wt_fault w = None" and "list_all2 (\<lambda>f bs. encode_frame C f = Inr bs) fs bss"
  shows "write_frames C fs w = (Inr (), w\<lparr>wt_bytes := wt_bytes w @ concat bss\<rparr>)"
  using assms(2,1)
  by (induction fs bss arbitrary: w rule: list_all2_induct)
     (simp_all add: dispatcher_write_frame_def write_all_def)

lemma read_frames_encoded:
  assumes C: "cbor_roundtrips C" and "list_all2 (\<lambda>f bs. encode_frame C f = Inr bs) fs bss"
  shows "read_frames (read_async_frame C) (length fs) \<lparr>rd_bytes = concat bss @ rest, rd_fault = e\<rparr> =
     (fs, \<lparr>rd_bytes = rest, rd_fault = e\<rparr>)"
  using assms(2)
  by (induction fs bss rule: list_all2_induct) (simp_all add: read_encoded [OF C])

lemma write_frames_Inr:
  assumes "wt_fault w = None" and "write_frames C fs w = (Inr (), w')"
  shows "\<exists>bss. list_all2 (\<lambda>f bs. encode_frame C f = Inr bs) fs bss \<and> wt_bytes w' = wt_bytes w @ concat bss"
  using assms
proof (induction fs arbitrary: w)
  case (Cons f fs)
  from Cons.prems obtain bs where bs: "encode_frame C f = Inr bs"
    by (auto simp: dispatcher_write_frame_def split: sum.splits)
  with Cons.prems have "write_frames C fs (w\<lparr>wt_bytes := wt_bytes w @ bs\<rparr>) = (Inr (), w')"
    by (simp add: dispatcher_write_frame_def write_all_def)
  from Cons.IH [OF _ this] Cons.prems(1) obtain bss where
    "list_all2 (\<lambda>f bs. encode_frame C f = Inr bs) fs bss" "wt_bytes w' = (wt_bytes w @ bs) @ concat bss"
    by auto
  with bs show ?case by (intro exI [of _ "bs # bss"]) simp
qed simp

text \<open>
  C27. Frames survive the connection. Whatever frames the dispatcher writes successfully, the
  worker's reader delivers exactly these frames in that order and leaves what follows them on the
  stream untouched, however the bytes are followed by others or by an error.
\<close>

theorem frames_roundtrip:
  assumes C: "cbor_roundtrips C" and w: "write_frames C fs \<lparr>wt_bytes = [], wt_fault = None\<rparr> = (Inr (), w)"
  shows "read_frames (read_async_frame C) (length fs) \<lparr>rd_bytes = wt_bytes w @ rest, rd_fault = e\<rparr> =
     (fs, \<lparr>rd_bytes = rest, rd_fault = e\<rparr>)"
proof -
  from write_frames_Inr [OF _ w] obtain bss where
    "list_all2 (\<lambda>f bs. encode_frame C f = Inr bs) fs bss" "wt_bytes w = concat bss" by auto
  with read_frames_encoded [OF C] show ?thesis by simp
qed

text \<open>A codec for two messages, enough to exercise the frames.\<close>

definition tiny_cbor :: Cbor where
  "tiny_cbor =
     \<lparr>to_vec = (\<lambda>f. if f = v1 Heartbeat then Inr [1] else if f = v1 Drain then Inr [2, 2] else Inl ''unsupported''),
      from_slice = (\<lambda>b. if b = [1] then Inr (v1 Heartbeat) else if b = [2, 2] then Inr (v1 Drain) else Inl ''unsupported'')\<rparr>"

lemma tiny_cbor_roundtrips: "cbor_roundtrips tiny_cbor"
  by (auto simp: cbor_roundtrips_def tiny_cbor_def split: if_splits)

theorem frames_roundtrip_witness:
  "read_frames (read_async_frame tiny_cbor) 2 \<lparr>rd_bytes = [0, 0, 0, 1, 1, 0, 0, 0, 2, 2, 2, 9], rd_fault = None\<rparr> =
     ([v1 Heartbeat, v1 Drain], \<lparr>rd_bytes = [9], rd_fault = None\<rparr>)"
proof -
  have w: "write_frames tiny_cbor [v1 Heartbeat, v1 Drain] \<lparr>wt_bytes = [], wt_fault = None\<rparr> =
      (Inr (), \<lparr>wt_bytes = [0, 0, 0, 1, 1, 0, 0, 0, 2, 2, 2], wt_fault = None\<rparr>)"
    by (simp add: dispatcher_write_frame_def encode_frame_def write_all_def tiny_cbor_def v1_def MAX_FRAME_BYTES_def
        to_be_bytes_4)
  show ?thesis using frames_roundtrip [OF tiny_cbor_roundtrips w, of "[9]" None] by (simp add: numeral_2_eq_2)
qed

text \<open>
  The two asynchronous readers agree: the dispatcher's reader and the SDK's reader accept the
  same frames, fail on the same streams and leave the same bytes behind.
\<close>

theorem async_readers_agree:
  "snd (dispatcher_read_frame C r) = snd (read_async_frame C r) \<and>
   (\<forall>f. fst (dispatcher_read_frame C r) = Inr f \<longleftrightarrow> fst (read_async_frame C r) = Inr f)"
  by (auto simp: dispatcher_read_frame_def read_async_frame_def Let_def not_le split: prod.splits sum.splits if_splits)

text \<open>
  C33. The blocking reader of the protocol crate never returns a frame on a 64-bit target. It turns
  the length it has read, by then a \<open>usize\<close>, back into eight bytes instead of four, so that
  \<open>decode_frame\<close> sees the length zero and rejects every frame with a length mismatch.
\<close>

theorem blocking_read_frame_never_succeeds:
  "fst (protocol_read_frame C r) \<noteq> Inr f \<and>
   (\<forall>bs rest. encode_frame C f = Inr bs \<and> rd_bytes r = bs @ rest \<longrightarrow>
      fst (protocol_read_frame C r) = Inl (Io InvalidData ''frame length mismatch''))"
proof -
  have *: "decode_frame C (to_be_bytes USIZE_BYTES n @ body) = Inl (Io InvalidData ''frame length mismatch'')"
    if "n \<le> MAX_FRAME_BYTES" for n body
    using take_usize_bytes [OF that] by (simp add: decode_frame_def USIZE_BYTES_def)
  have "fst (protocol_read_frame C r) \<noteq> Inr f"
    by (auto simp: protocol_read_frame_def Let_def * not_less split: prod.splits sum.splits if_splits)
  moreover have "fst (protocol_read_frame C r) = Inl (Io InvalidData ''frame length mismatch'')"
    if "encode_frame C f = Inr bs" "rd_bytes r = bs @ rest" for bs rest
  proof -
    from that obtain body where "length body \<le> MAX_FRAME_BYTES" "bs = to_be_bytes 4 (length body) @ body"
      by (auto simp: encode_frame_Inr)
    with that(2) * show ?thesis
      by (simp add: protocol_read_frame_def read_exact_def from_to_be_bytes_small)
  qed
  ultimately show ?thesis by blast
qed

theorem blocking_read_frame_never_succeeds_witness:
  "fst (protocol_read_frame tiny_cbor \<lparr>rd_bytes = [0, 0, 0, 1, 1], rd_fault = None\<rparr>) =
     Inl (Io InvalidData ''frame length mismatch'')"
proof -
  have "encode_frame tiny_cbor (v1 Heartbeat) = Inr [0, 0, 0, 1, 1]"
    by (simp add: encode_frame_def tiny_cbor_def v1_def MAX_FRAME_BYTES_def to_be_bytes_4)
  then show ?thesis
    using blocking_read_frame_never_succeeds [of tiny_cbor "\<lparr>rd_bytes = [0, 0, 0, 1, 1], rd_fault = None\<rparr>" "v1 Heartbeat"]
    by simp
qed

end
