(* ===== verification/Maq_Registry.thy ===== *)
theory Maq_Registry
  imports Complex_Main Maq_Protocol
begin

text \<open>
  The worker registry and the dispatcher on it (\<open>crates/dispatcher/src/lib.rs\<close>): slots and load,
  the choice of a worker, reservation, dispatch and release of permits, registration, the frames
  of a connected worker, draining and disconnection. The registry's lock makes every locked
  section one step; an operation that waits between two locked sections is two definitions, with
  what it waited for as an argument of the second. A hash map is a list of its entries in
  iteration order, which the Rust library leaves open; the results do not depend on it.
\<close>

section \<open>State\<close>

record OutboundFrame =
  of_frame :: WireFrame
  of_ack :: nat

text \<open>
  The unbounded channel to a worker's writer task: whether the task still receives, all frames
  sent so far and how many of them the task has taken.
\<close>

record Outbound =
  ob_open :: bool
  ob_sent :: "OutboundFrame list"
  ob_taken :: nat

definition ob_send :: "OutboundFrame \<Rightarrow> Outbound \<Rightarrow> bool \<times> Outbound" where
  "ob_send f ch = (if ob_open ch then (True, ch\<lparr>ob_sent := ob_sent ch @ [f]\<rparr>) else (False, ch))"

record WorkerState =
  ws_queue_name :: string
  ws_capacity_slots :: u32
  ws_running_jobs :: u32
  ws_free_slots :: u32
  ws_last_activity :: nat
  ws_reserved_slots :: u32
  ws_in_flight :: "string set"
  ws_draining :: bool
  ws_outbound :: Outbound

type_synonym Workers = "(Uuid \<times> WorkerState) list"

record WorkerRegistry =
  rg_workers :: Workers
  rg_events :: "WorkerEvent list"

definition WorkerRegistry_default :: WorkerRegistry where
  "WorkerRegistry_default = \<lparr>rg_workers = [], rg_events = []\<rparr>"

text \<open>\<open>get_mut\<close> followed by an assignment, \<open>remove\<close>, and \<open>insert\<close> of a key that is not there.\<close>

definition modify_worker :: "Uuid \<Rightarrow> (WorkerState \<Rightarrow> WorkerState) \<Rightarrow> Workers \<Rightarrow> Workers" where
  "modify_worker i f ws = map (\<lambda>(k, w). (k, if k = i then f w else w)) ws"

definition remove_worker :: "Uuid \<Rightarrow> Workers \<Rightarrow> Workers" where
  "remove_worker i ws = filter (\<lambda>(k, w). k \<noteq> i) ws"

datatype Permit = RegistryPermit Uuid | ForeignPermit

record ReservedDispatch =
  rsv_queue_name :: string
  rsv_permit :: Permit

section \<open>Slots and load\<close>

definition used_slots :: "WorkerState \<Rightarrow> u32" where
  "used_slots state =
     (let in_flight = (case u32_try_from (int (card (ws_in_flight state))) of Some n \<Rightarrow> n | None \<Rightarrow> u32_max)
      in u32_saturating_add (ws_reserved_slots state) (max (ws_running_jobs state) in_flight))"

definition available_slots :: "WorkerState \<Rightarrow> u32" where
  "available_slots state = u32_saturating_sub (ws_capacity_slots state) (used_slots state)"

datatype Ordering = Less | Equal | Greater

definition u64_cmp :: "u64 \<Rightarrow> u64 \<Rightarrow> Ordering" where
  "u64_cmp a b = (if a < b then Less else if a = b then Equal else Greater)"

definition compare_load :: "WorkerState \<Rightarrow> WorkerState \<Rightarrow> Ordering" where
  "compare_load left right =
     (let left_scaled = (ucast (used_slots left) :: u64) * ucast (max (ws_capacity_slots right) 1);
          right_scaled = (ucast (used_slots right) :: u64) * ucast (max (ws_capacity_slots left) 1)
      in u64_cmp left_scaled right_scaled)"

fun ideal_loop :: "string \<Rightarrow> (Uuid \<times> WorkerState) option \<Rightarrow> Workers \<Rightarrow> (Uuid \<times> WorkerState) option" where
  "ideal_loop q ideal [] = ideal"
| "ideal_loop q ideal ((i, worker) # rest) =
     (if \<not> ws_draining worker \<and> ws_queue_name worker = q \<and> 0 < available_slots worker then
        case ideal of
          None \<Rightarrow> ideal_loop q (Some (i, worker)) rest
        | Some (ci, current) \<Rightarrow>
            (case compare_load worker current of
               Less \<Rightarrow> ideal_loop q (Some (i, worker)) rest
             | Equal \<Rightarrow> ideal_loop q (if i < ci then Some (i, worker) else ideal) rest
             | Greater \<Rightarrow> ideal_loop q ideal rest)
      else ideal_loop q ideal rest)"

definition find_ideal_worker :: "Workers \<Rightarrow> QueueReservation \<Rightarrow> (Uuid \<times> WorkerState) option" where
  "find_ideal_worker ws request =
     (case ideal_loop (qres_queue_name request) None ws of
        None \<Rightarrow> None
      | Some (i, _) \<Rightarrow> map_option (\<lambda>st. (i, st)) (map_of ws i))"

section \<open>Permits\<close>

fun reserve_slots :: "QueueReservation \<Rightarrow> nat \<Rightarrow> Workers \<Rightarrow> ReservedDispatch list \<times> Workers" where
  "reserve_slots request 0 ws = ([], ws)"
| "reserve_slots request (Suc n) ws =
     (case find_ideal_worker ws request of
        None \<Rightarrow> ([], ws)
      | Some (i, _) \<Rightarrow>
          let ws1 = modify_worker i (\<lambda>st. st\<lparr>ws_reserved_slots := u32_saturating_add (ws_reserved_slots st) 1\<rparr>) ws;
              (ps, ws2) = reserve_slots request n ws1
          in (\<lparr>rsv_queue_name = qres_queue_name request, rsv_permit = RegistryPermit i\<rparr> # ps, ws2))"

fun reserve_queues :: "QueueReservation list \<Rightarrow> Workers \<Rightarrow> ReservedDispatch list \<times> Workers" where
  "reserve_queues [] ws = ([], ws)"
| "reserve_queues (request # queues) ws =
     (let (ps, ws1) = reserve_slots request (qres_count request) ws;
          (qs, ws2) = reserve_queues queues ws1
      in (ps @ qs, ws2))"

definition reserve :: "QueueReservation list \<Rightarrow> WorkerRegistry \<Rightarrow> (DispatchError + ReservedDispatch list) \<times> WorkerRegistry" where
  "reserve queues reg = (let (ps, ws) = reserve_queues queues (rg_workers reg) in (Inr ps, reg\<lparr>rg_workers := ws\<rparr>))"

definition release_permit :: "Uuid \<Rightarrow> WorkerRegistry \<Rightarrow> WorkerRegistry" where
  "release_permit i reg =
     reg\<lparr>rg_workers := modify_worker i (\<lambda>w. w\<lparr>ws_reserved_slots := u32_saturating_sub (ws_reserved_slots w) 1\<rparr>) (rg_workers reg)\<rparr>"

definition release_dispatched :: "Uuid \<Rightarrow> string \<Rightarrow> WorkerRegistry \<Rightarrow> WorkerRegistry" where
  "release_dispatched i d reg =
     reg\<lparr>rg_workers := modify_worker i (\<lambda>w. w\<lparr>ws_in_flight := ws_in_flight w - {d}\<rparr>) (rg_workers reg)\<rparr>"

definition release :: "ReservedDispatch \<Rightarrow> WorkerRegistry \<Rightarrow> WorkerRegistry" where
  "release permit reg =
     (case rsv_permit permit of RegistryPermit i \<Rightarrow> release_permit i reg | ForeignPermit \<Rightarrow> reg)"

text \<open>
  \<open>dispatch\<close> up to the end of its locked section: an early error, or the worker and the dispatch id
  it goes on with and whether the frame was queued. \<open>ack\<close> is the acknowledgement channel it makes.
\<close>

definition dispatch_start :: "ReservedDispatch \<Rightarrow> Job \<Rightarrow> nat \<Rightarrow> WorkerRegistry \<Rightarrow>
    (DispatchError + Uuid \<times> string \<times> bool) \<times> WorkerRegistry" where
  "dispatch_start permit job ack reg =
     (case rsv_permit permit of
        ForeignPermit \<Rightarrow> (Inl (DispatchInternal ''foreign dispatch permit''), reg)
      | RegistryPermit i \<Rightarrow>
          (case job_dispatch_id job of
             None \<Rightarrow> (Inl (DispatchInternal ''claimed job has no dispatch id''), reg)
           | Some d \<Rightarrow>
               let frame = v1 (JobDispatch (job_id job) d (job_execution_count job) (job_payload job)) in
               (case map_of (rg_workers reg) i of
                  None \<Rightarrow> (Inl (DispatchInternal ''reserved worker disappeared''), reg)
                | Some worker \<Rightarrow>
                    let worker1 = worker\<lparr>ws_reserved_slots := u32_saturating_sub (ws_reserved_slots worker) 1\<rparr> in
                    if ws_draining worker then
                      (Inl (DispatchInternal ''worker is draining''),
                       reg\<lparr>rg_workers := modify_worker i (\<lambda>_. worker1) (rg_workers reg)\<rparr>)
                    else if d \<in> ws_in_flight worker1 then
                      (Inl (DispatchInternal ''duplicate worker dispatch id''),
                       reg\<lparr>rg_workers := modify_worker i (\<lambda>_. worker1) (rg_workers reg)\<rparr>)
                    else
                      let worker2 = worker1\<lparr>ws_in_flight := insert d (ws_in_flight worker1)\<rparr>;
                          (queued, ch) = ob_send \<lparr>of_frame = frame, of_ack = ack\<rparr> (ws_outbound worker2);
                          worker3 = worker2\<lparr>ws_outbound := ch\<rparr>;
                          worker4 = (if queued then worker3 else worker3\<lparr>ws_in_flight := ws_in_flight worker3 - {d}\<rparr>)
                      in (Inr (i, d, queued), reg\<lparr>rg_workers := modify_worker i (\<lambda>_. worker4) (rg_workers reg)\<rparr>))))"

text \<open>What the acknowledgement channel delivered: the writer's result, or nothing when it stopped.\<close>

datatype Ack = AckOk | AckErr string | AckDropped

definition dispatch_finish :: "Uuid \<times> string \<times> bool \<Rightarrow> Ack \<Rightarrow> WorkerRegistry \<Rightarrow> (DispatchError + unit) \<times> WorkerRegistry" where
  "dispatch_finish sent ack reg =
     (let (i, d, queued) = sent; wrote = (queued \<and> ack = AckOk)
      in if \<not> wrote then (Inl (DispatchInternal ''worker dispatch write failed''), release_dispatched i d reg)
         else (Inr (), reg))"

text \<open>The whole of \<open>dispatch\<close>, with what the other tasks do to the registry while it waits.\<close>

definition dispatch :: "ReservedDispatch \<Rightarrow> Job \<Rightarrow> nat \<Rightarrow> (WorkerRegistry \<Rightarrow> WorkerRegistry) \<Rightarrow> Ack \<Rightarrow> WorkerRegistry \<Rightarrow>
    (DispatchError + unit) \<times> WorkerRegistry" where
  "dispatch permit job ack_id others ack reg =
     (case dispatch_start permit job ack_id reg of
        (Inl e, reg1) \<Rightarrow> (Inl e, reg1)
      | (Inr sent, reg1) \<Rightarrow> dispatch_finish sent ack (others reg1))"

section \<open>A worker's connection\<close>

definition record_worker_result :: "string \<Rightarrow> u32 \<Rightarrow> u32 \<Rightarrow> WorkerState \<Rightarrow> WorkerState" where
  "record_worker_result d running_jobs free_slots state =
     state\<lparr>ws_running_jobs := running_jobs, ws_free_slots := free_slots, ws_in_flight := ws_in_flight state - {d}\<rparr>"

definition begin_drain :: "nat \<Rightarrow> WorkerState \<Rightarrow> (string + unit) \<times> WorkerState" where
  "begin_drain ack state =
     (let state1 = state\<lparr>ws_draining := True, ws_free_slots := 0\<rparr>;
          (ok, ch) = ob_send \<lparr>of_frame = v1 Draining, of_ack = ack\<rparr> (ws_outbound state1)
      in (if ok then Inr () else Inl ''worker writer stopped during drain'', state1\<lparr>ws_outbound := ch\<rparr>))"

text \<open>
  \<open>handle_worker\<close> up to the end of the locked section that inserts the worker: the first frame as it was
  read (an error stands for a failed read or the 15 second timeout), the frames written to the
  connection directly, and the worker's id and queue when it goes on. \<open>io\<close> is the outcome of the
  direct write.
\<close>

definition handle_register :: "string set \<Rightarrow> nat \<Rightarrow> (string + unit) \<Rightarrow> string + WireFrame \<Rightarrow> WorkerRegistry \<Rightarrow>
    (string + Uuid \<times> string) \<times> WireFrame list \<times> WorkerRegistry" where
  "handle_register allowed now io register reg =
     (case register of
        Inl e \<Rightarrow> (Inl e, [], reg)
      | Inr frame \<Rightarrow>
          (case payload frame of
             Register instance_id queue_name running_jobs free_slots \<Rightarrow>
               if queue_name = [] \<or> queue_name \<notin> allowed then
                 let err = v1 (ErrorMsg ''unknown_queue'' ''registration contains an unknown queue'')
                 in (case io of Inl e \<Rightarrow> (Inl e, [], reg) | Inr _ \<Rightarrow> (Inl ''unknown queue'', [err], reg))
               else if map_of (rg_workers reg) instance_id \<noteq> None then (Inl ''duplicate worker instance'', [], reg)
               else
                 let outbound = \<lparr>ob_open = True, ob_sent = [], ob_taken = 0\<rparr>;
                     state = \<lparr>ws_queue_name = queue_name, ws_capacity_slots = u32_saturating_add running_jobs free_slots,
                              ws_running_jobs = running_jobs, ws_free_slots = free_slots, ws_last_activity = now,
                              ws_reserved_slots = 0, ws_in_flight = {}, ws_draining = False, ws_outbound = outbound\<rparr>
                 in (Inr (instance_id, queue_name), [], reg\<lparr>rg_workers := rg_workers reg @ [(instance_id, state)]\<rparr>)
           | _ \<Rightarrow> (Inl ''first worker frame must register'', [], reg)))"

text \<open>
  The \<open>Registered\<close> frame is sent after the lock is released; the task that runs \<open>handle_worker\<close>
  is the only one that removes the entry.
\<close>

definition register_send :: "Uuid \<Rightarrow> string \<Rightarrow> nat \<Rightarrow> WorkerRegistry \<Rightarrow> (string + unit) \<times> WorkerRegistry" where
  "register_send i queue_name ack reg =
     (case map_of (rg_workers reg) i of
        None \<Rightarrow> (Inr (), reg)
      | Some state \<Rightarrow>
          let (ok, ch) = ob_send \<lparr>of_frame = v1 (Registered queue_name), of_ack = ack\<rparr> (ws_outbound state)
          in (if ok then Inr () else Inl ''worker writer stopped during registration'',
              reg\<lparr>rg_workers := modify_worker i (\<lambda>_. state\<lparr>ws_outbound := ch\<rparr>) (rg_workers reg)\<rparr>))"

text \<open>The acknowledgement of the \<open>Registered\<close> frame: \<open>ack_rx.await??\<close>, then the event.\<close>

definition register_acked :: "Ack \<Rightarrow> string \<Rightarrow> WorkerRegistry \<Rightarrow> (string + unit) \<times> WorkerRegistry" where
  "register_acked ack queue_name reg =
     (case ack of
        AckDropped \<Rightarrow> (Inl ''channel closed'', reg)
      | AckErr e \<Rightarrow> (Inl e, reg)
      | AckOk \<Rightarrow> (Inr (), reg\<lparr>rg_events := rg_events reg @ [EvRegistered queue_name]\<rparr>))"

fun outcome_of :: "JobResult \<Rightarrow> JobOutcome" where
  "outcome_of (ResultSucceeded p) = Succeeded p"
| "outcome_of (ResultFailed m) = OutcomeFailed m"

text \<open>One turn of the loop of \<open>handle_worker\<close>: a frame read from the worker.\<close>

definition handle_frame :: "nat \<Rightarrow> nat \<Rightarrow> Uuid \<Rightarrow> WireFrame \<Rightarrow> WorkerRegistry \<Rightarrow> (string + unit) \<times> WorkerRegistry" where
  "handle_frame now ack i frame reg =
     (case map_of (rg_workers reg) i of
        None \<Rightarrow> (Inl ''worker disappeared'', reg)
      | Some state0 \<Rightarrow>
          let state = state0\<lparr>ws_last_activity := now\<rparr>;
              put = (\<lambda>s. reg\<lparr>rg_workers := modify_worker i (\<lambda>_. s) (rg_workers reg)\<rparr>) in
          (case payload frame of
             JobResultMsg j d result running_jobs free_slots \<Rightarrow>
               (let event = EvResult (ws_queue_name state) \<lparr>wr_job_id = j, wr_dispatch_id = d, wr_outcome = outcome_of result\<rparr>;
                    reg1 = put (record_worker_result d running_jobs free_slots state)
                in (Inr (), reg1\<lparr>rg_events := rg_events reg1 @ [event]\<rparr>))
           | Drain \<Rightarrow> (let (r, state1) = begin_drain ack state in (r, put state1))
           | Heartbeat \<Rightarrow> (Inr (), put state)
           | _ \<Rightarrow> (Inl ''invalid post-registration worker frame'', put state)))"

text \<open>The end of \<open>handle_worker\<close>: the worker is removed whatever ended the loop.\<close>

definition handle_disconnect :: "Uuid \<Rightarrow> WorkerRegistry \<Rightarrow> WorkerRegistry" where
  "handle_disconnect i reg = reg\<lparr>rg_workers := remove_worker i (rg_workers reg)\<rparr>"

text \<open>
  The loop on the frames a worker sends, until the first error (or the end of the given frames, when
  the connection is still up), with the removal after it.
\<close>

fun worker_loop :: "Uuid \<Rightarrow> (nat \<times> nat \<times> (string + WireFrame)) list \<Rightarrow> WorkerRegistry \<Rightarrow> string option \<times> WorkerRegistry" where
  "worker_loop i [] reg = (None, reg)"
| "worker_loop i ((now, ack, Inl e) # rest) reg = (Some e, handle_disconnect i reg)"
| "worker_loop i ((now, ack, Inr frame) # rest) reg =
     (case handle_frame now ack i frame reg of
        (Inl e, reg1) \<Rightarrow> (Some e, handle_disconnect i reg1)
      | (Inr _, reg1) \<Rightarrow> worker_loop i rest reg1)"

text \<open>The writer task of a worker takes the next frame; when the write fails it stops receiving.\<close>

definition writer_step :: "Cbor \<Rightarrow> Uuid \<Rightarrow> Writer \<Rightarrow> WorkerRegistry \<Rightarrow> (nat \<times> Ack) option \<times> Writer \<times> WorkerRegistry" where
  "writer_step C i w reg =
     (case map_of (rg_workers reg) i of
        None \<Rightarrow> (None, w, reg)
      | Some state \<Rightarrow>
          let ch = ws_outbound state in
          if \<not> ob_open ch \<or> length (ob_sent ch) \<le> ob_taken ch then (None, w, reg)
          else
            let f = ob_sent ch ! ob_taken ch; (r, w1) = dispatcher_write_frame C (of_frame f) w;
                ack = (case r of Inl e \<Rightarrow> AckErr e | Inr _ \<Rightarrow> AckOk);
                ch1 = ch\<lparr>ob_taken := Suc (ob_taken ch), ob_open := (ack = AckOk)\<rparr>
            in (Some (of_ack f, ack), w1,
                reg\<lparr>rg_workers := modify_worker i (\<lambda>_. state\<lparr>ws_outbound := ch1\<rparr>) (rg_workers reg)\<rparr>))"

section \<open>Entries\<close>

abbreviation wkeys :: "Workers \<Rightarrow> Uuid list" where
  "wkeys ws \<equiv> map fst ws"

lemma wkeys_modify [simp]: "wkeys (modify_worker i f ws) = wkeys ws"
  by (simp add: modify_worker_def comp_def case_prod_beta)

lemma map_of_modify [simp]:
  "map_of (modify_worker i f ws) k = (if k = i then map_option f (map_of ws k) else map_of ws k)"
  by (induction ws) (auto simp: modify_worker_def)

lemma map_of_remove [simp]: "map_of (remove_worker i ws) k = (if k = i then None else map_of ws k)"
  by (induction ws) (auto simp: remove_worker_def)

lemma distinct_remove: "distinct (wkeys ws) \<Longrightarrow> distinct (wkeys (remove_worker i ws))"
  unfolding remove_worker_def by (rule distinct_map_filter)

lemma modify_worker_cong: "(\<And>w. map_of ws i = Some w \<Longrightarrow> f w = g w) \<Longrightarrow> distinct (wkeys ws) \<Longrightarrow>
    modify_worker i f ws = modify_worker i g ws"
  by (auto simp: modify_worker_def map_of_eq_Some_iff)

section \<open>Slots\<close>

lemma unat_u32_le: "unat (w :: u32) \<le> 4294967295"
  using unat_u32_lt [of w] by linarith

definition in_flight_count :: "WorkerState \<Rightarrow> nat" where
  "in_flight_count w = min 4294967295 (card (ws_in_flight w))"

lemma unat_used_slots [maq_num]:
  "unat (used_slots w) = min 4294967295 (unat (ws_reserved_slots w) + max (unat (ws_running_jobs w)) (in_flight_count w))"
proof -
  let ?c = "card (ws_in_flight w)"
  have "unat (case u32_try_from (int ?c) of Some n \<Rightarrow> n | None \<Rightarrow> u32_max) = in_flight_count w"
  proof (cases "u32_try_from (int ?c)")
    case None
    then show ?thesis by (auto simp: u32_try_from_def in_flight_count_def split: if_splits)
  next
    case (Some n)
    then have "unat n = ?c" using uint_u32_try_from [OF Some] by (metis nat_int nat_uint_eq)
    then show ?thesis using Some unat_u32_le [of n] by (simp add: in_flight_count_def)
  qed
  then show ?thesis by (simp add: used_slots_def maq_num)
qed

lemma unat_available_slots [maq_num]:
  "unat (available_slots w) = unat (ws_capacity_slots w) - unat (used_slots w)"
  by (simp add: available_slots_def maq_num)

lemma available_pos_iff: "0 < available_slots w \<longleftrightarrow> unat (used_slots w) < unat (ws_capacity_slots w)"
  by (metis unat_available_slots unat_gt_0 unsigned_0 word_neq_0_conv zero_less_diff)

text \<open>Taking one slot of a worker that has one is exact: nothing saturates.\<close>

definition take_slot :: "WorkerState \<Rightarrow> WorkerState" where
  "take_slot w = w\<lparr>ws_reserved_slots := u32_saturating_add (ws_reserved_slots w) 1\<rparr>"

lemma take_slot_sel [simp]:
  "ws_queue_name (take_slot w) = ws_queue_name w" "ws_draining (take_slot w) = ws_draining w"
  "ws_capacity_slots (take_slot w) = ws_capacity_slots w" "ws_outbound (take_slot w) = ws_outbound w"
  "ws_in_flight (take_slot w) = ws_in_flight w"
  by (simp_all add: take_slot_def)

lemma take_slot_exact:
  assumes "0 < available_slots w"
  shows "unat (ws_reserved_slots (take_slot w)) = Suc (unat (ws_reserved_slots w))"
    and "unat (used_slots (take_slot w)) = Suc (unat (used_slots w))"
    and "unat (available_slots (take_slot w)) = unat (available_slots w) - 1"
    and "unat (used_slots (take_slot w)) \<le> unat (ws_capacity_slots w)"
proof -
  have lt: "unat (used_slots w) < unat (ws_capacity_slots w)" using assms by (simp add: available_pos_iff)
  have cap: "unat (ws_capacity_slots w) < 4294967296" by simp
  have "unat (ws_reserved_slots w) \<le> unat (used_slots w)"
    using unat_u32_le [of "ws_reserved_slots w"] by (auto simp: maq_num)
  with lt cap have "Suc (unat (ws_reserved_slots w)) \<le> 4294967295" by linarith
  then show r: "unat (ws_reserved_slots (take_slot w)) = Suc (unat (ws_reserved_slots w))"
    by (simp add: take_slot_def unat_u32_saturating_add)
  define m where "m = max (unat (ws_running_jobs w)) (in_flight_count w)"
  have "unat (used_slots (take_slot w)) = min 4294967295 (Suc (unat (ws_reserved_slots w)) + m)"
    using r by (simp add: unat_used_slots in_flight_count_def m_def) (simp add: take_slot_def)
  moreover have used: "unat (used_slots w) = min 4294967295 (unat (ws_reserved_slots w) + m)"
    by (simp add: unat_used_slots m_def)
  ultimately show u: "unat (used_slots (take_slot w)) = Suc (unat (used_slots w))"
    using lt cap by linarith
  show "unat (available_slots (take_slot w)) = unat (available_slots w) - 1"
    using u by (simp add: unat_available_slots)
  show "unat (used_slots (take_slot w)) \<le> unat (ws_capacity_slots w)" using u lt by simp
qed

section \<open>Load\<close>

text \<open>The load of a worker as a fraction; the 64-bit products of the comparison are exact.\<close>

definition load :: "WorkerState \<Rightarrow> rat" where
  "load w = of_nat (unat (used_slots w)) / of_nat (max (unat (ws_capacity_slots w)) 1)"

lemma u32_product_exact: "unat ((ucast (a :: u32) :: u64) * ucast (b :: u32)) = unat a * unat b"
proof -
  have "unat a * unat b \<le> 4294967295 * 4294967295"
    by (intro mult_mono unat_u32_le) simp_all
  then have "unat a * unat b < 2 ^ 64" by simp
  moreover have "unat (ucast a :: u64) = unat a" "unat (ucast b :: u64) = unat b"
    by (simp_all add: unsigned_ucast_eq take_bit_nat_eq_self_iff unat_u32_le [THEN le_less_trans])
  ultimately show ?thesis by (simp add: unat_word_ariths)
qed

lemma compare_load_exact:
  "compare_load l r = (if load l < load r then Less else if load l = load r then Equal else Greater)"
proof -
  have m: "unat (max c 1 :: u32) = max (unat c) 1" for c by (simp add: maq_num)
  have pos: "(0 :: rat) < of_nat (max (unat c) 1)" for c :: u32 by simp
  have lt: "load l < load r \<longleftrightarrow>
      unat (used_slots l) * max (unat (ws_capacity_slots r)) 1 < unat (used_slots r) * max (unat (ws_capacity_slots l)) 1"
    unfolding load_def
    by (subst pos_divide_less_eq [OF pos], simp only: times_divide_eq_left, subst pos_less_divide_eq [OF pos])
       (simp only: of_nat_mult [symmetric] of_nat_less_iff)
  have eq: "load l = load r \<longleftrightarrow>
      unat (used_slots l) * max (unat (ws_capacity_slots r)) 1 = unat (used_slots r) * max (unat (ws_capacity_slots l)) 1"
    unfolding load_def frac_eq_eq [OF less_imp_neq [OF pos, symmetric] less_imp_neq [OF pos, symmetric]]
    by (simp only: of_nat_mult [symmetric] of_nat_eq_iff)
  show ?thesis
    unfolding compare_load_def u64_cmp_def Let_def word_less_nat_alt word_unat_eq_iff u32_product_exact m lt eq by simp
qed

section \<open>The choice of a worker\<close>

definition eligible :: "string \<Rightarrow> WorkerState \<Rightarrow> bool" where
  "eligible q w \<longleftrightarrow> \<not> ws_draining w \<and> ws_queue_name w = q \<and> 0 < available_slots w"

text \<open>Workers are ranked by load, ties by id.\<close>

definition before :: "Uuid \<times> WorkerState \<Rightarrow> Uuid \<times> WorkerState \<Rightarrow> bool" where
  "before x y \<longleftrightarrow> load (snd x) < load (snd y) \<or> load (snd x) = load (snd y) \<and> fst x < fst y"

lemma before_trans: "before x y \<Longrightarrow> before y z \<Longrightarrow> before x z"
  by (auto simp: before_def)

lemma not_before_trans: "\<not> before x y \<Longrightarrow> \<not> before y z \<Longrightarrow> \<not> before x z"
  by (auto simp: before_def)

lemma ideal_loop_step:
  "ideal_loop q ideal ((i, w) # rest) =
     ideal_loop q (if eligible q w \<and> (case ideal of None \<Rightarrow> True | Some c \<Rightarrow> before (i, w) c)
                   then Some (i, w) else ideal) rest"
  by (auto simp: eligible_def before_def compare_load_exact split: option.splits)

declare ideal_loop.simps(2) [simp del]

lemma ideal_loop_None: "ideal_loop q ideal ws = None \<longleftrightarrow> ideal = None \<and> (\<forall>x\<in>set ws. \<not> eligible q (snd x))"
proof (induction ws arbitrary: ideal)
  case (Cons y ws)
  obtain i w where y: "y = (i, w)" by (cases y)
  show ?case by (cases ideal) (simp_all add: y ideal_loop_step Cons.IH)
qed simp

lemma ideal_loop_Some:
  assumes "ideal_loop q ideal ws = Some x"
  shows "(ideal = Some x \<or> x \<in> set ws \<and> eligible q (snd x)) \<and>
    (\<forall>y\<in>set ws. eligible q (snd y) \<longrightarrow> \<not> before y x) \<and> (\<forall>c. ideal = Some c \<longrightarrow> \<not> before c x)"
  using assms
proof (induction ws arbitrary: ideal)
  case Nil
  then show ?case by (auto simp: before_def)
next
  case (Cons y ws)
  obtain i w where y: "y = (i, w)" by (cases y)
  let ?ideal = "if eligible q w \<and> (case ideal of None \<Rightarrow> True | Some c \<Rightarrow> before (i, w) c) then Some (i, w) else ideal"
  from Cons.prems have "ideal_loop q ?ideal ws = Some x" by (simp add: y ideal_loop_step)
  from Cons.IH [OF this] show ?case
  proof (elim conjE, intro conjI)
    assume d: "?ideal = Some x \<or> x \<in> set ws \<and> eligible q (snd x)"
      and m: "\<forall>y\<in>set ws. eligible q (snd y) \<longrightarrow> \<not> before y x" and c: "\<forall>c. ?ideal = Some c \<longrightarrow> \<not> before c x"
    show "ideal = Some x \<or> x \<in> set (y # ws) \<and> eligible q (snd x)" using d y by (auto split: if_splits)
    show "\<forall>c. ideal = Some c \<longrightarrow> \<not> before c x"
      using c by (auto split: if_splits dest: before_trans)
    have "\<not> before (i, w) x" if "eligible q w"
    proof (cases "case ideal of None \<Rightarrow> True | Some c \<Rightarrow> before (i, w) c")
      case True
      then show ?thesis using c that by simp
    next
      case False
      then obtain k where "ideal = Some k" "\<not> before (i, w) k" by (auto split: option.splits)
      with c False have "\<not> before k x" by simp
      with \<open>\<not> before (i, w) k\<close> show ?thesis by (rule not_before_trans)
    qed
    with m y show "\<forall>z\<in>set (y # ws). eligible q (snd z) \<longrightarrow> \<not> before z x" by simp
  qed
qed

lemma find_ideal_worker_eq:
  assumes "distinct (wkeys ws)"
  shows "find_ideal_worker ws r = ideal_loop (qres_queue_name r) None ws"
proof (cases "ideal_loop (qres_queue_name r) None ws")
  case None
  then show ?thesis by (simp add: find_ideal_worker_def)
next
  case (Some x)
  from ideal_loop_Some [OF Some] have "x \<in> set ws" by simp
  then have "map_of ws (fst x) = Some (snd x)" using assms by (simp add: map_of_eq_Some_iff)
  with Some show ?thesis by (cases x) (simp add: find_ideal_worker_def)
qed

lemma find_ideal_worker_Some:
  assumes d: "distinct (wkeys ws)"
  shows "find_ideal_worker ws r = Some x \<longleftrightarrow>
     x \<in> set ws \<and> eligible (qres_queue_name r) (snd x) \<and>
     (\<forall>y\<in>set ws. eligible (qres_queue_name r) (snd y) \<and> y \<noteq> x \<longrightarrow> before x y)"
  (is "?L \<longleftrightarrow> ?R x")
proof
  have ids: "y = z" if "y \<in> set ws" "z \<in> set ws" "fst y = fst z" for y z
    using d that by (metis distinct_map inj_on_def)
  have tot: "before x y" if "x \<in> set ws" "y \<in> set ws" "y \<noteq> x" "\<not> before y x" for x y
    using ids [OF that(2,1)] that(3,4) by (auto simp: before_def not_less_iff_gr_or_eq)
  {
    assume ?L
    then have "ideal_loop (qres_queue_name r) None ws = Some x" by (simp add: find_ideal_worker_eq [OF d])
    from ideal_loop_Some [OF this] show "?R x" using tot by simp
  }
  assume x: "?R x"
  then have "ideal_loop (qres_queue_name r) None ws \<noteq> None" by (auto simp: ideal_loop_None)
  then obtain z where z: "ideal_loop (qres_queue_name r) None ws = Some z" by auto
  from ideal_loop_Some [OF z] have "z = x" using x by blast
  with z show ?L by (simp add: find_ideal_worker_eq [OF d])
qed

lemma find_ideal_worker_None:
  assumes "distinct (wkeys ws)"
  shows "find_ideal_worker ws r = None \<longleftrightarrow> (\<forall>x\<in>set ws. \<not> eligible (qres_queue_name r) (snd x))"
  by (simp add: find_ideal_worker_eq [OF assms] ideal_loop_None)

section \<open>Reservation\<close>

definition granted :: "Uuid \<Rightarrow> ReservedDispatch list \<Rightarrow> nat" where
  "granted i ps = length (filter (\<lambda>p. rsv_permit p = RegistryPermit i) ps)"

definition free_in :: "string \<Rightarrow> Workers \<Rightarrow> nat" where
  "free_in q ws = sum_list (map (\<lambda>(i, w). if eligible q w then unat (available_slots w) else 0) ws)"

text \<open>
  What a reservation does to one worker: only the number of reserved slots changes, by the permits
  granted on it, of which there are no more than it had slots available.
\<close>

definition slots_taken :: "nat \<Rightarrow> WorkerState \<Rightarrow> WorkerState \<Rightarrow> bool" where
  "slots_taken n w w' \<longleftrightarrow>
     w' = w\<lparr>ws_reserved_slots := ws_reserved_slots w'\<rparr> \<and> n \<le> unat (available_slots w) \<and>
     unat (ws_reserved_slots w') = unat (ws_reserved_slots w) + n \<and>
     unat (available_slots w') = unat (available_slots w) - n \<and>
     (0 < n \<longrightarrow> \<not> ws_draining w \<and> unat (used_slots w') \<le> unat (ws_capacity_slots w))"

lemma slots_taken_0 [simp]: "slots_taken 0 w w' \<longleftrightarrow> w' = w"
proof
  assume "slots_taken 0 w w'"
  then have "w' = w\<lparr>ws_reserved_slots := ws_reserved_slots w'\<rparr>" "ws_reserved_slots w' = ws_reserved_slots w"
    by (simp_all add: slots_taken_def word_unat_eq_iff)
  then show "w' = w" by simp
qed (simp add: slots_taken_def)

lemma slots_taken_1: "eligible q w \<Longrightarrow> slots_taken 1 w (take_slot w)"
  using take_slot_exact [of w] by (simp add: slots_taken_def eligible_def Suc_le_eq unat_gt_0 take_slot_def word_neq_0_conv)

lemma slots_taken_sel:
  assumes "slots_taken n w w'"
  shows "ws_queue_name w' = ws_queue_name w" "ws_draining w' = ws_draining w"
    "ws_capacity_slots w' = ws_capacity_slots w" "ws_outbound w' = ws_outbound w" "ws_in_flight w' = ws_in_flight w"
proof -
  have "w' = w\<lparr>ws_reserved_slots := ws_reserved_slots w'\<rparr>" using assms by (simp add: slots_taken_def)
  then obtain k where "w' = w\<lparr>ws_reserved_slots := k\<rparr>" by blast
  then show "ws_queue_name w' = ws_queue_name w" "ws_draining w' = ws_draining w"
    "ws_capacity_slots w' = ws_capacity_slots w" "ws_outbound w' = ws_outbound w" "ws_in_flight w' = ws_in_flight w" by simp_all
qed

lemma slots_taken_trans:
  assumes a: "slots_taken m w w1" and b: "slots_taken n w1 w2"
  shows "slots_taken (m + n) w w2"
proof -
  have "w2 = w\<lparr>ws_reserved_slots := ws_reserved_slots w2\<rparr>"
    using a b unfolding slots_taken_def
    by (metis (no_types, lifting) WorkerState.surjective WorkerState.update_convs(6))
  show ?thesis
  proof (cases "n = 0")
    case True
    then show ?thesis using a b by simp
  next
    case False
    have "m \<le> unat (available_slots w)" "n \<le> unat (available_slots w) - m" using a b by (simp_all add: slots_taken_def)
    then have "m + n \<le> unat (available_slots w)" by linarith
    with False a b slots_taken_sel [OF a] \<open>w2 = _\<close> show ?thesis
      by (simp add: slots_taken_def)
  qed
qed

text \<open>Both lists have the same workers, each with the slots its permits take.\<close>

definition reserved_by :: "ReservedDispatch list \<Rightarrow> Workers \<Rightarrow> Workers \<Rightarrow> bool" where
  "reserved_by ps ws ws' \<longleftrightarrow>
     list_all2 (\<lambda>(i, w) (i', w'). i' = i \<and> slots_taken (granted i ps) w w') ws ws'"

lemma reserved_by_Nil [simp]: "reserved_by [] ws ws' \<longleftrightarrow> ws' = ws"
proof -
  have "list_all2 (\<lambda>(i, w) (i', w'). i' = i \<and> w' = w) ws ws' \<longleftrightarrow> ws' = ws"
    by (induction ws arbitrary: ws') (auto simp: list_all2_Cons1)
  then show ?thesis by (simp add: reserved_by_def granted_def)
qed

lemma reserved_by_keys: "reserved_by ps ws ws' \<Longrightarrow> wkeys ws' = wkeys ws"
  unfolding reserved_by_def by (induction rule: list_all2_induct) auto

lemma reserved_by_trans:
  assumes "reserved_by ps ws ws1" and "reserved_by qs ws1 ws2"
  shows "reserved_by (ps @ qs) ws ws2"
proof -
  let ?R = "\<lambda>ps (i, w) (i', w'). i' = i \<and> slots_taken (granted i ps) w w'"
  have step: "?R (ps @ qs) x z" if "?R ps x y" "?R qs y z" for x y z :: "Uuid \<times> WorkerState"
    using that slots_taken_trans by (force simp: granted_def)
  show ?thesis using list_all2_trans [OF step assms [unfolded reserved_by_def]] by (simp only: reserved_by_def)
qed

lemma granted_simps [simp]:
  "granted i [] = 0"
  "granted i (p # ps) = (if rsv_permit p = RegistryPermit i then Suc (granted i ps) else granted i ps)"
  by (simp_all add: granted_def)

lemma take_slot_reserved_by:
  assumes d: "distinct (wkeys ws)" and x: "(i, w) \<in> set ws" "eligible q w" and p: "rsv_permit p = RegistryPermit i"
  shows "reserved_by [p] ws (modify_worker i take_slot ws)"
    and "Suc (free_in q (modify_worker i take_slot ws)) = free_in q ws"
proof -
  have "list_all2 (\<lambda>(k, v) (k', v'). k' = k \<and> slots_taken (granted k [p]) v v') ws (modify_worker i take_slot ws) \<and>
     Suc (free_in q (modify_worker i take_slot ws)) = free_in q ws"
    using d x(1)
  proof (induction ws)
    case (Cons y ws)
    show ?case
    proof (cases "fst y = i")
      case True
      with Cons.prems have y: "y = (i, w)" by (auto simp: rev_image_eqI)
      with Cons.prems have "modify_worker i take_slot ws = ws"
        by (auto simp: modify_worker_def rev_image_eqI intro!: map_idI)
      moreover have "list_all2 (\<lambda>(k, v) (k', v'). k' = k \<and> slots_taken (granted k [p]) v v') ws ws"
        using Cons.prems y p by (auto intro!: list.rel_refl_strong simp: rev_image_eqI)
      moreover have "slots_taken 1 w (take_slot w)" using slots_taken_1 [OF x(2)] .
      moreover have "Suc (unat (available_slots (take_slot w))) = unat (available_slots w)"
        using take_slot_exact(3) [of w] x(2) by (simp add: eligible_def unat_gt_0 word_neq_0_conv)
      moreover have "eligible q (take_slot w) \<or> unat (available_slots (take_slot w)) = 0"
        using x(2) by (auto simp: eligible_def unat_eq_0 word_neq_0_conv)
      ultimately show ?thesis
        using y p x(2) by (auto simp: modify_worker_def free_in_def)
    next
      case False
      with Cons have "list_all2 (\<lambda>(k, v) (k', v'). k' = k \<and> slots_taken (granted k [p]) v v') ws (modify_worker i take_slot ws) \<and>
         Suc (free_in q (modify_worker i take_slot ws)) = free_in q ws" by auto
      with False p show ?thesis by (cases y) (simp add: modify_worker_def free_in_def)
    qed
  qed simp
  then show "reserved_by [p] ws (modify_worker i take_slot ws)"
    and "Suc (free_in q (modify_worker i take_slot ws)) = free_in q ws" by (simp_all add: reserved_by_def)
qed

lemma reserve_slots_ok:
  assumes "distinct (wkeys ws)" and "reserve_slots r n ws = (ps, ws')"
  shows "length ps = min n (free_in (qres_queue_name r) ws) \<and> reserved_by ps ws ws' \<and>
    (\<forall>p\<in>set ps. rsv_queue_name p = qres_queue_name r \<and>
       (\<exists>i w. rsv_permit p = RegistryPermit i \<and> map_of ws i = Some w \<and> ws_queue_name w = qres_queue_name r))"
  using assms
proof (induction n arbitrary: ws ps)
  case (Suc n)
  let ?q = "qres_queue_name r"
  show ?case
  proof (cases "find_ideal_worker ws r")
    case None
    then have "free_in ?q ws = 0"
      using Suc.prems(1) by (auto simp: find_ideal_worker_None free_in_def)
    with None Suc.prems show ?thesis by simp
  next
    case (Some x)
    obtain i w where x: "x = (i, w)" by (cases x)
    from Some Suc.prems(1) have iw: "(i, w) \<in> set ws" "eligible ?q w" by (simp_all add: find_ideal_worker_Some x)
    let ?ws1 = "modify_worker i take_slot ws"
    obtain qs where qs: "reserve_slots r n ?ws1 = (qs, ws')" "ps = \<lparr>rsv_queue_name = ?q, rsv_permit = RegistryPermit i\<rparr> # qs"
      using Suc.prems(2) Some x by (auto simp: take_slot_def [abs_def] Let_def split: prod.splits)
    let ?p = "\<lparr>rsv_queue_name = ?q, rsv_permit = RegistryPermit i\<rparr>"
    from take_slot_reserved_by [OF Suc.prems(1) iw, of ?p]
    have one: "reserved_by [?p] ws ?ws1" "Suc (free_in ?q ?ws1) = free_in ?q ws" by simp_all
    have "distinct (wkeys ?ws1)" using Suc.prems(1) by simp
    from Suc.IH [OF this qs(1)] have IH: "length qs = min n (free_in ?q ?ws1)" "reserved_by qs ?ws1 ws'"
      "\<forall>p\<in>set qs. rsv_queue_name p = ?q \<and>
       (\<exists>i w. rsv_permit p = RegistryPermit i \<and> map_of ?ws1 i = Some w \<and> ws_queue_name w = ?q)" by simp_all
    have "map_of ws i = Some w" using Suc.prems(1) iw(1) by simp
    moreover have "ws_queue_name w = ?q" using iw(2) by (simp add: eligible_def)
    moreover have "\<exists>i w. rsv_permit p = RegistryPermit i \<and> map_of ws i = Some w \<and> ws_queue_name w = ?q"
      if "p \<in> set qs" for p
    proof -
      from IH(3) that obtain k v where "rsv_permit p = RegistryPermit k" "map_of ?ws1 k = Some v" "ws_queue_name v = ?q" by blast
      then show ?thesis by (auto split: if_splits)
    qed
    ultimately show ?thesis
      using IH one qs(2) reserved_by_trans [OF one(1) IH(2)] by auto
  qed
qed simp

lemma free_in_other:
  assumes d: "distinct (wkeys ws)" and r: "reserved_by ps ws ws'" and "q \<noteq> q'"
    and own: "\<forall>p\<in>set ps. \<exists>i w. rsv_permit p = RegistryPermit i \<and> map_of ws i = Some w \<and> ws_queue_name w = q'"
  shows "free_in q ws' = free_in q ws"
proof -
  let ?f = "\<lambda>(i, w). if eligible q w then unat (available_slots w) else 0"
  have "list_all2 (\<lambda>x x'. ?f x' = ?f x) ws ws'"
  proof (rule list.rel_mono_strong [OF r [unfolded reserved_by_def]])
    fix x x' assume x: "x \<in> set ws" and "(\<lambda>(i, w) (i', w'). i' = i \<and> slots_taken (granted i ps) w w') x x'"
    then obtain i w w' where iw: "x = (i, w)" "x' = (i, w')" "slots_taken (granted i ps) w w'" by auto
    show "?f x' = ?f x"
    proof (cases "ws_queue_name w = q")
      case True
      have "map_of ws i = Some w" using d x iw(1) by simp
      then have "rsv_permit p \<noteq> RegistryPermit i" if "p \<in> set ps" for p
        using own that True \<open>q \<noteq> q'\<close> by (metis Permit.inject option.inject)
      then have "granted i ps = 0" by (simp add: granted_def filter_empty_conv)
      with iw show ?thesis by simp
    next
      case False
      with iw slots_taken_sel [OF iw(3)] show ?thesis by (simp add: eligible_def)
    qed
  qed
  then have "map ?f ws' = map ?f ws"
    by (induction rule: list_all2_induct) simp_all
  then show ?thesis by (simp add: free_in_def)
qed

lemma reserve_queues_ok:
  assumes "distinct (wkeys ws)" and "distinct (map qres_queue_name queues)" and "reserve_queues queues ws = (ps, ws')"
  shows "reserved_by ps ws ws' \<and> rsv_queue_name ` set ps \<subseteq> qres_queue_name ` set queues \<and>
    (\<forall>r\<in>set queues. length (filter (\<lambda>p. rsv_queue_name p = qres_queue_name r) ps) =
        min (qres_count r) (free_in (qres_queue_name r) ws))"
  using assms
proof (induction queues arbitrary: ws ps)
  case (Cons r queues)
  obtain ps1 ws1 where one: "reserve_slots r (qres_count r) ws = (ps1, ws1)" by fastforce
  obtain ps2 where two: "reserve_queues queues ws1 = (ps2, ws')" "ps = ps1 @ ps2"
    using Cons.prems(3) one by (auto split: prod.splits)
  note ok = reserve_slots_ok [OF Cons.prems(1) one]
  have keys: "distinct (wkeys ws1)" using ok reserved_by_keys [of ps1 ws ws1] Cons.prems(1) by simp
  from Cons.IH [OF keys _ two(1)] Cons.prems(2)
  have IH: "reserved_by ps2 ws1 ws'" "rsv_queue_name ` set ps2 \<subseteq> qres_queue_name ` set queues"
    "\<forall>r\<in>set queues. length (filter (\<lambda>p. rsv_queue_name p = qres_queue_name r) ps2) =
        min (qres_count r) (free_in (qres_queue_name r) ws1)" by simp_all
  have q1: "rsv_queue_name p = qres_queue_name r" if "p \<in> set ps1" for p using ok that by blast
  have "rsv_queue_name p \<noteq> qres_queue_name r" if "p \<in> set ps2" for p
    using IH(2) Cons.prems(2) that by (metis distinct.simps(2) image_eqI list.set_map list.simps(9) subsetD)
  then have "filter (\<lambda>p. rsv_queue_name p = qres_queue_name r) ps2 = []" by (simp add: filter_empty_conv)
  moreover have "filter (\<lambda>p. rsv_queue_name p = qres_queue_name r) ps1 = ps1" using q1 by simp
  ultimately have first: "length (filter (\<lambda>p. rsv_queue_name p = qres_queue_name r) ps) =
      min (qres_count r) (free_in (qres_queue_name r) ws)" using ok two(2) by simp
  have others: "length (filter (\<lambda>p. rsv_queue_name p = qres_queue_name s) ps) =
      min (qres_count s) (free_in (qres_queue_name s) ws)" if s: "s \<in> set queues" for s
  proof -
    have ne: "qres_queue_name s \<noteq> qres_queue_name r" using Cons.prems(2) s by (metis distinct.simps(2) image_eqI list.set_map list.simps(9))
    then have "filter (\<lambda>p. rsv_queue_name p = qres_queue_name s) ps1 = []" using q1 by (auto simp: filter_empty_conv)
    moreover have "free_in (qres_queue_name s) ws1 = free_in (qres_queue_name s) ws"
      using free_in_other [OF Cons.prems(1) _ ne, of ps1 ws1] ok by blast
    ultimately show ?thesis using IH(3) s two(2) by simp
  qed
  have "reserved_by (ps1 @ ps2) ws ws'" using reserved_by_trans ok IH(1) by blast
  moreover have "rsv_queue_name ` set ps \<subseteq> qres_queue_name ` set (r # queues)"
    using q1 IH(2) two(2) by auto
  ultimately show ?case
    using first others two(2) by simp
qed simp

lemma reserve_queues_reserved_by:
  "distinct (wkeys ws) \<Longrightarrow> reserve_queues queues ws = (ps, ws') \<Longrightarrow> reserved_by ps ws ws'"
proof (induction queues arbitrary: ws ps)
  case (Cons r queues)
  obtain ps1 ws1 where one: "reserve_slots r (qres_count r) ws = (ps1, ws1)" by fastforce
  obtain ps2 where two: "reserve_queues queues ws1 = (ps2, ws')" "ps = ps1 @ ps2"
    using Cons.prems(2) one by (auto split: prod.splits)
  from reserve_slots_ok [OF Cons.prems(1) one] have r1: "reserved_by ps1 ws ws1" by blast
  have "distinct (wkeys ws1)" using reserved_by_keys [OF r1] Cons.prems(1) by simp
  from reserved_by_trans [OF r1 Cons.IH [OF this two(1)]] two(2) show ?case by simp
qed simp

section \<open>Properties of the choice and of reservations\<close>

text \<open>
  C26. \<open>find_ideal_worker\<close> returns the least loaded worker of the queue that is not draining and has a
  free slot, ties going to the smallest id, and nothing exactly when there is none; loads are
  compared as exact fractions of the capacity, without overflow or rounding. In particular the
  result does not depend on the iteration order of the hash map.
\<close>

theorem find_ideal_worker_least_loaded:
  assumes "distinct (wkeys ws)"
  shows "(find_ideal_worker ws r = Some (i, w) \<longleftrightarrow>
       (i, w) \<in> set ws \<and> eligible (qres_queue_name r) w \<and>
       (\<forall>(j, v)\<in>set ws. eligible (qres_queue_name r) v \<and> (j, v) \<noteq> (i, w) \<longrightarrow>
          load w < load v \<or> load w = load v \<and> i < j)) \<and>
     (find_ideal_worker ws r = None \<longleftrightarrow> (\<forall>(j, v)\<in>set ws. \<not> eligible (qres_queue_name r) v)) \<and>
     (mset ws' = mset ws \<longrightarrow> find_ideal_worker ws' r = find_ideal_worker ws r)"
proof (intro conjI impI)
  show "find_ideal_worker ws r = Some (i, w) \<longleftrightarrow>
       (i, w) \<in> set ws \<and> eligible (qres_queue_name r) w \<and>
       (\<forall>(j, v)\<in>set ws. eligible (qres_queue_name r) v \<and> (j, v) \<noteq> (i, w) \<longrightarrow>
          load w < load v \<or> load w = load v \<and> i < j)"
    unfolding find_ideal_worker_Some [OF assms] by (simp add: before_def case_prod_beta prod_eq_iff)
  show "find_ideal_worker ws r = None \<longleftrightarrow> (\<forall>(j, v)\<in>set ws. \<not> eligible (qres_queue_name r) v)"
    unfolding find_ideal_worker_None [OF assms] by (simp add: case_prod_beta)
  assume m: "mset ws' = mset ws"
  have st: "set ws' = set ws" using mset_eq_setD [OF m] .
  have d': "distinct (wkeys ws')" using assms m by (metis mset_eq_imp_distinct_iff mset_map)
  show "find_ideal_worker ws' r = find_ideal_worker ws r"
  proof (rule option.expand)
    show "(find_ideal_worker ws' r = None) = (find_ideal_worker ws r = None)"
      by (simp add: find_ideal_worker_None [OF assms] find_ideal_worker_None [OF d'] st)
    assume "find_ideal_worker ws' r \<noteq> None"
    then obtain x where x: "find_ideal_worker ws' r = Some x" by auto
    moreover have "find_ideal_worker ws r = Some x"
      using x by (simp add: find_ideal_worker_Some [OF assms] find_ideal_worker_Some [OF d'] st)
    ultimately show "the (find_ideal_worker ws' r) = the (find_ideal_worker ws r)" by simp
  qed
qed

definition sample_worker :: "string \<Rightarrow> u32 \<Rightarrow> u32 \<Rightarrow> WorkerState" where
  "sample_worker q cap running =
     \<lparr>ws_queue_name = q, ws_capacity_slots = cap, ws_running_jobs = running, ws_free_slots = cap - running,
      ws_last_activity = 0, ws_reserved_slots = 0, ws_in_flight = {}, ws_draining = False,
      ws_outbound = \<lparr>ob_open = True, ob_sent = [], ob_taken = 0\<rparr>\<rparr>"

definition sample_workers :: Workers where
  "sample_workers = [(1, sample_worker ''mail'' 4 2), (2, sample_worker ''mail'' 3 1), (3, sample_worker ''sms'' 2 0)]"

lemma sample_workers_distinct: "distinct (wkeys sample_workers)"
  by (simp add: sample_workers_def)

theorem find_ideal_worker_least_loaded_witness:
  "find_ideal_worker sample_workers \<lparr>qres_queue_name = ''mail'', qres_count = 1\<rparr> = Some (2, sample_worker ''mail'' 3 1) \<and>
   find_ideal_worker (rev sample_workers) \<lparr>qres_queue_name = ''mail'', qres_count = 1\<rparr> = Some (2, sample_worker ''mail'' 3 1)"
proof -
  have "find_ideal_worker sample_workers \<lparr>qres_queue_name = ''mail'', qres_count = 1\<rparr> = Some (2, sample_worker ''mail'' 3 1)"
    by (simp add: sample_workers_def find_ideal_worker_def ideal_loop_step eligible_def before_def load_def available_slots_def used_slots_def
        sample_worker_def u32_try_from_def u32_saturating_add_def u32_saturating_sub_def)
  with find_ideal_worker_least_loaded [OF sample_workers_distinct, of "\<lparr>qres_queue_name = ''mail'', qres_count = 1\<rparr>" 2 "sample_worker ''mail'' 3 1" "rev sample_workers"]
  show ?thesis by simp
qed

text \<open>
  A reservation grants, for every requested queue, exactly as many permits as were asked for or
  as there are slots available on the queue's workers that are not draining, whichever is less. On
  each worker the reserved slots grow by exactly the permits granted on it, never beyond the slots
  it had available: no worker is oversubscribed and nothing else about it changes.
\<close>

theorem reserve_exact:
  assumes "distinct (wkeys (rg_workers reg))" and "distinct (map qres_queue_name queues)"
  shows "\<exists>ps ws'. reserve queues reg = (Inr ps, reg\<lparr>rg_workers := ws'\<rparr>) \<and>
     reserved_by ps (rg_workers reg) ws' \<and> rsv_queue_name ` set ps \<subseteq> qres_queue_name ` set queues \<and>
     (\<forall>r\<in>set queues. length (filter (\<lambda>p. rsv_queue_name p = qres_queue_name r) ps) =
        min (qres_count r) (free_in (qres_queue_name r) (rg_workers reg)))"
proof -
  obtain ps ws' where "reserve_queues queues (rg_workers reg) = (ps, ws')" by fastforce
  with reserve_queues_ok [OF assms this] show ?thesis by (auto simp: reserve_def)
qed

theorem reserve_exact_witness:
  "\<exists>ps ws'. reserve [\<lparr>qres_queue_name = ''mail'', qres_count = 9\<rparr>] \<lparr>rg_workers = sample_workers, rg_events = []\<rparr> =
       (Inr ps, \<lparr>rg_workers = ws', rg_events = []\<rparr>) \<and>
     reserved_by ps sample_workers ws' \<and> length (filter (\<lambda>p. rsv_queue_name p = ''mail'') ps) = 4"
proof -
  have "free_in ''mail'' sample_workers = 4"
    by (simp add: free_in_def sample_workers_def eligible_def available_slots_def used_slots_def
        sample_worker_def u32_try_from_def u32_saturating_add_def u32_saturating_sub_def)
  with reserve_exact [of "\<lparr>rg_workers = sample_workers, rg_events = []\<rparr>" "[\<lparr>qres_queue_name = ''mail'', qres_count = 9\<rparr>]"]
  show ?thesis using sample_workers_distinct by auto
qed

end
