(* ===== verification/Maq_Registry_Runs.thy ===== *)
theory Maq_Registry_Runs
  imports Maq_Registry
begin

text \<open>
  Runs of the worker registry: the step relation of the dispatcher and the worker connections, its
  invariant, and what follows for permits, in-flight dispatches, draining and failed registrations.
\<close>

section \<open>Runs of the registry\<close>

text \<open>
  The steps of the registry, with two auxiliary components beside it: the multiset of the workers of
  the outstanding permits, and the set of the \<open>reused\<close> worker ids, under which a worker registered while a permit of an
  earlier connection with the same id was still outstanding. A permit is used up by a dispatch or a
  release, and claimed jobs carry a dispatch id. Nothing keeps a worker from registering under any id: the
  dispatcher refuses only one that is connected, and that the SDK draws a fresh random UUID for every
  run is not relied on here.
\<close>

definition permits_of :: "ReservedDispatch list \<Rightarrow> Uuid multiset" where
  "permits_of ps = mset (List.map_filter (\<lambda>p. case rsv_permit p of RegistryPermit i \<Rightarrow> Some i | ForeignPermit \<Rightarrow> None) ps)"

definition reused_after :: "string + Uuid \<times> string \<Rightarrow> Uuid multiset \<Rightarrow> Uuid set \<Rightarrow> Uuid set" where
  "reused_after r P S = (case r of Inr (i, _) \<Rightarrow> if i \<in># P then insert i S else S | Inl _ \<Rightarrow> S)"

type_synonym RegistryRun = "WorkerRegistry \<times> Uuid multiset \<times> Uuid set"

inductive registry_step :: "RegistryRun \<Rightarrow> RegistryRun \<Rightarrow> bool" where
  step_reserve: "reserve queues reg = (Inr ps, reg') \<Longrightarrow> registry_step (reg, P, S) (reg', P + permits_of ps, S)"
| step_dispatch: "rsv_permit p = RegistryPermit i \<Longrightarrow> i \<in># P \<Longrightarrow> job_dispatch_id job = Some d \<Longrightarrow>
    dispatch_start p job ack reg = (r, reg') \<Longrightarrow> registry_step (reg, P, S) (reg', P - {#i#}, S)"
| step_finish: "dispatch_finish sent ack reg = (r, reg') \<Longrightarrow> registry_step (reg, P, S) (reg', P, S)"
| step_release: "rsv_permit p = RegistryPermit i \<Longrightarrow> i \<in># P \<Longrightarrow> registry_step (reg, P, S) (release p reg, P - {#i#}, S)"
| step_register: "handle_register allowed now io f reg = (r, out, reg') \<Longrightarrow>
    registry_step (reg, P, S) (reg', P, reused_after r P S)"
| step_register_send: "register_send i q ack reg = (r, reg') \<Longrightarrow> registry_step (reg, P, S) (reg', P, S)"
| step_acked: "register_acked a q reg = (r, reg') \<Longrightarrow> registry_step (reg, P, S) (reg', P, S)"
| step_frame: "handle_frame now ack i f reg = (r, reg') \<Longrightarrow> registry_step (reg, P, S) (reg', P, S)"
| step_disconnect: "registry_step (reg, P, S) (handle_disconnect i reg, P, S)"
| step_writer: "writer_step C i w reg = (a, w', reg') \<Longrightarrow> registry_step (reg, P, S) (reg', P, S)"

inductive registry_reach :: "RegistryRun \<Rightarrow> bool" where
  reach_start: "registry_reach (WorkerRegistry_default, {#}, {})"
| reach_step: "registry_reach s \<Longrightarrow> registry_step s s' \<Longrightarrow> registry_reach s'"

text \<open>No job is sent to a worker after the \<open>Draining\<close> frame.\<close>

fun no_job_after_drain :: "WorkerMessage list \<Rightarrow> bool" where
  "no_job_after_drain [] = True"
| "no_job_after_drain (m # ms) =
     (if m = Draining then list_all (\<lambda>n. \<not> is_JobDispatch n) ms else no_job_after_drain ms)"

definition sent_to :: "WorkerState \<Rightarrow> WorkerMessage list" where
  "sent_to w = map (payload \<circ> of_frame) (ob_sent (ws_outbound w))"

text \<open>
  The reserved slots of a worker never exceed its outstanding permits, and are exactly as many
  unless its id was reused.
\<close>

definition worker_ok :: "bool \<Rightarrow> nat \<Rightarrow> WorkerState \<Rightarrow> bool" where
  "worker_ok reused permits w \<longleftrightarrow>
     unat (ws_reserved_slots w) \<le> permits \<and> (\<not> reused \<longrightarrow> unat (ws_reserved_slots w) = permits) \<and>
     ws_in_flight w \<subseteq> {jd_dispatch_id m | m. m \<in> set (sent_to w) \<and> is_JobDispatch m} \<and>
     no_job_after_drain (sent_to w) \<and> (Draining \<in> set (sent_to w) \<longrightarrow> ws_draining w) \<and>
     ob_taken (ws_outbound w) \<le> length (ob_sent (ws_outbound w))"

definition registry_inv :: "Uuid set \<Rightarrow> WorkerRegistry \<Rightarrow> Uuid multiset \<Rightarrow> bool" where
  "registry_inv S reg P \<longleftrightarrow>
     distinct (wkeys (rg_workers reg)) \<and>
     (\<forall>i w. map_of (rg_workers reg) i = Some w \<longrightarrow> worker_ok (i \<in> S) (count P i) w)"

lemma registry_inv_at: "registry_inv S reg P \<Longrightarrow> map_of (rg_workers reg) i = Some w \<Longrightarrow> worker_ok (i \<in> S) (count P i) w"
  by (simp add: registry_inv_def)

lemma registry_inv_modify:
  assumes "registry_inv S reg P" and "\<And>w. map_of (rg_workers reg) i = Some w \<Longrightarrow> worker_ok (i \<in> S) (count P' i) (f w)"
    and "\<And>k. k \<noteq> i \<Longrightarrow> count P' k = count P k"
  shows "registry_inv S (reg\<lparr>rg_workers := modify_worker i f (rg_workers reg)\<rparr>) P'"
  using assms by (auto simp: registry_inv_def)

lemma no_job_after_drain_snoc:
  "no_job_after_drain (ms @ [m]) \<longleftrightarrow> no_job_after_drain ms \<and> (Draining \<in> set ms \<longrightarrow> \<not> is_JobDispatch m)"
  by (induction ms) auto

lemma ob_send_cases:
  obtains "ob_send f ch = (True, ch\<lparr>ob_sent := ob_sent ch @ [f]\<rparr>)" | "ob_send f ch = (False, ch)"
  by (cases "ob_open ch") (simp_all add: ob_send_def)

lemma granted_permits_of: "count (permits_of ps) i = granted i ps"
  by (induction ps) (auto simp: permits_of_def map_filter_simps split: Permit.splits option.splits)

lemma reserve_inv:
  assumes inv: "registry_inv S reg P" and r: "reserve queues reg = (Inr ps, reg')"
  shows "registry_inv S reg' (P + permits_of ps)"
proof -
  have d: "distinct (wkeys (rg_workers reg))" using inv by (simp add: registry_inv_def)
  obtain ws' where ws': "reserve_queues queues (rg_workers reg) = (ps, ws')" "reg' = reg\<lparr>rg_workers := ws'\<rparr>"
    using r by (auto simp: reserve_def split: prod.splits)
  from reserve_queues_reserved_by [OF d ws'(1)] have rb: "reserved_by ps (rg_workers reg) ws'" .
  have "worker_ok (i \<in> S) (count P i + granted i ps) w'" if "map_of ws' i = Some w'" for i w'
  proof -
    from that have "(i, w') \<in> set ws'" by (rule map_of_SomeD)
    then obtain n where n: "n < length ws'" "ws' ! n = (i, w')" by (auto simp: in_set_conv_nth)
    from rb n obtain w where w: "n < length (rg_workers reg)" "rg_workers reg ! n = (i, w)" "slots_taken (granted i ps) w w'"
      unfolding reserved_by_def list_all2_conv_all_nth by (cases "rg_workers reg ! n") auto
    then have "(i, w) \<in> set (rg_workers reg)" by (metis nth_mem)
    then have "worker_ok (i \<in> S) (count P i) w" using inv d by (simp add: registry_inv_def)
    with w(3) slots_taken_sel [OF w(3)] show ?thesis
      by (simp add: worker_ok_def sent_to_def slots_taken_def)
  qed
  then show ?thesis
    using d reserved_by_keys [OF rb] by (simp add: registry_inv_def ws'(2) granted_permits_of)
qed

lemma worker_ok_upd:
  "worker_ok b n (w\<lparr>ws_last_activity := t\<rparr>) = worker_ok b n w"
  "worker_ok b n (w\<lparr>ws_running_jobs := r\<rparr>) = worker_ok b n w"
  "worker_ok b n (w\<lparr>ws_free_slots := r\<rparr>) = worker_ok b n w"
  "worker_ok b n w \<Longrightarrow> worker_ok b n (w\<lparr>ws_in_flight := ws_in_flight w - D\<rparr>)"
  "worker_ok b (Suc n) w \<Longrightarrow> worker_ok b n (w\<lparr>ws_reserved_slots := u32_saturating_sub (ws_reserved_slots w) 1\<rparr>)"
  by (auto simp: worker_ok_def sent_to_def unat_u32_saturating_sub)

lemma worker_ok_sent:
  assumes "worker_ok b n w" and "\<not> is_JobDispatch (payload (of_frame f)) \<or> \<not> ws_draining w"
    and "payload (of_frame f) = Draining \<longrightarrow> ws_draining w"
  shows "worker_ok b n (w\<lparr>ws_outbound := ws_outbound w\<lparr>ob_sent := ob_sent (ws_outbound w) @ [f]\<rparr>\<rparr>)"
  using assms by (auto simp: worker_ok_def sent_to_def no_job_after_drain_snoc)

lemma worker_ok_send:
  assumes "worker_ok b n w" and "\<not> is_JobDispatch (payload (of_frame f)) \<or> \<not> ws_draining w"
    and "payload (of_frame f) = Draining \<longrightarrow> ws_draining w"
  shows "worker_ok b n (w\<lparr>ws_outbound := snd (ob_send f (ws_outbound w))\<rparr>)"
  using assms worker_ok_sent [OF assms] by (cases rule: ob_send_cases [of f "ws_outbound w"]) simp_all

lemma dispatch_start_inv:
  assumes inv: "registry_inv S reg P" and p: "rsv_permit p = RegistryPermit i" "i \<in># P" "job_dispatch_id job = Some d"
    and r: "dispatch_start p job ack reg = (r, reg')"
  shows "registry_inv S reg' (P - {#i#})"
proof (cases "map_of (rg_workers reg) i")
  case None
  then have "reg' = reg" using p r by (simp add: dispatch_start_def)
  then show ?thesis
    using inv None by (auto simp: registry_inv_def)
next
  case (Some w)
  let ?w1 = "w\<lparr>ws_reserved_slots := u32_saturating_sub (ws_reserved_slots w) 1\<rparr>"
  let ?f = "\<lparr>of_frame = v1 (JobDispatch (job_id job) d (job_execution_count job) (job_payload job)), of_ack = ack\<rparr>"
  have c: "count P i = Suc (count (P - {#i#}) i)" using p(2) by (simp add: count_greater_zero_iff Suc_diff_1)
  have ok1: "worker_ok (i \<in> S) (count (P - {#i#}) i) ?w1"
    using registry_inv_at [OF inv Some] worker_ok_upd(5) unfolding c by blast
  have "\<exists>w'. reg' = reg\<lparr>rg_workers := modify_worker i (\<lambda>_. w') (rg_workers reg)\<rparr> \<and> worker_ok (i \<in> S) (count (P - {#i#}) i) w'"
  proof (cases "ws_draining w \<or> d \<in> ws_in_flight w")
    case True
    then show ?thesis using r p Some ok1 by (auto simp: dispatch_start_def Let_def split: if_splits)
  next
    case False
    let ?w3 = "?w1\<lparr>ws_outbound := ws_outbound w\<lparr>ob_sent := ob_sent (ws_outbound w) @ [?f]\<rparr>\<rparr>"
    let ?m = "JobDispatch (job_id job) d (job_execution_count job) (job_payload job)"
    have "worker_ok (i \<in> S) (count (P - {#i#}) i) ?w3" using worker_ok_sent [OF ok1, of ?f] False by (simp add: v1_def)
    moreover have "jd_dispatch_id ?m = d \<and> ?m \<in> set (sent_to ?w3) \<and> is_JobDispatch ?m" by (simp add: sent_to_def v1_def)
    then have "d \<in> {jd_dispatch_id m | m. m \<in> set (sent_to ?w3) \<and> is_JobDispatch m}" by (metis (mono_tags, lifting) mem_Collect_eq)
    ultimately have ok4: "worker_ok (i \<in> S) (count (P - {#i#}) i) (?w1\<lparr>ws_in_flight := insert d (ws_in_flight w),
        ws_outbound := ws_outbound w\<lparr>ob_sent := ob_sent (ws_outbound w) @ [?f]\<rparr>\<rparr>)"
      by (simp add: worker_ok_def sent_to_def)
    have del: "insert d (ws_in_flight w) - {d} = ws_in_flight w" using False by simp
    show ?thesis
    proof (cases rule: ob_send_cases [of ?f "ws_outbound w"])
      case 1
      then have "reg' = reg\<lparr>rg_workers := modify_worker i (\<lambda>_. ?w1\<lparr>ws_in_flight := insert d (ws_in_flight w),
          ws_outbound := ws_outbound w\<lparr>ob_sent := ob_sent (ws_outbound w) @ [?f]\<rparr>\<rparr>) (rg_workers reg)\<rparr>"
        using r p Some False by (simp add: dispatch_start_def Let_def)
      with ok4 show ?thesis by blast
    next
      case 2
      then have "reg' = reg\<lparr>rg_workers := modify_worker i (\<lambda>_. ?w1) (rg_workers reg)\<rparr>"
        using r p Some False del by (simp add: dispatch_start_def Let_def)
      with ok1 show ?thesis by blast
    qed
  qed
  then obtain w' where w': "reg' = reg\<lparr>rg_workers := modify_worker i (\<lambda>_. w') (rg_workers reg)\<rparr>" "worker_ok (i \<in> S) (count (P - {#i#}) i) w'"
    by blast
  show ?thesis unfolding w'(1) by (rule registry_inv_modify [OF inv]) (use w'(2) in auto)
qed

lemma release_permit_inv:
  assumes inv: "registry_inv S reg P" and i: "i \<in># P"
  shows "registry_inv S (release_permit i reg) (P - {#i#})"
  unfolding release_permit_def
proof (rule registry_inv_modify [OF inv])
  have c: "count P i = Suc (count (P - {#i#}) i)" using i by (simp add: count_greater_zero_iff Suc_diff_1)
  fix w assume "map_of (rg_workers reg) i = Some w"
  from registry_inv_at [OF inv this]
  show "worker_ok (i \<in> S) (count (P - {#i#}) i) (w\<lparr>ws_reserved_slots := u32_saturating_sub (ws_reserved_slots w) 1\<rparr>)"
    unfolding c by (rule worker_ok_upd(5))
qed simp

lemma dispatch_finish_inv:
  assumes inv: "registry_inv S reg P" and r: "dispatch_finish sent ack reg = (r, reg')"
  shows "registry_inv S reg' P"
proof -
  obtain i d q where s: "sent = (i, d, q)" by (cases sent)
  have rel: "registry_inv S (release_dispatched i d reg) P"
    unfolding release_dispatched_def
  proof (rule registry_inv_modify [OF inv])
    fix w assume "map_of (rg_workers reg) i = Some w"
    from worker_ok_upd(4) [OF registry_inv_at [OF inv this]]
    show "worker_ok (i \<in> S) (count P i) (w\<lparr>ws_in_flight := ws_in_flight w - {d}\<rparr>)" .
  qed (rule refl)
  have "reg' = reg \<or> reg' = release_dispatched i d reg"
    using r s by (simp add: dispatch_finish_def split: if_splits)
  with inv rel show ?thesis by blast
qed

lemma handle_register_inv:
  assumes inv: "registry_inv S reg P" and r: "handle_register allowed now io f reg = (r, out, reg')"
  shows "registry_inv (reused_after r P S) reg' P"
proof (cases r)
  case (Inl e)
  then have "reg' = reg"
    using r by (auto simp: handle_register_def Let_def split: sum.splits WorkerMessage.splits if_splits)
  then show ?thesis using inv Inl by (simp add: reused_after_def)
next
  case (Inr x)
  then obtain i q w where x: "r = Inr (i, q)" "map_of (rg_workers reg) i = None"
    "reg' = reg\<lparr>rg_workers := rg_workers reg @ [(i, w)]\<rparr>"
    "ws_reserved_slots w = 0" "ws_in_flight w = {}" "ws_outbound w = \<lparr>ob_open = True, ob_sent = [], ob_taken = 0\<rparr>"
    using r by (auto simp: handle_register_def Let_def split: sum.splits WorkerMessage.splits if_splits)
  let ?S = "reused_after r P S"
  have "k \<in> ?S \<longleftrightarrow> k \<in> S" if "k \<noteq> i" for k using that by (simp add: reused_after_def x(1))
  moreover have "worker_ok (i \<in> ?S) (count P i) w"
    using x by (simp add: worker_ok_def sent_to_def reused_after_def count_eq_zero_iff)
  ultimately show ?thesis using inv x(2,3)
    by (auto simp: registry_inv_def map_add_Some_iff map_of_eq_None_iff image_iff split: if_splits)
qed

lemma register_send_inv:
  assumes inv: "registry_inv S reg P" and r: "register_send i q ack reg = (r, reg')"
  shows "registry_inv S reg' P"
proof (cases "map_of (rg_workers reg) i")
  case None
  then show ?thesis using inv r by (simp add: register_send_def)
next
  case (Some w)
  let ?f = "\<lparr>of_frame = v1 (Registered q), of_ack = ack\<rparr>"
  have "reg' = reg\<lparr>rg_workers := modify_worker i (\<lambda>_. w\<lparr>ws_outbound := snd (ob_send ?f (ws_outbound w))\<rparr>) (rg_workers reg)\<rparr>"
    using r Some by (auto simp: register_send_def split: prod.splits)
  moreover have "worker_ok (i \<in> S) (count P i) (w\<lparr>ws_outbound := snd (ob_send ?f (ws_outbound w))\<rparr>)"
    using worker_ok_send [OF registry_inv_at [OF inv Some], of ?f] by (simp add: v1_def)
  ultimately show ?thesis by (auto intro: registry_inv_modify [OF inv])
qed

lemma handle_frame_inv:
  assumes inv: "registry_inv S reg P" and r: "handle_frame now ack i f reg = (r, reg')"
  shows "registry_inv S reg' P"
proof (cases "map_of (rg_workers reg) i")
  case None
  then show ?thesis using inv r by (simp add: handle_frame_def)
next
  case (Some w0)
  let ?w = "w0\<lparr>ws_last_activity := now\<rparr>"
  have ok: "worker_ok (i \<in> S) (count P i) ?w" using registry_inv_at [OF inv Some] by (simp add: worker_ok_upd)
  have drain: "worker_ok (i \<in> S) (count P i) (snd (begin_drain ack ?w))"
  proof -
    let ?d = "?w\<lparr>ws_draining := True, ws_free_slots := 0\<rparr>"
    have "worker_ok (i \<in> S) (count P i) ?d" using ok by (simp add: worker_ok_def sent_to_def)
    then show ?thesis
      using worker_ok_send [of "i \<in> S" "count P i" ?d "\<lparr>of_frame = v1 Draining, of_ack = ack\<rparr>"]
      by (simp add: begin_drain_def v1_def case_prod_beta)
  qed
  have result: "worker_ok (i \<in> S) (count P i) (record_worker_result d x y ?w)" for d x y
    using ok by (auto simp: record_worker_result_def worker_ok_def sent_to_def)
  have "\<exists>w'. rg_workers reg' = modify_worker i (\<lambda>_. w') (rg_workers reg) \<and> worker_ok (i \<in> S) (count P i) w'"
    using r Some ok drain result
    by (cases "payload f") (auto simp: handle_frame_def Let_def case_prod_beta)
  then obtain w' where w': "rg_workers reg' = modify_worker i (\<lambda>_. w') (rg_workers reg)" "worker_ok (i \<in> S) (count P i) w'" by blast
  have "registry_inv S (reg\<lparr>rg_workers := modify_worker i (\<lambda>_. w') (rg_workers reg)\<rparr>) P"
    using w'(2) by (auto intro: registry_inv_modify [OF inv])
  then show ?thesis by (simp add: w'(1) registry_inv_def)
qed

lemma writer_step_inv:
  assumes inv: "registry_inv S reg P" and r: "writer_step C i w reg = (a, w', reg')"
  shows "registry_inv S reg' P"
proof (cases "map_of (rg_workers reg) i")
  case None
  then show ?thesis using inv r by (simp add: writer_step_def)
next
  case (Some st)
  let ?ch = "ws_outbound st"
  show ?thesis
  proof (cases "\<not> ob_open ?ch \<or> length (ob_sent ?ch) \<le> ob_taken ?ch")
    case True
    then show ?thesis using inv r Some by (auto simp: writer_step_def)
  next
    case False
    then obtain b where "reg' = reg\<lparr>rg_workers := modify_worker i (\<lambda>_. st\<lparr>ws_outbound := ?ch\<lparr>ob_taken := Suc (ob_taken ?ch), ob_open := b\<rparr>\<rparr>) (rg_workers reg)\<rparr>"
      using r Some by (auto simp: writer_step_def Let_def split: prod.splits)
    moreover have "worker_ok (i \<in> S) (count P i) (st\<lparr>ws_outbound := ?ch\<lparr>ob_taken := Suc (ob_taken ?ch), ob_open := b\<rparr>\<rparr>)"
      using registry_inv_at [OF inv Some] False by (simp add: worker_ok_def sent_to_def)
    ultimately show ?thesis by (auto intro: registry_inv_modify [OF inv])
  qed
qed

abbreviation run_inv :: "RegistryRun \<Rightarrow> bool" where
  "run_inv s \<equiv> registry_inv (snd (snd s)) (fst s) (fst (snd s))"

lemma registry_step_inv: "registry_step s s' \<Longrightarrow> run_inv s \<Longrightarrow> run_inv s'"
proof (induction rule: registry_step.induct)
  case (step_reserve queues reg ps reg' P S)
  then show ?case by (auto intro: reserve_inv)
next
  case (step_dispatch p i P job d ack reg r reg' S)
  then show ?case by (auto intro: dispatch_start_inv)
next
  case (step_finish sent ack reg r reg' P S)
  then show ?case by (auto intro: dispatch_finish_inv)
next
  case (step_release p i P reg S)
  then show ?case by (auto simp: release_def intro: release_permit_inv)
next
  case (step_register allowed now io f reg r out reg' P S)
  then show ?case using handle_register_inv by simp
next
  case (step_register_send i q ack reg r reg' P S)
  then show ?case by (auto intro: register_send_inv)
next
  case (step_acked a q reg r reg' P S)
  then show ?case by (auto simp: register_acked_def registry_inv_def split: Ack.splits)
next
  case (step_frame now ack i f reg r reg' P S)
  then show ?case by (auto intro: handle_frame_inv)
next
  case (step_disconnect reg P i S)
  then show ?case by (auto simp: handle_disconnect_def registry_inv_def distinct_remove split: if_splits)
next
  case (step_writer C i w reg a w' reg' P S)
  then show ?case by (auto intro: writer_step_inv)
qed

lemma registry_reach_inv: "registry_reach s \<Longrightarrow> run_inv s"
proof (induction rule: registry_reach.induct)
  case reach_start
  then show ?case by (simp add: registry_inv_def WorkerRegistry_default_def)
qed (rule registry_step_inv)

section \<open>Properties of runs\<close>

text \<open>
  C9. Slots are never counted twice, and none is lost while worker ids are not reused. In every run of the registry, whatever the
  order of reservations, dispatches, releases, registrations, worker frames, disconnections and
  failing writes, the reserved slots of a registered worker are at most the permits handed out for
  its id and not yet used or released; they are exactly that many unless a worker registered under this
  id while a permit for an earlier connection was outstanding (the dispatcher only
  refuses an id that is connected, and starts the new connection with no reserved slot); and a dispatch
  counted as in flight was really sent on the worker's own connection.
\<close>

theorem reserved_slots_are_outstanding_permits:
  assumes "registry_reach (reg, P, S)" and "map_of (rg_workers reg) i = Some w"
  shows "unat (ws_reserved_slots w) \<le> count P i \<and> (i \<notin> S \<longrightarrow> unat (ws_reserved_slots w) = count P i) \<and>
    (\<forall>d\<in>ws_in_flight w. \<exists>j n b. JobDispatch j d n b \<in> set (sent_to w))"
proof -
  have ok: "worker_ok (i \<in> S) (count P i) w"
    using registry_inv_at registry_reach_inv [OF assms(1)] assms(2) by simp
  moreover have "\<exists>j n b. JobDispatch j d n b \<in> set (sent_to w)" if d: "d \<in> ws_in_flight w" for d
  proof -
    from ok d obtain m where "m \<in> set (sent_to w)" "is_JobDispatch m" "d = jd_dispatch_id m"
      by (auto simp: worker_ok_def)
    then show ?thesis by (metis WorkerMessage.collapse(2))
  qed
  ultimately show ?thesis by (simp add: worker_ok_def)
qed

definition sample_job :: Job where
  "sample_job = from_accepted \<lparr>aj_id = 5, aj_queue_name = ''mail'', aj_payload = [1], aj_dispatch_id = Some ''d'',
     aj_created_at = 0, aj_updated_at = 0\<rparr> None"

text \<open>The registry of one worker that registered with two slots, after some reservations and dispatches.\<close>

definition sample_state :: "u32 \<Rightarrow> string set \<Rightarrow> OutboundFrame list \<Rightarrow> WorkerState" where
  "sample_state reserved in_flight sent =
     \<lparr>ws_queue_name = ''mail'', ws_capacity_slots = 2, ws_running_jobs = 0, ws_free_slots = 2, ws_last_activity = 0,
      ws_reserved_slots = reserved, ws_in_flight = in_flight, ws_draining = False,
      ws_outbound = \<lparr>ob_open = True, ob_sent = sent, ob_taken = 0\<rparr>\<rparr>"

definition sample_registry :: "u32 \<Rightarrow> string set \<Rightarrow> OutboundFrame list \<Rightarrow> WorkerRegistry" where
  "sample_registry reserved in_flight sent = \<lparr>rg_workers = [(7, sample_state reserved in_flight sent)], rg_events = []\<rparr>"

definition sample_sent :: "OutboundFrame list" where
  "sample_sent = [\<lparr>of_frame = v1 (Registered ''mail''), of_ack = 0\<rparr>, \<lparr>of_frame = v1 (JobDispatch 5 ''d'' 0 [1]), of_ack = 1\<rparr>]"

abbreviation sample_permit :: ReservedDispatch where
  "sample_permit \<equiv> \<lparr>rsv_queue_name = ''mail'', rsv_permit = RegistryPermit 7\<rparr>"

lemmas registry_eval =
  sample_registry_def sample_state_def sample_sent_def sample_job_def from_accepted_def v1_def
  handle_register_def register_send_def reserve_def find_ideal_worker_def ideal_loop_step eligible_def before_def available_slots_def
  used_slots_def u32_try_from_def u32_saturating_add_def u32_saturating_sub_def modify_worker_def dispatch_start_def ob_send_def
  WorkerRegistry_default_def numeral_2_eq_2 permits_of_def map_filter_simps

lemma sample_register:
  "handle_register {''mail''} 0 (Inr ()) (Inr (v1 (Register 7 ''mail'' 0 2))) WorkerRegistry_default =
     (Inr (7, ''mail''), [], sample_registry 0 {} [])"
  by (simp add: registry_eval)

lemma sample_register_send: "register_send 7 ''mail'' 0 (sample_registry 0 {} []) = (Inr (), sample_registry 0 {} (take 1 sample_sent))"
  by (simp add: registry_eval)

lemma sample_reserve:
  "reserve [\<lparr>qres_queue_name = ''mail'', qres_count = 2\<rparr>] (sample_registry 0 {} (take 1 sample_sent)) =
     (Inr [sample_permit, sample_permit], sample_registry 2 {} (take 1 sample_sent))"
  by (simp add: registry_eval)

lemma sample_dispatch_start:
  "dispatch_start sample_permit sample_job 1 (sample_registry 2 {} (take 1 sample_sent)) =
     (Inr (7, ''d'', True), sample_registry 1 {''d''} sample_sent)"
  by (simp add: registry_eval)

lemma sample_registry_reach: "registry_reach (sample_registry 1 {''d''} sample_sent, {#7#}, {})"
proof -
  have "registry_reach (sample_registry 0 {} [], {#}, {})"
    using reach_step [OF reach_start step_register [OF sample_register]] by (simp add: reused_after_def)
  from reach_step [OF this step_register_send [OF sample_register_send]]
  have "registry_reach (sample_registry 0 {} (take 1 sample_sent), {#}, {})" .
  from reach_step [OF this step_reserve [OF sample_reserve]]
  have two: "registry_reach (sample_registry 2 {} (take 1 sample_sent), {#7, 7#}, {})"
    by (simp add: permits_of_def map_filter_simps)
  have "registry_step (sample_registry 2 {} (take 1 sample_sent), {#7, 7#}, {}) (sample_registry 1 {''d''} sample_sent, {#7, 7#} - {#7#}, {})"
    by (rule step_dispatch [OF _ _ _ sample_dispatch_start]) (simp_all add: sample_job_def from_accepted_def)
  from reach_step [OF two this] show ?thesis by simp
qed

text \<open>The worker disconnects and registers again under its id while the other permit is still held.\<close>

lemma sample_reconnect_reach: "registry_reach (sample_registry 0 {} [], {#7#}, {7})"
proof -
  have "handle_disconnect 7 (sample_registry 1 {''d''} sample_sent) = WorkerRegistry_default"
    by (simp add: handle_disconnect_def remove_worker_def registry_eval)
  with reach_step [OF sample_registry_reach step_disconnect [of _ _ _ 7]]
  have "registry_reach (WorkerRegistry_default, {#7#}, {})" by simp
  from reach_step [OF this step_register [OF sample_register]] show ?thesis by (simp add: reused_after_def)
qed

theorem reserved_slots_are_outstanding_permits_witness:
  "unat (ws_reserved_slots (sample_state 1 {''d''} sample_sent)) = 1 \<and>
   (\<exists>j n b. JobDispatch j ''d'' n b \<in> set (sent_to (sample_state 1 {''d''} sample_sent))) \<and>
   unat (ws_reserved_slots (sample_state 0 {} [])) \<le> 1"
proof -
  have "map_of (rg_workers (sample_registry r fl sent)) 7 = Some (sample_state r fl sent)" for r fl sent
    by (simp add: sample_registry_def)
  note w = this [of 1 "{''d''}" sample_sent] this [of 0 "{}" "[]"]
  from reserved_slots_are_outstanding_permits [OF sample_registry_reach w(1)]
    reserved_slots_are_outstanding_permits [OF sample_reconnect_reach w(2)]
  show ?thesis by (simp add: sample_state_def)
qed

text \<open>
  C28. Once the registry has sent \<open>Draining\<close> to a worker, it sends that worker no further job, in any
  run; from then on the worker is never chosen for a reservation either.
\<close>

theorem no_job_after_draining:
  assumes "registry_reach (reg, P, S)" and "map_of (rg_workers reg) i = Some w"
  shows "no_job_after_drain (sent_to w) \<and>
    (Draining \<in> set (sent_to w) \<longrightarrow> (\<forall>r v. find_ideal_worker (rg_workers reg) r \<noteq> Some (i, v)))"
proof -
  have inv: "registry_inv S reg P" using registry_reach_inv [OF assms(1)] by simp
  then have ok: "worker_ok (i \<in> S) (count P i) w" and d: "distinct (wkeys (rg_workers reg))"
    using assms(2) by (simp_all add: registry_inv_def)
  have "find_ideal_worker (rg_workers reg) r \<noteq> Some (i, v)" if "Draining \<in> set (sent_to w)" for r v
  proof
    assume "find_ideal_worker (rg_workers reg) r = Some (i, v)"
    then have "map_of (rg_workers reg) i = Some v" "\<not> ws_draining v"
      using d by (simp_all add: find_ideal_worker_Some eligible_def)
    then show False using ok that assms(2) by (simp add: worker_ok_def)
  qed
  then show ?thesis using ok by (simp add: worker_ok_def)
qed

theorem no_job_after_draining_witness:
  "\<exists>reg w. handle_frame 1 2 7 (v1 Drain) (sample_registry 1 {''d''} sample_sent) = (Inr (), reg) \<and>
     map_of (rg_workers reg) 7 = Some w \<and> Draining \<in> set (sent_to w) \<and> no_job_after_drain (sent_to w) \<and>
     find_ideal_worker (rg_workers reg) \<lparr>qres_queue_name = ''mail'', qres_count = 1\<rparr> \<noteq> Some (7, w)"
proof -
  let ?w = "(sample_state 1 {''d''} (sample_sent @ [\<lparr>of_frame = v1 Draining, of_ack = 2\<rparr>]))
      \<lparr>ws_draining := True, ws_free_slots := 0, ws_last_activity := 1\<rparr>"
  let ?reg = "\<lparr>rg_workers = [(7, ?w)], rg_events = []\<rparr>"
  have fr: "handle_frame 1 2 7 (v1 Drain) (sample_registry 1 {''d''} sample_sent) = (Inr (), ?reg)"
    by (simp add: handle_frame_def begin_drain_def registry_eval)
  have w: "map_of (rg_workers ?reg) 7 = Some ?w" by simp
  have dr: "Draining \<in> set (sent_to ?w)" by (simp add: sent_to_def sample_state_def v1_def)
  from no_job_after_draining [OF reach_step [OF sample_registry_reach step_frame [OF fr]] w] fr w dr
  show ?thesis by blast
qed

text \<open>
  A dispatch that fails gives everything back. If \<open>dispatch\<close> returns an error while the worker of
  its permit stays registered (and nothing else happens to the registry while it waits), the
  worker has one reserved slot less and the in-flight dispatches it had before; if it succeeds, the
  job was queued for that worker as one \<open>JobDispatch\<close> frame with the job's id, dispatch id, attempt
  number and payload, and its dispatch id is in flight.
\<close>

theorem dispatch_exact:
  assumes w: "map_of (rg_workers reg) i = Some w" and p: "rsv_permit p = RegistryPermit i" "job_dispatch_id job = Some d"
    and fresh: "d \<notin> ws_in_flight w"
  shows "\<exists>r reg' w'. dispatch p job ack_id (\<lambda>g. g) ack reg = (r, reg') \<and> map_of (rg_workers reg') i = Some w' \<and>
     unat (ws_reserved_slots w') = unat (ws_reserved_slots w) - 1 \<and>
     (case r of
        Inl _ \<Rightarrow> ws_in_flight w' = ws_in_flight w
      | Inr _ \<Rightarrow> ack = AckOk \<and> \<not> ws_draining w \<and> ws_in_flight w' = insert d (ws_in_flight w) \<and>
          sent_to w' = sent_to w @ [JobDispatch (job_id job) d (job_execution_count job) (job_payload job)])"
proof (cases "ws_draining w")
  case True
  with w p show ?thesis by (simp add: dispatch_def dispatch_start_def Let_def unat_u32_saturating_sub)
next
  case False
  have del: "insert d (ws_in_flight w) - {d} = ws_in_flight w" using fresh by simp
  show ?thesis
  proof (cases "ob_open (ws_outbound w) \<and> ack = AckOk")
    case True
    with w p fresh False show ?thesis
      by (simp add: dispatch_def dispatch_start_def dispatch_finish_def ob_send_def unat_u32_saturating_sub sent_to_def v1_def)
  next
    case no: False
    with w p fresh False del show ?thesis
      by (cases "ob_open (ws_outbound w)")
         (simp_all add: dispatch_def dispatch_start_def dispatch_finish_def release_dispatched_def ob_send_def unat_u32_saturating_sub)
  qed
qed

theorem dispatch_exact_witness:
  "\<exists>reg' w'. dispatch sample_permit sample_job 1 (\<lambda>g. g) (AckErr ''reset'') (sample_registry 2 {} []) =
       (Inl (DispatchInternal ''worker dispatch write failed''), reg') \<and>
     map_of (rg_workers reg') 7 = Some w' \<and> unat (ws_reserved_slots w') = 1 \<and> ws_in_flight w' = {}"
proof -
  have w: "map_of (rg_workers (sample_registry 2 {} [])) 7 = Some (sample_state 2 {} [])" by (simp add: sample_registry_def)
  have r: "fst (dispatch sample_permit sample_job 1 (\<lambda>g. g) (AckErr ''reset'') (sample_registry 2 {} [])) =
      Inl (DispatchInternal ''worker dispatch write failed'')"
    by (simp add: dispatch_def dispatch_finish_def registry_eval)
  have "job_dispatch_id sample_job = Some ''d''" by (simp add: sample_job_def from_accepted_def)
  from dispatch_exact [OF w _ this, of sample_permit 1 "AckErr ''reset''"] r show ?thesis
    by (auto simp: sample_state_def)
qed

text \<open>
  C38. A registration whose acknowledgement cannot be written leaves the worker behind. When the write
  of the \<open>Registered\<close> frame fails, \<open>handle_worker\<close> returns the error without removing the entry it
  inserted: the worker stays in the registry and is offered for its queue, every dispatch to it
  fails, and the same instance cannot register again.
\<close>

theorem failed_registration_leaves_worker:
  assumes reg: "handle_register allowed now io (Inr f) reg = (Inr (i, q), out, reg1)" "payload f = Register i q 0 n" "0 < n"
    and send: "register_send i q ack reg1 = (Inr (), reg2)"
    and fail: "writer_step C i wt reg2 = (Some (ack, AckErr e), wt', reg3)"
    and acked: "register_acked (AckErr e) q reg3 = (r, reg4)"
  shows "r = Inl e \<and>
    (\<exists>w. map_of (rg_workers reg4) i = Some w \<and> eligible q w) \<and>
    fst (handle_register allowed now' io' (Inr f) reg4) = Inl ''duplicate worker instance'' \<and>
    (\<forall>p job d a b. rsv_permit p = RegistryPermit i \<and> job_dispatch_id job = Some d \<longrightarrow>
       (\<exists>m. fst (dispatch p job a (\<lambda>g. g) b reg4) = Inl m))"
proof -
  have q: "q \<noteq> []" "q \<in> allowed" "map_of (rg_workers reg) i = None"
    using reg by (auto simp: handle_register_def Let_def split: if_splits sum.splits)
  define w1 where "w1 = \<lparr>ws_queue_name = q, ws_capacity_slots = n, ws_running_jobs = 0, ws_free_slots = n, ws_last_activity = now,
      ws_reserved_slots = 0, ws_in_flight = {}, ws_draining = False, ws_outbound = \<lparr>ob_open = True, ob_sent = [], ob_taken = 0\<rparr>\<rparr>"
  have "u32_saturating_add 0 n = n" by (simp add: u32_saturating_add_def)
  then have "reg1 = reg\<lparr>rg_workers := rg_workers reg @ [(i, w1)]\<rparr>"
    using reg(1,2) q by (auto simp: handle_register_def Let_def w1_def)
  then have w1: "map_of (rg_workers reg1) i = Some w1" using q(3) by (simp add: map_add_def)
  let ?f = "\<lparr>of_frame = v1 (Registered q), of_ack = ack\<rparr>"
  have w2: "map_of (rg_workers reg2) i = Some (w1\<lparr>ws_outbound := \<lparr>ob_open = True, ob_sent = [?f], ob_taken = 0\<rparr>\<rparr>)"
    using send w1 by (auto simp: register_send_def ob_send_def w1_def)
  have w3: "map_of (rg_workers reg3) i = Some (w1\<lparr>ws_outbound := \<lparr>ob_open = False, ob_sent = [?f], ob_taken = 1\<rparr>\<rparr>)"
    using fail w2 by (auto simp: writer_step_def split: prod.splits sum.splits)
  let ?w = "w1\<lparr>ws_outbound := \<lparr>ob_open = False, ob_sent = [?f], ob_taken = 1\<rparr>\<rparr>"
  have four: "r = Inl e" "reg4 = reg3" using acked by (simp_all add: register_acked_def)
  have "eligible q ?w"
    using reg(3) by (simp add: eligible_def available_pos_iff unat_used_slots in_flight_count_def w1_def unat_gt_0 word_neq_0_conv)
  moreover have "fst (handle_register allowed now' io' (Inr f) reg4) = Inl ''duplicate worker instance''"
    using reg(2) q w3 four by (simp add: handle_register_def)
  moreover have "\<exists>m. fst (dispatch p job a (\<lambda>g. g) b reg4) = Inl m"
    if "rsv_permit p = RegistryPermit i" "job_dispatch_id job = Some d" for p job d a b
    using that w3 four by (simp add: dispatch_def dispatch_start_def dispatch_finish_def ob_send_def w1_def)
  ultimately show ?thesis using w3 four by blast
qed

theorem failed_registration_leaves_worker_witness:
  "\<exists>e reg3 w. writer_step tiny_cbor 7 \<lparr>wt_bytes = [], wt_fault = None\<rparr> (sample_registry 0 {} (take 1 sample_sent)) =
       (Some (0, AckErr e), \<lparr>wt_bytes = [], wt_fault = None\<rparr>, reg3) \<and>
     register_acked (AckErr e) ''mail'' reg3 = (Inl e, reg3) \<and>
     map_of (rg_workers reg3) 7 = Some w \<and> eligible ''mail'' w \<and>
     (\<exists>m. fst (dispatch sample_permit sample_job 1 (\<lambda>g. g) AckOk reg3) = Inl m)"
proof -
  define e where "e = show_ProtocolError (Malformed ''unsupported'')"
  define reg3 where "reg3 = snd (snd (writer_step tiny_cbor 7 \<lparr>wt_bytes = [], wt_fault = None\<rparr> (sample_registry 0 {} (take 1 sample_sent))))"
  have fail: "writer_step tiny_cbor 7 \<lparr>wt_bytes = [], wt_fault = None\<rparr> (sample_registry 0 {} (take 1 sample_sent)) =
       (Some (0, AckErr e), \<lparr>wt_bytes = [], wt_fault = None\<rparr>, reg3)"
    by (simp add: reg3_def e_def writer_step_def registry_eval dispatcher_write_frame_def encode_frame_def tiny_cbor_def)
  have acked: "register_acked (AckErr e) ''mail'' reg3 = (Inl e, reg3)" by (simp add: register_acked_def)
  have pl: "payload (v1 (Register 7 ''mail'' 0 2)) = Register 7 ''mail'' 0 2" by (simp add: v1_def)
  have d: "rsv_permit sample_permit = RegistryPermit 7" "job_dispatch_id sample_job = Some ''d''"
    by (simp_all add: sample_job_def from_accepted_def)
  have two: "(0 :: u32) < 2" by simp
  note ok = failed_registration_leaves_worker [OF sample_register pl two sample_register_send fail acked, of 0 "Inr ()"]
  from ok obtain w where "map_of (rg_workers reg3) 7 = Some w" "eligible ''mail'' w" by blast
  moreover have "\<exists>m. fst (dispatch sample_permit sample_job 1 (\<lambda>g. g) AckOk reg3) = Inl m" using ok d by blast
  ultimately show ?thesis using fail acked by blast
qed

end
