(* ===== verification/Maq_Scheduler.thy ===== *)
theory Maq_Scheduler
  imports Maq_Types
begin

text \<open>
  The scheduler state of the engine (\<open>crates/engine/src/lib.rs\<close>): which queues are scheduled, the
  wake-up channel, the sleeping retries and the idle queues, with every operation that takes the
  scheduler's lock. The wake-up channel is unbounded and its receiver lives as long as the engine, so
  a send always succeeds; the source sends after it has released the lock, here the send belongs to the locked section.
\<close>

section \<open>State\<close>

record QueueSchedule =
  qs_rerun :: bool
  qs_retry_count :: u8

definition QueueSchedule_default :: QueueSchedule where
  "QueueSchedule_default = \<lparr>qs_rerun = False, qs_retry_count = 0\<rparr>"

text \<open>
  \<open>SchedulerState\<close>, with the contents of the wake-up channel and the retries that sleep before they
  call \<open>resume_retry\<close>.
\<close>

record SchedulerState =
  sc_scheduled :: "string \<rightharpoonup> QueueSchedule"
  sc_idle :: "string list"
  sc_idle_set :: "string set"
  sc_tx :: "string list"
  sc_sleeping :: "(string \<times> duration) list"

definition SchedulerState_default :: SchedulerState where
  "SchedulerState_default =
     \<lparr>sc_scheduled = Map.empty, sc_idle = [], sc_idle_set = {}, sc_tx = [], sc_sleeping = []\<rparr>"

datatype PassOutcome = Active | Idle | CapacityBlocked | Retry

section \<open>Operations\<close>

definition sc_send :: "string \<Rightarrow> SchedulerState \<Rightarrow> SchedulerState" where
  "sc_send queue s = s\<lparr>sc_tx := sc_tx s @ [queue]\<rparr>"

definition schedule_queue :: "string \<Rightarrow> SchedulerState \<Rightarrow> SchedulerState" where
  "schedule_queue queue s =
     (case sc_scheduled s queue of
        Some schedule \<Rightarrow> s\<lparr>sc_scheduled := (sc_scheduled s)(queue \<mapsto> schedule\<lparr>qs_rerun := True\<rparr>)\<rparr>
      | None \<Rightarrow>
          sc_send queue (s\<lparr>sc_idle_set := sc_idle_set s - {queue},
                           sc_scheduled := (sc_scheduled s)(queue \<mapsto> QueueSchedule_default)\<rparr>))"

text \<open>\<open>idle_set.insert\<close> and, when the queue was not in the set, \<open>idle.push_back\<close>.\<close>

definition push_idle :: "string \<Rightarrow> SchedulerState \<Rightarrow> SchedulerState" where
  "push_idle queue s =
     (if queue \<in> sc_idle_set s then s
      else s\<lparr>sc_idle_set := insert queue (sc_idle_set s), sc_idle := sc_idle s @ [queue]\<rparr>)"

definition u64_saturating_mul :: "u64 \<Rightarrow> u64 \<Rightarrow> u64" where
  "u64_saturating_mul a b = (if unat a * unat b < 18446744073709551616 then a * b else 18446744073709551615)"

definition retry_delay :: "u8 \<Rightarrow> duration" where
  "retry_delay retry_count =
     (let delay_ms = u64_saturating_mul 10 (push_bit (unat retry_count) 1)
      in from_millis (unat (min delay_ms 1000)))"

definition finish_pass :: "string \<Rightarrow> PassOutcome \<Rightarrow> SchedulerState \<Rightarrow> SchedulerState" where
  "finish_pass queue outcome s =
     (case sc_scheduled s queue of
        None \<Rightarrow> s
      | Some schedule \<Rightarrow>
          (let resend = sc_send queue (s\<lparr>sc_scheduled := (sc_scheduled s)(queue \<mapsto> schedule\<lparr>qs_rerun := False, qs_retry_count := 0\<rparr>)\<rparr>) in
           case outcome of
             Active \<Rightarrow> resend
           | Retry \<Rightarrow>
               (let count = min (u8_saturating_add (qs_retry_count schedule) 1) 7
                in s\<lparr>sc_scheduled := (sc_scheduled s)(queue \<mapsto> schedule\<lparr>qs_rerun := False, qs_retry_count := count\<rparr>),
                     sc_sleeping := sc_sleeping s @ [(queue, retry_delay count)]\<rparr>)
           | _ \<Rightarrow>
               if qs_rerun schedule then resend
               else push_idle queue (s\<lparr>sc_scheduled := (sc_scheduled s)(queue := None)\<rparr>)))"

definition resume_retry :: "string \<Rightarrow> SchedulerState \<Rightarrow> SchedulerState" where
  "resume_retry queue s = (if sc_scheduled s queue \<noteq> None then sc_send queue s else s)"

text \<open>A sleeping retry (the \<open>n\<close>-th) wakes up.\<close>

definition wake_retry :: "nat \<Rightarrow> SchedulerState \<Rightarrow> SchedulerState" where
  "wake_retry n s =
     resume_retry (fst (sc_sleeping s ! n)) (s\<lparr>sc_sleeping := take n (sc_sleeping s) @ drop (Suc n) (sc_sleeping s)\<rparr>)"

text \<open>\<open>seed_idle_queues\<close> on the answer of \<open>list_queues\<close>.\<close>

definition seed_idle_queues :: "StoreError + JobQueue list \<Rightarrow> SchedulerState \<Rightarrow> SchedulerState" where
  "seed_idle_queues listed s =
     (case listed of Inl _ \<Rightarrow> s | Inr queues \<Rightarrow> fold (\<lambda>queue. push_idle (jq_name queue)) queues s)"

text \<open>
  The locked section of \<open>probe_idle_queues\<close>: \<open>room\<close> is how many more queues are taken. The queues it
  returns are scheduled afterwards, one by one.
\<close>

fun probe_loop :: "nat \<Rightarrow> string list \<Rightarrow> SchedulerState \<Rightarrow> string list \<times> SchedulerState" where
  "probe_loop 0 idle s = ([], s\<lparr>sc_idle := idle\<rparr>)"
| "probe_loop (Suc room) [] s = ([], s\<lparr>sc_idle := []\<rparr>)"
| "probe_loop (Suc room) (queue # idle) s =
     (let s1 = s\<lparr>sc_idle_set := sc_idle_set s - {queue}\<rparr> in
      if sc_scheduled s queue = None then
        let (queues, s2) = probe_loop room idle s1 in (queue # queues, s2)
      else probe_loop (Suc room) idle s1)"

definition probe_pop :: "DispatchOptions \<Rightarrow> SchedulerState \<Rightarrow> string list \<times> SchedulerState" where
  "probe_pop options s = probe_loop (do_idle_probe_batch_size options) (sc_idle s) s"

definition probe_idle_queues :: "DispatchOptions \<Rightarrow> SchedulerState \<Rightarrow> SchedulerState" where
  "probe_idle_queues options s = (let (queues, s1) = probe_pop options s in fold schedule_queue queues s1)"

text \<open>The scheduler task takes a queue and everything else that waits in the channel.\<close>

definition take_queues :: "SchedulerState \<Rightarrow> string list \<times> SchedulerState" where
  "take_queues s = (sc_tx s, s\<lparr>sc_tx := []\<rparr>)"

section \<open>Runs\<close>

text \<open>
  A run of the scheduler interleaves every locked section. Beside the state: the queues of the pass
  in progress, the queues a probe has taken and not yet scheduled, and the queues that
  were ever seeded or scheduled. There is one scheduler task, so a pass starts when the last
  has ended.
\<close>

record SchedRun =
  rn_state :: SchedulerState
  rn_passing :: "string multiset"
  rn_probing :: "string multiset"
  rn_known :: "string set"

inductive sched_step :: "SchedRun \<Rightarrow> SchedRun \<Rightarrow> bool" where
  sd_schedule: "sched_step x (x\<lparr>rn_state := schedule_queue q (rn_state x), rn_known := insert q (rn_known x)\<rparr>)"
| sd_seed: "sched_step x (x\<lparr>rn_state := seed_idle_queues listed (rn_state x),
     rn_known := rn_known x \<union> (case listed of Inl _ \<Rightarrow> {} | Inr queues \<Rightarrow> jq_name ` set queues)\<rparr>)"
| sd_take: "rn_passing x = {#} \<Longrightarrow> take_queues (rn_state x) = (queues, s) \<Longrightarrow>
    sched_step x (x\<lparr>rn_state := s, rn_passing := mset queues\<rparr>)"
| sd_finish: "q \<in># rn_passing x \<Longrightarrow>
    sched_step x (x\<lparr>rn_state := finish_pass q outcome (rn_state x), rn_passing := rn_passing x - {#q#}\<rparr>)"
| sd_wake: "n < length (sc_sleeping (rn_state x)) \<Longrightarrow> sched_step x (x\<lparr>rn_state := wake_retry n (rn_state x)\<rparr>)"
| sd_probe: "probe_pop options (rn_state x) = (queues, s) \<Longrightarrow>
    sched_step x (x\<lparr>rn_state := s, rn_probing := rn_probing x + mset queues\<rparr>)"
| sd_probed: "q \<in># rn_probing x \<Longrightarrow>
    sched_step x (x\<lparr>rn_state := schedule_queue q (rn_state x), rn_probing := rn_probing x - {#q#}\<rparr>)"

definition SchedRun_start :: SchedRun where
  "SchedRun_start = \<lparr>rn_state = SchedulerState_default, rn_passing = {#}, rn_probing = {#}, rn_known = {}\<rparr>"

inductive sched_reach :: "SchedRun \<Rightarrow> bool" where
  sched_start: "sched_reach SchedRun_start"
| sched_next: "sched_reach x \<Longrightarrow> sched_step x y \<Longrightarrow> sched_reach y"

section \<open>Field lemmas\<close>

lemma schedule_queue_sel [simp]:
  "sc_idle (schedule_queue q s) = sc_idle s" "sc_sleeping (schedule_queue q s) = sc_sleeping s"
  "sc_tx (schedule_queue q s) = (if sc_scheduled s q = None then sc_tx s @ [q] else sc_tx s)"
  "sc_idle_set (schedule_queue q s) = (if sc_scheduled s q = None then sc_idle_set s - {q} else sc_idle_set s)"
  "dom (sc_scheduled (schedule_queue q s)) = insert q (dom (sc_scheduled s))"
  by (auto simp: schedule_queue_def sc_send_def split: option.splits)

lemma schedule_queue_scheduled:
  "sc_scheduled (schedule_queue q s) k =
     (if k = q then Some (case sc_scheduled s q of None \<Rightarrow> QueueSchedule_default | Some d \<Rightarrow> d\<lparr>qs_rerun := True\<rparr>)
      else sc_scheduled s k)"
  by (auto simp: schedule_queue_def sc_send_def split: option.splits)

lemma push_idle_sel [simp]:
  "sc_scheduled (push_idle q s) = sc_scheduled s" "sc_tx (push_idle q s) = sc_tx s" "sc_sleeping (push_idle q s) = sc_sleeping s"
  "sc_idle_set (push_idle q s) = insert q (sc_idle_set s)"
  "set (sc_idle (push_idle q s)) = (if q \<in> sc_idle_set s then set (sc_idle s) else insert q (set (sc_idle s)))"
  by (auto simp: push_idle_def)

lemma seed_idle_queues_sel:
  "sc_scheduled (fold (\<lambda>queue. push_idle (jq_name queue)) queues s) = sc_scheduled s"
  "sc_tx (fold (\<lambda>queue. push_idle (jq_name queue)) queues s) = sc_tx s"
  "sc_sleeping (fold (\<lambda>queue. push_idle (jq_name queue)) queues s) = sc_sleeping s"
  "sc_idle_set (fold (\<lambda>queue. push_idle (jq_name queue)) queues s) = sc_idle_set s \<union> jq_name ` set queues"
  by (induction queues arbitrary: s) auto

lemma seed_idle_queues_idle:
  "sc_idle_set s \<subseteq> set (sc_idle s) \<Longrightarrow>
     sc_idle_set (fold (\<lambda>queue. push_idle (jq_name queue)) queues s) \<subseteq>
     set (sc_idle (fold (\<lambda>queue. push_idle (jq_name queue)) queues s))"
proof (induction queues arbitrary: s)
  case (Cons queue queues)
  have "sc_idle_set (push_idle (jq_name queue) s) \<subseteq> set (sc_idle (push_idle (jq_name queue) s))" using Cons.prems by auto
  from Cons.IH [OF this] show ?case by simp
qed simp

lemma probe_loop_eq:
  assumes "probe_loop room idle s = (queues, s')"
  shows "\<exists>k. k \<le> length idle \<and> queues = filter (\<lambda>q. sc_scheduled s q = None) (take k idle) \<and> length queues \<le> room \<and>
    (k < length idle \<longrightarrow> length queues = room) \<and>
    s' = s\<lparr>sc_idle := drop k idle, sc_idle_set := sc_idle_set s - set (take k idle)\<rparr>"
  using assms
proof (induction room idle s arbitrary: queues rule: probe_loop.induct)
  case (1 idle s)
  then show ?case by (intro exI [of _ 0]) auto
next
  case (2 room s)
  then show ?case by (intro exI [of _ 0]) auto
next
  case (3 room queue idle s)
  let ?s1 = "s\<lparr>sc_idle_set := sc_idle_set s - {queue}\<rparr>"
  show ?case
  proof (cases "sc_scheduled s queue = None")
    case True
    with 3(3) obtain qs where qs: "probe_loop room idle ?s1 = (qs, s')" "queues = queue # qs"
      by (auto simp: Let_def split: prod.splits)
    from 3(1) [OF refl True qs(1)] obtain k where "k \<le> length idle" "qs = filter (\<lambda>q. sc_scheduled ?s1 q = None) (take k idle)"
      "length qs \<le> room" "k < length idle \<longrightarrow> length qs = room"
      "s' = ?s1\<lparr>sc_idle := drop k idle, sc_idle_set := sc_idle_set ?s1 - set (take k idle)\<rparr>" by blast
    with qs(2) True show ?thesis by (intro exI [of _ "Suc k"]) (simp add: Diff_insert [symmetric] set_diff_eq)
  next
    case False
    with 3(3) have "probe_loop (Suc room) idle ?s1 = (queues, s')" by (simp add: Let_def)
    from 3(2) [OF refl False this] obtain k where "k \<le> length idle" "queues = filter (\<lambda>q. sc_scheduled ?s1 q = None) (take k idle)"
      "length queues \<le> Suc room" "k < length idle \<longrightarrow> length queues = Suc room"
      "s' = ?s1\<lparr>sc_idle := drop k idle, sc_idle_set := sc_idle_set ?s1 - set (take k idle)\<rparr>" by blast
    with False show ?thesis by (intro exI [of _ "Suc k"]) (simp add: Diff_insert [symmetric] set_diff_eq)
  qed
qed

section \<open>Retry delays\<close>

text \<open>The back-off of the \<open>k\<close>-th retry in a row, in milliseconds.\<close>

definition backoff_ms :: "nat \<Rightarrow> nat" where
  "backoff_ms k = min (10 * 2 ^ min k 7) 1000"

lemma unat_retry_count: "unat (min (u8_saturating_add c 1) 7) = min (Suc (unat c)) 7"
proof -
  have "unat c < 256" using unsigned_less [of c, where 'a = nat] by simp
  then have "unat (u8_saturating_add c 1) = min (Suc (unat c)) 255"
    by (simp add: u8_saturating_add_def unat_word_ariths)
  then show ?thesis by (simp add: min_def word_le_nat_alt)
qed

lemma retry_delay_eq:
  assumes "unat c \<le> 7"
  shows "retry_delay c = from_millis (backoff_ms (unat c))"
proof -
  have "unat (push_bit (unat c) 1 :: u64) = 2 ^ unat c"
  proof -
    have "(2 :: nat) ^ unat c \<le> 2 ^ 7" using assms by (intro power_increasing) simp_all
    then have "(2 :: nat) ^ unat c < 2 ^ 64" by simp
    then show ?thesis by (simp add: push_bit_eq_mult unat_of_nat [of "2 ^ unat c", simplified])
  qed
  moreover have "(2 :: nat) ^ unat c \<le> 2 ^ 7" using assms by (intro power_increasing) simp_all
  ultimately have "unat (u64_saturating_mul 10 (push_bit (unat c) 1)) = 10 * 2 ^ unat c"
    by (simp add: u64_saturating_mul_def unat_word_ariths)
  then show ?thesis
    using assms by (simp add: retry_delay_def Let_def backoff_ms_def min_def word_le_nat_alt)
qed

section \<open>Tokens\<close>

text \<open>
  A queue's tokens: its places in the wake-up channel, in the pass in progress and among the
  sleeping retries.
\<close>

definition waiting :: "SchedulerState \<Rightarrow> string \<Rightarrow> nat" where
  "waiting s q = count (mset (sc_tx s)) q + count (mset (map fst (sc_sleeping s))) q"

definition tokens :: "SchedRun \<Rightarrow> string \<Rightarrow> nat" where
  "tokens x q = waiting (rn_state x) q + count (rn_passing x) q"

definition sched_inv :: "SchedRun \<Rightarrow> bool" where
  "sched_inv x \<longleftrightarrow>
     (\<forall>q. tokens x q = (if sc_scheduled (rn_state x) q = None then 0 else 1)) \<and>
     sc_idle_set (rn_state x) \<subseteq> set (sc_idle (rn_state x)) \<and>
     rn_known x \<subseteq> dom (sc_scheduled (rn_state x)) \<union> sc_idle_set (rn_state x) \<union> set_mset (rn_probing x)"

definition retries_ok :: "SchedulerState \<Rightarrow> bool" where
  "retries_ok s \<longleftrightarrow>
     (\<forall>q d. sc_scheduled s q = Some d \<longrightarrow> unat (qs_retry_count d) \<le> 7) \<and>
     (\<forall>(q, t)\<in>set (sc_sleeping s). \<exists>k. 1 \<le> k \<and> k \<le> 7 \<and> t = from_millis (backoff_ms k))"

lemma schedule_queue_tokens:
  "tokens (x\<lparr>rn_state := schedule_queue k (rn_state x)\<rparr>) q =
     tokens x q + (if q = k \<and> sc_scheduled (rn_state x) k = None then 1 else 0)"
  by (simp add: tokens_def waiting_def)

lemma finish_pass_waiting:
  "waiting (finish_pass k oc s) q = waiting s q +
     (if q = k \<and> sc_scheduled s k \<noteq> None \<and> sc_scheduled (finish_pass k oc s) k \<noteq> None then 1 else 0)"
  by (cases oc) (auto simp: finish_pass_def waiting_def sc_send_def Let_def split: option.splits)

lemma finish_pass_dom: "q \<noteq> k \<Longrightarrow> sc_scheduled (finish_pass k oc s) q = sc_scheduled s q"
  by (cases oc) (auto simp: finish_pass_def sc_send_def Let_def split: option.splits)

lemma finish_pass_idle:
  "sc_idle_set s \<subseteq> set (sc_idle s) \<Longrightarrow>
     sc_idle_set (finish_pass k oc s) \<subseteq> set (sc_idle (finish_pass k oc s)) \<and>
     dom (sc_scheduled s) \<union> sc_idle_set s \<subseteq> dom (sc_scheduled (finish_pass k oc s)) \<union> sc_idle_set (finish_pass k oc s)"
  by (cases oc) (auto simp: finish_pass_def sc_send_def Let_def split: option.splits if_splits)

lemma wake_retry_waiting:
  assumes "n < length (sc_sleeping s)" and "sc_scheduled s (fst (sc_sleeping s ! n)) \<noteq> None"
  shows "waiting (wake_retry n s) q = waiting s q"
proof -
  have "map fst (sc_sleeping s) = map fst (take n (sc_sleeping s) @ sc_sleeping s ! n # drop (Suc n) (sc_sleeping s))"
    using id_take_nth_drop [OF assms(1)] by simp
  then have "mset (map fst (sc_sleeping s)) =
      add_mset (fst (sc_sleeping s ! n)) (mset (map fst (take n (sc_sleeping s) @ drop (Suc n) (sc_sleeping s))))" by simp
  then show ?thesis
    using assms(2) by (simp add: waiting_def wake_retry_def resume_retry_def sc_send_def)
qed

lemma wake_retry_sel [simp]:
  "sc_scheduled (wake_retry n s) = sc_scheduled s" "sc_idle (wake_retry n s) = sc_idle s" "sc_idle_set (wake_retry n s) = sc_idle_set s"
  by (simp_all add: wake_retry_def resume_retry_def sc_send_def)

lemma sched_step_inv:
  assumes "sched_step x y" and "sched_inv x"
  shows "sched_inv y"
  using assms
proof (induction rule: sched_step.induct)
  case (sd_schedule x q)
  have "tokens (x\<lparr>rn_state := schedule_queue q (rn_state x), rn_known := insert q (rn_known x)\<rparr>) k =
      tokens (x\<lparr>rn_state := schedule_queue q (rn_state x)\<rparr>) k" for k by (simp add: tokens_def)
  with sd_schedule show ?case
    by (auto simp: sched_inv_def schedule_queue_tokens schedule_queue_scheduled split: if_splits)
next
  case (sd_seed x listed)
  then show ?case
  proof (cases listed)
    case (Inr queues)
    let ?s = "fold (\<lambda>queue. push_idle (jq_name queue)) queues (rn_state x)"
    have "sc_idle_set ?s \<subseteq> set (sc_idle ?s)" using sd_seed by (intro seed_idle_queues_idle) (simp add: sched_inv_def)
    with sd_seed Inr show ?thesis
      by (auto simp: sched_inv_def seed_idle_queues_def seed_idle_queues_sel tokens_def waiting_def)
  qed (simp add: seed_idle_queues_def)
next
  case (sd_take x queues s)
  then have "tokens (x\<lparr>rn_state := s, rn_passing := mset queues\<rparr>) q = tokens x q" for q
    by (auto simp: take_queues_def tokens_def waiting_def)
  with sd_take show ?case by (auto simp: sched_inv_def take_queues_def)
next
  case (sd_finish q x outcome)
  then have "0 < tokens x q" by (simp add: tokens_def)
  then have sch: "sc_scheduled (rn_state x) q \<noteq> None" using sd_finish(2) by (auto simp: sched_inv_def split: if_splits)
  let ?y = "x\<lparr>rn_state := finish_pass q outcome (rn_state x), rn_passing := rn_passing x - {#q#}\<rparr>"
  have "tokens ?y k = (if sc_scheduled (rn_state ?y) k = None then 0 else 1)" for k
  proof (cases "k = q")
    case True
    have "tokens x q = 1" using sd_finish(2) sch by (simp add: sched_inv_def)
    moreover have "0 < count (rn_passing x) q" using sd_finish(1) by simp
    ultimately have "waiting (rn_state x) q = 0" "count (rn_passing x) q = 1" unfolding tokens_def by linarith+
    then show ?thesis using True sch by (simp add: tokens_def finish_pass_waiting)
  next
    case False
    then show ?thesis using sd_finish(2) by (simp add: tokens_def finish_pass_waiting finish_pass_dom sched_inv_def)
  qed
  moreover from sd_finish(2) have idle: "sc_idle_set (rn_state ?y) \<subseteq> set (sc_idle (rn_state ?y))"
      "dom (sc_scheduled (rn_state x)) \<union> sc_idle_set (rn_state x) \<subseteq> dom (sc_scheduled (rn_state ?y)) \<union> sc_idle_set (rn_state ?y)"
    using finish_pass_idle [of "rn_state x" q outcome] by (simp_all add: sched_inv_def)
  moreover have "rn_known ?y \<subseteq> dom (sc_scheduled (rn_state ?y)) \<union> sc_idle_set (rn_state ?y) \<union> set_mset (rn_probing ?y)"
    using sd_finish(2) idle(2) unfolding sched_inv_def by (simp add: subset_iff) blast
  ultimately show ?case by (simp add: sched_inv_def)
next
  case (sd_wake n x)
  let ?q = "fst (sc_sleeping (rn_state x) ! n)"
  have "?q \<in># mset (map fst (sc_sleeping (rn_state x)))" using sd_wake(1) by simp
  then have "0 < tokens x ?q" by (simp add: tokens_def waiting_def)
  then have "sc_scheduled (rn_state x) ?q \<noteq> None" using sd_wake(2) by (auto simp: sched_inv_def split: if_splits)
  with wake_retry_waiting [OF sd_wake(1)] sd_wake(2) show ?case by (auto simp: sched_inv_def tokens_def)
next
  case (sd_probe options x queues s)
  from probe_loop_eq [OF sd_probe(1) [unfolded probe_pop_def]] obtain k where k:
    "queues = filter (\<lambda>q. sc_scheduled (rn_state x) q = None) (take k (sc_idle (rn_state x)))"
    "s = (rn_state x)\<lparr>sc_idle := drop k (sc_idle (rn_state x)), sc_idle_set := sc_idle_set (rn_state x) - set (take k (sc_idle (rn_state x)))\<rparr>"
    by blast
  have "set (sc_idle (rn_state x)) = set (take k (sc_idle (rn_state x))) \<union> set (drop k (sc_idle (rn_state x)))"
    by (metis append_take_drop_id set_append)
  with sd_probe(2) k show ?case by (auto simp: sched_inv_def tokens_def waiting_def)
next
  case (sd_probed q x)
  have "tokens (x\<lparr>rn_state := schedule_queue q (rn_state x), rn_probing := rn_probing x - {#q#}\<rparr>) k =
      tokens (x\<lparr>rn_state := schedule_queue q (rn_state x)\<rparr>) k" for k by (simp add: tokens_def)
  with sd_probed show ?case
    by (auto simp: sched_inv_def schedule_queue_tokens schedule_queue_scheduled in_diff_count split: if_splits)
qed

lemma sched_reach_inv: "sched_reach x \<Longrightarrow> sched_inv x"
proof (induction rule: sched_reach.induct)
  case sched_start
  then show ?case by (simp add: sched_inv_def SchedRun_start_def SchedulerState_default_def tokens_def waiting_def)
qed (rule sched_step_inv)

section \<open>Properties of the scheduler\<close>

text \<open>
  One token per scheduled queue. In every interleaving of wake-ups, passes, retries and idle
  probes, a scheduled queue is in exactly one place (the wake-up channel, the pass in progress or the
  sleeping retries) and a queue that is not scheduled is in none: a queue is never drained by two
  passes at once and the channel never holds it twice.
\<close>

theorem scheduled_queue_has_one_token:
  assumes "sched_reach x"
  shows "count (mset (sc_tx (rn_state x))) q + count (rn_passing x) q + count (mset (map fst (sc_sleeping (rn_state x)))) q =
    (if sc_scheduled (rn_state x) q = None then 0 else 1)"
proof -
  have "tokens x q = (if sc_scheduled (rn_state x) q = None then 0 else 1)"
    using sched_reach_inv [OF assms] by (simp add: sched_inv_def)
  then show ?thesis by (simp add: tokens_def waiting_def)
qed

text \<open>A run: two queues are known, one is in a pass and woken up meanwhile, the other is idle.\<close>

definition sample_run :: SchedRun where
  "sample_run =
     \<lparr>rn_state = \<lparr>sc_scheduled = [''mail'' \<mapsto> \<lparr>qs_rerun = True, qs_retry_count = 0\<rparr>], sc_idle = [''mail'', ''sms''],
        sc_idle_set = {''sms''}, sc_tx = [], sc_sleeping = []\<rparr>,
      rn_passing = {#''mail''#}, rn_probing = {#}, rn_known = {''mail'', ''sms''}\<rparr>"

lemma sample_run_reach: "sched_reach sample_run"
proof -
  let ?queues = "[JobQueue_new 0 ''mail'', JobQueue_new 0 ''sms'']"
  let ?s1 = "seed_idle_queues (Inr ?queues) SchedulerState_default"
  let ?x1 = "SchedRun_start\<lparr>rn_state := ?s1, rn_known := {''mail'', ''sms''}\<rparr>"
  let ?x2 = "SchedRun_start\<lparr>rn_state := schedule_queue ''mail'' ?s1, rn_known := {''mail'', ''sms''}\<rparr>"
  let ?x3 = "?x2\<lparr>rn_state := (schedule_queue ''mail'' ?s1)\<lparr>sc_tx := []\<rparr>, rn_passing := {#''mail''#}\<rparr>"
  note defs = SchedRun_start_def SchedulerState_default_def seed_idle_queues_def push_idle_def JobQueue_new_def schedule_queue_def
    sc_send_def QueueSchedule_default_def take_queues_def
  have "sched_step SchedRun_start ?x1"
    using sd_seed [of SchedRun_start "Inr ?queues"] by (simp add: SchedRun_start_def JobQueue_new_def insert_commute)
  from sched_next [OF sched_start this] have "sched_reach ?x1" .
  moreover have "sched_step ?x1 ?x2" using sd_schedule [of ?x1 "''mail''"] by simp
  ultimately have "sched_reach ?x2" by (rule sched_next)
  moreover have "sched_step ?x2 ?x3"
    using sd_take [of ?x2 "[''mail'']" "(schedule_queue ''mail'' ?s1)\<lparr>sc_tx := []\<rparr>"] by (simp add: defs)
  ultimately have "sched_reach ?x3" by (rule sched_next)
  moreover have "sched_step ?x3 sample_run" using sd_schedule [of ?x3 "''mail''"] by (simp add: sample_run_def defs insert_Diff_if)
  ultimately show ?thesis by (rule sched_next)
qed

theorem scheduled_queue_has_one_token_witness:
  "count (mset (sc_tx (rn_state sample_run))) ''mail'' + count (rn_passing sample_run) ''mail'' +
     count (mset (map fst (sc_sleeping (rn_state sample_run)))) ''mail'' = 1"
  using scheduled_queue_has_one_token [OF sample_run_reach, of "''mail''"] by (simp add: sample_run_def)

text \<open>
  No queue is forgotten: a queue that was ever seeded from the store or scheduled is always
  scheduled, about to be scheduled by a probe, or in the deque that the idle probe reads.
\<close>

theorem no_queue_forgotten:
  assumes "sched_reach x" and "q \<in> rn_known x"
  shows "sc_scheduled (rn_state x) q \<noteq> None \<or> q \<in># rn_probing x \<or> q \<in> set (sc_idle (rn_state x))"
  using sched_reach_inv [OF assms(1)] assms(2) by (auto simp: sched_inv_def)

theorem no_queue_forgotten_witness: "''sms'' \<in> set (sc_idle (rn_state sample_run))"
  using no_queue_forgotten [OF sample_run_reach, of "''sms''"] by (simp add: sample_run_def)

text \<open>A pass over the queue is owed: it waits for one, sleeps before one, or is in one that must be repeated.\<close>

definition owed :: "string \<Rightarrow> SchedRun \<Rightarrow> bool" where
  "owed q x \<longleftrightarrow>
     q \<in> set (sc_tx (rn_state x)) \<or> q \<in> fst ` set (sc_sleeping (rn_state x)) \<or>
     q \<in># rn_passing x \<and> (\<exists>d. sc_scheduled (rn_state x) q = Some d \<and> qs_rerun d)"

lemma waiting_pos: "0 < waiting s q \<longleftrightarrow> q \<in> set (sc_tx s) \<or> q \<in> fst ` set (sc_sleeping s)"
proof -
  have "q \<in> set (sc_tx s) \<longleftrightarrow> 0 < count (mset (sc_tx s)) q"
    and "q \<in> fst ` set (sc_sleeping s) \<longleftrightarrow> 0 < count (mset (map fst (sc_sleeping s))) q"
    by (simp_all only: count_greater_zero_iff set_mset_mset set_map)
  then show ?thesis unfolding waiting_def by linarith
qed

lemma owed_iff:
  "owed q x \<longleftrightarrow> 0 < waiting (rn_state x) q \<or>
     q \<in># rn_passing x \<and> (\<exists>d. sc_scheduled (rn_state x) q = Some d \<and> qs_rerun d)"
  by (simp add: owed_def waiting_pos)

lemma schedule_queue_waiting:
  "waiting (schedule_queue k s) q = waiting s q + (if q = k \<and> sc_scheduled s k = None then 1 else 0)"
  by (simp add: waiting_def)

lemma schedule_queue_owed:
  assumes "sched_inv x"
  shows "owed q (x\<lparr>rn_state := schedule_queue q (rn_state x), rn_known := K\<rparr>)"
proof (cases "sc_scheduled (rn_state x) q")
  case None
  then show ?thesis by (simp add: owed_iff schedule_queue_waiting)
next
  case (Some d)
  then have "tokens x q = 1" using assms by (simp add: sched_inv_def)
  then show ?thesis
    using Some by (cases "q \<in># rn_passing x")
      (auto simp: owed_iff schedule_queue_scheduled schedule_queue_waiting tokens_def not_in_iff)
qed

lemma schedule_queue_keeps_owed:
  "owed q x \<Longrightarrow> owed q (x\<lparr>rn_state := schedule_queue k (rn_state x), rn_known := K, rn_probing := P\<rparr>)"
  by (auto simp: owed_iff schedule_queue_scheduled schedule_queue_waiting split: option.splits)

lemma finish_pass_keeps_owed:
  assumes inv: "sched_inv x" and o: "owed q x" and k: "k \<in># rn_passing x"
  shows "owed q (x\<lparr>rn_state := finish_pass k outcome (rn_state x), rn_passing := rn_passing x - {#k#}\<rparr>)"
proof (cases "q = k")
  case False
  then have "q \<in># rn_passing x - {#k#} \<longleftrightarrow> q \<in># rn_passing x" by (simp add: in_diff_count)
  with False o show ?thesis
    by (simp add: owed_iff finish_pass_waiting finish_pass_dom)
next
  case True
  have tok: "tokens x k = (if sc_scheduled (rn_state x) k = None then 0 else 1)" using inv by (simp add: sched_inv_def)
  have pos: "0 < count (rn_passing x) k" using k by simp
  have sch: "sc_scheduled (rn_state x) k \<noteq> None"
  proof
    assume "sc_scheduled (rn_state x) k = None"
    then show False using tok pos by (simp add: tokens_def)
  qed
  with tok have "waiting (rn_state x) k + count (rn_passing x) k = 1" by (simp add: tokens_def)
  with pos have "waiting (rn_state x) k = 0" by linarith
  with sch obtain d where d: "sc_scheduled (rn_state x) k = Some d" "qs_rerun d"
    using o True by (auto simp: owed_iff)
  then have "sc_scheduled (finish_pass k outcome (rn_state x)) k \<noteq> None"
    by (cases outcome) (simp_all add: finish_pass_def sc_send_def Let_def)
  then have "0 < waiting (finish_pass k outcome (rn_state x)) k" using sch by (simp add: finish_pass_waiting)
  then show ?thesis using True by (simp add: owed_iff)
qed

text \<open>
  C8. No wake-up is lost. \<open>schedule_queue\<close> leaves a pass over the queue owed, at whatever moment it
  comes (before, during or after a pass, during a retry's sleep), and no step makes the debt
  disappear except the scheduler taking the queue out of the channel for a pass that starts then.
\<close>

theorem no_lost_wakeup:
  assumes "sched_reach x"
  shows "owed q (x\<lparr>rn_state := schedule_queue q (rn_state x), rn_known := insert q (rn_known x)\<rparr>) \<and>
    (\<forall>y. owed q x \<and> sched_step x y \<longrightarrow> owed q y \<or> rn_passing x = {#} \<and> q \<in># rn_passing y)"
proof (intro conjI allI impI, rule schedule_queue_owed [OF sched_reach_inv [OF assms]])
  fix y assume "owed q x \<and> sched_step x y"
  then have o: "owed q x" and st: "sched_step x y" by blast+
  have inv: "sched_inv x" using sched_reach_inv [OF assms] .
  from st show "owed q y \<or> rn_passing x = {#} \<and> q \<in># rn_passing y"
  proof cases
    case (sd_schedule k)
    then show ?thesis using schedule_queue_keeps_owed [OF o, where k = k and K = "insert k (rn_known x)" and P = "rn_probing x"] by simp
  next
    case (sd_seed listed)
    then show ?thesis using o by (cases listed) (auto simp: owed_def seed_idle_queues_def seed_idle_queues_sel)
  next
    case (sd_take queues s)
    then show ?thesis using o by (auto simp: owed_def take_queues_def)
  next
    case (sd_finish k outcome)
    then show ?thesis using finish_pass_keeps_owed [OF inv o] by blast
  next
    case (sd_wake n)
    let ?k = "fst (sc_sleeping (rn_state x) ! n)"
    have "?k \<in># mset (map fst (sc_sleeping (rn_state x)))" using sd_wake(2) by simp
    then have "0 < tokens x ?k" by (simp add: tokens_def waiting_def)
    then have sch: "sc_scheduled (rn_state x) ?k \<noteq> None" using inv by (auto simp: sched_inv_def split: if_splits)
    have "0 < waiting (rn_state y) q \<longleftrightarrow> 0 < waiting (rn_state x) q"
      using wake_retry_waiting [OF sd_wake(2) sch] sd_wake(1) by simp
    with o sd_wake(1) show ?thesis by (auto simp: owed_iff)
  next
    case (sd_probe options queues s)
    from probe_loop_eq [OF sd_probe(2) [unfolded probe_pop_def]] have
      "sc_tx s = sc_tx (rn_state x)" "sc_sleeping s = sc_sleeping (rn_state x)" "sc_scheduled s = sc_scheduled (rn_state x)" by auto
    with o sd_probe(1) show ?thesis by (simp add: owed_def)
  next
    case (sd_probed k)
    then show ?thesis using schedule_queue_keeps_owed [OF o, where k = k and K = "rn_known x" and P = "rn_probing x - {#k#}"] by simp
  qed
qed

theorem no_lost_wakeup_witness:
  "owed ''mail'' sample_run \<and>
   owed ''mail'' (sample_run\<lparr>rn_state := finish_pass ''mail'' Idle (rn_state sample_run), rn_passing := {#}\<rparr>)"
proof -
  have o: "owed ''mail'' sample_run" by (simp add: owed_def sample_run_def)
  have "sched_step sample_run (sample_run\<lparr>rn_state := finish_pass ''mail'' Idle (rn_state sample_run), rn_passing := {#}\<rparr>)"
    using sd_finish [of "''mail''" sample_run Idle] by (simp add: sample_run_def)
  with o no_lost_wakeup [OF sample_run_reach, of "''mail''"] show ?thesis
    by (auto simp: sample_run_def)
qed

fun failing_passes :: "nat \<Rightarrow> string \<Rightarrow> SchedulerState \<Rightarrow> SchedulerState" where
  "failing_passes 0 q s = s"
| "failing_passes (Suc n) q s = finish_pass q Retry (failing_passes n q s)"

lemma failing_passes_scheduled:
  assumes "sc_scheduled s q = Some d" and "unat (qs_retry_count d) = 0"
  shows "\<exists>d'. sc_scheduled (failing_passes n q s) q = Some d' \<and> unat (qs_retry_count d') = min n 7"
proof (induction n)
  case 0
  then show ?case using assms by simp
next
  case (Suc n)
  then obtain d' where "sc_scheduled (failing_passes n q s) q = Some d'" "unat (qs_retry_count d') = min n 7" by blast
  then show ?case by (simp add: finish_pass_def Let_def unat_retry_count)
qed

text \<open>
  Retries back off exponentially within bounds: the \<open>k\<close>-th failing pass in a row over a queue
  sleeps min(10 \<cdot> 2^min(k,7), 1000) milliseconds, so never less than 20 ms nor more than a second, and
  the 8-bit retry counter does not overflow however often it fails.
\<close>

theorem retry_backoff:
  assumes "sc_scheduled s q = Some d" and "qs_retry_count d = 0"
  shows "\<exists>t. sc_sleeping (failing_passes (Suc n) q s) = sc_sleeping (failing_passes n q s) @ [(q, t)] \<and>
    t = from_millis (min (10 * 2 ^ min (Suc n) 7) 1000) \<and> from_millis 20 \<le> t \<and> t \<le> from_secs 1"
proof -
  from failing_passes_scheduled [OF assms(1), of n] assms(2) obtain d' where
    d': "sc_scheduled (failing_passes n q s) q = Some d'" "unat (qs_retry_count d') = min n 7" by auto
  define c where "c = min (u8_saturating_add (qs_retry_count d') 1) 7"
  have c: "unat c = min (Suc n) 7" using d'(2) by (simp add: c_def unat_retry_count)
  have delay: "retry_delay c = from_millis (min (10 * 2 ^ min (Suc n) 7) 1000)"
    using retry_delay_eq [of c] c by (simp add: backoff_ms_def)
  have "2 ^ 1 \<le> (2 :: nat) ^ min (Suc n) 7" by (intro power_increasing) simp_all
  then have "from_millis 20 \<le> retry_delay c \<and> retry_delay c \<le> from_secs 1"
    unfolding delay by (simp add: from_millis_def from_secs_def)
  moreover have "sc_sleeping (failing_passes (Suc n) q s) = sc_sleeping (failing_passes n q s) @ [(q, retry_delay c)]"
    using d'(1) by (simp add: finish_pass_def Let_def c_def)
  ultimately show ?thesis using delay by blast
qed

theorem retry_backoff_witness:
  "\<exists>t. sc_sleeping (failing_passes 3 ''mail'' (rn_state sample_run)) = sc_sleeping (failing_passes 2 ''mail'' (rn_state sample_run)) @ [(''mail'', t)] \<and>
     t = from_millis 80"
proof -
  have "sc_scheduled (rn_state sample_run) ''mail'' = Some \<lparr>qs_rerun = True, qs_retry_count = 0\<rparr>" by (simp add: sample_run_def)
  from retry_backoff [OF this, of 2] show ?thesis by (simp add: numeral_3_eq_3 numeral_2_eq_2)
qed

definition idle_cycle :: "string \<Rightarrow> SchedulerState \<Rightarrow> SchedulerState" where
  "idle_cycle q s = finish_pass q Idle ((schedule_queue q s)\<lparr>sc_tx := []\<rparr>)"

text \<open>
  The idle deque collects duplicates. \<open>schedule_queue\<close> takes a queue out of the idle set but not
  out of the deque, so every time a queue is scheduled and becomes idle again one more copy of its
  name is appended; only the idle probe removes copies, a bounded number per interval, and the
  deque grows without limit when queues become idle more often than that.
\<close>

theorem idle_deque_collects_duplicates:
  assumes "sc_scheduled s q = None"
  shows "sc_idle ((idle_cycle q ^^ n) s) = sc_idle s @ replicate n q \<and> sc_scheduled ((idle_cycle q ^^ n) s) q = None"
proof (induction n)
  case 0
  then show ?case using assms by simp
next
  case (Suc n)
  then show ?case
    by (simp add: idle_cycle_def finish_pass_def schedule_queue_def sc_send_def QueueSchedule_default_def push_idle_def Let_def
        replicate_append_same)
qed

theorem idle_deque_collects_duplicates_witness:
  "sc_idle ((idle_cycle ''mail'' ^^ 100) SchedulerState_default) = replicate 100 ''mail''"
proof -
  have "sc_scheduled SchedulerState_default ''mail'' = None" by (simp add: SchedulerState_default_def)
  from idle_deque_collects_duplicates [OF this, of 100] show ?thesis by (simp add: SchedulerState_default_def)
qed

end
