(* ===== verification/Maq_Engine.thy ===== *)
theory Maq_Engine
  imports Maq_Registry_Runs Maq_Scheduler
begin

text \<open>
  The engine (\<open>crates/engine/src/lib.rs\<close>): the default methods of the \<open>DurableStore\<close> port, the
  scheduling pass that reserves workers, claims jobs and hands them to the delivery pump, the
  delivery tasks, the result listener and the engine's own operations. The store and the
  dispatcher are ports: the engine's definitions take their operations as a record, so that
  the theorems about a pass hold for every store and dispatcher that keep the contracts below.
\<close>

section \<open>Default methods of the store port\<close>

fun default_claim_batch_loop :: "(string \<Rightarrow> 's \<Rightarrow> (StoreError + Job option) \<times> 's) \<Rightarrow> string \<Rightarrow> nat \<Rightarrow> 's \<Rightarrow>
    (StoreError + Job list) \<times> 's" where
  "default_claim_batch_loop claim_next q 0 s = (Inr [], s)"
| "default_claim_batch_loop claim_next q (Suc n) s =
     (case claim_next q s of
        (Inl e, s1) \<Rightarrow> (Inl e, s1)
      | (Inr None, s1) \<Rightarrow> (Inr [], s1)
      | (Inr (Some job), s1) \<Rightarrow>
          (case default_claim_batch_loop claim_next q n s1 of
             (Inl e, s2) \<Rightarrow> (Inl e, s2)
           | (Inr jobs, s2) \<Rightarrow> (Inr (job # jobs), s2)))"

definition default_claim_batch :: "(string \<Rightarrow> 's \<Rightarrow> (StoreError + Job option) \<times> 's) \<Rightarrow> string \<Rightarrow> nat \<Rightarrow> 's \<Rightarrow>
    (StoreError + Job list) \<times> 's" where
  "default_claim_batch claim_next q limit s = default_claim_batch_loop claim_next q (min limit MAX_CLAIM_BATCH_SIZE) s"

definition default_complete :: "i64 \<Rightarrow> string \<Rightarrow> JobOutcome \<Rightarrow> 's \<Rightarrow> (StoreError + Job option) \<times> 's" where
  "default_complete j d outcome s = (Inl (Internal ''store does not support job completion''), s)"

definition default_complete_worker_result :: "(i64 \<Rightarrow> string \<Rightarrow> JobOutcome \<Rightarrow> 's \<Rightarrow> (StoreError + Job option) \<times> 's) \<Rightarrow>
    i64 \<Rightarrow> string \<Rightarrow> JobOutcome \<Rightarrow> 's \<Rightarrow> (StoreError + bool) \<times> 's" where
  "default_complete_worker_result complete_fn j d outcome s =
     (case complete_fn j d outcome s of
        (Inl e, s') \<Rightarrow> (Inl e, s')
      | (Inr r, s') \<Rightarrow> (Inr (case r of Some job \<Rightarrow> job_status job = Pending | None \<Rightarrow> False), s'))"

definition default_release_claim :: "i64 \<Rightarrow> string \<Rightarrow> 's \<Rightarrow> (StoreError + bool) \<times> 's" where
  "default_release_claim j d s = (Inl (Internal ''store does not support claim release''), s)"

section \<open>The engine\<close>

text \<open>
  The ports. The dispatcher's \<open>dispatch\<close> is asynchronous and waits once, for the acknowledgement of the
  frame it has queued; the port has its two halves, before and after this wait, with what is kept across it.
\<close>

type_synonym SentDispatch = "Uuid \<times> string \<times> bool"

record ('d, 's) Ports =
  pt_reserve :: "QueueReservation list \<Rightarrow> 'd \<Rightarrow> (DispatchError + ReservedDispatch list) \<times> 'd"
  pt_dispatch_start :: "ReservedDispatch \<Rightarrow> Job \<Rightarrow> nat \<Rightarrow> 'd \<Rightarrow> (DispatchError + SentDispatch) \<times> 'd"
  pt_dispatch_finish :: "SentDispatch \<Rightarrow> Ack \<Rightarrow> 'd \<Rightarrow> (DispatchError + unit) \<times> 'd"
  pt_release :: "ReservedDispatch \<Rightarrow> 'd \<Rightarrow> 'd"
  pt_enqueue :: "AcceptedJob \<Rightarrow> 's \<Rightarrow> (StoreError + AcceptedJob) \<times> 's"
  pt_get_job :: "i64 \<Rightarrow> 's \<Rightarrow> (StoreError + Job) \<times> 's"
  pt_list_queues :: "'s \<Rightarrow> (StoreError + JobQueue list) \<times> 's"
  pt_claim_batch :: "string \<Rightarrow> nat \<Rightarrow> 's \<Rightarrow> (StoreError + Job list) \<times> 's"
  pt_complete_worker_result :: "i64 \<Rightarrow> string \<Rightarrow> JobOutcome \<Rightarrow> 's \<Rightarrow> (StoreError + bool) \<times> 's"
  pt_release_claim :: "i64 \<Rightarrow> string \<Rightarrow> 's \<Rightarrow> (StoreError + bool) \<times> 's"
  pt_recover_stale_leases :: "i64 \<Rightarrow> 's \<Rightarrow> (StoreError + Job list) \<times> 's"

text \<open>A delivery holds one permit of the delivery budget until it is done.\<close>

record DeliveryWork =
  dw_permit :: ReservedDispatch
  dw_job :: Job

text \<open>
  A delivery task that the pump has spawned: it has not called \<open>dispatch\<close> yet, it waits for the
  acknowledgement inside \<open>dispatch\<close>, or \<open>dispatch\<close> has returned to it.
\<close>

datatype DeliveryStage = Spawned | AwaitingAck SentDispatch | Dispatched "DispatchError + unit"

record DeliveryTask =
  dt_work :: DeliveryWork
  dt_stage :: DeliveryStage

record ('d, 's) Engine =
  en_store :: 's
  en_dispatcher :: 'd
  en_sched :: SchedulerState
  en_budget :: nat
  en_delivery :: "DeliveryWork list"
  en_delivery_open :: bool
  en_running :: "DeliveryTask list"
  en_options :: DispatchOptions

text \<open>\<open>with_dispatcher\<close> panics on invalid options.\<close>

definition with_dispatcher :: "'s \<Rightarrow> 'd \<Rightarrow> DispatchOptions \<Rightarrow> ('d, 's) Engine option" where
  "with_dispatcher store dispatcher options =
     (case DispatchOptions_validate options of
        Inl _ \<Rightarrow> None
      | Inr _ \<Rightarrow>
          Some \<lparr>en_store = store, en_dispatcher = dispatcher, en_sched = SchedulerState_default,
                en_budget = do_max_delivery_in_flight options, en_delivery = [], en_delivery_open = True, en_running = [],
                en_options = options\<rparr>)"

definition en_schedule :: "string \<Rightarrow> ('d, 's) Engine \<Rightarrow> ('d, 's) Engine" where
  "en_schedule q e = e\<lparr>en_sched := schedule_queue q (en_sched e)\<rparr>"

definition en_finish :: "string \<Rightarrow> PassOutcome \<Rightarrow> ('d, 's) Engine \<Rightarrow> ('d, 's) Engine" where
  "en_finish q outcome e = e\<lparr>en_sched := finish_pass q outcome (en_sched e)\<rparr>"

definition submit :: "('d, 's) Ports \<Rightarrow> ('json \<Rightarrow> string + bytes) \<Rightarrow> i64 \<Rightarrow> 'json SubmitJob \<Rightarrow> ('d, 's) Engine \<Rightarrow>
    (EngineError + JobView) \<times> ('d, 's) Engine" where
  "submit P ser now job e =
     (case ser (sj_payload job) of
        Inl err \<Rightarrow> (Inl (PayloadError err), e)
      | Inr p \<Rightarrow>
          (let (r, s) = pt_enqueue P (AcceptedJob_new now (sj_name job) p) (en_store e); e1 = e\<lparr>en_store := s\<rparr> in
           case r of
             Inl err \<Rightarrow> (Inl (EngineError_from err), e1)
           | Inr result \<Rightarrow>
               (Inr \<lparr>jv_id = aj_id result, jv_name = aj_queue_name result, jv_status = Pending\<rparr>,
                en_schedule (aj_queue_name result) e1)))"

definition engine_get_job :: "('d, 's) Ports \<Rightarrow> i64 \<Rightarrow> ('d, 's) Engine \<Rightarrow> (EngineError + JobView) \<times> ('d, 's) Engine" where
  "engine_get_job P i e =
     (let (r, s) = pt_get_job P i (en_store e); e1 = e\<lparr>en_store := s\<rparr> in
      case r of
        Inl err \<Rightarrow> (Inl (EngineError_from err), e1)
      | Inr job \<Rightarrow> (Inr \<lparr>jv_id = job_id job, jv_name = job_name job, jv_status = job_status job\<rparr>, e1))"

definition engine_complete_worker_result :: "('d, 's) Ports \<Rightarrow> i64 \<Rightarrow> string \<Rightarrow> JobOutcome \<Rightarrow> ('d, 's) Engine \<Rightarrow>
    (EngineError + bool) \<times> ('d, 's) Engine" where
  "engine_complete_worker_result P j d outcome e =
     (let (r, s) = pt_complete_worker_result P j d outcome (en_store e)
      in (case r of Inl err \<Rightarrow> Inl (EngineError_from err) | Inr b \<Rightarrow> Inr b, e\<lparr>en_store := s\<rparr>))"

text \<open>
  One event of the result listener. The completion of a result runs in a task of its own; here it
  runs after the wake-up that the listener itself makes.
\<close>

definition on_event :: "('d, 's) Ports \<Rightarrow> WorkerEvent \<Rightarrow> ('d, 's) Engine \<Rightarrow> ('d, 's) Engine" where
  "on_event P event e =
     (case event of
        EvRegistered q \<Rightarrow> en_schedule q e
      | EvResult q result \<Rightarrow>
          (let (r, e1) = engine_complete_worker_result P (wr_job_id result) (wr_dispatch_id result) (wr_outcome result) (en_schedule q e)
           in if r = Inr True then en_schedule q e1 else e1))"

text \<open>
  The result listener on what it receives from the broadcast channel: a lagging receiver skips the
  events it missed and a closed channel ends the loop.
\<close>

datatype Received = Event WorkerEvent | Lagged | Closed

fun result_listener :: "('d, 's) Ports \<Rightarrow> Received list \<Rightarrow> ('d, 's) Engine \<Rightarrow> ('d, 's) Engine" where
  "result_listener P [] e = e"
| "result_listener P (Event event # rs) e = result_listener P rs (on_event P event e)"
| "result_listener P (Lagged # rs) e = result_listener P rs e"
| "result_listener P (Closed # rs) e = e"

text \<open>The recovery tick of the scheduler task.\<close>

definition recovery_tick :: "('d, 's) Ports \<Rightarrow> i64 \<Rightarrow> ('d, 's) Engine \<Rightarrow> ('d, 's) Engine" where
  "recovery_tick P now e =
     (let (r, s) = pt_recover_stale_leases P now (en_store e); e1 = e\<lparr>en_store := s\<rparr> in
      case r of
        Inl _ \<Rightarrow> e1
      | Inr recovered \<Rightarrow> fold en_schedule (map job_name (filter (\<lambda>job. job_status job = Pending) recovered)) e1)"

section \<open>A pass\<close>

text \<open>Each reserved permit takes one permit of the delivery budget or is released.\<close>

fun acquire_budgets :: "('d, 's) Ports \<Rightarrow> ReservedDispatch list \<Rightarrow> ('d, 's) Engine \<Rightarrow> ReservedDispatch list \<times> ('d, 's) Engine" where
  "acquire_budgets P [] e = ([], e)"
| "acquire_budgets P (permit # permits) e =
     (if 0 < en_budget e then
        let (got, e') = acquire_budgets P permits (e\<lparr>en_budget := en_budget e - 1\<rparr>) in (permit # got, e')
      else acquire_budgets P permits (e\<lparr>en_dispatcher := pt_release P permit (en_dispatcher e)\<rparr>))"

text \<open>Releasing the permits that are left; each gives its budget back.\<close>

fun release_permits :: "('d, 's) Ports \<Rightarrow> ReservedDispatch list \<Rightarrow> ('d, 's) Engine \<Rightarrow> ('d, 's) Engine" where
  "release_permits P [] e = e"
| "release_permits P (permit # permits) e =
     release_permits P permits (e\<lparr>en_dispatcher := pt_release P permit (en_dispatcher e), en_budget := en_budget e + 1\<rparr>)"

text \<open>\<open>delivery_tx.try_send\<close> on the bounded channel.\<close>

definition try_send :: "DeliveryWork \<Rightarrow> ('d, 's) Engine \<Rightarrow> bool \<times> ('d, 's) Engine" where
  "try_send work e =
     (if en_delivery_open e \<and> length (en_delivery e) < do_max_delivery_in_flight (en_options e)
      then (True, e\<lparr>en_delivery := en_delivery e @ [work]\<rparr>) else (False, e))"

definition release_job_claim :: "('d, 's) Ports \<Rightarrow> Job \<Rightarrow> ('d, 's) Engine \<Rightarrow> ('d, 's) Engine" where
  "release_job_claim P job e =
     (case job_dispatch_id job of
        None \<Rightarrow> e
      | Some d \<Rightarrow> e\<lparr>en_store := snd (pt_release_claim P (job_id job) d (en_store e))\<rparr>)"

text \<open>
  The claimed jobs are paired with permits and sent; more jobs than permits is a panic (\<open>None\<close>). The
  permits that are left are returned.
\<close>

fun send_jobs :: "('d, 's) Ports \<Rightarrow> Job list \<Rightarrow> ReservedDispatch list \<Rightarrow> ('d, 's) Engine \<Rightarrow>
    (ReservedDispatch list \<times> ('d, 's) Engine) option" where
  "send_jobs P [] permits e = Some (permits, e)"
| "send_jobs P (job # jobs) [] e = None"
| "send_jobs P (job # jobs) (permit # permits) e =
     (let (sent, e1) = try_send \<lparr>dw_permit = permit, dw_job = job\<rparr> e in
      if sent then send_jobs P jobs permits e1
      else
        let e2 = e1\<lparr>en_dispatcher := pt_release P permit (en_dispatcher e1)\<rparr>;
            e3 = en_schedule (job_name job) (release_job_claim P job e2)
        in send_jobs P jobs permits (e3\<lparr>en_budget := en_budget e3 + 1\<rparr>))"

text \<open>One queue of a pass, with its permits.\<close>

definition drain_queue :: "('d, 's) Ports \<Rightarrow> string \<Rightarrow> ReservedDispatch list \<Rightarrow> ('d, 's) Engine \<Rightarrow> ('d, 's) Engine option" where
  "drain_queue P q permits e =
     (if permits = [] then Some (en_finish q CapacityBlocked e)
      else
        let reserved = length permits; (r, s) = pt_claim_batch P q reserved (en_store e); e1 = e\<lparr>en_store := s\<rparr> in
        case r of
          Inl _ \<Rightarrow> Some (en_finish q Retry (release_permits P permits e1))
        | Inr jobs \<Rightarrow>
            (let outcome = (if length jobs = reserved then Active else Idle) in
             case send_jobs P jobs permits e1 of
               None \<Rightarrow> None
             | Some (rest, e2) \<Rightarrow> Some (en_finish q outcome (release_permits P rest e2))))"

fun drain_queues :: "('d, 's) Ports \<Rightarrow> string list \<Rightarrow> ReservedDispatch list \<Rightarrow> ('d, 's) Engine \<Rightarrow> ('d, 's) Engine option" where
  "drain_queues P [] permits e = Some (e\<lparr>en_budget := en_budget e + length permits\<rparr>)"
| "drain_queues P (q # queues) permits e =
     (case drain_queue P q (filter (\<lambda>p. rsv_queue_name p = q) permits) e of
        None \<Rightarrow> None
      | Some e1 \<Rightarrow> drain_queues P queues (filter (\<lambda>p. rsv_queue_name p \<noteq> q) permits) e1)"

definition per_queue :: "DispatchOptions \<Rightarrow> nat \<Rightarrow> nat \<Rightarrow> nat" where
  "per_queue options headroom queues =
     min (max (headroom div max queues 1) 1) (min (do_batch_size_max options) MAX_CLAIM_BATCH_SIZE)"

text \<open>\<open>drain_pass\<close> on the queues in the iteration order of their hash set.\<close>

definition drain_pass :: "('d, 's) Ports \<Rightarrow> string list \<Rightarrow> ('d, 's) Engine \<Rightarrow> ('d, 's) Engine option" where
  "drain_pass P queues e =
     (let headroom = en_budget e in
      if headroom = 0 then Some (fold (\<lambda>q. en_finish q CapacityBlocked) queues e)
      else
        let n = per_queue (en_options e) headroom (length queues);
            requests = map (\<lambda>q. \<lparr>qres_queue_name = q, qres_count = n\<rparr>) queues;
            (r, d) = pt_reserve P requests (en_dispatcher e);
            e1 = e\<lparr>en_dispatcher := d\<rparr>
        in case r of
             Inl _ \<Rightarrow> Some (fold (\<lambda>q. en_finish q Retry) queues e1)
           | Inr permits \<Rightarrow>
               (let (got, e2) = acquire_budgets P permits e1 in drain_queues P queues got e2))"

section \<open>Delivery\<close>

text \<open>
  The pump spawns a task for each work it receives; the tasks run side by side and end in any order.
  Each goes through three steps, between which every other task may run: the first half of
  \<open>dispatch\<close>, which takes the slot out of the reserved ones and queues the frame (or fails); the
  second half, when the acknowledgement is there; and the end, which releases the claim of a job
  whose dispatch failed (the result of the release is ignored), schedules the queue and drops the budget permit.
\<close>

definition delivery_pump :: "('d, 's) Engine \<Rightarrow> ('d, 's) Engine" where
  "delivery_pump e =
     (case en_delivery e of
        [] \<Rightarrow> e
      | work # works \<Rightarrow> e\<lparr>en_delivery := works, en_running := en_running e @ [\<lparr>dt_work = work, dt_stage = Spawned\<rparr>]\<rparr>)"

definition set_stage :: "nat \<Rightarrow> DeliveryStage \<Rightarrow> ('d, 's) Engine \<Rightarrow> ('d, 's) Engine" where
  "set_stage k stage e = e\<lparr>en_running := (en_running e)[k := (en_running e ! k)\<lparr>dt_stage := stage\<rparr>]\<rparr>"

definition delivery_start :: "('d, 's) Ports \<Rightarrow> nat \<Rightarrow> nat \<Rightarrow> ('d, 's) Engine \<Rightarrow> ('d, 's) Engine" where
  "delivery_start P ack_id k e =
     (let work = dt_work (en_running e ! k);
          (r, d) = pt_dispatch_start P (dw_permit work) (dw_job work) ack_id (en_dispatcher e)
      in set_stage k (case r of Inl err \<Rightarrow> Dispatched (Inl err) | Inr sent \<Rightarrow> AwaitingAck sent) (e\<lparr>en_dispatcher := d\<rparr>))"

definition delivery_ack :: "('d, 's) Ports \<Rightarrow> SentDispatch \<Rightarrow> Ack \<Rightarrow> nat \<Rightarrow> ('d, 's) Engine \<Rightarrow> ('d, 's) Engine" where
  "delivery_ack P sent ack k e =
     (let (r, d) = pt_dispatch_finish P sent ack (en_dispatcher e) in set_stage k (Dispatched r) (e\<lparr>en_dispatcher := d\<rparr>))"

definition delivery_end :: "('d, 's) Ports \<Rightarrow> DispatchError + unit \<Rightarrow> nat \<Rightarrow> ('d, 's) Engine \<Rightarrow> ('d, 's) Engine" where
  "delivery_end P r k e =
     (let job = dw_job (dt_work (en_running e ! k));
          e1 = e\<lparr>en_running := take k (en_running e) @ drop (Suc k) (en_running e)\<rparr>;
          e2 = (if isl r then release_job_claim P job e1 else e1);
          e3 = en_schedule (job_name job) e2
      in e3\<lparr>en_budget := en_budget e3 + 1\<rparr>)"

text \<open>The next step of the \<open>k\<close>-th task, with the channel and the answer of its acknowledgement.\<close>

definition delivery_task :: "('d, 's) Ports \<Rightarrow> nat \<Rightarrow> Ack \<Rightarrow> nat \<Rightarrow> ('d, 's) Engine \<Rightarrow> ('d, 's) Engine" where
  "delivery_task P ack_id ack k e =
     (if k < length (en_running e) then
        case dt_stage (en_running e ! k) of
          Spawned \<Rightarrow> delivery_start P ack_id k e
        | AwaitingAck sent \<Rightarrow> delivery_ack P sent ack k e
        | Dispatched r \<Rightarrow> delivery_end P r k e
      else e)"

section \<open>The scheduler task\<close>

text \<open>The arms of its \<open>select!\<close>: a wake-up, the recovery tick and the idle probe.\<close>

datatype SchedulerEvent = WakeUp | RecoveryTick i64 | IdleProbe

definition scheduler_arm :: "('d, 's) Ports \<Rightarrow> SchedulerEvent \<Rightarrow> ('d, 's) Engine \<Rightarrow> ('d, 's) Engine option" where
  "scheduler_arm P ev e =
     (case ev of
        WakeUp \<Rightarrow> (let (queues, s) = take_queues (en_sched e) in drain_pass P (remdups queues) (e\<lparr>en_sched := s\<rparr>))
      | RecoveryTick now \<Rightarrow> Some (recovery_tick P now e)
      | IdleProbe \<Rightarrow> Some (e\<lparr>en_sched := probe_idle_queues (en_options e) (en_sched e)\<rparr>))"

definition engine_seed :: "('d, 's) Ports \<Rightarrow> ('d, 's) Engine \<Rightarrow> ('d, 's) Engine" where
  "engine_seed P e =
     (let (r, s) = pt_list_queues P (en_store e) in e\<lparr>en_store := s, en_sched := seed_idle_queues r (en_sched e)\<rparr>)"

end
