(* ===== verification/Maq_Engine_Pass.thy ===== *)
theory Maq_Engine_Pass
  imports Maq_Engine
begin

text \<open>
  What the engine relies on from its dispatcher and its store, as locales, and what a scheduling
  pass does for every dispatcher and store that keep these contracts: it does not panic, it gives
  back every permit and budget it does not use, and it finishes the pass of each queue once.
\<close>

section \<open>What the engine relies on\<close>

text \<open>
  The dispatcher, with the workers of the permits that are outstanding as a ghost argument of its
  invariant: a reservation answers only the queues asked for, with no more permits than asked
  for, and the permits it returns become outstanding; a release ends one.
\<close>

locale dispatcher_port =
  fixes reserve_op :: "QueueReservation list \<Rightarrow> 'd \<Rightarrow> (DispatchError + ReservedDispatch list) \<times> 'd"
    and release_op :: "ReservedDispatch \<Rightarrow> 'd \<Rightarrow> 'd"
    and dinv :: "'d \<Rightarrow> Uuid multiset \<Rightarrow> bool"
  assumes reserve_Inl: "dinv d G \<Longrightarrow> reserve_op rs d = (Inl e, d') \<Longrightarrow> dinv d' G"
    and reserve_Inr: "dinv d G \<Longrightarrow> distinct (map qres_queue_name rs) \<Longrightarrow> reserve_op rs d = (Inr ps, d') \<Longrightarrow>
      dinv d' (G + permits_of ps) \<and>
      (\<forall>p\<in>set ps. rsv_queue_name p \<in> qres_queue_name ` set rs \<and> (\<exists>i. rsv_permit p = RegistryPermit i)) \<and>
      (\<forall>r\<in>set rs. length (filter (\<lambda>p. rsv_queue_name p = qres_queue_name r) ps) \<le> qres_count r)"
    and release_inv: "dinv d G \<Longrightarrow> rsv_permit p = RegistryPermit i \<Longrightarrow> i \<in># G \<Longrightarrow> dinv (release_op p d) (G - {#i#})"

text \<open>
  The store: a claim returns at most as many jobs as asked for, all of them of that queue and with
  a dispatch id.
\<close>

locale store_port =
  fixes claim_op :: "string \<Rightarrow> nat \<Rightarrow> 's \<Rightarrow> (StoreError + Job list) \<times> 's"
    and sinv :: "'s \<Rightarrow> bool"
  assumes claim_inv: "sinv s \<Longrightarrow> claim_op q n s = (r, s') \<Longrightarrow> sinv s'"
    and claim_jobs: "sinv s \<Longrightarrow> 0 < n \<Longrightarrow> claim_op q n s = (Inr jobs, s') \<Longrightarrow>
      length jobs \<le> n \<and> (\<forall>job\<in>set jobs. job_name job = q \<and> job_dispatch_id job \<noteq> None)"

section \<open>Loops of a pass\<close>

text \<open>The closed form of the loops, which does not depend on the ports' laws.\<close>

lemma acquire_budgets_eq:
  "acquire_budgets P ps e =
     (take (en_budget e) ps,
      e\<lparr>en_dispatcher := fold (pt_release P) (drop (en_budget e) ps) (en_dispatcher e),
        en_budget := en_budget e - length ps\<rparr>)"
  by (induction P ps e rule: acquire_budgets.induct) (auto simp: take_Cons' drop_Cons')

lemma release_permits_eq:
  "release_permits P ps e =
     e\<lparr>en_dispatcher := fold (pt_release P) ps (en_dispatcher e), en_budget := en_budget e + length ps\<rparr>"
  by (induction P ps e rule: release_permits.induct) auto

definition pair_work :: "ReservedDispatch list \<Rightarrow> Job list \<Rightarrow> DeliveryWork list" where
  "pair_work permits jobs = map (\<lambda>(p, j). \<lparr>dw_permit = p, dw_job = j\<rparr>) (zip permits jobs)"

lemma send_jobs_eq:
  assumes "en_delivery_open e" and "length (en_delivery e) + length permits \<le> do_max_delivery_in_flight (en_options e)"
    and "length jobs \<le> length permits"
  shows "send_jobs P jobs permits e =
    Some (drop (length jobs) permits, e\<lparr>en_delivery := en_delivery e @ pair_work permits jobs\<rparr>)"
  using assms
proof (induction P jobs permits e rule: send_jobs.induct)
  case (1 P permits e)
  then show ?case by (simp add: pair_work_def)
next
  case (3 P job jobs permit permits e)
  let ?w = "\<lparr>dw_permit = permit, dw_job = job\<rparr>"
  have sent: "try_send ?w e = (True, e\<lparr>en_delivery := en_delivery e @ [?w]\<rparr>)" using 3(3,4) by (simp add: try_send_def)
  from 3(1) [OF sent [symmetric] refl TrueI] 3(3-5) show ?case by (simp add: sent pair_work_def)
qed simp

lemma pair_work_permits: "length jobs \<le> length permits \<Longrightarrow> map dw_permit (pair_work permits jobs) = take (length jobs) permits"
  by (simp add: pair_work_def comp_def case_prod_beta map_fst_zip_take min_absorb2)

lemma length_pair_work: "length jobs \<le> length permits \<Longrightarrow> length (pair_work permits jobs) = length jobs"
  by (simp add: pair_work_def)

lemma permits_of_simps [simp]:
  "permits_of [] = {#}"
  "permits_of (ps @ qs) = permits_of ps + permits_of qs"
  "rsv_permit p = RegistryPermit i \<Longrightarrow> permits_of (p # ps) = add_mset i (permits_of ps)"
  by (simp_all add: permits_of_def map_filter_simps map_filter_def)

lemma permits_of_take_drop: "permits_of ps = permits_of (take n ps) + permits_of (drop n ps)"
  by (metis append_take_drop_id permits_of_simps(2))

lemma permits_of_mset: "mset ps = mset qs \<Longrightarrow> permits_of ps = permits_of qs"
  by (rule multiset_eqI) (simp add: granted_permits_of granted_def, metis mset_filter size_mset)

text \<open>What a pass queues: a job with a dispatch id and a permit of its queue.\<close>

definition work_ok :: "DeliveryWork \<Rightarrow> bool" where
  "work_ok w \<longleftrightarrow> job_name (dw_job w) = rsv_queue_name (dw_permit w) \<and> job_dispatch_id (dw_job w) \<noteq> None \<and>
     (\<exists>i. rsv_permit (dw_permit w) = RegistryPermit i)"

text \<open>
  What a stretch of a pass over some queues does with the permits it is given: \<open>works\<close> are appended
  to the delivery channel; a permit's budget goes into a work or is given back; every queue's
  pass is finished once, in order, and nothing else happens to the scheduler.
\<close>

definition stretch :: "DeliveryWork list \<Rightarrow> string list \<Rightarrow> ReservedDispatch list \<Rightarrow> ('d, 's) Engine \<Rightarrow> ('d, 's) Engine \<Rightarrow> bool" where
  "stretch works queues permits e e' \<longleftrightarrow>
     en_delivery e' = en_delivery e @ works \<and> list_all work_ok works \<and> mset (map dw_permit works) \<subseteq># mset permits \<and>
     en_budget e' + length works = en_budget e + length permits \<and>
     (\<exists>outs. length outs = length queues \<and>
        en_sched e' = fold (\<lambda>(q, outcome). finish_pass q outcome) (zip queues outs) (en_sched e)) \<and>
     en_options e' = en_options e \<and> en_delivery_open e' = en_delivery_open e \<and> en_running e' = en_running e"

lemma stretch_Nil: "stretch [] [] [] e e"
  by (simp add: stretch_def)

lemma stretch_Cons:
  assumes one: "stretch w1 [q] ps1 e e1" and rest: "stretch w2 qs ps2 e1 e2"
    and permits: "mset permits = mset ps1 + mset ps2"
  shows "stretch (w1 @ w2) (q # qs) permits e e2"
proof -
  from one obtain out where out: "en_sched e1 = finish_pass q out (en_sched e)"
    unfolding stretch_def by (auto simp: length_Suc_conv)
  from rest obtain outs where outs: "length outs = length qs"
    "en_sched e2 = fold (\<lambda>(q, outcome). finish_pass q outcome) (zip qs outs) (en_sched e1)" unfolding stretch_def by auto
  have len: "length permits = length ps1 + length ps2" using permits by (metis size_mset size_union)
  have "mset (map dw_permit (w1 @ w2)) \<subseteq># mset permits"
    unfolding permits map_append mset_append using one rest by (intro subset_mset.add_mono) (simp_all add: stretch_def)
  moreover have "\<exists>outs. length outs = length (q # qs) \<and>
      en_sched e2 = fold (\<lambda>(q, outcome). finish_pass q outcome) (zip (q # qs) outs) (en_sched e)"
    using out outs by (intro exI [of _ "out # outs"]) simp
  ultimately show ?thesis
    using one rest len by (simp add: stretch_def)
qed

lemma stretch_works: "stretch works qs ps e e' \<Longrightarrow> length (en_delivery e') \<le> length (en_delivery e) + length ps"
  unfolding stretch_def by (auto dest!: size_mset_mono)

lemma fold_en_finish:
  "fold (\<lambda>q. en_finish q outcome) queues e =
     e\<lparr>en_sched := fold (\<lambda>(q, outcome). finish_pass q outcome) (zip queues (replicate (length queues) outcome)) (en_sched e)\<rparr>"
  by (induction queues arbitrary: e) (simp_all add: en_finish_def)

section \<open>A whole pass\<close>

text \<open>
  The effect of a whole pass: the works that were queued, how the budget accounts for them, how
  many there are for a queue, and that the pass of each queue was finished exactly once.
\<close>

definition pass_effect :: "DeliveryWork list \<Rightarrow> string list \<Rightarrow> ('d, 's) Engine \<Rightarrow> ('d, 's) Engine \<Rightarrow> bool" where
  "pass_effect works queues e e' \<longleftrightarrow>
     en_delivery e' = en_delivery e @ works \<and> list_all work_ok works \<and> en_budget e' + length works = en_budget e \<and>
     (\<forall>w\<in>set works. job_name (dw_job w) \<in> set queues) \<and>
     (\<forall>q. length (filter (\<lambda>w. job_name (dw_job w) = q) works) \<le> per_queue (en_options e) (en_budget e) (length queues)) \<and>
     (\<exists>outs. length outs = length queues \<and>
        en_sched e' = fold (\<lambda>(q, outcome). finish_pass q outcome) (zip queues outs) (en_sched e)) \<and>
     en_options e' = en_options e \<and> en_delivery_open e' = en_delivery_open e \<and> en_running e' = en_running e"

lemma pass_effect_no_work:
  "pass_effect [] queues e (fold (\<lambda>q. en_finish q outcome) queues (e\<lparr>en_dispatcher := d\<rparr>))"
  unfolding pass_effect_def fold_en_finish
  by (intro conjI exI [of _ "replicate (length queues) outcome"]) simp_all

lemma works_per_queue:
  assumes "list_all work_ok works" and sub: "mset (map dw_permit works) \<subseteq># mset permits"
    and "length (filter (\<lambda>p. rsv_queue_name p = q) permits) \<le> n"
  shows "length (filter (\<lambda>w. job_name (dw_job w) = q) works) \<le> n"
proof -
  have "filter (\<lambda>w. job_name (dw_job w) = q) works = filter (\<lambda>w. rsv_queue_name (dw_permit w) = q) works"
    using assms(1) by (intro filter_cong) (auto simp: work_ok_def list_all_iff)
  then have "length (filter (\<lambda>w. job_name (dw_job w) = q) works) =
      length (filter (\<lambda>p. rsv_queue_name p = q) (map dw_permit works))" by (simp add: filter_map comp_def)
  also have "\<dots> = size (filter_mset (\<lambda>p. rsv_queue_name p = q) (mset (map dw_permit works)))" by (metis mset_filter size_mset)
  also have "\<dots> \<le> size (filter_mset (\<lambda>p. rsv_queue_name p = q) (mset permits))"
    using sub by (intro size_mset_mono multiset_filter_mono)
  also have "\<dots> = length (filter (\<lambda>p. rsv_queue_name p = q) permits)" by (metis mset_filter size_mset)
  finally show ?thesis using assms(3) by simp
qed

text \<open>The stretch over all queues after the permits that got no budget were released is the whole pass.\<close>

lemma stretch_pass_effect:
  assumes st: "stretch works queues got e2 e'" and sub: "mset got \<subseteq># mset permits"
    and e2: "en_delivery e2 = en_delivery e" "en_sched e2 = en_sched e" "en_options e2 = en_options e"
      "en_delivery_open e2 = en_delivery_open e" "en_running e2 = en_running e" "en_budget e2 + length got = en_budget e"
    and queue: "\<forall>p\<in>set permits. rsv_queue_name p \<in> set queues"
    and count: "\<And>q. q \<in> set queues \<Longrightarrow>
      length (filter (\<lambda>p. rsv_queue_name p = q) permits) \<le> per_queue (en_options e) (en_budget e) (length queues)"
  shows "pass_effect works queues e e'"
proof -
  have ok: "list_all work_ok works" and "mset (map dw_permit works) \<subseteq># mset got" using st by (simp_all add: stretch_def)
  then have all: "mset (map dw_permit works) \<subseteq># mset permits" using sub by (blast intro: subset_mset.order_trans)
  have named: "job_name (dw_job x) \<in> set queues" if "x \<in> set works" for x
  proof -
    have "dw_permit x \<in># mset permits" using that by (intro mset_subset_eqD [OF all]) simp
    then show ?thesis using queue ok that by (simp add: work_ok_def list_all_iff)
  qed
  have "length (filter (\<lambda>w. job_name (dw_job w) = q) works) \<le> per_queue (en_options e) (en_budget e) (length queues)" for q
  proof (cases "q \<in> set queues")
    case True
    then show ?thesis using works_per_queue [OF ok all] count by blast
  next
    case False
    then have "filter (\<lambda>w. job_name (dw_job w) = q) works = []" using named by (auto simp: filter_empty_conv)
    then show ?thesis by simp
  qed
  with st e2 named show ?thesis by (simp add: pass_effect_def stretch_def)
qed

locale engine_ports =
  dispatcher_port "pt_reserve P" "pt_release P" dinv + store_port "pt_claim_batch P" sinv
  for P :: "('d, 's) Ports" and dinv :: "'d \<Rightarrow> Uuid multiset \<Rightarrow> bool" and sinv :: "'s \<Rightarrow> bool"
begin

lemma fold_release:
  assumes "dinv d (G + permits_of ps)" and "\<forall>p\<in>set ps. \<exists>i. rsv_permit p = RegistryPermit i"
  shows "dinv (fold (pt_release P) ps d) G"
  using assms
proof (induction ps arbitrary: d)
  case (Cons p ps)
  from Cons.prems(2) obtain i where i: "rsv_permit p = RegistryPermit i" by auto
  have "dinv (pt_release P p d) (G + permits_of ps)"
    using release_inv [OF Cons.prems(1) i] i by simp
  from Cons.IH [OF this] Cons.prems(2) show ?case by simp
qed simp

lemma drain_queue_stretch:
  assumes inv: "dinv (en_dispatcher e) (G + permits_of permits)" "sinv (en_store e)" "en_delivery_open e"
    and room: "length (en_delivery e) + length permits \<le> do_max_delivery_in_flight (en_options e)"
    and valid: "\<forall>p\<in>set permits. rsv_queue_name p = q \<and> (\<exists>i. rsv_permit p = RegistryPermit i)"
  shows "\<exists>works e'. drain_queue P q permits e = Some e' \<and> stretch works [q] permits e e' \<and>
    dinv (en_dispatcher e') (G + permits_of (map dw_permit works)) \<and> sinv (en_store e')"
proof (cases "permits = []")
  case True
  have "stretch [] [q] [] e (en_finish q CapacityBlocked e)"
    unfolding stretch_def by (intro conjI exI [of _ "[CapacityBlocked]"]) (simp_all add: en_finish_def)
  with True inv show ?thesis by (intro exI [of _ "[]"]) (simp add: drain_queue_def en_finish_def)
next
  case False
  obtain r s where claim: "pt_claim_batch P q (length permits) (en_store e) = (r, s)" by fastforce
  have sinv: "sinv s" using claim_inv [OF inv(2) claim] .
  let ?e1 = "e\<lparr>en_store := s\<rparr>"
  show ?thesis
  proof (cases r)
    case (Inl err)
    let ?e' = "en_finish q Retry (release_permits P permits ?e1)"
    have "dinv (fold (pt_release P) permits (en_dispatcher e)) G" using fold_release [OF inv(1)] valid by blast
    moreover have "stretch [] [q] permits e ?e'"
      unfolding stretch_def by (intro conjI exI [of _ "[Retry]"]) (simp_all add: en_finish_def release_permits_eq)
    ultimately show ?thesis using False claim Inl sinv
      by (intro exI [of _ "[]"]) (simp add: drain_queue_def en_finish_def release_permits_eq)
  next
    case (Inr jobs)
    have jobs: "length jobs \<le> length permits" "\<forall>job\<in>set jobs. job_name job = q \<and> job_dispatch_id job \<noteq> None"
      using claim_jobs [OF inv(2), of "length permits"] claim Inr False by auto
    let ?works = "pair_work permits jobs" and ?rest = "drop (length jobs) permits"
    let ?out = "if length jobs = length permits then Active else Idle"
    let ?e2 = "?e1\<lparr>en_delivery := en_delivery e @ ?works\<rparr>"
    let ?e' = "en_finish q ?out (release_permits P ?rest ?e2)"
    have send: "send_jobs P jobs permits ?e1 = Some (?rest, ?e2)"
      using send_jobs_eq [of ?e1 permits jobs P] inv room jobs(1) by simp
    have "dinv (en_dispatcher e) ((G + permits_of (map dw_permit ?works)) + permits_of ?rest)"
      using inv(1) permits_of_take_drop [of permits "length jobs"] by (simp add: pair_work_permits [OF jobs(1)] ac_simps)
    from fold_release [OF this] valid
    have rel: "dinv (fold (pt_release P) ?rest (en_dispatcher e)) (G + permits_of (map dw_permit ?works))"
      by (meson in_set_dropD)
    have "work_ok \<lparr>dw_permit = p, dw_job = j\<rparr>" if "(p, j) \<in> set (zip permits jobs)" for p j
      using set_zip_leftD [OF that] set_zip_rightD [OF that] jobs(2) valid by (simp add: work_ok_def)
    then have ok: "list_all work_ok ?works" by (auto simp: list_all_iff pair_work_def)
    have "mset (map dw_permit ?works) \<subseteq># mset permits"
      unfolding pair_work_permits [OF jobs(1)] by (metis append_take_drop_id mset_append mset_subset_eq_add_left)
    then have "stretch ?works [q] permits e ?e'"
      unfolding stretch_def using ok jobs(1)
      by (intro conjI exI [of _ "[?out]"]) (simp_all add: en_finish_def release_permits_eq length_pair_work)
    with False claim Inr send rel sinv show ?thesis
      by (intro exI [of _ ?works]) (simp add: drain_queue_def Let_def en_finish_def release_permits_eq)
  qed
qed

lemma drain_queues_stretch:
  assumes "dinv (en_dispatcher e) (G + permits_of permits)" "sinv (en_store e)" "en_delivery_open e"
    and "length (en_delivery e) + length permits \<le> do_max_delivery_in_flight (en_options e)"
    and "\<forall>p\<in>set permits. rsv_queue_name p \<in> set queues \<and> (\<exists>i. rsv_permit p = RegistryPermit i)"
  shows "\<exists>works e'. drain_queues P queues permits e = Some e' \<and> stretch works queues permits e e' \<and>
    dinv (en_dispatcher e') (G + permits_of (map dw_permit works)) \<and> sinv (en_store e')"
  using assms
proof (induction queues arbitrary: permits e G)
  case Nil
  then show ?case using stretch_Nil [of e] by (intro exI [of _ "[]"]) simp
next
  case (Cons q queues)
  let ?ps1 = "filter (\<lambda>p. rsv_queue_name p = q) permits" and ?ps2 = "filter (\<lambda>p. rsv_queue_name p \<noteq> q) permits"
  have split: "mset permits = mset ?ps1 + mset ?ps2" by (simp add: multiset_partition)
  have len: "length permits = length ?ps1 + length ?ps2" using split by (metis size_mset size_union)
  have "permits_of permits = permits_of (?ps1 @ ?ps2)" using split by (intro permits_of_mset) simp
  then have inv1: "dinv (en_dispatcher e) ((G + permits_of ?ps2) + permits_of ?ps1)" using Cons.prems(1) by (simp add: ac_simps)
  have room1: "length (en_delivery e) + length ?ps1 \<le> do_max_delivery_in_flight (en_options e)" using Cons.prems(4) len by linarith
  have valid1: "\<forall>p\<in>set ?ps1. rsv_queue_name p = q \<and> (\<exists>i. rsv_permit p = RegistryPermit i)" using Cons.prems(5) by auto
  have valid2: "\<forall>p\<in>set ?ps2. rsv_queue_name p \<in> set queues \<and> (\<exists>i. rsv_permit p = RegistryPermit i)" using Cons.prems(5) by auto
  from drain_queue_stretch [OF inv1 Cons.prems(2,3) room1 valid1] obtain w1 e1 where
    e1: "drain_queue P q ?ps1 e = Some e1" "stretch w1 [q] ?ps1 e e1"
      "dinv (en_dispatcher e1) ((G + permits_of (map dw_permit w1)) + permits_of ?ps2)" "sinv (en_store e1)" by (auto simp: ac_simps)
  have frame: "en_options e1 = en_options e" "en_delivery_open e1" using e1(2) Cons.prems(3) by (simp_all add: stretch_def)
  have "length (en_delivery e1) + length ?ps2 \<le> do_max_delivery_in_flight (en_options e1)"
    using stretch_works [OF e1(2)] Cons.prems(4) len frame(1) by simp
  from Cons.IH [OF e1(3,4) frame(2) this valid2] obtain w2 e2 where
    e2: "drain_queues P queues ?ps2 e1 = Some e2" "stretch w2 queues ?ps2 e1 e2"
      "dinv (en_dispatcher e2) (G + permits_of (map dw_permit (w1 @ w2)))" "sinv (en_store e2)" by (auto simp: ac_simps)
  with e1(1) stretch_Cons [OF e1(2) e2(2) split] show ?case by (intro exI [of _ "w1 @ w2"] exI [of _ e2]) simp
qed

text \<open>A pass never panics, and accounts for every permit and every budget.\<close>

lemma drain_pass_effect:
  assumes inv: "dinv (en_dispatcher e) G" "sinv (en_store e)" "en_delivery_open e" and queues: "distinct queues"
    and room: "en_budget e + length (en_delivery e) \<le> do_max_delivery_in_flight (en_options e)"
  shows "\<exists>works e'. drain_pass P queues e = Some e' \<and> pass_effect works queues e e' \<and>
    dinv (en_dispatcher e') (G + permits_of (map dw_permit works)) \<and> sinv (en_store e')"
proof (cases "en_budget e = 0")
  case True
  have "pass_effect [] queues e (fold (\<lambda>q. en_finish q CapacityBlocked) queues e)"
    using pass_effect_no_work [of queues e CapacityBlocked "en_dispatcher e"] by simp
  with True inv show ?thesis by (intro exI [of _ "[]"]) (simp add: drain_pass_def fold_en_finish)
next
  case False
  let ?n = "per_queue (en_options e) (en_budget e) (length queues)"
  let ?rs = "map (\<lambda>q. \<lparr>qres_queue_name = q, qres_count = ?n\<rparr>) queues"
  have rs: "map qres_queue_name ?rs = queues" by (simp add: comp_def)
  obtain r d where res: "pt_reserve P ?rs (en_dispatcher e) = (r, d)" by fastforce
  show ?thesis
  proof (cases r)
    case (Inl err)
    from reserve_Inl [OF inv(1)] res Inl have "dinv d G" by auto
    with pass_effect_no_work [of queues e Retry d] False res Inl inv show ?thesis
      by (intro exI [of _ "[]"]) (simp add: drain_pass_def Let_def fold_en_finish)
  next
    case (Inr permits)
    have dis: "distinct (map qres_queue_name ?rs)" using queues by (simp only: rs)
    from reserve_Inr [OF inv(1) dis] res Inr have p: "dinv d (G + permits_of permits)"
        "\<forall>p\<in>set permits. rsv_queue_name p \<in> set queues \<and> (\<exists>i. rsv_permit p = RegistryPermit i)"
        "\<And>q. q \<in> set queues \<Longrightarrow> length (filter (\<lambda>p. rsv_queue_name p = q) permits) \<le> ?n"
      by (auto simp: image_image)
    let ?got = "take (en_budget e) permits" and ?rest = "drop (en_budget e) permits"
    let ?e2 = "e\<lparr>en_dispatcher := fold (pt_release P) ?rest d, en_budget := en_budget e - length permits\<rparr>"
    have "dinv d ((G + permits_of ?got) + permits_of ?rest)"
      using p(1) permits_of_take_drop [of permits "en_budget e"] by (simp add: ac_simps)
    from fold_release [OF this] p(2) have d2: "dinv (en_dispatcher ?e2) (G + permits_of ?got)" by (auto dest: in_set_dropD)
    have room2: "length (en_delivery ?e2) + length ?got \<le> do_max_delivery_in_flight (en_options ?e2)" using room by simp
    have got: "\<forall>p\<in>set ?got. rsv_queue_name p \<in> set queues \<and> (\<exists>i. rsv_permit p = RegistryPermit i)" using p(2) by (meson in_set_takeD)
    from drain_queues_stretch [OF d2 _ _ room2 got] inv obtain works e' where
      e': "drain_queues P queues ?got ?e2 = Some e'" "stretch works queues ?got ?e2 e'"
        "dinv (en_dispatcher e') (G + permits_of (map dw_permit works))" "sinv (en_store e')" by auto
    have "mset ?got \<subseteq># mset permits" by (metis append_take_drop_id mset_append mset_subset_eq_add_left)
    from stretch_pass_effect [OF e'(2) this] p(2,3) have "pass_effect works queues e e'" by simp
    moreover have "drain_pass P queues e = Some e'"
      using False res Inr e'(1) by (simp add: drain_pass_def acquire_budgets_eq Let_def)
    ultimately show ?thesis using e'(3,4) by blast
  qed
qed

end

end
