(* ===== verification/Maq_Sql.thy ===== *)
theory Maq_Sql
  imports Maq_Types "HOL-Library.List_Lexorder" "HOL-Library.Char_ord"
begin

text \<open>
  The meaning of the SQL text in \<open>crates/persistence/src/sqlite\<close>. A table is the list of its
  rows in rowid order; a statement is a function on that list. What the statements leave to the
  database engine is an argument of every operation, bundled in \<open>env\<close>: whether the call fails
  (\<open>env_io\<close>: the error text SQLite or the writer channel reports; a failed statement or
  transaction leaves the table unchanged), the clock readings (\<open>unix_now\<close>; a reading before 1970, on which
  \<open>unix_now\<close> panics, is not represented), the UUIDs
  (\<open>new_dispatch_id\<close>) and which of several matching \<open>VALUES\<close> rows an
  \<open>UPDATE .. FROM\<close> uses (\<open>env_pick\<close>). The locale \<open>fenced_update\<close> is the contract shared by every
  statement of the form \<open>UPDATE .. WHERE id = ? AND dispatch_id = ? ..\<close>.
\<close>

record env =
  env_io :: "nat \<Rightarrow> string option"
  env_clock :: "nat \<Rightarrow> i64"
  env_uuid :: "nat \<Rightarrow> string"
  env_pick :: "nat \<Rightarrow> nat"

section \<open>Statements\<close>

text \<open>The first row with a given key: \<open>SELECT .. WHERE key = ?\<close> on a unique column.\<close>

definition row_by :: "('r \<Rightarrow> 'k) \<Rightarrow> 'k \<Rightarrow> 'r list \<Rightarrow> 'r option" where
  "row_by key k rows = find (\<lambda>r. key r = k) rows"

text \<open>\<open>UPDATE t SET .. WHERE ..\<close>\<close>

definition update_where :: "('r \<Rightarrow> bool) \<Rightarrow> ('r \<Rightarrow> 'r) \<Rightarrow> 'r list \<Rightarrow> 'r list" where
  "update_where P f rows = map (\<lambda>r. if P r then f r else r) rows"

text \<open>
  \<open>WITH v(..) AS (VALUES ..) UPDATE t SET .. FROM v WHERE ..\<close>, the statement
  \<open>bulk::update_from_values_sql\<close> builds: every row that matches some \<open>v\<close> is updated once, from an
  arbitrary one of its matches; \<open>updated_from\<close> is what \<open>RETURNING\<close> reads, the updated rows.
\<close>

definition pick_nth :: "(nat \<Rightarrow> nat) \<Rightarrow> 'v list \<Rightarrow> 'v" where
  "pick_nth pick vs = vs ! (pick (length vs) mod length vs)"

definition update_from ::
  "(nat \<Rightarrow> nat) \<Rightarrow> ('v \<Rightarrow> 'r \<Rightarrow> bool) \<Rightarrow> ('v \<Rightarrow> 'r \<Rightarrow> 'r) \<Rightarrow> 'v list \<Rightarrow> 'r list \<Rightarrow> 'r list" where
  "update_from pick on upd vs rows =
     map (\<lambda>r. let ms = filter (\<lambda>v. on v r) vs in if ms = [] then r else upd (pick_nth pick ms) r) rows"

definition updated_from ::
  "(nat \<Rightarrow> nat) \<Rightarrow> ('v \<Rightarrow> 'r \<Rightarrow> bool) \<Rightarrow> ('v \<Rightarrow> 'r \<Rightarrow> 'r) \<Rightarrow> 'v list \<Rightarrow> 'r list \<Rightarrow> 'r list" where
  "updated_from pick on upd vs rows =
     map (\<lambda>r. upd (pick_nth pick (filter (\<lambda>v. on v r) vs)) r)
       (filter (\<lambda>r. filter (\<lambda>v. on v r) vs \<noteq> []) rows)"

text \<open>
  The rowid of a new row of a table with an \<open>INTEGER PRIMARY KEY\<close> that is not \<open>AUTOINCREMENT\<close>: one
  more than the largest rowid in the table, 1 in an empty table. With the largest possible rowid in
  use the insertion is taken to fail (SQLite first tries unused rowids at random).
\<close>

fun max_rowid :: "i64 list \<Rightarrow> i64" where
  "max_rowid [] = 0"
| "max_rowid [i] = i"
| "max_rowid (i # j # is) = max i (max_rowid (j # is))"

definition next_rowid :: "i64 list \<Rightarrow> i64 option" where
  "next_rowid ids = (if max_rowid ids = i64_max then None else Some (max_rowid ids + 1))"

section \<open>Queue rows\<close>

text \<open>\<open>job_queues\<close> and \<open>execution_queues\<close> have the same columns (common.rs, both schemas).\<close>

record QueueRow =
  qr_name :: string
  qr_max_retries :: i64
  qr_timeout_secs :: i64
  qr_created_at :: i64
  qr_updated_at :: i64

definition conversion_error :: "nat \<Rightarrow> string" where
  "conversion_error idx =
     ''Conversion error from type Integer at index: '' @ show_nat idx @
     '', out of range integral type conversion attempted''"

definition row_to_queue_at :: "nat \<Rightarrow> QueueRow \<Rightarrow> string + JobQueue" where
  "row_to_queue_at offset r =
     (case u32_try_from (qr_max_retries r) of
        None \<Rightarrow> Inl (conversion_error (offset + 1))
      | Some m \<Rightarrow>
          (case u64_try_from (qr_timeout_secs r) of
             None \<Rightarrow> Inl (conversion_error (offset + 2))
           | Some t \<Rightarrow>
               Inr \<lparr>jq_name = qr_name r, jq_max_retries = m, jq_timeout_secs = t,
                    jq_created_at = qr_created_at r, jq_updated_at = qr_updated_at r\<rparr>))"

definition row_to_queue :: "QueueRow \<Rightarrow> string + JobQueue" where
  "row_to_queue r = row_to_queue_at 0 r"

text \<open>Binding a \<open>u64\<close> parameter fails above \<open>i64::MAX\<close>.\<close>

definition u64_to_sql :: "u64 \<Rightarrow> i64 option" where
  "u64_to_sql w = (if uint w \<le> i64_max then Some (uint w) else None)"

text \<open>
  \<open>INSERT INTO <queues> .. ON CONFLICT(name) DO UPDATE SET max_retries, timeout_secs, updated_at\<close>,
  then \<open>SELECT .. WHERE name = ?\<close>: the body that \<open>IngestConn::upsert_queue\<close> and
  \<open>ResultsConn::upsert_queue\<close> share.
\<close>

definition upsert_queue_rows :: "QueueRow \<Rightarrow> QueueRow list \<Rightarrow> QueueRow list" where
  "upsert_queue_rows q rows =
     (if row_by qr_name (qr_name q) rows = None then rows @ [q]
      else update_where (\<lambda>r. qr_name r = qr_name q)
             (\<lambda>r. r\<lparr>qr_max_retries := qr_max_retries q, qr_timeout_secs := qr_timeout_secs q,
                    qr_updated_at := qr_updated_at q\<rparr>) rows)"

definition upsert_queue_sql ::
  "string option \<Rightarrow> string option \<Rightarrow> i64 \<Rightarrow> JobQueue \<Rightarrow> QueueRow list \<Rightarrow>
     (StoreError + JobQueue) \<times> QueueRow list" where
  "upsert_queue_sql io_exec io_query now queue0 rows =
     (let queue = queue0\<lparr>jq_updated_at := now\<rparr> in
      case u64_to_sql (jq_timeout_secs queue) of
        None \<Rightarrow> (Inl (Internal ''out of range integral type conversion attempted''), rows)
      | Some t \<Rightarrow>
          (case io_exec of
             Some e \<Rightarrow> (Inl (Internal e), rows)
           | None \<Rightarrow>
               let rows' = upsert_queue_rows
                     \<lparr>qr_name = jq_name queue, qr_max_retries = uint (jq_max_retries queue),
                      qr_timeout_secs = t, qr_created_at = jq_created_at queue,
                      qr_updated_at = jq_updated_at queue\<rparr> rows
               in (case io_query of
                     Some e \<Rightarrow> (Inl (Internal e), rows')
                   | None \<Rightarrow>
                       (case row_by qr_name (jq_name queue) rows' of
                          None \<Rightarrow> (Inl (Internal ''Query returned no rows''), rows')
                        | Some r \<Rightarrow>
                            (case row_to_queue r of
                               Inl e \<Rightarrow> (Inl (Internal e), rows')
                             | Inr q \<Rightarrow> (Inr q, rows'))))))"

section \<open>The order of claims\<close>

text \<open>\<open>ORDER BY created_at ASC, id ASC\<close> as a linear order.\<close>

datatype claim_key = ClaimKey (ck_created_at: i64) (ck_id: i64)

instantiation claim_key :: linorder
begin

definition less_eq_claim_key :: "claim_key \<Rightarrow> claim_key \<Rightarrow> bool" where
  "less_eq_claim_key a b \<longleftrightarrow>
     ck_created_at a < ck_created_at b \<or> (ck_created_at a = ck_created_at b \<and> ck_id a \<le> ck_id b)"

definition less_claim_key :: "claim_key \<Rightarrow> claim_key \<Rightarrow> bool" where
  "less_claim_key a b \<longleftrightarrow>
     ck_created_at a < ck_created_at b \<or> (ck_created_at a = ck_created_at b \<and> ck_id a < ck_id b)"

instance
  by standard
    (auto simp: less_eq_claim_key_def less_claim_key_def claim_key.expand)

end

section \<open>Facts about statements\<close>

lemma ClaimKey_less:
  "ClaimKey a i < ClaimKey b j \<longleftrightarrow> a < b \<or> (a = b \<and> i < j)"
  by (simp add: less_claim_key_def)

lemma row_by_Nil [simp]: "row_by key k [] = None"
  by (simp add: row_by_def)

lemma row_by_Cons [simp]: "row_by key k (x # xs) = (if key x = k then Some x else row_by key k xs)"
  by (simp add: row_by_def)

lemma row_by_Some: "row_by key k rows = Some r \<Longrightarrow> r \<in> set rows \<and> key r = k"
  by (auto simp: row_by_def find_Some_iff)

lemma row_by_None: "row_by key k rows = None \<longleftrightarrow> k \<notin> key ` set rows"
  by (auto simp: row_by_def find_None_iff)

lemma row_by_distinct:
  "distinct (map key rows) \<Longrightarrow> row_by key k rows = Some r \<longleftrightarrow> r \<in> set rows \<and> key r = k"
  by (induction rows) (auto simp: row_by_def rev_image_eqI)

lemma row_by_map:
  assumes "\<And>r. key (g r) = key r"
  shows "row_by key k (map g rows) = map_option g (row_by key k rows)"
  by (induction rows) (simp_all add: row_by_def assms)

lemma row_by_append:
  "row_by key k (xs @ ys) = (case row_by key k xs of None \<Rightarrow> row_by key k ys | Some r \<Rightarrow> Some r)"
  by (induction xs) (simp_all add: row_by_def)

lemma row_by_filter:
  assumes "distinct (map key rows)"
  shows "row_by key k (filter P rows) =
           (case row_by key k rows of None \<Rightarrow> None | Some r \<Rightarrow> if P r then Some r else None)"
proof (cases "row_by key k rows")
  case None
  then have "row_by key k (filter P rows) = None" by (auto simp: row_by_None)
  with None show ?thesis by simp
next
  case (Some r)
  then have r: "r \<in> set rows" "key r = k" and only: "\<And>s. s \<in> set rows \<Longrightarrow> key s = k \<Longrightarrow> s = r"
    using assms by (auto simp: row_by_distinct dest: inj_onD [OF distinct_map [THEN iffD1, THEN conjunct2]])
  show ?thesis
  proof (cases "P r")
    case True
    then have "row_by key k (filter P rows) = Some r"
      using r assms by (simp add: row_by_distinct distinct_map_filter)
    with Some True show ?thesis by simp
  next
    case False
    then have "row_by key k (filter P rows) = None"
      using only by (auto simp: row_by_None)
    with Some False show ?thesis by simp
  qed
qed

lemma distinct_map_filter_key: "distinct (map key rows) \<Longrightarrow> distinct (map key (filter P rows))"
  by (rule distinct_map_filter)

lemma update_where_keys [simp]:
  assumes "\<And>r. key (f r) = key r"
  shows "map key (update_where P f rows) = map key rows"
  by (simp add: update_where_def assms)

lemma row_by_update_where:
  assumes "\<And>r. key (f r) = key r"
  shows "row_by key k (update_where P f rows) =
           map_option (\<lambda>r. if P r then f r else r) (row_by key k rows)"
  unfolding update_where_def by (rule row_by_map) (simp add: assms)

lemma pick_nth_in: "vs \<noteq> [] \<Longrightarrow> pick_nth pick vs \<in> set vs"
  by (simp add: pick_nth_def)

lemma pick_nth_single [simp]: "pick_nth pick [v] = v"
  by (simp add: pick_nth_def)

lemma update_from_keys:
  assumes "\<And>v r. key (upd v r) = key r"
  shows "map key (update_from pick on upd vs rows) = map key rows"
  by (simp add: update_from_def Let_def assms comp_def)

lemma row_by_update_from:
  assumes "\<And>v r. key (upd v r) = key r"
  shows "row_by key k (update_from pick on upd vs rows) =
     map_option (\<lambda>r. let ms = filter (\<lambda>v. on v r) vs
                     in if ms = [] then r else upd (pick_nth pick ms) r) (row_by key k rows)"
  unfolding update_from_def by (rule row_by_map) (simp add: assms Let_def)

text \<open>An \<open>UPDATE .. FROM\<close> with one \<open>VALUES\<close> row is a plain guarded update.\<close>

lemma update_from_single [simp]:
  "update_from pick on upd [v] rows = update_where (on v) (upd v) rows"
  by (simp add: update_from_def update_where_def Let_def)

lemma max_rowid_ge: "i \<in> set ids \<Longrightarrow> i \<le> max_rowid ids"
  by (induction ids rule: max_rowid.induct) auto

lemma next_rowid_fresh: "next_rowid ids = Some i \<Longrightarrow> j \<in> set ids \<Longrightarrow> j < i"
  using max_rowid_ge [of j ids] by (auto simp: next_rowid_def split: if_splits)

lemma max_rowid_snoc: "ids \<noteq> [] \<Longrightarrow> max_rowid (ids @ [i]) = max (max_rowid ids) i"
  by (induction ids rule: max_rowid.induct) (auto simp: max.assoc)

lemma max_rowid_snoc_next:
  assumes "next_rowid ids = Some i" and "0 \<le> max_rowid ids"
  shows "max_rowid (ids @ [i]) = i"
proof (cases "ids = []")
  case True
  then show ?thesis by simp
next
  case False
  then show ?thesis
    using assms by (auto simp: max_rowid_snoc next_rowid_def split: if_splits)
qed

text \<open>A stored queue row that came from a \<open>JobQueue\<close> reads back.\<close>

definition queue_row_ok :: "QueueRow \<Rightarrow> bool" where
  "queue_row_ok r \<longleftrightarrow>
     0 \<le> qr_max_retries r \<and> qr_max_retries r < 4294967296 \<and>
     0 \<le> qr_timeout_secs r \<and> qr_timeout_secs r \<le> i64_max"

lemma row_to_queue_ok: "queue_row_ok r \<Longrightarrow> \<exists>q. row_to_queue r = Inr q \<and> jq_name q = qr_name r"
  by (auto simp: row_to_queue_def row_to_queue_at_def queue_row_ok_def u32_try_from_def u64_try_from_def
      i64_max_def)

definition queue_rows_wf :: "QueueRow list \<Rightarrow> bool" where
  "queue_rows_wf rows \<longleftrightarrow> distinct (map qr_name rows) \<and> list_all queue_row_ok rows"

lemma upsert_queue_rows_names:
  "set (map qr_name (upsert_queue_rows q rows)) = insert (qr_name q) (set (map qr_name rows))"
proof (cases "row_by qr_name (qr_name q) rows")
  case None
  then show ?thesis by (auto simp: upsert_queue_rows_def)
next
  case (Some r)
  then have "qr_name q \<in> set (map qr_name rows)"
    using row_by_Some [OF Some] by (auto intro: image_eqI [where x = r])
  then show ?thesis using Some by (simp add: upsert_queue_rows_def del: set_map) auto
qed

lemma upsert_queue_rows_wf:
  assumes "queue_rows_wf rows" and "queue_row_ok q"
  shows "queue_rows_wf (upsert_queue_rows q rows)"
proof (cases "row_by qr_name (qr_name q) rows = None")
  case True
  then show ?thesis
    using assms by (auto simp: upsert_queue_rows_def queue_rows_wf_def row_by_None)
next
  case False
  have "list_all queue_row_ok (upsert_queue_rows q rows)"
    using False assms
    by (auto simp: upsert_queue_rows_def queue_rows_wf_def update_where_def list_all_iff queue_row_ok_def)
  moreover have "map qr_name (upsert_queue_rows q rows) = map qr_name rows"
    using False by (simp add: upsert_queue_rows_def)
  ultimately show ?thesis
    using assms by (simp add: queue_rows_wf_def)
qed

lemma upsert_queue_sql_wf:
  assumes "queue_rows_wf rows"
  shows "queue_rows_wf (snd (upsert_queue_sql io1 io2 now q rows))"
proof -
  have ok: "queue_row_ok \<lparr>qr_name = n, qr_max_retries = uint (m :: u32), qr_timeout_secs = uint (t :: u64),
      qr_created_at = c, qr_updated_at = u\<rparr>" if "uint t \<le> i64_max" for n m t c u
    using that unsigned_less [of m, where 'a = int] by (simp add: queue_row_ok_def)
  show ?thesis
    using assms
    by (auto simp: upsert_queue_sql_def Let_def u64_to_sql_def intro!: upsert_queue_rows_wf ok
        split: option.splits sum.splits)
qed

lemma upsert_queue_sql_names:
  "set (map qr_name (snd (upsert_queue_sql io1 io2 now q rows))) =
     set (map qr_name rows) \<or>
   set (map qr_name (snd (upsert_queue_sql io1 io2 now q rows))) =
     insert (jq_name q) (set (map qr_name rows))"
  using upsert_queue_rows_names
  by (auto simp: upsert_queue_sql_def Let_def simp del: set_map split: option.splits sum.splits)

lemma upsert_queue_sql_Inr:
  assumes "upsert_queue_sql io1 io2 now q rows = (Inr q', rows')"
  shows "set (map qr_name rows') = insert (jq_name q) (set (map qr_name rows))"
  using assms upsert_queue_rows_names
  by (auto simp: upsert_queue_sql_def Let_def simp del: set_map split: option.splits sum.splits)

section \<open>Fenced updates\<close>

text \<open>
  The contract of a fenced update: the update keeps the row's key, and an updated row no
  longer satisfies the guard of any fence. A second delivery of the same update is then a
  no-op, and rows under other keys never change.
\<close>

locale fenced_update =
  fixes key :: "'r \<Rightarrow> 'k"
    and guard :: "'f \<Rightarrow> 'r \<Rightarrow> bool"
    and upd :: "'x \<Rightarrow> 'r \<Rightarrow> 'r"
  assumes key_upd: "key (upd x r) = key r"
    and disarmed: "\<not> guard f (upd x r)"
begin

lemma once:
  "update_where (guard f) (upd y) (update_where (guard f) (upd x) rows) =
     update_where (guard f) (upd x) rows"
  by (simp add: update_where_def disarmed)

lemma keys: "map key (update_where (guard f) (upd x) rows) = map key rows"
  by (rule update_where_keys) (rule key_upd)

lemma lookup:
  "row_by key k (update_where (guard f) (upd x) rows) =
     map_option (\<lambda>r. if guard f r then upd x r else r) (row_by key k rows)"
  by (rule row_by_update_where) (rule key_upd)

lemma stale:
  assumes "\<And>r. r \<in> set rows \<Longrightarrow> \<not> guard f r"
  shows "update_where (guard f) (upd x) rows = rows"
  using assms by (induction rows) (simp_all add: update_where_def)

lemma batch_keys: "map key (update_from pick (\<lambda>v. guard (fence v)) (\<lambda>v. upd (val v)) vs rows) = map key rows"
  by (rule update_from_keys) (rule key_upd)

lemma batch_once:
  assumes "set ws \<subseteq> set vs"
  shows "update_from pick (\<lambda>v. guard (fence v)) (\<lambda>v. upd (val v)) ws
           (update_from pick (\<lambda>v. guard (fence v)) (\<lambda>v. upd (val v)) vs rows) =
         update_from pick (\<lambda>v. guard (fence v)) (\<lambda>v. upd (val v)) vs rows"
proof -
  have "filter (\<lambda>v. guard (fence v) r) ws = []" if "filter (\<lambda>v. guard (fence v) r) vs = []" for r
    using that assms by (auto simp: filter_empty_conv)
  then show ?thesis
    by (simp add: update_from_def Let_def disarmed)
qed

lemma batch_const:
  "update_from pick guard (\<lambda>_. upd x) vs rows = update_where (\<lambda>r. \<exists>v \<in> set vs. guard v r) (upd x) rows"
  by (auto simp: update_from_def update_where_def Let_def filter_empty_conv)

lemma batch_chunks:
  "fold (\<lambda>vs rows. update_from pick guard (\<lambda>_. upd x) vs rows) cs rows =
     update_where (\<lambda>r. \<exists>v \<in> set (concat cs). guard v r) (upd x) rows"
proof (induction cs arbitrary: rows)
  case Nil
  then show ?case by (simp add: update_where_def)
next
  case (Cons c cs)
  have "fold (\<lambda>vs rows. update_from pick guard (\<lambda>_. upd x) vs rows) (c # cs) rows =
      update_where (\<lambda>r. \<exists>v \<in> set (concat cs). guard v r) (upd x)
        (update_where (\<lambda>r. \<exists>v \<in> set c. guard v r) (upd x) rows)"
    unfolding fold.simps comp_apply Cons by (simp add: batch_const)
  then show ?case by (auto simp: update_where_def disarmed)
qed

end

end
