(* ===== verification/Maq_Ingest.thy ===== *)
theory Maq_Ingest
  imports Maq_Sql
begin

text \<open>
  The ingest database and its writer connection (\<open>crates/persistence/src/sqlite/ingest.rs\<close>,
  \<open>IngestConn\<close>): the tables \<open>job_queues\<close>, \<open>accepted_jobs\<close> and \<open>meta\<close>, the cached set of queue
  names, and the operations enqueue, claim, repend, cleanup and vacuum, with the request handler that
  dispatches to them. A \<open>oneshot\<close> reply channel is a number; the operations return the
  replies they send.
\<close>

section \<open>State\<close>

record IngestDb =
  job_queues :: "QueueRow list"
  accepted_jobs :: "AcceptedJob list"
  ing_meta :: "string \<rightharpoonup> string"

definition IngestDb_empty :: IngestDb where
  "IngestDb_empty = \<lparr>job_queues = [], accepted_jobs = [], ing_meta = Map.empty\<rparr>"

record IngestClaimed =
  ic_id :: i64
  ic_name :: string
  ic_payload :: bytes
  ic_timeout_secs :: u64
  ic_dispatch_id :: string
  ic_created_at :: i64

record PendingEnqueue =
  pe_job :: AcceptedJob
  pe_reply :: nat

datatype IngestRequest =
    ReqUpsertQueue JobQueue nat
  | ReqEnqueue AcceptedJob nat
  | ReqClaimBatch string nat nat
  | ReqRepend i64 string nat
  | ReqCleanup i64 nat
  | ReqVacuum nat

datatype IngestReply =
    RepQueue "StoreError + JobQueue"
  | RepAccepted "StoreError + AcceptedJob"
  | RepClaimed "StoreError + IngestClaimed list"
  | RepUnit "StoreError + unit"
  | RepCount "StoreError + nat"

definition ROWS_PER_STATEMENT :: nat where
  "ROWS_PER_STATEMENT = 256"

section \<open>Operations\<close>

definition queue_names :: "IngestDb \<Rightarrow> string set" where
  "queue_names db = set (map qr_name (job_queues db))"

definition ingest_upsert_queue ::
  "string option \<Rightarrow> string option \<Rightarrow> i64 \<Rightarrow> JobQueue \<Rightarrow> IngestDb \<Rightarrow> (StoreError + JobQueue) \<times> IngestDb" where
  "ingest_upsert_queue io_exec io_query now queue db =
     (let (r, rows) = upsert_queue_sql io_exec io_query now queue (job_queues db)
      in (r, db\<lparr>job_queues := rows\<rparr>))"

text \<open>
  One multi-row \<open>INSERT INTO accepted_jobs (queue_name, payload, created_at, updated_at)\<close>: the new
  rows are unclaimed, their rowids are allocated one by one, and the last one is what
  \<open>last_insert_rowid\<close> reports. \<open>queue_name\<close> references \<open>job_queues(name)\<close>.
\<close>

fun insert_accepted ::
  "string set \<Rightarrow> AcceptedJob list \<Rightarrow> i64 \<Rightarrow> AcceptedJob list \<Rightarrow> string + (AcceptedJob list \<times> i64)" where
  "insert_accepted names rows last_id [] = Inr (rows, last_id)"
| "insert_accepted names rows last_id (j # js) =
     (if aj_queue_name j \<notin> names then Inl ''FOREIGN KEY constraint failed''
      else case next_rowid (map aj_id rows) of
             None \<Rightarrow> Inl ''database or disk is full''
           | Some i \<Rightarrow>
               insert_accepted names
                 (rows @ [\<lparr>aj_id = i, aj_queue_name = aj_queue_name j, aj_payload = aj_payload j,
                            aj_dispatch_id = None, aj_created_at = aj_created_at j,
                            aj_updated_at = aj_updated_at j\<rparr>]) i js)"

definition stamp_ids :: "i64 \<Rightarrow> PendingEnqueue list \<Rightarrow> PendingEnqueue list" where
  "stamp_ids first_id chunk =
     map (\<lambda>(offset, p). p\<lparr>pe_job := (pe_job p)\<lparr>aj_id := first_id + int offset\<rparr>\<rparr>)
       (zip [0..<length chunk] chunk)"

fun insert_chunks ::
  "string set \<Rightarrow> AcceptedJob list \<Rightarrow> PendingEnqueue list list \<Rightarrow>
     string + (AcceptedJob list \<times> PendingEnqueue list)" where
  "insert_chunks names rows [] = Inr (rows, [])"
| "insert_chunks names rows (chunk # rest) =
     (case insert_accepted names rows 0 (map pe_job chunk) of
        Inl e \<Rightarrow> Inl e
      | Inr (rows', last_insert_rowid) \<Rightarrow>
          let first_id = last_insert_rowid - int (length chunk) + 1 in
          (case insert_chunks names rows' rest of
             Inl e \<Rightarrow> Inl e
           | Inr (rows'', stamped) \<Rightarrow> Inr (rows'', stamp_ids first_id chunk @ stamped)))"

definition enqueue_batch ::
  "string option \<Rightarrow> PendingEnqueue list \<Rightarrow> string set \<Rightarrow> IngestDb \<Rightarrow>
     IngestDb \<times> (nat \<times> (StoreError + AcceptedJob)) list \<times> nat option" where
  "enqueue_batch io batch names db =
     (if batch = [] then (db, [], None)
      else
        let to_insert = filter (\<lambda>p. aj_queue_name (pe_job p) \<in> names) batch;
            rejected = map (\<lambda>p. (pe_reply p, Inl (QueueNotFound (aj_queue_name (pe_job p)))))
                         (filter (\<lambda>p. aj_queue_name (pe_job p) \<notin> names) batch)
        in if to_insert = [] then (db, rejected, None)
           else case (case io of
                        Some e \<Rightarrow> Inl e
                      | None \<Rightarrow> insert_chunks (queue_names db) (accepted_jobs db)
                                  (chunks ROWS_PER_STATEMENT to_insert)) of
                  Inl e \<Rightarrow> (db, rejected @ map (\<lambda>p. (pe_reply p, Inl (Internal e))) to_insert, None)
                | Inr (rows, stamped) \<Rightarrow>
                    (db\<lparr>accepted_jobs := rows\<rparr>,
                     rejected @ map (\<lambda>p. (pe_reply p, Inr (pe_job p))) stamped,
                     Some (length to_insert)))"

text \<open>
  \<open>SELECT .. FROM accepted_jobs JOIN job_queues .. WHERE queue_name = ? AND dispatch_id IS NULL
  ORDER BY created_at ASC, id ASC LIMIT ?\<close>
\<close>

definition pending_rows :: "string \<Rightarrow> AcceptedJob list \<Rightarrow> AcceptedJob list" where
  "pending_rows queue rows =
     sort_key (\<lambda>r. ClaimKey (aj_created_at r) (aj_id r))
       (filter (\<lambda>r. aj_queue_name r = queue \<and> aj_dispatch_id r = None) rows)"

definition select_pending :: "IngestDb \<Rightarrow> string \<Rightarrow> nat \<Rightarrow> (AcceptedJob \<times> i64) list" where
  "select_pending db queue limit =
     take limit
       (concat (map (\<lambda>r. map (\<lambda>q. (r, qr_timeout_secs q))
                           (filter (\<lambda>q. qr_name q = aj_queue_name r) (job_queues db)))
                  (pending_rows queue (accepted_jobs db))))"

text \<open>
  One chunk of a claim: \<open>UPDATE accepted_jobs SET dispatch_id, updated_at FROM v WHERE id = v.id AND
  dispatch_id IS NULL RETURNING id, dispatch_id\<close>, read back into a hash map by id.
\<close>

definition claim_update ::
  "(nat \<Rightarrow> nat) \<Rightarrow> i64 \<Rightarrow> (i64 \<times> string) list \<Rightarrow> AcceptedJob list \<Rightarrow> AcceptedJob list \<times> (i64 \<rightharpoonup> string)" where
  "claim_update pick now vs rows =
     (let on = (\<lambda>v r. aj_id r = fst v \<and> aj_dispatch_id r = None);
          upd = (\<lambda>v r. r\<lparr>aj_dispatch_id := Some (snd v), aj_updated_at := now\<rparr>)
      in (update_from pick on upd vs rows,
          map_of (rev (List.map_filter
            (\<lambda>r. map_option (\<lambda>d. (aj_id r, d)) (aj_dispatch_id r))
            (updated_from pick on upd vs rows)))))"

fun claimed_of_chunk ::
  "(i64 \<rightharpoonup> string) \<Rightarrow> (AcceptedJob \<times> i64) list \<Rightarrow> string + IngestClaimed list" where
  "claimed_of_chunk by_id [] = Inr []"
| "claimed_of_chunk by_id ((r, timeout) # rest) =
     (case by_id (aj_id r) of
        None \<Rightarrow> claimed_of_chunk by_id rest
      | Some d \<Rightarrow>
          (case u64_try_from timeout of
             None \<Rightarrow> Inl ''out of range integral type conversion attempted''
           | Some t \<Rightarrow>
               (case claimed_of_chunk by_id rest of
                  Inl e \<Rightarrow> Inl e
                | Inr cs \<Rightarrow>
                    Inr (\<lparr>ic_id = aj_id r, ic_name = aj_queue_name r, ic_payload = aj_payload r,
                          ic_timeout_secs = t, ic_dispatch_id = d,
                          ic_created_at = aj_created_at r\<rparr> # cs))))"

fun claim_chunks ::
  "(nat \<Rightarrow> nat) \<Rightarrow> i64 \<Rightarrow> (nat \<Rightarrow> string) \<Rightarrow> nat \<Rightarrow> (AcceptedJob \<times> i64) list list \<Rightarrow> AcceptedJob list \<Rightarrow>
     string + (AcceptedJob list \<times> IngestClaimed list)" where
  "claim_chunks pick now uuid n [] rows = Inr (rows, [])"
| "claim_chunks pick now uuid n (chunk # rest) rows =
     (let dispatch_ids = map uuid [n..<n + length chunk];
          vs = zip (map (\<lambda>(r, _). aj_id r) chunk) dispatch_ids;
          (rows', by_id) = claim_update pick now vs rows
      in case claimed_of_chunk by_id chunk of
           Inl e \<Rightarrow> Inl e
         | Inr cs \<Rightarrow>
             (case claim_chunks pick now uuid (n + length chunk) rest rows' of
                Inl e \<Rightarrow> Inl e
              | Inr (rows'', cs') \<Rightarrow> Inr (rows'', cs @ cs')))"

definition ingest_claim_batch ::
  "string option \<Rightarrow> (nat \<Rightarrow> nat) \<Rightarrow> i64 \<Rightarrow> (nat \<Rightarrow> string) \<Rightarrow> string \<Rightarrow> nat \<Rightarrow> string set \<Rightarrow> IngestDb \<Rightarrow>
     (StoreError + IngestClaimed list) \<times> IngestDb" where
  "ingest_claim_batch io pick now uuid queue limit0 names db =
     (if queue \<notin> names then (Inl (QueueNotFound queue), db)
      else
        let limit = clamp limit0 1 MAX_CLAIM_BATCH_SIZE in
        case io of
          Some e \<Rightarrow> (Inl (Internal e), db)
        | None \<Rightarrow>
            (case claim_chunks pick now uuid 0 (chunks ROWS_PER_STATEMENT (select_pending db queue limit))
                    (accepted_jobs db) of
               Inl e \<Rightarrow> (Inl (Internal e), db)
             | Inr (rows, claimed) \<Rightarrow> (Inr claimed, db\<lparr>accepted_jobs := rows\<rparr>)))"

text \<open>
  \<open>UPDATE accepted_jobs SET dispatch_id = NULL, updated_at = v.updated_at .. WHERE id = v.id AND
  dispatch_id = v.dispatch_id\<close>. Each chunk is a statement of its own, outside a transaction: the chunks before one that
  fails stay written. \<open>repend\<close> is \<open>repend_batch\<close> on one pair.
\<close>

definition repend_guard :: "i64 \<times> string \<Rightarrow> AcceptedJob \<Rightarrow> bool" where
  "repend_guard f r \<longleftrightarrow> aj_id r = fst f \<and> aj_dispatch_id r = Some (snd f)"

definition repend_upd :: "i64 \<Rightarrow> AcceptedJob \<Rightarrow> AcceptedJob" where
  "repend_upd now r = r\<lparr>aj_dispatch_id := None, aj_updated_at := now\<rparr>"

fun repend_chunks ::
  "(nat \<Rightarrow> string option) \<Rightarrow> (nat \<Rightarrow> nat) \<Rightarrow> i64 \<Rightarrow> (i64 \<times> string) list list \<Rightarrow> AcceptedJob list \<Rightarrow> (StoreError + unit) \<times> AcceptedJob list" where
  "repend_chunks io pick now [] rows = (Inr (), rows)"
| "repend_chunks io pick now (chunk # cs) rows =
     (case io 0 of
        Some e \<Rightarrow> (Inl (Internal e), rows)
      | None \<Rightarrow> repend_chunks (\<lambda>n. io (Suc n)) pick now cs (update_from pick repend_guard (\<lambda>_. repend_upd now) chunk rows))"

definition repend_batch ::
  "(nat \<Rightarrow> string option) \<Rightarrow> (nat \<Rightarrow> nat) \<Rightarrow> i64 \<Rightarrow> (i64 \<times> string) list \<Rightarrow> IngestDb \<Rightarrow> (StoreError + unit) \<times> IngestDb" where
  "repend_batch io pick now pairs db =
     (if pairs = [] then (Inr (), db)
      else
        let (r, rows) = repend_chunks io pick now (chunks ROWS_PER_STATEMENT pairs) (accepted_jobs db)
        in (r, db\<lparr>accepted_jobs := rows\<rparr>))"

definition ingest_repend ::
  "string option \<Rightarrow> (nat \<Rightarrow> nat) \<Rightarrow> i64 \<Rightarrow> i64 \<Rightarrow> string \<Rightarrow> IngestDb \<Rightarrow> (StoreError + unit) \<times> IngestDb" where
  "ingest_repend io pick now jid dispatch_id db = repend_batch (\<lambda>_. io) pick now [(jid, dispatch_id)] db"

definition ingest_cleanup :: "string option \<Rightarrow> i64 \<Rightarrow> IngestDb \<Rightarrow> (StoreError + nat) \<times> IngestDb" where
  "ingest_cleanup io cutoff db =
     (case io of
        Some e \<Rightarrow> (Inl (Internal e), db)
      | None \<Rightarrow>
          (Inr (length (filter (\<lambda>r. aj_created_at r < cutoff) (accepted_jobs db))),
           db\<lparr>accepted_jobs := filter (\<lambda>r. \<not> aj_created_at r < cutoff) (accepted_jobs db)\<rparr>))"

definition ingest_vacuum :: "string option \<Rightarrow> i64 \<Rightarrow> IngestDb \<Rightarrow> (StoreError + unit) \<times> IngestDb" where
  "ingest_vacuum io now db =
     (case io of
        Some e \<Rightarrow> (Inl (Internal e), db)
      | None \<Rightarrow> (Inr (), db\<lparr>ing_meta := (ing_meta db)(''last_vacuum_run'' \<mapsto> show_int now)\<rparr>))"

fun ingest_handle ::
  "env \<Rightarrow> IngestRequest \<Rightarrow> string set \<Rightarrow> IngestDb \<Rightarrow> IngestDb \<times> string set \<times> (nat \<times> IngestReply) list" where
  "ingest_handle E (ReqUpsertQueue queue reply) names db =
     (let (result, db') = ingest_upsert_queue (env_io E 0) (env_io E 1) (env_clock E 0) queue db
      in (db', (case result of Inl _ \<Rightarrow> names | Inr _ \<Rightarrow> insert (jq_name queue) names),
          [(reply, RepQueue result)]))"
| "ingest_handle E (ReqEnqueue job reply) names db =
     (let (db', replies, _) = enqueue_batch (env_io E 0) [\<lparr>pe_job = job, pe_reply = reply\<rparr>] names db
      in (db', names, map (\<lambda>(k, r). (k, RepAccepted r)) replies))"
| "ingest_handle E (ReqClaimBatch queue limit reply) names db =
     (let (result, db') = ingest_claim_batch (env_io E 0) (env_pick E) (env_clock E 0) (env_uuid E)
                            queue limit names db
      in (db', names, [(reply, RepClaimed result)]))"
| "ingest_handle E (ReqRepend jid dispatch_id reply) names db =
     (let (result, db') = ingest_repend (env_io E 0) (env_pick E) (env_clock E 0) jid dispatch_id db
      in (db', names, [(reply, RepUnit result)]))"
| "ingest_handle E (ReqCleanup cutoff reply) names db =
     (let (result, db') = ingest_cleanup (env_io E 0) cutoff db
      in (db', names, [(reply, RepCount result)]))"
| "ingest_handle E (ReqVacuum reply) names db =
     (let (result, db') = ingest_vacuum (env_io E 0) (env_clock E 0) db
      in (db', names, [(reply, RepUnit result)]))"

section \<open>Reads\<close>

text \<open>The read pool (\<open>ReadPool\<close>, common.rs): queries on the committed tables.\<close>

definition read_accepted_job :: "string option \<Rightarrow> i64 \<Rightarrow> IngestDb \<Rightarrow> StoreError + AcceptedJob" where
  "read_accepted_job io jid db =
     (case io of
        Some e \<Rightarrow> Inl (Internal e)
      | None \<Rightarrow> (case row_by aj_id jid (accepted_jobs db) of
                    None \<Rightarrow> Inl (NotFound jid)
                  | Some r \<Rightarrow> Inr r))"

definition read_queue :: "string option \<Rightarrow> string \<Rightarrow> IngestDb \<Rightarrow> StoreError + JobQueue option" where
  "read_queue io name db =
     (case io of
        Some e \<Rightarrow> Inl (Internal e)
      | None \<Rightarrow> (case row_by qr_name name (job_queues db) of
                    None \<Rightarrow> Inr None
                  | Some r \<Rightarrow> (case row_to_queue r of Inl e \<Rightarrow> Inl (Internal e) | Inr q \<Rightarrow> Inr (Some q))))"

text \<open>\<open>Iterator::collect::<Result<Vec<_>, _>>\<close>: the first error wins.\<close>

fun collect_results :: "('e + 'a) list \<Rightarrow> 'e + 'a list" where
  "collect_results [] = Inr []"
| "collect_results (Inl e # rs) = Inl e"
| "collect_results (Inr x # rs) =
     (case collect_results rs of Inl e \<Rightarrow> Inl e | Inr xs \<Rightarrow> Inr (x # xs))"

text \<open>\<open>SELECT .. FROM job_queues ORDER BY name ASC\<close>\<close>

definition read_queues :: "string option \<Rightarrow> IngestDb \<Rightarrow> StoreError + JobQueue list" where
  "read_queues io db =
     (case io of
        Some e \<Rightarrow> Inl (Internal e)
      | None \<Rightarrow> (case collect_results (map row_to_queue (sort_key qr_name (job_queues db))) of
                    Inl e \<Rightarrow> Inl (Internal e)
                  | Inr qs \<Rightarrow> Inr qs))"

definition read_meta :: "string option \<Rightarrow> string \<Rightarrow> IngestDb \<Rightarrow> StoreError + string option" where
  "read_meta io key db = (case io of Some e \<Rightarrow> Inl (Internal e) | None \<Rightarrow> Inr (ing_meta db key))"

section \<open>Well-formedness\<close>

definition ingest_wf :: "string set \<Rightarrow> IngestDb \<Rightarrow> bool" where
  "ingest_wf names db \<longleftrightarrow>
     queue_rows_wf (job_queues db) \<and> names \<subseteq> queue_names db \<and>
     distinct (map aj_id (accepted_jobs db)) \<and>
     list_all (\<lambda>r. 0 < aj_id r \<and> aj_queue_name r \<in> queue_names db) (accepted_jobs db)"

lemma ingest_wf_empty: "ingest_wf {} IngestDb_empty"
  by (simp add: ingest_wf_def IngestDb_empty_def queue_rows_wf_def)

section \<open>Enqueue\<close>

definition stored_row :: "i64 \<Rightarrow> AcceptedJob \<Rightarrow> AcceptedJob" where
  "stored_row i j =
     \<lparr>aj_id = i, aj_queue_name = aj_queue_name j, aj_payload = aj_payload j, aj_dispatch_id = None,
      aj_created_at = aj_created_at j, aj_updated_at = aj_updated_at j\<rparr>"

fun numbered :: "i64 \<Rightarrow> AcceptedJob list \<Rightarrow> AcceptedJob list" where
  "numbered i [] = []"
| "numbered i (j # js) = stored_row i j # numbered (i + 1) js"

fun stamped_from :: "i64 \<Rightarrow> PendingEnqueue list \<Rightarrow> PendingEnqueue list" where
  "stamped_from i [] = []"
| "stamped_from i (p # ps) = p\<lparr>pe_job := (pe_job p)\<lparr>aj_id := i\<rparr>\<rparr> # stamped_from (i + 1) ps"

lemma stored_row_simps [simp]:
  "aj_id (stored_row i j) = i" "aj_queue_name (stored_row i j) = aj_queue_name j"
  "aj_dispatch_id (stored_row i j) = None" "aj_payload (stored_row i j) = aj_payload j"
  "aj_created_at (stored_row i j) = aj_created_at j" "aj_updated_at (stored_row i j) = aj_updated_at j"
  by (simp_all add: stored_row_def)

lemma length_numbered [simp]: "length (numbered i js) = length js"
  by (induction js arbitrary: i) simp_all

lemma numbered_append: "numbered i (xs @ ys) = numbered i xs @ numbered (i + int (length xs)) ys"
  by (induction xs arbitrary: i) (simp_all add: algebra_simps)

lemma stamped_from_append:
  "stamped_from i (xs @ ys) = stamped_from i xs @ stamped_from (i + int (length xs)) ys"
  by (induction xs arbitrary: i) (simp_all add: algebra_simps)

lemma stamp_ids_eq: "stamp_ids i ps = stamped_from i ps"
proof (induction ps arbitrary: i)
  case Nil
  then show ?case by (simp add: stamp_ids_def)
next
  case (Cons p ps)
  have "stamp_ids i (p # ps) = p\<lparr>pe_job := (pe_job p)\<lparr>aj_id := i\<rparr>\<rparr> # stamp_ids (i + 1) ps"
    unfolding stamp_ids_def
    by (simp add: zip_upt_Cons case_prod_unfold comp_def algebra_simps del: upt_Suc)
  then show ?case by (simp add: Cons)
qed

lemma insert_accepted_Inr:
  assumes "insert_accepted names rows l js = Inr (rows', l')" and "0 \<le> max_rowid (map aj_id rows)"
  shows "rows' = rows @ numbered (max_rowid (map aj_id rows) + 1) js \<and>
         (js \<noteq> [] \<longrightarrow> l' = max_rowid (map aj_id rows) + int (length js)) \<and>
         set (map aj_queue_name js) \<subseteq> names"
  using assms
proof (induction js arbitrary: rows l)
  case Nil
  then show ?case by simp
next
  case (Cons j js)
  let ?m = "max_rowid (map aj_id rows)"
  from Cons.prems have j: "aj_queue_name j \<in> names" and next_id: "next_rowid (map aj_id rows) = Some (?m + 1)"
    by (auto simp: next_rowid_def split: if_splits option.splits)
  have max': "max_rowid (map aj_id (rows @ [stored_row (?m + 1) j])) = ?m + 1"
    using max_rowid_snoc_next [OF next_id Cons.prems(2)] by simp
  have rest: "insert_accepted names (rows @ [stored_row (?m + 1) j]) (?m + 1) js = Inr (rows', l')"
    using Cons.prems(1) j next_id by (simp add: stored_row_def)
  have "0 \<le> max_rowid (map aj_id (rows @ [stored_row (?m + 1) j]))"
    unfolding max' using Cons.prems(2) by simp
  from Cons.IH [OF rest this, unfolded max'] rest j show ?case
    by (cases js) (auto simp: algebra_simps)
qed

lemma max_rowid_numbered:
  assumes "0 \<le> max_rowid (map aj_id rows)"
  shows "max_rowid (map aj_id (rows @ numbered (max_rowid (map aj_id rows) + 1) js)) =
           max_rowid (map aj_id rows) + int (length js)"
  using assms
proof (induction js arbitrary: rows)
  case Nil
  then show ?case by simp
next
  case (Cons j js)
  let ?m = "max_rowid (map aj_id rows)"
  let ?rows = "rows @ [stored_row (?m + 1) j]"
  have m: "max_rowid (map aj_id ?rows) = ?m + 1"
    using Cons.prems by (cases "rows = []") (simp_all add: max_rowid_snoc)
  have "max_rowid (map aj_id (?rows @ numbered (max_rowid (map aj_id ?rows) + 1) js)) =
          max_rowid (map aj_id ?rows) + int (length js)"
    by (rule Cons.IH) (use m Cons.prems in simp)
  then show ?case unfolding m by (simp add: algebra_simps)
qed

text \<open>Chunking is invisible: the rows and the reported identifiers are those of one long insertion.\<close>

lemma insert_chunks_Inr:
  assumes "insert_chunks names rows cs = Inr (rows', stamped)" and "0 \<le> max_rowid (map aj_id rows)"
    and "[] \<notin> set cs"
  shows "rows' = rows @ numbered (max_rowid (map aj_id rows) + 1) (map pe_job (concat cs)) \<and>
         stamped = stamped_from (max_rowid (map aj_id rows) + 1) (concat cs) \<and>
         set (map (aj_queue_name \<circ> pe_job) (concat cs)) \<subseteq> names"
  using assms
proof (induction cs arbitrary: rows stamped)
  case Nil
  then show ?case by simp
next
  case (Cons c cs)
  let ?m = "max_rowid (map aj_id rows)"
  from Cons.prems(1) obtain rows1 l1 where ins: "insert_accepted names rows 0 (map pe_job c) = Inr (rows1, l1)"
    by (auto split: sum.splits)
  note i = insert_accepted_Inr [OF ins Cons.prems(2)]
  from Cons.prems(1) ins obtain s1 where rest: "insert_chunks names rows1 cs = Inr (rows', s1)"
    and s: "stamped = stamp_ids (l1 - int (length c) + 1) c @ s1"
    by (auto split: sum.splits simp: Let_def)
  have m1: "max_rowid (map aj_id rows1) = ?m + int (length c)"
    using i max_rowid_numbered [OF Cons.prems(2), of "map pe_job c"] by simp
  have "c \<noteq> []" using Cons.prems(3) by auto
  then have l1: "l1 - int (length c) + 1 = ?m + 1" using i by simp
  from Cons.IH [OF rest] m1 Cons.prems(2,3) i show ?case
    by (auto simp: s l1 stamp_ids_eq numbered_append stamped_from_append algebra_simps)
qed

lemma max_rowid_nonneg: "list_all (\<lambda>r. 0 < aj_id r) rows \<Longrightarrow> 0 \<le> max_rowid (map aj_id rows)"
  by (cases rows) (auto intro: order_trans [OF _ max_rowid_ge] less_imp_le)

lemma ids_numbered: "i \<in> set (map aj_id (numbered k js)) \<Longrightarrow> k \<le> i"
  by (induction js arbitrary: k) force+

lemma distinct_numbered: "distinct (map aj_id (numbered k js))"
  by (induction js arbitrary: k) (auto dest!: ids_numbered simp del: set_map simp flip: set_map)

lemma insert_chunks_keys:
  assumes "insert_chunks names rows cs = Inr (rows', stamped)" and "[] \<notin> set cs"
    and "distinct (map aj_id rows)" and "list_all (\<lambda>r. 0 < aj_id r) rows"
  shows "distinct (map aj_id rows') \<and> list_all (\<lambda>r. 0 < aj_id r) rows'"
proof -
  let ?m = "max_rowid (map aj_id rows)"
  note nonneg = max_rowid_nonneg [OF assms(4)]
  note i = insert_chunks_Inr [OF assms(1) nonneg assms(2)]
  have new: "?m < aj_id r" if "r \<in> set (numbered (?m + 1) (map pe_job (concat cs)))" for r
    using that ids_numbered [of "aj_id r" "?m + 1"] by fastforce
  have old: "aj_id r \<le> ?m" if "r \<in> set rows" for r
    using that by (auto intro: max_rowid_ge)
  have "distinct (map aj_id rows')"
    using i assms(3) distinct_numbered old new by (fastforce simp: distinct_append)
  moreover have "list_all (\<lambda>r. 0 < aj_id r) rows'"
    using i assms(4) new nonneg by (fastforce simp: list_all_iff)
  ultimately show ?thesis by blast
qed

text \<open>
  An enqueue batch either changes nothing and answers no request positively, or stores every
  job whose queue is known and answers it with its row.
\<close>

lemma ingest_chunks:
  fixes xs :: "'a list"
  shows "[] \<notin> set (chunks ROWS_PER_STATEMENT xs)" "concat (chunks ROWS_PER_STATEMENT xs) = xs"
  using chunks_nonempty by (auto simp: ROWS_PER_STATEMENT_def concat_chunks)

lemma enqueue_batch_cases:
  assumes eq: "enqueue_batch io batch names db = (db', replies, n)"
    and pos: "list_all (\<lambda>r. 0 < aj_id r) (accepted_jobs db)"
  obtains
    (unchanged) g where "db' = db" "n = None"
      "replies = map (\<lambda>p. (pe_reply p, Inl (QueueNotFound (aj_queue_name (pe_job p)))))
                   (filter (\<lambda>p. aj_queue_name (pe_job p) \<notin> names) batch) @
                 map (\<lambda>p. (pe_reply p, Inl (Internal g)))
                   (filter (\<lambda>p. aj_queue_name (pe_job p) \<in> names) batch)"
  | (stored) known m where "known = filter (\<lambda>p. aj_queue_name (pe_job p) \<in> names) batch"
      "known \<noteq> []" "n = Some (length known)" "m = max_rowid (map aj_id (accepted_jobs db)) + 1"
      "insert_chunks (queue_names db) (accepted_jobs db) (chunks ROWS_PER_STATEMENT known) =
         Inr (accepted_jobs db @ numbered m (map pe_job known), stamped_from m known)"
      "db' = db\<lparr>accepted_jobs := accepted_jobs db @ numbered m (map pe_job known)\<rparr>"
      "replies = map (\<lambda>p. (pe_reply p, Inl (QueueNotFound (aj_queue_name (pe_job p)))))
                   (filter (\<lambda>p. aj_queue_name (pe_job p) \<notin> names) batch) @
                 map (\<lambda>p. (pe_reply p, Inr (pe_job p))) (stamped_from m known)"
proof -
  let ?known = "filter (\<lambda>p. aj_queue_name (pe_job p) \<in> names) batch"
  let ?ins = "insert_chunks (queue_names db) (accepted_jobs db) (chunks ROWS_PER_STATEMENT ?known)"
  show thesis
  proof (cases "?known \<noteq> [] \<and> io = None \<and> (\<exists>x. ?ins = Inr x)")
    case True
    then obtain rows st where ins: "?ins = Inr (rows, st)" by auto
    note shape = insert_chunks_Inr [OF ins max_rowid_nonneg [OF pos] ingest_chunks(1), unfolded ingest_chunks(2)]
    have "batch \<noteq> []" using True by auto
    with True eq ins shape show thesis
      by (intro stored [OF refl _ _ refl]) (auto simp: enqueue_batch_def Let_def)
  next
    case False
    then obtain g where g: "?known = [] \<or> io = Some g \<or> (io = None \<and> ?ins = Inl g)"
      by (cases ?ins; cases io) auto
    then show thesis
      using eq False by (intro unchanged [of g]) (auto simp: enqueue_batch_def Let_def filter_empty_conv split: if_splits option.splits)
  qed
qed

lemma replies_stamped_from [simp]: "map pe_reply (stamped_from k ps) = map pe_reply ps"
  by (induction ps arbitrary: k) simp_all

lemma enqueue_batch_replies:
  assumes "enqueue_batch io batch names db = (db', replies, n)"
    and "list_all (\<lambda>r. 0 < aj_id r) (accepted_jobs db)"
  shows "mset (map fst replies) = mset (map pe_reply batch)"
proof -
  have part: "mset (map pe_reply (filter (\<lambda>x. \<not> P x) batch)) + mset (map pe_reply (filter P batch)) =
      mset (map pe_reply batch)" for P
    by (simp add: add.commute flip: image_mset_union multiset_partition)
  show ?thesis
    using assms by (cases rule: enqueue_batch_cases) (simp_all add: comp_def part del: mset_map)
qed

section \<open>Claims\<close>

text \<open>The specification of a claim: the selected rows get one dispatch id each, in order.\<close>

definition assign :: "i64 \<Rightarrow> (i64 \<times> string) list \<Rightarrow> AcceptedJob list \<Rightarrow> AcceptedJob list" where
  "assign now vs rows =
     map (\<lambda>r. case map_of vs (aj_id r) of
                None \<Rightarrow> r
              | Some d \<Rightarrow> r\<lparr>aj_dispatch_id := Some d, aj_updated_at := now\<rparr>) rows"

definition claim_of :: "AcceptedJob \<Rightarrow> i64 \<Rightarrow> string \<Rightarrow> IngestClaimed" where
  "claim_of r timeout d =
     \<lparr>ic_id = aj_id r, ic_name = aj_queue_name r, ic_payload = aj_payload r,
      ic_timeout_secs = word_of_int timeout, ic_dispatch_id = d, ic_created_at = aj_created_at r\<rparr>"

definition claimable :: "AcceptedJob list \<Rightarrow> i64 list \<Rightarrow> bool" where
  "claimable rows ids \<longleftrightarrow>
     distinct ids \<and> distinct (map aj_id rows) \<and>
     list_all (\<lambda>i. \<exists>r \<in> set rows. aj_id r = i \<and> aj_dispatch_id r = None) ids"

lemma assign_keys [simp]: "map aj_id (assign now vs rows) = map aj_id rows"
  by (simp add: assign_def split: option.split)

lemma claimable_ex:
  "claimable rows ids \<Longrightarrow> i \<in> set ids \<Longrightarrow> \<exists>r \<in> set rows. aj_id r = i \<and> aj_dispatch_id r = None"
  by (simp add: claimable_def list_all_iff)

lemma claimable_row:
  assumes "claimable rows (map fst vs)" and "r \<in> set rows" and "map_of vs (aj_id r) = Some d"
  shows "aj_dispatch_id r = None"
proof -
  have "aj_id r \<in> set (map fst vs)"
    using map_of_SomeD [OF assms(3)] by force
  from claimable_ex [OF assms(1) this]
  have "\<exists>r' \<in> set rows. aj_id r' = aj_id r \<and> aj_dispatch_id r' = None" .
  moreover have "inj_on aj_id (set rows)"
    using assms(1) by (simp add: claimable_def distinct_map)
  ultimately show ?thesis using assms(2) by (auto dest: inj_onD)
qed

lemma claim_matches:
  assumes "claimable rows (map fst vs)" and "r \<in> set rows"
  shows "filter (\<lambda>v. aj_id r = fst v \<and> aj_dispatch_id r = None) vs =
           (case map_of vs (aj_id r) of None \<Rightarrow> [] | Some d \<Rightarrow> [(aj_id r, d)])"
proof -
  have d: "distinct (map fst vs)" using assms(1) by (simp add: claimable_def)
  show ?thesis
  proof (cases "map_of vs (aj_id r)")
    case None
    then have "aj_id r \<notin> fst ` set vs" by (simp add: map_of_eq_None_iff)
    with None show ?thesis by (auto simp: filter_empty_conv rev_image_eqI)
  next
    case (Some x)
    with claimable_row [OF assms this] filter_fst_eq [OF d, of "aj_id r"] show ?thesis by simp
  qed
qed

lemma claim_update_eq:
  assumes "claimable rows (map fst vs)"
  shows "claim_update pick now vs rows = (assign now vs rows, map_of vs)"
proof -
  let ?on = "\<lambda>v r. aj_id r = fst v \<and> aj_dispatch_id r = None"
  let ?upd = "\<lambda>v r. r\<lparr>aj_dispatch_id := Some (snd v), aj_updated_at := now\<rparr>"
  have rows: "update_from pick ?on ?upd vs rows = assign now vs rows"
    unfolding update_from_def assign_def Let_def
    by (rule map_cong [OF refl]) (simp only: claim_matches [OF assms], simp split: option.split)
  let ?hit = "filter (\<lambda>r. map_of vs (aj_id r) \<noteq> None) rows"
  have hits: "filter (\<lambda>r. filter (\<lambda>v. ?on v r) vs \<noteq> []) rows = ?hit"
    by (rule filter_cong [OF refl]) (simp only: claim_matches [OF assms], simp split: option.split)
  have "updated_from pick ?on ?upd vs rows =
      map (\<lambda>r. r\<lparr>aj_dispatch_id := map_of vs (aj_id r), aj_updated_at := now\<rparr>) ?hit"
    unfolding updated_from_def hits
    by (rule map_cong [OF refl]) (auto simp: claim_matches [OF assms])
  then have ret: "List.map_filter (\<lambda>r. map_option (\<lambda>d. (aj_id r, d)) (aj_dispatch_id r))
        (updated_from pick ?on ?upd vs rows) =
      map (\<lambda>r. (aj_id r, the (map_of vs (aj_id r)))) ?hit"
    by (auto simp: List.map_filter_def comp_def filter_map intro!: map_cong filter_cong)
  let ?ret = "map (\<lambda>r. (aj_id r, the (map_of vs (aj_id r)))) ?hit"
  have dist: "distinct (map fst (rev ?ret))"
    using assms by (simp add: claimable_def comp_def distinct_map_filter flip: rev_map)
  have "map_of (rev ?ret) k = map_of vs k" for k
  proof (cases "map_of vs k")
    case None
    then have "k \<notin> fst ` set (rev ?ret)" by auto
    then have "map_of (rev ?ret) k = None" by (subst map_of_eq_None_iff)
    then show ?thesis using None by (rule trans [OF _ sym])
  next
    case (Some d)
    then have "k \<in> set (map fst vs)" using map_of_SomeD [OF Some] by force
    from claimable_ex [OF assms this] obtain r where r: "r \<in> set rows" "aj_id r = k" by blast
    have "(k, d) \<in> set (rev ?ret)"
      unfolding set_rev set_map
      by (rule image_eqI [of _ _ r]) (use r Some in simp_all)
    from map_of_is_SomeI [OF dist this] Some show ?thesis by (rule trans [OF _ sym])
  qed
  then have "map_of (rev ?ret) = map_of vs" by blast
  with rows ret show ?thesis by (simp add: claim_update_def Let_def)
qed

lemma claimed_of_chunk_eq:
  assumes "length ds = length chunk" and "distinct (map (aj_id \<circ> fst) chunk)"
    and "\<forall>(r, t) \<in> set chunk. 0 \<le> t \<and> t \<le> i64_max"
    and "\<And>i. i \<in> set (map (aj_id \<circ> fst) chunk) \<Longrightarrow> m i = map_of (zip (map (aj_id \<circ> fst) chunk) ds) i"
  shows "claimed_of_chunk m chunk = Inr (map (\<lambda>((r, t), d). claim_of r t d) (zip chunk ds))"
  using assms
proof (induction chunk arbitrary: ds)
  case Nil
  then show ?case by simp
next
  case (Cons c chunk)
  obtain r t where c: "c = (r, t)" by force
  obtain d ds' where ds: "ds = d # ds'" using Cons.prems(1) by (cases ds) auto
  have "claimed_of_chunk m chunk = Inr (map (\<lambda>((r, t), d). claim_of r t d) (zip chunk ds'))"
    using Cons.prems(1,2,3)
    by (intro Cons.IH) (auto simp: ds c Cons.prems(4) rev_image_eqI)
  moreover have "m (aj_id r) = Some d" using Cons.prems(4) [of "aj_id r"] by (simp add: c ds)
  moreover have "u64_try_from t = Some (word_of_int t)"
    using Cons.prems(3) by (simp add: c u64_try_from_def i64_max_def)
  ultimately show ?case by (simp add: c ds claim_of_def)
qed

lemma assign_append:
  assumes "fst ` set vs \<inter> fst ` set ws = {}"
  shows "assign now ws (assign now vs rows) = assign now (vs @ ws) rows"
proof -
  have "map_of ws k = None" if "map_of vs k = Some d" for k d
    using that assms by (metis disjoint_iff map_of_eq_None_iff option.distinct(1))
  then show ?thesis
    by (auto simp: assign_def map_add_def split: option.split)
qed

lemma claimable_assign:
  assumes "claimable rows (ids @ map fst vs)"
  shows "claimable (assign now (zip ids ds) rows) (map fst vs)"
proof -
  have "\<exists>r \<in> set (assign now (zip ids ds) rows). aj_id r = i \<and> aj_dispatch_id r = None"
    if i: "i \<in> set (map fst vs)" for i
  proof -
    from i claimable_ex [OF assms, of i] obtain r where r: "r \<in> set rows" "aj_id r = i" "aj_dispatch_id r = None"
      by auto
    have "i \<notin> set ids" using assms i by (auto simp: claimable_def)
    then have "map_of (zip ids ds) i = None"
      by (auto simp: map_of_eq_None_iff dest: set_zip_leftD)
    with r have "r \<in> set (assign now (zip ids ds) rows)"
      unfolding assign_def set_map by (intro image_eqI [of _ _ r]) simp_all
    with r show ?thesis by blast
  qed
  then show ?thesis
    using assms by (simp add: claimable_def list_all_iff)
qed

lemma claim_chunks_eq:
  assumes "claimable rows (map (aj_id \<circ> fst) (concat cs))"
    and "\<forall>(r, t) \<in> set (concat cs). 0 \<le> t \<and> t \<le> i64_max"
  shows "claim_chunks pick now uuid n cs rows =
     (let sel = concat cs; ds = map uuid [n..<n + length sel]
      in Inr (assign now (zip (map (aj_id \<circ> fst) sel) ds) rows,
              map (\<lambda>((r, t), d). claim_of r t d) (zip sel ds)))"
  using assms
proof (induction cs arbitrary: n rows)
  case Nil
  then show ?case by (simp add: assign_def)
next
  case (Cons c cs)
  let ?ds = "map uuid [n..<n + length c]"
  let ?ids = "map (aj_id \<circ> fst) c"
  let ?vs = "zip ?ids ?ds"
  let ?rest = "concat cs"
  let ?ds' = "map uuid [n + length c..<n + length c + length ?rest]"
  let ?ws = "zip (map (aj_id \<circ> fst) ?rest) ?ds'"
  have vs: "map fst ?vs = ?ids" by simp
  have cl: "claimable rows (map fst ?vs)"
    using Cons.prems(1) by (simp add: claimable_def comp_def)
  have here: "claimed_of_chunk (map_of ?vs) c = Inr (map (\<lambda>((r, t), d). claim_of r t d) (zip c ?ds))"
    using Cons.prems by (intro claimed_of_chunk_eq) (auto simp: claimable_def comp_def)
  have "claimable rows (?ids @ map fst ?ws)"
    using Cons.prems(1) by (simp add: comp_def)
  then have "claimable (assign now ?vs rows) (map fst ?ws)" by (rule claimable_assign)
  then have rest: "claim_chunks pick now uuid (n + length c) cs (assign now ?vs rows) =
      Inr (assign now ?ws (assign now ?vs rows), map (\<lambda>((r, t), d). claim_of r t d) (zip ?rest ?ds'))"
    using Cons.prems(2) by (subst Cons.IH) (auto simp: Let_def)
  have "fst ` set ?vs \<inter> fst ` set ?ws = {}"
    using Cons.prems(1) by (auto simp: claimable_def comp_def elim!: in_set_zipE)
  note app = assign_append [OF this, of now rows]
  have split: "map uuid [n..<n + length (concat (c # cs))] = ?ds @ ?ds'"
    using upt_add_eq_append [of n "n + length c" "length ?rest"] by (simp add: add.assoc)
  have ids: "map (\<lambda>(r, _). aj_id r) c = ?ids" by auto
  show ?case
    using claim_update_eq [OF cl, of pick now] here rest
    unfolding claim_chunks.simps Let_def ids split
    by (simp add: app)
qed

lemma pending_rows_props:
  "set (pending_rows queue rows) = {r \<in> set rows. aj_queue_name r = queue \<and> aj_dispatch_id r = None}"
  "distinct (map aj_id rows) \<Longrightarrow> distinct (map aj_id (pending_rows queue rows))"
proof -
  show "set (pending_rows queue rows) = {r \<in> set rows. aj_queue_name r = queue \<and> aj_dispatch_id r = None}"
    by (auto simp: pending_rows_def)
  assume "distinct (map aj_id rows)"
  moreover have "mset (map aj_id (pending_rows queue rows)) =
      mset (map aj_id (filter (\<lambda>r. aj_queue_name r = queue \<and> aj_dispatch_id r = None) rows))"
    by (simp add: pending_rows_def)
  ultimately show "distinct (map aj_id (pending_rows queue rows))"
    using mset_eq_imp_distinct_iff by (metis (no_types, lifting) distinct_map_filter)
qed

lemma select_pending_eq:
  assumes "queue_rows_wf (job_queues db)" and "q \<in> set (job_queues db)" and "qr_name q = queue"
  shows "select_pending db queue limit =
           map (\<lambda>r. (r, qr_timeout_secs q)) (take limit (pending_rows queue (accepted_jobs db)))"
proof -
  have one: "filter (\<lambda>q. qr_name q = queue) (job_queues db) = [q]"
    using filter_key_single [of qr_name "job_queues db" q] assms by (simp add: queue_rows_wf_def)
  have "concat (map (\<lambda>r. map (\<lambda>q. (r, qr_timeout_secs q)) (filter (\<lambda>q. qr_name q = aj_queue_name r) (job_queues db))) rs) =
      map (\<lambda>r. (r, qr_timeout_secs q)) rs" if "\<forall>r \<in> set rs. aj_queue_name r = queue" for rs
    using that by (induction rs) (simp_all add: one)
  from this [of "pending_rows queue (accepted_jobs db)"]
  have "concat (map (\<lambda>r. map (\<lambda>q. (r, qr_timeout_secs q)) (filter (\<lambda>q. qr_name q = aj_queue_name r) (job_queues db)))
      (pending_rows queue (accepted_jobs db))) = map (\<lambda>r. (r, qr_timeout_secs q)) (pending_rows queue (accepted_jobs db))"
    by (simp add: pending_rows_props(1))
  then show ?thesis by (simp add: select_pending_def take_map)
qed

lemma claimable_selection:
  assumes "ingest_wf names db"
  shows "claimable (accepted_jobs db) (map aj_id (take n (pending_rows queue (accepted_jobs db))))"
proof -
  have dist: "distinct (map aj_id (accepted_jobs db))" using assms by (simp add: ingest_wf_def)
  then have "distinct (map aj_id (take n (pending_rows queue (accepted_jobs db))))"
    using pending_rows_props(2) [OF dist, of queue] by (simp add: distinct_take flip: take_map)
  then show ?thesis
    using dist by (auto simp: claimable_def list_all_iff pending_rows_props(1) dest!: in_set_takeD)
qed

lemma ingest_claim_batch_eq:
  assumes wf: "ingest_wf names db" and q: "queue \<in> names"
  shows "\<exists>t. ingest_claim_batch None pick now uuid queue limit names db =
     (let sel = take (clamp limit 1 MAX_CLAIM_BATCH_SIZE) (pending_rows queue (accepted_jobs db));
          ds = map uuid [0..<length sel]
      in (Inr (map (\<lambda>(r, d). claim_of r t d) (zip sel ds)),
          db\<lparr>accepted_jobs := assign now (zip (map aj_id sel) ds) (accepted_jobs db)\<rparr>)) \<and>
     (\<exists>q \<in> set (job_queues db). qr_name q = queue \<and> qr_timeout_secs q = t)"
proof -
  obtain qr where qr: "qr \<in> set (job_queues db)" "qr_name qr = queue"
    using wf q by (fastforce simp: ingest_wf_def queue_names_def)
  let ?t = "qr_timeout_secs qr"
  define sel where "sel = take (clamp limit 1 MAX_CLAIM_BATCH_SIZE) (pending_rows queue (accepted_jobs db))"
  define cs where "cs = chunks ROWS_PER_STATEMENT (map (\<lambda>r. (r, ?t)) sel)"
  have cat: "concat cs = map (\<lambda>r. (r, ?t)) sel" unfolding cs_def by (rule ingest_chunks)
  have "claimable (accepted_jobs db) (map (aj_id \<circ> fst) (concat cs))"
    using claimable_selection [OF wf] unfolding cat by (simp add: comp_def sel_def)
  moreover have "\<forall>(r, t) \<in> set (concat cs). 0 \<le> t \<and> t \<le> i64_max"
    using wf qr unfolding cat by (auto simp: ingest_wf_def queue_rows_wf_def queue_row_ok_def list_all_iff)
  ultimately have "claim_chunks pick now uuid 0 cs (accepted_jobs db) =
      Inr (assign now (zip (map aj_id sel) (map uuid [0..<length sel])) (accepted_jobs db),
           map (\<lambda>(r, d). claim_of r ?t d) (zip sel (map uuid [0..<length sel])))"
    by (simp add: claim_chunks_eq cat comp_def Let_def zip_map1 case_prod_unfold)
  moreover have "select_pending db queue (clamp limit 1 MAX_CLAIM_BATCH_SIZE) = map (\<lambda>r. (r, ?t)) sel"
    using wf unfolding sel_def by (intro select_pending_eq) (simp_all add: ingest_wf_def qr)
  ultimately show ?thesis
    unfolding sel_def [symmetric] using q qr
    by (intro exI [of _ ?t]) (auto simp: ingest_claim_batch_def Let_def cs_def)
qed

section \<open>Repend\<close>

interpretation repend: fenced_update aj_id repend_guard repend_upd
  by unfold_locales (simp_all add: repend_guard_def repend_upd_def)

lemma repend_batch_keys:
  "map aj_id (fold (\<lambda>chunk rows. update_from pick repend_guard (\<lambda>_. repend_upd now) chunk rows) cs rows) =
     map aj_id rows"
  using repend.batch_keys [of pick "\<lambda>v. v" "\<lambda>_. now"]
  by (induction cs arbitrary: rows) simp_all

lemma repend_chunks_prefix:
  "\<exists>n. snd (repend_chunks io pick now cs rows) = fold (\<lambda>chunk rows. update_from pick repend_guard (\<lambda>_. repend_upd now) chunk rows) (take n cs) rows"
proof (induction io pick now cs rows rule: repend_chunks.induct)
  case (2 io pick now chunk cs rows)
  show ?case
  proof (cases "io 0")
    case None
    from 2 [OF None] obtain n where "snd (repend_chunks (\<lambda>n. io (Suc n)) pick now cs (update_from pick repend_guard (\<lambda>_. repend_upd now) chunk rows)) =
        fold (\<lambda>chunk rows. update_from pick repend_guard (\<lambda>_. repend_upd now) chunk rows) (take n cs)
          (update_from pick repend_guard (\<lambda>_. repend_upd now) chunk rows)" by blast
    with None show ?thesis by (intro exI [of _ "Suc n"]) simp
  qed (auto intro: exI [of _ 0])
qed simp

lemma repend_chunks_ok:
  "repend_chunks (\<lambda>_. None) pick now cs rows = (Inr (), fold (\<lambda>chunk rows. update_from pick repend_guard (\<lambda>_. repend_upd now) chunk rows) cs rows)"
  by (induction cs arbitrary: rows) simp_all

lemma repend_batch_frame [simp]:
  "job_queues (snd (repend_batch io pick now pairs db)) = job_queues db" "ing_meta (snd (repend_batch io pick now pairs db)) = ing_meta db"
  by (simp_all add: repend_batch_def case_prod_unfold Let_def)

lemma ingest_repend_fails: "ingest_repend (Some e) pick now jid d db = (Inl (Internal e), db)"
  by (simp add: ingest_repend_def repend_batch_def chunks_short ROWS_PER_STATEMENT_def)

lemma ingest_repend_eq:
  "ingest_repend None pick now jid d db =
     (Inr (), db\<lparr>accepted_jobs := update_where (repend_guard (jid, d)) (repend_upd now) (accepted_jobs db)\<rparr>)"
  by (simp add: ingest_repend_def repend_batch_def chunks_short ROWS_PER_STATEMENT_def)

section \<open>The invariant\<close>

lemma ingest_wf_rows:
  assumes "ingest_wf names db" and "map aj_id rows = map aj_id (accepted_jobs db)"
    and "map aj_queue_name rows = map aj_queue_name (accepted_jobs db)"
  shows "ingest_wf names (db\<lparr>accepted_jobs := rows\<rparr>)"
proof -
  have "list_all P rows \<longleftrightarrow> list_all P (accepted_jobs db)"
    if "P = (\<lambda>r. Q (aj_id r) \<and> R (aj_queue_name r))" for P Q R
    using assms(2,3) unfolding that list_all_iff
    by (metis (mono_tags, lifting) image_iff list.set_map)
  from this [OF refl, of "\<lambda>i. 0 < i" "\<lambda>n. n \<in> queue_names db"] show ?thesis
    using assms by (simp add: ingest_wf_def queue_names_def)
qed

lemma ingest_upsert_queue_wf:
  assumes "ingest_wf names db" and "ingest_upsert_queue io1 io2 now queue db = (r, db')"
  shows "ingest_wf (case r of Inl _ \<Rightarrow> names | Inr _ \<Rightarrow> insert (jq_name queue) names) db'"
proof -
  obtain rows where up: "upsert_queue_sql io1 io2 now queue (job_queues db) = (r, rows)"
    and db': "db' = db\<lparr>job_queues := rows\<rparr>"
    using assms(2) by (auto simp: ingest_upsert_queue_def split: prod.splits)
  have rows: "queue_rows_wf rows"
    using upsert_queue_sql_wf [of "job_queues db" io1 io2 now queue] assms(1) up by (simp add: ingest_wf_def)
  have grow: "queue_names db \<subseteq> set (map qr_name rows)"
    using upsert_queue_sql_names [of io1 io2 now queue "job_queues db"] up by (auto simp: queue_names_def)
  have "(case r of Inl _ \<Rightarrow> names | Inr _ \<Rightarrow> insert (jq_name queue) names) \<subseteq> set (map qr_name rows)"
    using upsert_queue_sql_Inr [of io1 io2 now queue "job_queues db"] up grow assms(1)
    by (auto simp: ingest_wf_def simp del: set_map split: sum.split)
  then show ?thesis
    using assms(1) rows grow by (auto simp: db' ingest_wf_def queue_names_def list_all_iff)
qed

lemma enqueue_batch_wf:
  assumes wf: "ingest_wf names db" and eq: "enqueue_batch io batch names' db = (db', replies, n)"
  shows "ingest_wf names db'"
proof -
  have pos: "list_all (\<lambda>r. 0 < aj_id r) (accepted_jobs db)"
    using wf by (simp add: ingest_wf_def list_all_iff)
  from eq pos show ?thesis
  proof (cases rule: enqueue_batch_cases)
    case (unchanged g)
    then show ?thesis using wf by simp
  next
    case (stored known m)
    note keys = insert_chunks_keys [OF stored(5) ingest_chunks(1) _ pos]
    note names = insert_chunks_Inr [OF stored(5) max_rowid_nonneg [OF pos] ingest_chunks(1), unfolded ingest_chunks(2)]
    have qn: "aj_queue_name r \<in> queue_names db" if "r \<in> set (numbered m (map pe_job known))" for r
    proof -
      have "map aj_queue_name (numbered k js) = map aj_queue_name js" for k js
        by (induction js arbitrary: k) simp_all
      from this [of m "map pe_job known"] have "aj_queue_name r \<in> set (map (aj_queue_name \<circ> pe_job) known)"
        using that by (metis image_eqI list.set_map map_map)
      then show ?thesis using names by blast
    qed
    from keys wf qn show ?thesis
      by (auto simp: stored(6) ingest_wf_def queue_names_def list_all_iff)
  qed
qed

lemma ingest_claim_batch_cases:
  assumes "ingest_wf names db" and "ingest_claim_batch io pick now uuid queue limit names db = (r, db')"
  obtains
    (unchanged) e where "r = Inl e" "db' = db"
  | (claimed) sel t where "io = None" "queue \<in> names"
      "sel = take (clamp limit 1 MAX_CLAIM_BATCH_SIZE) (pending_rows queue (accepted_jobs db))"
      "r = Inr (map (\<lambda>(r, d). claim_of r t d) (zip sel (map uuid [0..<length sel])))"
      "db' = db\<lparr>accepted_jobs := assign now (zip (map aj_id sel) (map uuid [0..<length sel])) (accepted_jobs db)\<rparr>"
      "\<exists>q \<in> set (job_queues db). qr_name q = queue \<and> qr_timeout_secs q = t"
proof (cases "queue \<in> names \<and> io = None")
  case True
  with ingest_claim_batch_eq [OF assms(1), of queue pick now uuid limit] assms(2) show thesis
    by (auto simp: Let_def intro: claimed)
next
  case False
  with assms(2) show thesis
    by (auto simp: ingest_claim_batch_def Let_def intro: unchanged split: if_splits option.splits)
qed

lemma assign_queue_names [simp]: "map aj_queue_name (assign now vs rows) = map aj_queue_name rows"
  by (simp add: assign_def split: option.split)

lemma ingest_claim_batch_wf:
  assumes "ingest_wf names db" and "ingest_claim_batch io pick now uuid queue limit names db = (r, db')"
  shows "ingest_wf names db'"
  using assms by (cases rule: ingest_claim_batch_cases) (simp_all add: assms(1) ingest_wf_rows [OF assms(1)])

lemma repend_batch_queue_names:
  "map aj_queue_name (fold (\<lambda>chunk rows. update_from pick repend_guard (\<lambda>_. repend_upd now) chunk rows) cs rows) =
     map aj_queue_name rows"
  by (induction cs arbitrary: rows) (simp_all add: update_from_keys repend_upd_def)

lemma repend_batch_wf:
  "ingest_wf names db \<Longrightarrow> ingest_wf names (snd (repend_batch io pick now pairs db))"
proof -
  assume wf: "ingest_wf names db"
  obtain n where "snd (repend_chunks io pick now (chunks ROWS_PER_STATEMENT pairs) (accepted_jobs db)) =
      fold (\<lambda>chunk rows. update_from pick repend_guard (\<lambda>_. repend_upd now) chunk rows) (take n (chunks ROWS_PER_STATEMENT pairs)) (accepted_jobs db)"
    using repend_chunks_prefix by blast
  with wf show ?thesis
    by (auto simp: repend_batch_def case_prod_unfold repend_batch_keys repend_batch_queue_names intro!: ingest_wf_rows)
qed

lemma ingest_cleanup_wf: "ingest_wf names db \<Longrightarrow> ingest_wf names (snd (ingest_cleanup io cutoff db))"
  by (auto simp: ingest_cleanup_def ingest_wf_def queue_names_def list_all_iff distinct_map_filter
      split: option.split)

lemma ingest_vacuum_wf: "ingest_wf names db \<Longrightarrow> ingest_wf names (snd (ingest_vacuum io now db))"
  by (auto simp: ingest_vacuum_def ingest_wf_def queue_names_def split: option.split)

lemma ingest_handle_keeps_wf:
  assumes "ingest_wf names db" and "ingest_handle E req names db = (db', names', replies)"
  shows "ingest_wf names' db'"
proof (cases req)
  case (ReqUpsertQueue q k)
  with assms show ?thesis by (auto split: prod.splits intro: ingest_upsert_queue_wf)
next
  case (ReqEnqueue j k)
  with assms show ?thesis by (auto split: prod.splits intro: enqueue_batch_wf)
next
  case (ReqClaimBatch q l k)
  with assms show ?thesis by (auto split: prod.splits intro: ingest_claim_batch_wf)
next
  case (ReqRepend j d k)
  with assms repend_batch_wf [OF assms(1), of "\<lambda>_. env_io E 0" "env_pick E" "env_clock E 0" "[(j, d)]"] show ?thesis
    by (auto simp: ingest_repend_def split: prod.splits)
next
  case (ReqCleanup c k)
  with assms ingest_cleanup_wf [OF assms(1), of "env_io E 0" c] show ?thesis by (auto split: prod.splits)
next
  case (ReqVacuum k)
  with assms ingest_vacuum_wf [OF assms(1), of "env_io E 0" "env_clock E 0"] show ?thesis
    by (auto split: prod.splits)
qed

lemma repend_batch_eq:
  "repend_batch (\<lambda>_. None) pick now pairs db =
     (Inr (), db\<lparr>accepted_jobs :=
        update_where (\<lambda>r. \<exists>f \<in> set pairs. repend_guard f r) (repend_upd now) (accepted_jobs db)\<rparr>)"
proof (cases "pairs = []")
  case True
  then show ?thesis by (simp add: repend_batch_def update_where_def)
next
  case False
  then show ?thesis
    unfolding repend_batch_def repend_chunks_ok repend.batch_chunks by (simp add: ingest_chunks)
qed

lemma pending_rows_assign:
  assumes wf: "distinct (map aj_id rows)" and sel: "sel = take n (pending_rows queue rows)"
    and ds: "length ds = length sel"
  shows "pending_rows queue (assign now (zip (map aj_id sel) ds) rows) = drop n (pending_rows queue rows)"
proof -
  let ?new = "\<lambda>r. case map_of (zip (map aj_id sel) ds) (aj_id r) of None \<Rightarrow> r
      | Some d \<Rightarrow> r\<lparr>aj_dispatch_id := Some d, aj_updated_at := now\<rparr>"
  let ?P = "\<lambda>r. aj_queue_name r = queue \<and> aj_dispatch_id r = None"
  have keyed: "map_of (zip (map aj_id sel) ds) k = None \<longleftrightarrow> k \<notin> aj_id ` set sel" for k
    using ds by (simp add: map_of_zip_is_None)
  have "filter ?P (map ?new rows) = filter (\<lambda>r. aj_id r \<notin> aj_id ` set sel) (filter ?P rows)"
  proof -
    have "filter ?P (map ?new rows) = map ?new (filter (\<lambda>r. aj_id r \<notin> aj_id ` set sel \<and> ?P r) rows)"
      by (auto simp: filter_map comp_def keyed [symmetric] intro!: arg_cong [of _ _ "map ?new"] filter_cong split: option.split)
    also have "\<dots> = filter (\<lambda>r. aj_id r \<notin> aj_id ` set sel \<and> ?P r) rows"
      by (rule map_idI) (auto simp: keyed [symmetric])
    finally show ?thesis by (simp add: conj_commute)
  qed
  then have "pending_rows queue (assign now (zip (map aj_id sel) ds) rows) =
      filter (\<lambda>r. aj_id r \<notin> aj_id ` set sel) (pending_rows queue rows)"
    by (simp add: pending_rows_def assign_def filter_sort)
  also have "\<dots> = drop n (pending_rows queue rows)"
    unfolding sel by (rule filter_notin_take) (rule pending_rows_props(2) [OF wf])
  finally show ?thesis .
qed

section \<open>Properties of the ingest database\<close>

definition sample_ingest :: IngestDb where
  "sample_ingest =
     \<lparr>job_queues = [\<lparr>qr_name = ''mail'', qr_max_retries = 3, qr_timeout_secs = 60,
                      qr_created_at = 1, qr_updated_at = 1\<rparr>],
      accepted_jobs =
        [\<lparr>aj_id = 1, aj_queue_name = ''mail'', aj_payload = [1], aj_dispatch_id = None,
          aj_created_at = 20, aj_updated_at = 20\<rparr>,
         \<lparr>aj_id = 2, aj_queue_name = ''mail'', aj_payload = [2], aj_dispatch_id = None,
          aj_created_at = 10, aj_updated_at = 10\<rparr>],
      ing_meta = Map.empty\<rparr>"

lemma sample_ingest_wf: "ingest_wf {''mail''} sample_ingest"
  by (simp add: ingest_wf_def sample_ingest_def queue_rows_wf_def queue_row_ok_def queue_names_def i64_max_def)

lemma sample_pending:
  "map aj_id (pending_rows ''mail'' (accepted_jobs sample_ingest)) = [2, 1]"
  by (simp add: pending_rows_def sample_ingest_def less_eq_claim_key_def)

lemma map_claim_of:
  assumes "length ds = length sel"
  shows "map ic_id (map (\<lambda>(r, d). claim_of r t d) (zip sel ds)) = map aj_id sel"
    "map ic_payload (map (\<lambda>(r, d). claim_of r t d) (zip sel ds)) = map aj_payload sel"
    "map ic_dispatch_id (map (\<lambda>(r, d). claim_of r t d) (zip sel ds)) = ds"
    "length (map (\<lambda>(r, d). claim_of r t d) (zip sel ds)) = length sel"
  using assms by (simp_all add: claim_of_def list_eq_iff_nth_eq)

text \<open>
  C6. A claim on a registered queue always succeeds when the database does, takes the oldest
  unclaimed jobs in the order (created_at, id), at most the clamped limit, hands out their
  payloads with one fresh dispatch id each, writes exactly these dispatch ids into the claimed
  rows, and leaves pending precisely the jobs that come after the claimed ones.
\<close>

theorem claim_takes_oldest_first:
  assumes "ingest_wf names db" and "queue \<in> names"
  shows "\<exists>claimed db'.
     ingest_claim_batch None pick now uuid queue limit names db = (Inr claimed, db') \<and>
     (let pending = pending_rows queue (accepted_jobs db); n = clamp limit 1 MAX_CLAIM_BATCH_SIZE in
      map ic_id claimed = map aj_id (take n pending) \<and>
      map ic_payload claimed = map aj_payload (take n pending) \<and>
      map ic_dispatch_id claimed = map uuid [0..<length claimed] \<and>
      accepted_jobs db' = assign now (zip (map ic_id claimed) (map ic_dispatch_id claimed)) (accepted_jobs db) \<and>
      job_queues db' = job_queues db \<and>
      pending_rows queue (accepted_jobs db') = drop n pending)"
proof -
  define sel where "sel = take (clamp limit 1 MAX_CLAIM_BATCH_SIZE) (pending_rows queue (accepted_jobs db))"
  from ingest_claim_batch_eq [OF assms, of pick now uuid limit] obtain t cl where
    eq: "ingest_claim_batch None pick now uuid queue limit names db =
      (Inr cl, db\<lparr>accepted_jobs := assign now (zip (map aj_id sel) (map uuid [0..<length sel])) (accepted_jobs db)\<rparr>)"
    and cl: "cl = map (\<lambda>(r, d). claim_of r t d) (zip sel (map uuid [0..<length sel]))"
    by (auto simp: sel_def Let_def)
  have "map ic_id cl = map aj_id sel" "map ic_payload cl = map aj_payload sel"
    "map ic_dispatch_id cl = map uuid [0..<length sel]" "length cl = length sel"
    unfolding cl by (simp_all only: map_claim_of length_map length_upt diff_zero length_zip min.idem)
  moreover have "pending_rows queue (assign now (zip (map aj_id sel) (map uuid [0..<length sel])) (accepted_jobs db)) =
      drop (clamp limit 1 MAX_CLAIM_BATCH_SIZE) (pending_rows queue (accepted_jobs db))"
    using assms(1) by (intro pending_rows_assign [OF _ sel_def]) (simp_all add: ingest_wf_def)
  ultimately show ?thesis
    unfolding Let_def sel_def [symmetric] eq by simp
qed

theorem claim_takes_oldest_first_witness:
  "\<exists>claimed db'.
     ingest_claim_batch None id 99 show_nat ''mail'' 1 {''mail''} sample_ingest = (Inr claimed, db') \<and>
     map ic_id claimed = [2] \<and> map aj_id (pending_rows ''mail'' (accepted_jobs db')) = [1]"
proof -
  have n: "clamp 1 1 MAX_CLAIM_BATCH_SIZE = 1" by (simp add: clamp_def MAX_CLAIM_BATCH_SIZE_def)
  from claim_takes_oldest_first [OF sample_ingest_wf, of "''mail''" id 99 show_nat 1] obtain claimed db' where
    "ingest_claim_batch None id 99 show_nat ''mail'' 1 {''mail''} sample_ingest = (Inr claimed, db')"
    "map ic_id claimed = map aj_id (take 1 (pending_rows ''mail'' (accepted_jobs sample_ingest)))"
    "pending_rows ''mail'' (accepted_jobs db') = drop 1 (pending_rows ''mail'' (accepted_jobs sample_ingest))"
    unfolding n Let_def by auto
  then show ?thesis
    using sample_pending by (intro exI [of _ claimed] exI [of _ db']) (simp flip: take_map drop_map)
qed

text \<open>
  Every request the ingest writer handles keeps the database well formed, whatever the
  database engine, the clock and the UUID generator do: queue names and job ids stay unique, job
  ids positive, every job's queue exists, stored queue settings read back, and every cached
  queue name is stored.
\<close>

theorem ingest_handle_preserves_wf:
  assumes "ingest_wf names db" and "ingest_handle E req names db = (db', names', replies)"
  shows "ingest_wf names' db'"
  using assms by (rule ingest_handle_keeps_wf)

theorem ingest_handle_preserves_wf_witness:
  "ingest_wf {''mail''} (fst (ingest_handle \<lparr>env_io = (\<lambda>_. None), env_clock = (\<lambda>_. 50), env_uuid = show_nat, env_pick = id\<rparr>
     (ReqCleanup 15 7) {''mail''} sample_ingest))"
  by (rule ingest_handle_preserves_wf [OF sample_ingest_wf, where req = "ReqCleanup 15 7"
        and replies = "[(7, RepCount (Inr 1))]"
        and E = "\<lparr>env_io = (\<lambda>_. None), env_clock = (\<lambda>_. 50), env_uuid = show_nat, env_pick = id\<rparr>"])
    (simp add: ingest_cleanup_def sample_ingest_def)

text \<open>
  An enqueue batch answers every request exactly once. It either stores nothing and gives
  no positive answer, or appends one unclaimed row per job whose queue is known, with
  consecutive fresh ids above every id in use, and answers each of them with its row's id; the
  number of rows per SQL statement is invisible. The rows already stored are never touched.
\<close>

theorem enqueue_batch_exact:
  assumes "ingest_wf names db" and "enqueue_batch io batch names db = (db', replies, n)"
  shows "mset (map fst replies) = mset (map pe_reply batch) \<and>
    (let known = filter (\<lambda>p. aj_queue_name (pe_job p) \<in> names) batch;
         first = max_rowid (map aj_id (accepted_jobs db)) + 1 in
     (db' = db \<and> list_all (\<lambda>(_, r). isl r) replies) \<or>
     (io = None \<and> db' = db\<lparr>accepted_jobs := accepted_jobs db @ numbered first (map pe_job known)\<rparr> \<and>
      filter (\<lambda>(_, r). \<not> isl r) replies =
        map (\<lambda>p. (pe_reply p, Inr (pe_job p))) (stamped_from first known)))"
proof -
  have pos: "list_all (\<lambda>r. 0 < aj_id r) (accepted_jobs db)"
    using assms(1) by (simp add: ingest_wf_def list_all_iff)
  have io: "io = None" if "n = Some k" for k
    using that assms(2) by (auto simp: enqueue_batch_def Let_def split: if_splits option.splits)
  from assms(2) pos show ?thesis
  proof (cases rule: enqueue_batch_cases)
    case (unchanged g)
    then show ?thesis
      using enqueue_batch_replies [OF assms(2) pos] by (auto simp: list_all_iff Let_def)
  next
    case (stored known m)
    then show ?thesis
      using enqueue_batch_replies [OF assms(2) pos] io by (auto simp: Let_def comp_def filter_map)
  qed
qed

theorem enqueue_batch_exact_witness:
  "\<exists>db' replies n. enqueue_batch None
     [\<lparr>pe_job = AcceptedJob_new 30 ''mail'' [9], pe_reply = 4\<rparr>,
      \<lparr>pe_job = AcceptedJob_new 30 ''fax'' [8], pe_reply = 5\<rparr>] {''mail''} sample_ingest = (db', replies, n) \<and>
     mset (map fst replies) = {#4, 5#}"
proof -
  let ?b = "[\<lparr>pe_job = AcceptedJob_new 30 ''mail'' [9], pe_reply = 4\<rparr>,
      \<lparr>pe_job = AcceptedJob_new 30 ''fax'' [8], pe_reply = 5\<rparr>]"
  obtain db' replies n where eq: "enqueue_batch None ?b {''mail''} sample_ingest = (db', replies, n)"
    by (metis prod_cases3)
  from enqueue_batch_exact [OF sample_ingest_wf eq] eq show ?thesis by simp
qed

lemma assign_lookup:
  "row_by aj_id i (assign now vs rows) =
     map_option (\<lambda>r. case map_of vs i of None \<Rightarrow> r
                      | Some d \<Rightarrow> r\<lparr>aj_dispatch_id := Some d, aj_updated_at := now\<rparr>) (row_by aj_id i rows)"
proof -
  have "row_by aj_id i (assign now vs rows) = map_option
      (\<lambda>r. case map_of vs (aj_id r) of None \<Rightarrow> r
           | Some d \<Rightarrow> r\<lparr>aj_dispatch_id := Some d, aj_updated_at := now\<rparr>) (row_by aj_id i rows)"
    unfolding assign_def by (rule row_by_map) (simp split: option.split)
  then show ?thesis
    using row_by_Some [of aj_id i rows] by (cases "row_by aj_id i rows") simp_all
qed

text \<open>Releasing the claims of a batch undoes the batch, up to the modification times.\<close>

lemma repend_assigned:
  assumes cl: "claimable rows (map fst vs)"
  shows "update_where (\<lambda>r. \<exists>f \<in> set vs. repend_guard f r) (repend_upd now') (assign now vs rows) =
         map (\<lambda>r. if aj_id r \<in> fst ` set vs then r\<lparr>aj_updated_at := now'\<rparr> else r) rows"
  unfolding update_where_def assign_def map_map
proof (rule map_cong [OF refl])
  fix r assume r: "r \<in> set rows"
  let ?new = "case map_of vs (aj_id r) of None \<Rightarrow> r
      | Some d \<Rightarrow> r\<lparr>aj_dispatch_id := Some d, aj_updated_at := now\<rparr>"
  have "(if \<exists>f\<in>set vs. repend_guard f ?new then repend_upd now' ?new else ?new) =
      (if aj_id r \<in> fst ` set vs then r\<lparr>aj_updated_at := now'\<rparr> else r)"
  proof (cases "map_of vs (aj_id r)")
    case None
    have out: "aj_id r \<notin> fst ` set vs" using None by (simp only: map_of_eq_None_iff simp_thms)
    then have "\<not> (\<exists>f \<in> set vs. repend_guard f r)" by (auto simp: repend_guard_def)
    with None out show ?thesis by (simp only: option.case if_False)
  next
    case (Some x)
    note mem = map_of_SomeD [OF Some]
    then have "aj_id r \<in> fst ` set vs" by force
    moreover from mem have "\<exists>f \<in> set vs. repend_guard f (r\<lparr>aj_dispatch_id := Some x, aj_updated_at := now\<rparr>)"
      by (auto simp: repend_guard_def intro!: bexI)
    ultimately show ?thesis
      using Some claimable_row [OF cl r Some] by (simp add: repend_upd_def)
  qed
  then show "((\<lambda>r. if \<exists>f\<in>set vs. repend_guard f r then repend_upd now' r else r) \<circ>
        (\<lambda>r. case map_of vs (aj_id r) of None \<Rightarrow> r
           | Some d \<Rightarrow> r\<lparr>aj_dispatch_id := Some d, aj_updated_at := now\<rparr>)) r =
       (if aj_id r \<in> fst ` set vs then r\<lparr>aj_updated_at := now'\<rparr> else r)" by simp
qed

lemma pending_rows_touch:
  assumes "\<And>r. aj_id (f r) = aj_id r" and "\<And>r. aj_queue_name (f r) = aj_queue_name r"
    and "\<And>r. aj_dispatch_id (f r) = aj_dispatch_id r" and "\<And>r. aj_created_at (f r) = aj_created_at r"
  shows "pending_rows queue (map f rows) = map f (pending_rows queue rows)"
proof -
  have "insort_key key (f x) (map f ys) = map f (insort_key (key \<circ> f) x ys)" for key :: "AcceptedJob \<Rightarrow> claim_key" and x ys
    by (induction ys) simp_all
  then have "sort_key key (map f xs) = map f (sort_key (key \<circ> f) xs)" for key :: "AcceptedJob \<Rightarrow> claim_key" and xs
    by (induction xs) simp_all
  then show ?thesis
    by (simp add: pending_rows_def filter_map comp_def assms)
qed

text \<open>
  Releasing every claim of a batch restores the database as it was before the claim, except
  for the modification times: every queue offers the same jobs, in the same order, again.
\<close>

theorem release_undoes_claim:
  assumes wf: "ingest_wf names db"
    and claim: "ingest_claim_batch io pick now uuid queue limit names db = (Inr claimed, db')"
  shows "\<exists>db''. repend_batch (\<lambda>_. None) pick' now' (map (\<lambda>c. (ic_id c, ic_dispatch_id c)) claimed) db' = (Inr (), db'') \<and>
     map (\<lambda>r. r\<lparr>aj_updated_at := 0\<rparr>) (accepted_jobs db'') = map (\<lambda>r. r\<lparr>aj_updated_at := 0\<rparr>) (accepted_jobs db) \<and>
     map aj_id (pending_rows q (accepted_jobs db'')) = map aj_id (pending_rows q (accepted_jobs db)) \<and>
     job_queues db'' = job_queues db \<and> ing_meta db'' = ing_meta db"
  using wf claim
proof (cases rule: ingest_claim_batch_cases)
  case (claimed sel t)
  let ?ds = "map uuid [0..<length sel]"
  let ?vs = "zip (map aj_id sel) ?ds"
  define touch :: "AcceptedJob \<Rightarrow> AcceptedJob" where "touch = (\<lambda>r. if aj_id r \<in> fst ` set ?vs then r\<lparr>aj_updated_at := now'\<rparr> else r)"
  have "zip (map ic_id claimed) (map ic_dispatch_id claimed) = ?vs"
    using claimed(4) map_claim_of(1,3) [of ?ds sel t] by simp
  then have vs: "map (\<lambda>c. (ic_id c, ic_dispatch_id c)) claimed = ?vs"
    by (simp only: map_pair_zip)
  have "claimable (accepted_jobs db) (map fst ?vs)"
    using claimable_selection [OF wf] claimed(3) by simp
  note undo = repend_assigned [OF this, of now' now, folded touch_def]
  have "repend_batch (\<lambda>_. None) pick' now' ?vs db' = (Inr (), db\<lparr>accepted_jobs := map touch (accepted_jobs db)\<rparr>)"
    unfolding repend_batch_eq claimed(5) by (simp add: undo)
  moreover have "pending_rows q (map touch (accepted_jobs db)) = map touch (pending_rows q (accepted_jobs db))"
    by (rule pending_rows_touch) (simp_all add: touch_def)
  moreover have "map aj_id (map touch rs) = map aj_id rs"
    "map (\<lambda>r. r\<lparr>aj_updated_at := 0\<rparr>) (map touch rs) = map (\<lambda>r. r\<lparr>aj_updated_at := 0\<rparr>) rs" for rs
    unfolding map_map by (rule map_cong [OF refl], simp add: touch_def)+
  ultimately show ?thesis
    unfolding vs by simp
qed simp

theorem release_undoes_claim_witness:
  "\<exists>claimed db' db''.
     ingest_claim_batch None id 99 show_nat ''mail'' 2 {''mail''} sample_ingest = (Inr claimed, db') \<and>
     repend_batch (\<lambda>_. None) id 100 (map (\<lambda>c. (ic_id c, ic_dispatch_id c)) claimed) db' = (Inr (), db'') \<and>
     map aj_id (pending_rows ''mail'' (accepted_jobs db'')) = [2, 1]"
proof -
  obtain claimed db' where eq: "ingest_claim_batch None id 99 show_nat ''mail'' 2 {''mail''} sample_ingest = (Inr claimed, db')"
    using ingest_claim_batch_eq [OF sample_ingest_wf, of "''mail''" id 99 show_nat 2] by (auto simp: Let_def)
  from release_undoes_claim [OF sample_ingest_wf eq, of id 100 "''mail''"] eq show ?thesis
    unfolding sample_pending by (elim exE conjE) (intro exI conjI, assumption+)
qed

fun request_reply :: "IngestRequest \<Rightarrow> nat" where
  "request_reply (ReqUpsertQueue _ k) = k"
| "request_reply (ReqEnqueue _ k) = k"
| "request_reply (ReqClaimBatch _ _ k) = k"
| "request_reply (ReqRepend _ _ k) = k"
| "request_reply (ReqCleanup _ k) = k"
| "request_reply (ReqVacuum k) = k"

lemma ingest_handle_one_reply:
  assumes "ingest_wf names db" and "ingest_handle E req names db = (db', names', replies)"
  shows "map fst replies = [request_reply req]"
proof (cases req)
  case (ReqEnqueue j k)
  have pos: "list_all (\<lambda>r. 0 < aj_id r) (accepted_jobs db)"
    using assms(1) by (simp add: ingest_wf_def list_all_iff)
  obtain rs n where eq: "enqueue_batch (env_io E 0) [\<lparr>pe_job = j, pe_reply = k\<rparr>] names db = (db', rs, n)"
    and rs: "replies = map (\<lambda>(k, r). (k, RepAccepted r)) rs"
    using assms(2) ReqEnqueue by (auto split: prod.splits)
  have "mset (map fst replies) = mset (map fst rs)"
    unfolding rs by (simp add: comp_def case_prod_unfold)
  with enqueue_batch_replies [OF eq pos] have "mset (map fst replies) = {#k#}" by simp
  with ReqEnqueue show ?thesis by (metis mset_single_iff_right request_reply.simps(2))
qed (use assms in \<open>auto split: prod.splits\<close>)

text \<open>
  The ingest writer answers every request exactly once, on the request's own reply channel,
  whether the operation succeeds or fails.
\<close>

theorem ingest_handle_answers_once:
  assumes "ingest_wf names db"
  shows "map fst (snd (snd (ingest_handle E req names db))) = [request_reply req]"
  using ingest_handle_one_reply [OF assms] by (metis prod.collapse)

theorem ingest_handle_answers_once_witness:
  "map fst (snd (snd (ingest_handle
     \<lparr>env_io = (\<lambda>_. Some ''disk I/O error''), env_clock = (\<lambda>_. 50), env_uuid = show_nat, env_pick = id\<rparr>
     (ReqEnqueue (AcceptedJob_new 30 ''mail'' [9]) 4) {''mail''} sample_ingest))) = [4]"
  by (rule trans [OF ingest_handle_answers_once [OF sample_ingest_wf]]) simp

end
