(* ===== verification/Maq_Results.thy ===== *)
theory Maq_Results
  imports Maq_Ingest
begin

text \<open>
  The results database and its writer connection (\<open>crates/persistence/src/sqlite/results.rs\<close>,
  \<open>ResultsConn\<close>): the tables \<open>execution_queues\<close> and \<open>executions\<close>, and the operations dispatch,
  complete, abandon, recover, cleanup and vacuum, with the request handler. Every update of an
  execution is fenced by its dispatch id (or its row id) and by the status \<open>running\<close>; the fence
  is the locale \<open>fenced_update\<close>. This theory has the definitions, the invariant of the tables and
  the facts about dispatch; completion, expiry and the life of an execution are in
  \<open>Maq_Executions\<close>.
\<close>

section \<open>State\<close>

record ExecRow =
  xr_id :: i64
  xr_job_id :: i64
  xr_queue_name :: string
  xr_status :: string
  xr_execution_count :: i64
  xr_lease_expires_at :: "i64 option"
  xr_dispatch_id :: string
  xr_result_payload :: "bytes option"
  xr_result_error :: "string option"
  xr_created_at :: i64
  xr_updated_at :: i64

record ResultsDb =
  execution_queues :: "QueueRow list"
  executions :: "ExecRow list"

definition ResultsDb_empty :: ResultsDb where
  "ResultsDb_empty = \<lparr>execution_queues = [], executions = []\<rparr>"

record DispatchInsert =
  di_job_id :: i64
  di_queue_name :: string
  di_dispatch_id :: string
  di_lease_expires_at :: i64

record DispatchedExecution =
  de_job_id :: i64
  de_execution_count :: u32
  de_dispatch_id :: string
  de_lease_expires_at :: i64
  de_updated_at :: i64

datatype CompletionDisposition = Ignored | DispCompleted | Repend

record RecoveredStale =
  rs_job_id :: i64
  rs_dispatch_id :: string
  rs_should_repend :: bool

record PendingCompletion =
  pc_job_id :: i64
  pc_dispatch_id :: string
  pc_outcome :: JobOutcome
  pc_reply :: nat

datatype ResultsRequest =
    RReqUpsertQueue JobQueue nat
  | RReqDispatch "DispatchInsert list" nat
  | RReqComplete i64 string JobOutcome nat
  | RReqAbandon i64 string nat
  | RReqRecoverStale i64 nat
  | RReqCleanup i64 nat
  | RReqVacuum nat

datatype ResultsReply =
    RRepQueue "StoreError + JobQueue"
  | RRepDispatched "StoreError + DispatchedExecution list"
  | RRepDisposition "StoreError + CompletionDisposition"
  | RRepUnit "StoreError + unit"
  | RRepRecovered "StoreError + RecoveredStale list"
  | RRepCount "StoreError + nat"

section \<open>Row conversions\<close>

definition row_to_execution_status :: "nat \<Rightarrow> string \<Rightarrow> string + ExecutionStatus" where
  "row_to_execution_status idx raw =
     (case parse_status raw of
        Some s \<Rightarrow> Inr s
      | None \<Rightarrow> Inl (''Conversion error from type Text at index: '' @ show_nat idx @
                      '', unknown execution status: '' @ raw))"

definition row_to_execution_at :: "nat \<Rightarrow> ExecRow \<Rightarrow> string + Execution" where
  "row_to_execution_at offset r =
     (case row_to_execution_status (offset + 3) (xr_status r) of
        Inl e \<Rightarrow> Inl e
      | Inr s \<Rightarrow>
          (case u32_try_from (xr_execution_count r) of
             None \<Rightarrow> Inl (conversion_error (offset + 4))
           | Some c \<Rightarrow>
               Inr \<lparr>ex_id = xr_id r, ex_job_id = xr_job_id r, ex_queue_name = xr_queue_name r,
                    ex_status = s, ex_execution_count = c,
                    ex_lease_expires_at = xr_lease_expires_at r, ex_dispatch_id = xr_dispatch_id r,
                    ex_result_payload = xr_result_payload r, ex_result_error = xr_result_error r,
                    ex_created_at = xr_created_at r, ex_updated_at = xr_updated_at r\<rparr>))"

definition row_to_execution :: "ExecRow \<Rightarrow> string + Execution" where
  "row_to_execution r = row_to_execution_at 0 r"

definition row_to_execution_with_queue_config ::
  "ExecRow \<times> QueueRow \<Rightarrow> string + ExecutionWithQueueConfig" where
  "row_to_execution_with_queue_config p =
     (case row_to_execution_at 0 (fst p) of
        Inl e \<Rightarrow> Inl e
      | Inr ex \<Rightarrow>
          (case row_to_queue_at 11 (snd p) of
             Inl e \<Rightarrow> Inl e
           | Inr q \<Rightarrow> Inr \<lparr>ewq_execution = ex, ewq_queue = q\<rparr>))"

section \<open>Operations\<close>

definition results_upsert_queue ::
  "string option \<Rightarrow> string option \<Rightarrow> i64 \<Rightarrow> JobQueue \<Rightarrow> ResultsDb \<Rightarrow> (StoreError + JobQueue) \<times> ResultsDb" where
  "results_upsert_queue io_exec io_query now queue db =
     (let (r, rows) = upsert_queue_sql io_exec io_query now queue (execution_queues db)
      in (r, db\<lparr>execution_queues := rows\<rparr>))"

text \<open>
  One row of \<open>INSERT INTO executions .. ON CONFLICT(job_id) DO UPDATE SET status = 'running',
  execution_count = execution_count + 1, .. WHERE executions.status IN ('failed', 'pending')
  RETURNING job_id, execution_count, dispatch_id, updated_at\<close>. The conflict target is tried first;
  \<open>dispatch_id\<close> is unique and \<open>queue_name\<close> references \<open>execution_queues(name)\<close>. The second component
  is the row that \<open>RETURNING\<close> reads.
\<close>

definition upsert_execution ::
  "i64 \<Rightarrow> string set \<Rightarrow> DispatchInsert \<Rightarrow> ExecRow list \<Rightarrow> string + (ExecRow list \<times> ExecRow option)" where
  "upsert_execution now queues d rows =
     (let taken = (\<exists>r \<in> set rows. xr_dispatch_id r = di_dispatch_id d \<and> xr_job_id r \<noteq> di_job_id d)
      in case row_by xr_job_id (di_job_id d) rows of
           Some r \<Rightarrow>
             if xr_status r \<in> {''failed'', ''pending''} then
               if taken then Inl ''UNIQUE constraint failed: executions.dispatch_id''
               else
                 let r' = r\<lparr>xr_status := ''running'', xr_execution_count := xr_execution_count r + 1,
                            xr_dispatch_id := di_dispatch_id d,
                            xr_lease_expires_at := Some (di_lease_expires_at d),
                            xr_result_payload := None, xr_result_error := None, xr_updated_at := now\<rparr>
                 in Inr (update_where (\<lambda>x. xr_job_id x = di_job_id d) (\<lambda>_. r') rows, Some r')
             else Inr (rows, None)
         | None \<Rightarrow>
             if taken then Inl ''UNIQUE constraint failed: executions.dispatch_id''
             else if di_queue_name d \<notin> queues then Inl ''FOREIGN KEY constraint failed''
             else
               (case next_rowid (map xr_id rows) of
                  None \<Rightarrow> Inl ''database or disk is full''
                | Some i \<Rightarrow>
                    let r' = \<lparr>xr_id = i, xr_job_id = di_job_id d, xr_queue_name = di_queue_name d,
                              xr_status = ''running'', xr_execution_count = 1,
                              xr_lease_expires_at = Some (di_lease_expires_at d),
                              xr_dispatch_id = di_dispatch_id d, xr_result_payload = None,
                              xr_result_error = None, xr_created_at = now, xr_updated_at = now\<rparr>
                    in Inr (rows @ [r'], Some r')))"

fun upsert_executions ::
  "i64 \<Rightarrow> string set \<Rightarrow> DispatchInsert list \<Rightarrow> ExecRow list \<Rightarrow> string + (ExecRow list \<times> ExecRow list)" where
  "upsert_executions now queues [] rows = Inr (rows, [])"
| "upsert_executions now queues (d # ds) rows =
     (case upsert_execution now queues d rows of
        Inl e \<Rightarrow> Inl e
      | Inr (rows', ret) \<Rightarrow>
          (case upsert_executions now queues ds rows' of
             Inl e \<Rightarrow> Inl e
           | Inr (rows'', rets) \<Rightarrow> Inr (rows'', (case ret of None \<Rightarrow> rets | Some r \<Rightarrow> r # rets))))"

fun record_upserted ::
  "(i64 \<rightharpoonup> i64) \<Rightarrow> ExecRow list \<Rightarrow> (i64 \<rightharpoonup> DispatchedExecution) \<Rightarrow> string + (i64 \<rightharpoonup> DispatchedExecution)" where
  "record_upserted lease_by_id [] by_job = Inr by_job"
| "record_upserted lease_by_id (r # rs) by_job =
     (case u32_try_from (xr_execution_count r) of
        None \<Rightarrow> Inl ''out of range integral type conversion attempted''
      | Some c \<Rightarrow>
          record_upserted lease_by_id rs
            (by_job(xr_job_id r \<mapsto>
               \<lparr>de_job_id = xr_job_id r, de_execution_count = c, de_dispatch_id = xr_dispatch_id r,
                de_lease_expires_at = (case lease_by_id (xr_job_id r) of Some l \<Rightarrow> l | None \<Rightarrow> 0),
                de_updated_at = xr_updated_at r\<rparr>)))"

fun dispatch_chunks ::
  "i64 \<Rightarrow> string set \<Rightarrow> DispatchInsert list list \<Rightarrow> ExecRow list \<Rightarrow> (i64 \<rightharpoonup> DispatchedExecution) \<Rightarrow>
     string + (ExecRow list \<times> (i64 \<rightharpoonup> DispatchedExecution))" where
  "dispatch_chunks now queues [] rows by_job = Inr (rows, by_job)"
| "dispatch_chunks now queues (chunk # cs) rows by_job =
     (case upsert_executions now queues chunk rows of
        Inl e \<Rightarrow> Inl e
      | Inr (rows', upserted) \<Rightarrow>
          let lease_by_id = map_of (rev (map (\<lambda>d. (di_job_id d, di_lease_expires_at d)) chunk)) in
          (case record_upserted lease_by_id upserted by_job of
             Inl e \<Rightarrow> Inl e
           | Inr by_job' \<Rightarrow> dispatch_chunks now queues cs rows' by_job'))"

fun collect_dispatched ::
  "(i64 \<rightharpoonup> DispatchedExecution) \<Rightarrow> DispatchInsert list \<Rightarrow> StoreError + DispatchedExecution list" where
  "collect_dispatched by_job [] = Inr []"
| "collect_dispatched by_job (d # ds) =
     (case by_job (di_job_id d) of
        None \<Rightarrow> Inl (Internal (''dispatch did not produce an execution for job '' @ show_int (di_job_id d)))
      | Some x \<Rightarrow>
          (case collect_dispatched (by_job(di_job_id d := None)) ds of
             Inl e \<Rightarrow> Inl e
           | Inr xs \<Rightarrow> Inr (x # xs)))"

definition execution_queue_names :: "ResultsDb \<Rightarrow> string set" where
  "execution_queue_names db = set (map qr_name (execution_queues db))"

definition dispatch_batch ::
  "string option \<Rightarrow> i64 \<Rightarrow> DispatchInsert list \<Rightarrow> ResultsDb \<Rightarrow>
     (StoreError + DispatchedExecution list) \<times> ResultsDb" where
  "dispatch_batch io now rows db =
     (if rows = [] then (Inr [], db)
      else case io of
             Some e \<Rightarrow> (Inl (Internal e), db)
           | None \<Rightarrow>
               (case dispatch_chunks now (execution_queue_names db) (chunks ROWS_PER_STATEMENT rows)
                       (executions db) Map.empty of
                  Inl e \<Rightarrow> (Inl (Internal e), db)
                | Inr (xs, by_job) \<Rightarrow> (collect_dispatched by_job rows, db\<lparr>executions := xs\<rparr>)))"

text \<open>
  The fenced updates: \<open>WHERE job_id = v.job_id AND dispatch_id = v.dispatch_id AND status =
  'running'\<close>, and \<open>WHERE id = v.id AND status = 'running'\<close>.
\<close>

definition running_guard :: "i64 \<times> string \<Rightarrow> ExecRow \<Rightarrow> bool" where
  "running_guard f r \<longleftrightarrow>
     xr_job_id r = fst f \<and> xr_dispatch_id r = snd f \<and> xr_status r = ''running''"

definition stale_guard :: "i64 \<Rightarrow> ExecRow \<Rightarrow> bool" where
  "stale_guard i r \<longleftrightarrow> xr_id r = i \<and> xr_status r = ''running''"

definition set_completed :: "bytes \<times> i64 \<Rightarrow> ExecRow \<Rightarrow> ExecRow" where
  "set_completed x r =
     r\<lparr>xr_status := ''completed'', xr_lease_expires_at := None, xr_result_payload := Some (fst x),
       xr_result_error := None, xr_updated_at := snd x\<rparr>"

definition set_failed :: "string \<times> i64 \<Rightarrow> ExecRow \<Rightarrow> ExecRow" where
  "set_failed x r =
     r\<lparr>xr_status := ''failed'', xr_lease_expires_at := None, xr_result_error := Some (fst x),
       xr_updated_at := snd x\<rparr>"

fun is_success :: "JobOutcome \<Rightarrow> bool" where
  "is_success (Succeeded _) = True"
| "is_success (OutcomeFailed _) = False"

fun outcome_payload :: "JobOutcome \<Rightarrow> bytes" where
  "outcome_payload (Succeeded payload) = payload"
| "outcome_payload (OutcomeFailed _) = []"

fun outcome_message :: "JobOutcome \<Rightarrow> string" where
  "outcome_message (OutcomeFailed message) = message"
| "outcome_message (Succeeded _) = []"

definition pc_key :: "PendingCompletion \<Rightarrow> i64 \<times> string" where
  "pc_key p = (pc_job_id p, pc_dispatch_id p)"

definition xr_key :: "ExecRow \<Rightarrow> i64 \<times> string" where
  "xr_key r = (xr_job_id r, xr_dispatch_id r)"

text \<open>
  \<open>complete_batch\<close> works on the positions of the batch: first the successes, then the failures,
  each in chunks, writing one disposition per position.
\<close>

definition complete_success_chunk ::
  "(nat \<Rightarrow> nat) \<Rightarrow> i64 \<Rightarrow> PendingCompletion list \<Rightarrow> nat list \<Rightarrow>
     ExecRow list \<times> CompletionDisposition list \<Rightarrow> ExecRow list \<times> CompletionDisposition list" where
  "complete_success_chunk pick now batch chunk st =
     (let (rows, dispositions) = st;
          vs = map (\<lambda>i. batch ! i) chunk;
          upd = (\<lambda>p. set_completed (outcome_payload (pc_outcome p), now));
          updated = set (map xr_key (updated_from pick (\<lambda>p. running_guard (pc_key p)) upd vs rows))
      in (update_from pick (\<lambda>p. running_guard (pc_key p)) upd vs rows,
          fold (\<lambda>i ds. if pc_key (batch ! i) \<in> updated then ds[i := DispCompleted] else ds)
            chunk dispositions))"

fun queue_limits :: "QueueRow list \<Rightarrow> string list \<Rightarrow> (string \<rightharpoonup> i64) \<Rightarrow> string + (string \<rightharpoonup> i64)" where
  "queue_limits queues [] limits = Inr limits"
| "queue_limits queues (n # ns) limits =
     (if limits n \<noteq> None then queue_limits queues ns limits
      else case row_by qr_name n queues of
             None \<Rightarrow> Inl ''Query returned no rows''
           | Some q \<Rightarrow> queue_limits queues ns (limits(n \<mapsto> qr_max_retries q)))"

definition fail_disposition :: "(i64 \<times> string \<rightharpoonup> i64 \<times> i64) \<Rightarrow> PendingCompletion \<Rightarrow> CompletionDisposition" where
  "fail_disposition by_key p =
     (case by_key (pc_key p) of
        Some (execution_count, max_retries) \<Rightarrow>
          if execution_count \<le> max_retries then Repend else DispCompleted
      | None \<Rightarrow> Ignored)"

definition complete_fail_chunk ::
  "(nat \<Rightarrow> nat) \<Rightarrow> i64 \<Rightarrow> QueueRow list \<Rightarrow> PendingCompletion list \<Rightarrow> nat list \<Rightarrow>
     ExecRow list \<times> CompletionDisposition list \<Rightarrow> string + (ExecRow list \<times> CompletionDisposition list)" where
  "complete_fail_chunk pick now queues batch chunk st =
     (let (rows, dispositions) = st;
          vs = map (\<lambda>i. batch ! i) chunk;
          upd = (\<lambda>p. set_failed (outcome_message (pc_outcome p), now));
          updated = updated_from pick (\<lambda>p. running_guard (pc_key p)) upd vs rows
      in case queue_limits queues (map xr_queue_name updated) Map.empty of
           Inl e \<Rightarrow> Inl e
         | Inr limits \<Rightarrow>
             let by_key = map_of (rev (map (\<lambda>r. (xr_key r, (xr_execution_count r,
                            (case limits (xr_queue_name r) of Some m \<Rightarrow> m | None \<Rightarrow> 0)))) updated))
             in Inr (update_from pick (\<lambda>p. running_guard (pc_key p)) upd vs rows,
                     fold (\<lambda>i ds. ds[i := fail_disposition by_key (batch ! i)]) chunk dispositions))"

fun complete_fail_chunks ::
  "(nat \<Rightarrow> nat) \<Rightarrow> i64 \<Rightarrow> QueueRow list \<Rightarrow> PendingCompletion list \<Rightarrow> nat list list \<Rightarrow>
     ExecRow list \<times> CompletionDisposition list \<Rightarrow> string + (ExecRow list \<times> CompletionDisposition list)" where
  "complete_fail_chunks pick now queues batch [] st = Inr st"
| "complete_fail_chunks pick now queues batch (c # cs) st =
     (case complete_fail_chunk pick now queues batch c st of
        Inl e \<Rightarrow> Inl e
      | Inr st' \<Rightarrow> complete_fail_chunks pick now queues batch cs st')"

definition complete_batch ::
  "string option \<Rightarrow> (nat \<Rightarrow> nat) \<Rightarrow> i64 \<Rightarrow> PendingCompletion list \<Rightarrow> ResultsDb \<Rightarrow>
     ResultsDb \<times> (nat \<times> (StoreError + CompletionDisposition)) list \<times> nat option" where
  "complete_batch io pick now batch db =
     (if batch = [] then (db, [], None)
      else
        let success_idx = filter (\<lambda>i. is_success (pc_outcome (batch ! i))) [0..<length batch];
            fail_idx = filter (\<lambda>i. \<not> is_success (pc_outcome (batch ! i))) [0..<length batch];
            st = fold (complete_success_chunk pick now batch) (chunks ROWS_PER_STATEMENT success_idx)
                   (executions db, replicate (length batch) Ignored)
        in case (case io of
                   Some e \<Rightarrow> Inl e
                 | None \<Rightarrow> complete_fail_chunks pick now (execution_queues db) batch
                             (chunks ROWS_PER_STATEMENT fail_idx) st) of
             Inl e \<Rightarrow> (db, map (\<lambda>p. (pc_reply p, Inl (Internal e))) batch, None)
           | Inr (rows, dispositions) \<Rightarrow>
               (db\<lparr>executions := rows\<rparr>,
                map (\<lambda>(p, d). (pc_reply p, Inr d)) (zip batch dispositions),
                Some (length batch)))"

definition abandon :: "string option \<Rightarrow> i64 \<Rightarrow> i64 \<Rightarrow> string \<Rightarrow> ResultsDb \<Rightarrow> (StoreError + unit) \<times> ResultsDb" where
  "abandon io now jid dispatch_id db =
     (case io of
        Some e \<Rightarrow> (Inl (Internal e), db)
      | None \<Rightarrow>
          (Inr (), db\<lparr>executions := update_where (running_guard (jid, dispatch_id))
                        (set_failed (''abandoned'', now)) (executions db)\<rparr>))"

text \<open>
  \<open>recover_stale\<close>: the running executions whose lease has expired, joined with their queues, are
  failed by row id; the join is read in table order.
\<close>

definition select_stale :: "i64 \<Rightarrow> ResultsDb \<Rightarrow> (ExecRow \<times> QueueRow) list" where
  "select_stale now db =
     concat (map (\<lambda>r. map (\<lambda>q. (r, q)) (filter (\<lambda>q. qr_name q = xr_queue_name r) (execution_queues db)))
       (filter (\<lambda>r. xr_status r = ''running'' \<and>
                     (case xr_lease_expires_at r of None \<Rightarrow> False | Some l \<Rightarrow> l < now)) (executions db)))"

fun recovered_of :: "(i64 \<rightharpoonup> u32) \<Rightarrow> ExecRow list \<Rightarrow> string + RecoveredStale list" where
  "recovered_of limits [] = Inr []"
| "recovered_of limits (r # rs) =
     (case u32_try_from (xr_execution_count r) of
        None \<Rightarrow> Inl ''out of range integral type conversion attempted''
      | Some c \<Rightarrow>
          let max_retries = (case limits (xr_id r) of Some m \<Rightarrow> m | None \<Rightarrow> 0) in
          (case recovered_of limits rs of
             Inl e \<Rightarrow> Inl e
           | Inr xs \<Rightarrow>
               Inr (\<lparr>rs_job_id = xr_job_id r, rs_dispatch_id = xr_dispatch_id r,
                     rs_should_repend = (c \<le> max_retries)\<rparr> # xs)))"

fun recover_chunks ::
  "(nat \<Rightarrow> nat) \<Rightarrow> i64 \<Rightarrow> (i64 \<rightharpoonup> u32) \<Rightarrow> ExecutionWithQueueConfig list list \<Rightarrow> ExecRow list \<Rightarrow>
     string + (ExecRow list \<times> RecoveredStale list)" where
  "recover_chunks pick now limits [] rows = Inr (rows, [])"
| "recover_chunks pick now limits (c # cs) rows =
     (let ids = map (\<lambda>item. ex_id (ewq_execution item)) c;
          upd = (\<lambda>_. set_failed (''lease expired'', now))
      in case recovered_of limits (updated_from pick stale_guard upd ids rows) of
           Inl e \<Rightarrow> Inl e
         | Inr xs \<Rightarrow>
             (case recover_chunks pick now limits cs (update_from pick stale_guard upd ids rows) of
                Inl e \<Rightarrow> Inl e
              | Inr (rows', ys) \<Rightarrow> Inr (rows', xs @ ys)))"

definition recover_stale ::
  "string option \<Rightarrow> string option \<Rightarrow> (nat \<Rightarrow> nat) \<Rightarrow> i64 \<Rightarrow> ResultsDb \<Rightarrow>
     (StoreError + RecoveredStale list) \<times> ResultsDb" where
  "recover_stale io_select io_tx pick now db =
     (case (case io_select of
              Some e \<Rightarrow> Inl e
            | None \<Rightarrow> collect_results (map row_to_execution_with_queue_config (select_stale now db))) of
        Inl e \<Rightarrow> (Inl (Internal e), db)
      | Inr stale \<Rightarrow>
          if stale = [] then (Inr [], db)
          else
            let limits = map_of (rev (map (\<lambda>item. (ex_id (ewq_execution item), jq_max_retries (ewq_queue item))) stale))
            in case (case io_tx of
                       Some e \<Rightarrow> Inl e
                     | None \<Rightarrow> recover_chunks pick now limits (chunks ROWS_PER_STATEMENT stale) (executions db)) of
                 Inl e \<Rightarrow> (Inl (Internal e), db)
               | Inr (rows, recovered) \<Rightarrow> (Inr recovered, db\<lparr>executions := rows\<rparr>))"

definition results_cleanup :: "string option \<Rightarrow> i64 \<Rightarrow> ResultsDb \<Rightarrow> (StoreError + nat) \<times> ResultsDb" where
  "results_cleanup io cutoff db =
     (case io of
        Some e \<Rightarrow> (Inl (Internal e), db)
      | None \<Rightarrow>
          (Inr (length (filter (\<lambda>r. xr_updated_at r < cutoff) (executions db))),
           db\<lparr>executions := filter (\<lambda>r. \<not> xr_updated_at r < cutoff) (executions db)\<rparr>))"

definition results_vacuum :: "string option \<Rightarrow> ResultsDb \<Rightarrow> (StoreError + unit) \<times> ResultsDb" where
  "results_vacuum io db = (case io of Some e \<Rightarrow> (Inl (Internal e), db) | None \<Rightarrow> (Inr (), db))"

fun results_handle :: "env \<Rightarrow> ResultsRequest \<Rightarrow> ResultsDb \<Rightarrow> ResultsDb \<times> (nat \<times> ResultsReply) list" where
  "results_handle E (RReqUpsertQueue queue reply) db =
     (let (result, db') = results_upsert_queue (env_io E 0) (env_io E 1) (env_clock E 0) queue db
      in (db', [(reply, RRepQueue result)]))"
| "results_handle E (RReqDispatch rows reply) db =
     (let (result, db') = dispatch_batch (env_io E 0) (env_clock E 0) rows db
      in (db', [(reply, RRepDispatched result)]))"
| "results_handle E (RReqComplete jid dispatch_id outcome reply) db =
     (let (db', replies, _) = complete_batch (env_io E 0) (env_pick E) (env_clock E 0)
            [\<lparr>pc_job_id = jid, pc_dispatch_id = dispatch_id, pc_outcome = outcome, pc_reply = reply\<rparr>] db
      in (db', map (\<lambda>(k, r). (k, RRepDisposition r)) replies))"
| "results_handle E (RReqAbandon jid dispatch_id reply) db =
     (let (result, db') = abandon (env_io E 0) (env_clock E 0) jid dispatch_id db
      in (db', [(reply, RRepUnit result)]))"
| "results_handle E (RReqRecoverStale now reply) db =
     (let (result, db') = recover_stale (env_io E 0) (env_io E 1) (env_pick E) now db
      in (db', [(reply, RRepRecovered result)]))"
| "results_handle E (RReqCleanup cutoff reply) db =
     (let (result, db') = results_cleanup (env_io E 0) cutoff db
      in (db', [(reply, RRepCount result)]))"
| "results_handle E (RReqVacuum reply) db =
     (let (result, db') = results_vacuum (env_io E 0) db
      in (db', [(reply, RRepUnit result)]))"

section \<open>Reads\<close>

definition read_execution :: "string option \<Rightarrow> i64 \<Rightarrow> ResultsDb \<Rightarrow> StoreError + Execution option" where
  "read_execution io jid db =
     (case io of
        Some e \<Rightarrow> Inl (Internal e)
      | None \<Rightarrow> (case row_by xr_job_id jid (executions db) of
                    None \<Rightarrow> Inr None
                  | Some r \<Rightarrow> (case row_to_execution r of Inl e \<Rightarrow> Inl (Internal e) | Inr x \<Rightarrow> Inr (Some x))))"

section \<open>Well-formedness\<close>

text \<open>
  What an execution row looks like: only a running row has a lease, only a completed one a
  payload, only a failed one an error, and no row is ever stored as pending.
\<close>

definition exec_row_ok :: "string set \<Rightarrow> ExecRow \<Rightarrow> bool" where
  "exec_row_ok queues r \<longleftrightarrow>
     0 < xr_id r \<and> xr_queue_name r \<in> queues \<and> 1 \<le> xr_execution_count r \<and>
     (if xr_status r = ''running'' then
        xr_lease_expires_at r \<noteq> None \<and> xr_result_payload r = None \<and> xr_result_error r = None
      else if xr_status r = ''completed'' then
        xr_lease_expires_at r = None \<and> xr_result_payload r \<noteq> None \<and> xr_result_error r = None
      else xr_status r = ''failed'' \<and>
        xr_lease_expires_at r = None \<and> xr_result_payload r = None \<and> xr_result_error r \<noteq> None)"

definition exec_rows_wf :: "string set \<Rightarrow> ExecRow list \<Rightarrow> bool" where
  "exec_rows_wf queues rows \<longleftrightarrow>
     distinct (map xr_id rows) \<and> distinct (map xr_job_id rows) \<and> distinct (map xr_dispatch_id rows) \<and>
     list_all (exec_row_ok queues) rows"

definition results_wf :: "ResultsDb \<Rightarrow> bool" where
  "results_wf db \<longleftrightarrow>
     queue_rows_wf (execution_queues db) \<and> exec_rows_wf (execution_queue_names db) (executions db) \<and>
     list_all (\<lambda>r. xr_execution_count r < 4294967296) (executions db)"

lemma results_wf_empty: "results_wf ResultsDb_empty"
  by (simp add: results_wf_def ResultsDb_empty_def queue_rows_wf_def exec_rows_wf_def)

lemma exec_row_ok_readable:
  assumes "exec_row_ok queues r" and "xr_execution_count r < 4294967296"
  shows "\<exists>x. row_to_execution r = Inr x \<and> ex_job_id x = xr_job_id r \<and> as_str (ex_status x) = xr_status r \<and>
     ex_dispatch_id x = xr_dispatch_id r \<and> ex_lease_expires_at x = xr_lease_expires_at r \<and>
     uint (ex_execution_count x) = xr_execution_count r"
proof -
  have s: "\<exists>s. parse_status (xr_status r) = Some s"
    using assms(1) by (auto simp: exec_row_ok_def parse_status_def split: if_splits)
  then obtain s where s: "parse_status (xr_status r) = Some s" ..
  have c: "u32_try_from (xr_execution_count r) = Some (word_of_int (xr_execution_count r))"
    using assms by (simp add: u32_try_from_def exec_row_ok_def)
  then show ?thesis
    using s uint_u32_try_from [OF c] parse_status_eq_Some [THEN iffD1, OF s]
    by (simp add: row_to_execution_def row_to_execution_at_def row_to_execution_status_def)
qed

section \<open>Dispatch\<close>

lemma upsert_execution_cases:
  assumes "upsert_execution now queues d rows = Inr (rows', ret)"
  obtains
    (skipped) r where "row_by xr_job_id (di_job_id d) rows = Some r"
      "xr_status r \<notin> {''failed'', ''pending''}" "rows' = rows" "ret = None"
  | (updated) r r' where "row_by xr_job_id (di_job_id d) rows = Some r"
      "xr_status r \<in> {''failed'', ''pending''}"
      "r' = r\<lparr>xr_status := ''running'', xr_execution_count := xr_execution_count r + 1,
              xr_dispatch_id := di_dispatch_id d, xr_lease_expires_at := Some (di_lease_expires_at d),
              xr_result_payload := None, xr_result_error := None, xr_updated_at := now\<rparr>"
      "\<forall>x \<in> set rows. xr_dispatch_id x = di_dispatch_id d \<longrightarrow> xr_job_id x = di_job_id d"
      "rows' = update_where (\<lambda>x. xr_job_id x = di_job_id d) (\<lambda>_. r') rows" "ret = Some r'"
  | (inserted) i r' where "row_by xr_job_id (di_job_id d) rows = None"
      "\<forall>x \<in> set rows. xr_dispatch_id x = di_dispatch_id d \<longrightarrow> xr_job_id x = di_job_id d"
      "di_queue_name d \<in> queues" "next_rowid (map xr_id rows) = Some i"
      "r' = \<lparr>xr_id = i, xr_job_id = di_job_id d, xr_queue_name = di_queue_name d,
             xr_status = ''running'', xr_execution_count = 1,
             xr_lease_expires_at = Some (di_lease_expires_at d),
             xr_dispatch_id = di_dispatch_id d, xr_result_payload = None,
             xr_result_error = None, xr_created_at = now, xr_updated_at = now\<rparr>"
      "rows' = rows @ [r']" "ret = Some r'"
proof (cases "row_by xr_job_id (di_job_id d) rows")
  case None
  with assms obtain i where "next_rowid (map xr_id rows) = Some i"
    by (auto simp: upsert_execution_def Let_def split: option.splits if_splits)
  with None assms show thesis
    by (intro inserted [OF None _ _ _ refl]) (auto simp: upsert_execution_def Let_def split: if_splits)
next
  case (Some r)
  show thesis
  proof (cases "xr_status r \<in> {''failed'', ''pending''}")
    case True
    with Some assms show thesis
      by (intro updated [OF Some True refl]) (auto simp: upsert_execution_def Let_def split: if_splits)
  next
    case False
    with Some assms show thesis
      by (intro skipped [OF Some False]) (auto simp: upsert_execution_def Let_def)
  qed
qed

lemma update_where_map_distinct:
  assumes "distinct (map key rows)" and "r \<in> set rows"
  shows "update_where (\<lambda>x. key x = key r) (\<lambda>_. r') rows = map (\<lambda>x. if x = r then r' else x) rows"
  using assms unfolding update_where_def
  by (intro map_cong [OF refl]) (auto simp: distinct_map dest: inj_onD)

lemma upsert_execution_wf:
  assumes wf: "exec_rows_wf queues rows" and eq: "upsert_execution now queues d rows = Inr (rows', ret)"
  shows "exec_rows_wf queues rows'"
  using eq
proof (cases rule: upsert_execution_cases)
  case (skipped r)
  then show ?thesis using wf by simp
next
  case (updated r r')
  have dist: "distinct (map xr_job_id rows)" using wf by (simp add: exec_rows_wf_def)
  have r: "r \<in> set rows" "xr_job_id r = di_job_id d"
    using row_by_Some [OF updated(1)] by auto
  have rows': "rows' = map (\<lambda>x. if x = r then r' else x) rows"
    using update_where_map_distinct [OF dist r(1), of r'] r(2) updated(5) by simp
  have keys: "map xr_id rows' = map xr_id rows" "map xr_job_id rows' = map xr_job_id rows"
    unfolding rows' by (simp_all add: updated(3))
  have "distinct (map xr_dispatch_id rows')"
    unfolding rows'
  proof (rule distinct_map_replace)
    show "distinct (map xr_dispatch_id rows)" using wf by (simp add: exec_rows_wf_def)
    show "x = r" if "x \<in> set rows" "xr_dispatch_id x = xr_dispatch_id r'" for x
    proof -
      have "xr_job_id x = xr_job_id r" using that updated(3,4) r by simp
      then show ?thesis by (rule inj_onD [OF distinct_map [THEN iffD1, OF dist, THEN conjunct2] _ that(1) r(1)])
    qed
  qed
  moreover have "list_all (exec_row_ok queues) rows'"
  proof -
    have "exec_row_ok queues r'"
      using wf r(1) updated(3) by (auto simp: exec_rows_wf_def list_all_iff exec_row_ok_def)
    then show ?thesis using wf unfolding rows' by (auto simp: exec_rows_wf_def list_all_iff)
  qed
  ultimately show ?thesis using wf by (simp add: exec_rows_wf_def keys)
next
  case (inserted i r')
  have fresh: "xr_id x < i" if "x \<in> set rows" for x
    using next_rowid_fresh [OF inserted(4)] that by simp
  have "0 < i"
  proof (cases rows)
    case Nil
    then show ?thesis using inserted(4) by (simp add: next_rowid_def i64_max_def)
  next
    case (Cons x xs)
    then show ?thesis using fresh [of x] wf by (simp add: exec_rows_wf_def exec_row_ok_def)
  qed
  have job: "di_job_id d \<notin> xr_job_id ` set rows"
    using inserted(1) by (simp add: row_by_None)
  have dispatch: "di_dispatch_id d \<notin> xr_dispatch_id ` set rows"
    using inserted(2) job by (auto simp: image_iff)
  have "i \<notin> xr_id ` set rows" using fresh by auto
  with job dispatch \<open>0 < i\<close> show ?thesis
    using wf inserted(3) by (simp add: inserted(5,6) exec_rows_wf_def exec_row_ok_def)
qed

lemma upsert_execution_rows:
  assumes "exec_rows_wf queues rows" and "upsert_execution now queues d rows = Inr (rows', ret)"
  shows "set rows' \<subseteq> set rows \<union> set_option ret"
  using assms(2)
proof (cases rule: upsert_execution_cases)
  case (updated r r')
  then show ?thesis by (auto simp: update_where_def)
qed auto

lemma upsert_executions_append:
  "upsert_executions now queues (xs @ ys) rows =
     (case upsert_executions now queues xs rows of
        Inl e \<Rightarrow> Inl e
      | Inr (rows', rets) \<Rightarrow>
          (case upsert_executions now queues ys rows' of
             Inl e \<Rightarrow> Inl e | Inr (rows'', rets') \<Rightarrow> Inr (rows'', rets @ rets')))"
  by (induction xs arbitrary: rows) (auto split: sum.splits option.splits)

lemma upsert_executions_wf:
  assumes "exec_rows_wf queues rows" and "upsert_executions now queues ds rows = Inr (rows', rets)"
  shows "exec_rows_wf queues rows' \<and> set rows' \<subseteq> set rows \<union> set rets"
  using assms
proof (induction ds arbitrary: rows rets)
  case (Cons d ds)
  from Cons.prems(2) obtain rows1 ret rets1 where
    one: "upsert_execution now queues d rows = Inr (rows1, ret)"
    and rest: "upsert_executions now queues ds rows1 = Inr (rows', rets1)"
    and rets: "rets = (case ret of None \<Rightarrow> rets1 | Some r \<Rightarrow> r # rets1)"
    by (auto split: sum.splits)
  have wf1: "exec_rows_wf queues rows1" using upsert_execution_wf [OF Cons.prems(1) one] .
  from Cons.IH [OF wf1 rest] upsert_execution_rows [OF Cons.prems(1) one] show ?case
    by (auto simp: rets split: option.splits)
qed simp

lemma record_upserted_counts:
  "record_upserted l rs m = Inr m' \<Longrightarrow> r \<in> set rs \<Longrightarrow> xr_execution_count r < 4294967296"
  by (induction rs arbitrary: m) (auto split: option.splits simp: u32_try_from_def split: if_splits)

lemma dispatch_chunks_wf:
  assumes "exec_rows_wf queues rows" and "list_all (\<lambda>r. xr_execution_count r < 4294967296) rows"
    and "dispatch_chunks now queues cs rows m = Inr (rows', m')"
  shows "exec_rows_wf queues rows' \<and> list_all (\<lambda>r. xr_execution_count r < 4294967296) rows'"
  using assms
proof (induction cs arbitrary: rows m)
  case (Cons c cs)
  from Cons.prems(3) obtain rows1 ups m1 where
    up: "upsert_executions now queues c rows = Inr (rows1, ups)"
    and rc: "record_upserted (map_of (rev (map (\<lambda>d. (di_job_id d, di_lease_expires_at d)) c))) ups m = Inr m1"
    and rest: "dispatch_chunks now queues cs rows1 m1 = Inr (rows', m')"
    by (auto simp: Let_def split: sum.splits)
  note w = upsert_executions_wf [OF Cons.prems(1) up]
  have "list_all (\<lambda>r. xr_execution_count r < 4294967296) rows1"
    using w record_upserted_counts [OF rc] Cons.prems(2) by (auto simp: list_all_iff)
  from Cons.IH [OF _ this rest] w show ?case by blast
qed simp

lemma dispatch_batch_wf:
  assumes "results_wf db"
  shows "results_wf (snd (dispatch_batch io now ds db))"
  using assms dispatch_chunks_wf [of "execution_queue_names db" "executions db"]
  by (auto simp: dispatch_batch_def results_wf_def execution_queue_names_def split: option.splits sum.splits)

text \<open>The row a dispatch leaves behind, from the job's previous row if it has one.\<close>

definition launched :: "i64 \<Rightarrow> DispatchInsert \<Rightarrow> ExecRow option \<Rightarrow> i64 \<Rightarrow> ExecRow" where
  "launched now d old i =
     (case old of
        Some r \<Rightarrow>
          r\<lparr>xr_status := ''running'', xr_execution_count := xr_execution_count r + 1,
            xr_dispatch_id := di_dispatch_id d, xr_lease_expires_at := Some (di_lease_expires_at d),
            xr_result_payload := None, xr_result_error := None, xr_updated_at := now\<rparr>
      | None \<Rightarrow>
          \<lparr>xr_id = i, xr_job_id = di_job_id d, xr_queue_name = di_queue_name d,
           xr_status = ''running'', xr_execution_count = 1,
           xr_lease_expires_at = Some (di_lease_expires_at d),
           xr_dispatch_id = di_dispatch_id d, xr_result_payload = None,
           xr_result_error = None, xr_created_at = now, xr_updated_at = now\<rparr>)"

definition dispatched_of :: "DispatchInsert \<Rightarrow> ExecRow \<Rightarrow> DispatchedExecution" where
  "dispatched_of d r =
     \<lparr>de_job_id = xr_job_id r, de_execution_count = word_of_int (xr_execution_count r),
      de_dispatch_id = xr_dispatch_id r, de_lease_expires_at = di_lease_expires_at d,
      de_updated_at = xr_updated_at r\<rparr>"

text \<open>When a job can be dispatched: it has no execution yet, or its last one failed.\<close>

definition dispatchable :: "string set \<Rightarrow> ExecRow list \<Rightarrow> DispatchInsert \<Rightarrow> bool" where
  "dispatchable queues rows d \<longleftrightarrow>
     (case row_by xr_job_id (di_job_id d) rows of
        None \<Rightarrow> di_queue_name d \<in> queues
      | Some r \<Rightarrow> xr_status r = ''failed'' \<and> 0 \<le> xr_execution_count r \<and> xr_execution_count r < 4294967295)"

definition dispatchable_batch :: "string set \<Rightarrow> ExecRow list \<Rightarrow> DispatchInsert list \<Rightarrow> bool" where
  "dispatchable_batch queues rows ds \<longleftrightarrow>
     exec_rows_wf queues rows \<and> list_all (dispatchable queues rows) ds \<and>
     distinct (map di_job_id ds) \<and> distinct (map di_dispatch_id ds) \<and>
     set (map di_dispatch_id ds) \<inter> set (map xr_dispatch_id rows) = {} \<and>
     max_rowid (map xr_id rows) + int (length ds) \<le> i64_max"

lemma launched_simps [simp]:
  assumes "old \<noteq> None \<Longrightarrow> xr_job_id (the old) = di_job_id d"
  shows "xr_job_id (launched now d old i) = di_job_id d"
    "xr_status (launched now d old i) = ''running''"
    "xr_dispatch_id (launched now d old i) = di_dispatch_id d"
    "xr_lease_expires_at (launched now d old i) = Some (di_lease_expires_at d)"
    "xr_updated_at (launched now d old i) = now"
  using assms by (cases old; simp add: launched_def)+

lemma xr_job_id_launched [simp]:
  "xr_job_id (launched now d (row_by xr_job_id (di_job_id d) rows) i) = di_job_id d"
  using row_by_Some [of xr_job_id "di_job_id d" rows]
  by (cases "row_by xr_job_id (di_job_id d) rows") (simp_all add: launched_def)

lemma dispatchable_batch_step:
  assumes "dispatchable_batch queues rows (d # ds)" and "exec_rows_wf queues rows'"
    and lk: "\<And>j. j \<noteq> di_job_id d \<Longrightarrow> row_by xr_job_id j rows' = row_by xr_job_id j rows"
    and "set (map xr_dispatch_id rows') \<subseteq> insert (di_dispatch_id d) (set (map xr_dispatch_id rows))"
    and "max_rowid (map xr_id rows') \<le> max_rowid (map xr_id rows) + 1"
  shows "dispatchable_batch queues rows' ds"
proof -
  have "dispatchable queues rows' e" if "e \<in> set ds" for e
  proof -
    have "di_job_id e \<noteq> di_job_id d"
      using assms(1) that by (auto simp: dispatchable_batch_def dest: image_eqI [OF sym])
    with lk assms(1) that show ?thesis by (simp add: dispatchable_batch_def dispatchable_def list_all_iff)
  qed
  moreover have "set (map di_dispatch_id ds) \<inter> set (map xr_dispatch_id rows') = {}"
  proof -
    have "di_dispatch_id d \<notin> set (map di_dispatch_id ds)"
      "set (map di_dispatch_id ds) \<inter> set (map xr_dispatch_id rows) = {}"
      using assms(1) by (simp_all add: dispatchable_batch_def)
    with assms(4) show ?thesis by blast
  qed
  ultimately show ?thesis using assms(1,2,5) by (simp add: dispatchable_batch_def list_all_iff)
qed

lemma upsert_execution_ok:
  assumes db: "dispatchable_batch queues rows (d # ds)"
  shows "\<exists>rows' i. upsert_execution now queues d rows =
       Inr (rows', Some (launched now d (row_by xr_job_id (di_job_id d) rows) i)) \<and>
     (\<forall>j. row_by xr_job_id j rows' =
        (if j = di_job_id d then Some (launched now d (row_by xr_job_id (di_job_id d) rows) i)
         else row_by xr_job_id j rows)) \<and>
     dispatchable_batch queues rows' ds"
proof -
  have wf: "exec_rows_wf queues rows" using db by (simp add: dispatchable_batch_def)
  have free: "\<not> (\<exists>r \<in> set rows. xr_dispatch_id r = di_dispatch_id d \<and> xr_job_id r \<noteq> di_job_id d)"
    using db by (auto simp: dispatchable_batch_def dest: image_eqI [OF sym])
  show ?thesis
  proof (cases "row_by xr_job_id (di_job_id d) rows")
    case (Some r)
    let ?r' = "launched now d (Some r) 0"
    let ?rows = "update_where (\<lambda>x. xr_job_id x = di_job_id d) (\<lambda>_. ?r') rows"
    have st: "xr_status r = ''failed''" and rj: "xr_job_id r = di_job_id d"
      using db Some row_by_Some [OF Some] by (auto simp: dispatchable_batch_def dispatchable_def)
    have eq: "upsert_execution now queues d rows = Inr (?rows, Some ?r')"
      using free by (simp add: upsert_execution_def Some st Let_def launched_def)
    have lk: "row_by xr_job_id j ?rows = (if j = di_job_id d then Some ?r' else row_by xr_job_id j rows)" for j
    proof -
      have "row_by xr_job_id j ?rows = map_option (\<lambda>x. if xr_job_id x = di_job_id d then ?r' else x) (row_by xr_job_id j rows)"
        unfolding update_where_def by (rule row_by_map) (simp add: rj)
      then show ?thesis using Some row_by_Some [of xr_job_id j rows]
        by (cases "row_by xr_job_id j rows") auto
    qed
    have wf': "exec_rows_wf queues ?rows" using upsert_execution_wf [OF wf eq] .
    have ids: "map xr_id ?rows = map xr_id rows"
    proof -
      have inj: "inj_on xr_job_id (set rows)" using wf by (simp add: exec_rows_wf_def distinct_map)
      have "x = r" if "x \<in> set rows" "xr_job_id x = di_job_id d" for x
        using inj_onD [OF inj, of x r] that row_by_Some [OF Some] by simp
      then have "xr_id (if xr_job_id x = di_job_id d then ?r' else x) = xr_id x" if "x \<in> set rows" for x
        using that by (auto simp: launched_def)
      then show ?thesis by (simp add: update_where_def)
    qed
    have "dispatchable_batch queues ?rows ds"
      by (rule dispatchable_batch_step [OF db wf']) (auto simp: lk ids, auto simp: update_where_def launched_def)
    with eq lk Some show ?thesis by metis
  next
    case None
    have q: "di_queue_name d \<in> queues" and room: "max_rowid (map xr_id rows) + 1 + int (length ds) \<le> i64_max"
      using db None by (simp_all add: dispatchable_batch_def dispatchable_def)
    then obtain i where i: "next_rowid (map xr_id rows) = Some i" "i = max_rowid (map xr_id rows) + 1"
      by (simp add: next_rowid_def)
    let ?r' = "launched now d None i"
    have eq: "upsert_execution now queues d rows = Inr (rows @ [?r'], Some ?r')"
      using free q by (simp add: upsert_execution_def None Let_def launched_def i(1))
    have lk: "row_by xr_job_id j (rows @ [?r']) = (if j = di_job_id d then Some ?r' else row_by xr_job_id j rows)" for j
      using None by (simp add: row_by_append launched_def split: option.split)
    have wf': "exec_rows_wf queues (rows @ [?r'])" using upsert_execution_wf [OF wf eq] .
    have m: "max_rowid (map xr_id (rows @ [?r'])) = i"
      using i(2) by (cases "rows = []") (simp_all add: max_rowid_snoc launched_def)
    have "dispatchable_batch queues (rows @ [?r']) ds"
    proof (rule dispatchable_batch_step [OF db wf'])
      show "max_rowid (map xr_id (rows @ [?r'])) \<le> max_rowid (map xr_id rows) + 1" using m i(2) by simp
    qed (simp_all add: lk, auto simp: launched_def)
    with eq lk None show ?thesis by metis
  qed
qed

lemma upsert_executions_ok:
  assumes "dispatchable_batch queues rows ds"
  shows "\<exists>rows' rets. upsert_executions now queues ds rows = Inr (rows', rets) \<and>
     list_all2 (\<lambda>d r. \<exists>i. r = launched now d (row_by xr_job_id (di_job_id d) rows) i) ds rets \<and>
     (\<forall>j. row_by xr_job_id j rows' =
        (case find (\<lambda>r. xr_job_id r = j) rets of Some r \<Rightarrow> Some r | None \<Rightarrow> row_by xr_job_id j rows))"
  using assms
proof (induction ds arbitrary: rows)
  case Nil
  then show ?case by simp
next
  case (Cons d ds)
  from upsert_execution_ok [OF Cons.prems, of now] obtain rows1 i where
    one: "upsert_execution now queues d rows = Inr (rows1, Some (launched now d (row_by xr_job_id (di_job_id d) rows) i))"
    and lk: "\<And>j. row_by xr_job_id j rows1 = (if j = di_job_id d
        then Some (launched now d (row_by xr_job_id (di_job_id d) rows) i) else row_by xr_job_id j rows)"
    and db: "dispatchable_batch queues rows1 ds" by blast
  from Cons.IH [OF db] obtain rows' rets where
    rest: "upsert_executions now queues ds rows1 = Inr (rows', rets)"
    and l2: "list_all2 (\<lambda>d r. \<exists>i. r = launched now d (row_by xr_job_id (di_job_id d) rows1) i) ds rets"
    and lk': "\<And>j. row_by xr_job_id j rows' =
      (case find (\<lambda>r. xr_job_id r = j) rets of Some r \<Rightarrow> Some r | None \<Rightarrow> row_by xr_job_id j rows1)" by blast
  have other: "di_job_id e \<noteq> di_job_id d" if "e \<in> set ds" for e
    using that Cons.prems by (auto simp: dispatchable_batch_def dest: image_eqI [OF sym])
  have l2': "list_all2 (\<lambda>d r. \<exists>i. r = launched now d (row_by xr_job_id (di_job_id d) rows) i) ds rets"
    using l2 by (rule list.rel_mono_strong) (auto simp: lk dest: other)
  have jobs: "xr_job_id r \<noteq> di_job_id d" if "r \<in> set rets" for r
  proof -
    from that l2' obtain k where k: "k < length ds"
      "\<exists>i. r = launched now (ds ! k) (row_by xr_job_id (di_job_id (ds ! k)) rows) i"
      by (auto simp: in_set_conv_nth list_all2_conv_all_nth)
    then show ?thesis using other [of "ds ! k"] by auto
  qed
  have "row_by xr_job_id j rows' =
      (case find (\<lambda>r. xr_job_id r = j) (launched now d (row_by xr_job_id (di_job_id d) rows) i # rets)
       of Some r \<Rightarrow> Some r | None \<Rightarrow> row_by xr_job_id j rows)" for j
  proof (cases "j = di_job_id d")
    case True
    with jobs have "find (\<lambda>r. xr_job_id r = j) rets = None" by (simp add: find_None_iff)
    then show ?thesis using True by (simp add: lk' lk)
  next
    case False
    then show ?thesis by (simp add: lk' lk split: option.split)
  qed
  with one rest l2' show ?case by auto
qed

text \<open>What the writer replies for a dispatched batch, and what it stores.\<close>

lemma upsert_executions_length:
  "upsert_executions now queues ds rows = Inr (rows', rets) \<Longrightarrow> length rets \<le> length ds"
  by (induction ds arbitrary: rows rets) (fastforce split: sum.splits option.splits)+

lemma record_upserted_ok:
  assumes "list_all2 (\<lambda>d r. xr_job_id r = di_job_id d \<and> 0 \<le> xr_execution_count r \<and> xr_execution_count r < 4294967296) ds rets"
    and "\<And>d. d \<in> set ds \<Longrightarrow> lease (di_job_id d) = Some (di_lease_expires_at d)"
  shows "record_upserted lease rets m = Inr (m(map di_job_id ds [\<mapsto>] map (\<lambda>(d, r). dispatched_of d r) (zip ds rets)))"
  using assms
proof (induction ds rets arbitrary: m rule: list_all2_induct)
  case (Cons d ds r rets)
  then show ?case by (simp add: u32_try_from_def dispatched_of_def)
qed simp

lemma lease_map:
  assumes "distinct (map di_job_id c)" and "d \<in> set c"
  shows "map_of (rev (map (\<lambda>d. (di_job_id d, di_lease_expires_at d)) c)) (di_job_id d) = Some (di_lease_expires_at d)"
proof -
  have "distinct (map fst (rev (map (\<lambda>d. (di_job_id d, di_lease_expires_at d)) c)))"
    using assms(1) by (simp add: comp_def flip: rev_map)
  then show ?thesis
    by (rule map_of_is_SomeI) (use assms(2) in auto)
qed

lemma dispatch_chunks_ok:
  assumes "upsert_executions now queues (concat cs) rows = Inr (rows', rets)"
    and "list_all2 (\<lambda>d r. xr_job_id r = di_job_id d \<and> 0 \<le> xr_execution_count r \<and> xr_execution_count r < 4294967296) (concat cs) rets"
    and "distinct (map di_job_id (concat cs))"
  shows "dispatch_chunks now queues cs rows m =
     Inr (rows', m(map di_job_id (concat cs) [\<mapsto>] map (\<lambda>(d, r). dispatched_of d r) (zip (concat cs) rets)))"
  using assms
proof (induction cs arbitrary: rows rets m)
  case (Cons c cs)
  from Cons.prems(1) obtain rows1 rets1 rets2 where
    up: "upsert_executions now queues c rows = Inr (rows1, rets1)"
    and rest: "upsert_executions now queues (concat cs) rows1 = Inr (rows', rets2)"
    and rets: "rets = rets1 @ rets2"
    by (auto simp: upsert_executions_append split: sum.splits)
  let ?R = "\<lambda>d r. xr_job_id r = di_job_id d \<and> 0 \<le> xr_execution_count r \<and> xr_execution_count r < 4294967296"
  have len: "length rets1 = length c" "length rets2 = length (concat cs)"
    using upsert_executions_length [OF up] upsert_executions_length [OF rest]
      list_all2_lengthD [OF Cons.prems(2)] by (simp_all add: rets)
  have both: "list_all2 ?R c rets1 \<and> list_all2 ?R (concat cs) rets2"
    using Cons.prems(2) len by (simp add: rets list_all2_append)
  have dist: "distinct (map di_job_id c)" "distinct (map di_job_id (concat cs))"
    using Cons.prems(3) by simp_all
  have "record_upserted (map_of (rev (map (\<lambda>d. (di_job_id d, di_lease_expires_at d)) c))) rets1 m =
      Inr (m(map di_job_id c [\<mapsto>] map (\<lambda>(d, r). dispatched_of d r) (zip c rets1)))"
    using both lease_map [OF dist(1)] by (intro record_upserted_ok) simp_all
  with Cons.IH [OF rest _ dist(2)] both up len show ?case
    by (simp add: Let_def rets map_upds_def zip_append map_add_assoc)
qed simp

lemma collect_dispatched_ok:
  assumes "distinct (map di_job_id ds)" and "length xs = length ds"
    and "\<And>k. k < length ds \<Longrightarrow> m (di_job_id (ds ! k)) = Some (xs ! k)"
  shows "collect_dispatched m ds = Inr xs"
  using assms
proof (induction ds arbitrary: m xs)
  case (Cons d ds)
  obtain x xs' where xs: "xs = x # xs'" using Cons.prems(2) by (cases xs) auto
  have other: "di_job_id (ds ! k) \<noteq> di_job_id d" if "k < length ds" for k
    using that Cons.prems(1) by (auto dest: image_eqI [OF sym])
  have "collect_dispatched (m(di_job_id d := None)) ds = Inr xs'"
  proof (rule Cons.IH)
    show "(m(di_job_id d := None)) (di_job_id (ds ! k)) = Some (xs' ! k)" if "k < length ds" for k
      using that other Cons.prems(3) [of "Suc k"] by (simp add: xs)
  qed (use Cons.prems in \<open>simp_all add: xs\<close>)
  with Cons.prems(3) [of 0] show ?case by (simp add: xs)
qed simp

lemma dispatch_batch_ok:
  assumes db: "dispatchable_batch (execution_queue_names db) (executions db) ds"
  shows "\<exists>rows' rets.
     dispatch_batch None now ds db =
       (Inr (map (\<lambda>(d, r). dispatched_of d r) (zip ds rets)), db\<lparr>executions := rows'\<rparr>) \<and>
     list_all2 (\<lambda>d r. \<exists>i. r = launched now d (row_by xr_job_id (di_job_id d) (executions db)) i) ds rets \<and>
     (\<forall>j. row_by xr_job_id j rows' =
        (case find (\<lambda>r. xr_job_id r = j) rets of Some r \<Rightarrow> Some r | None \<Rightarrow> row_by xr_job_id j (executions db)))"
proof -
  from upsert_executions_ok [OF db, of now] obtain rows' rets where
    up: "upsert_executions now (execution_queue_names db) ds (executions db) = Inr (rows', rets)"
    and l2: "list_all2 (\<lambda>d r. \<exists>i. r = launched now d (row_by xr_job_id (di_job_id d) (executions db)) i) ds rets"
    and lk: "\<forall>j. row_by xr_job_id j rows' =
        (case find (\<lambda>r. xr_job_id r = j) rets of Some r \<Rightarrow> Some r | None \<Rightarrow> row_by xr_job_id j (executions db))" by blast
  have dist: "distinct (map di_job_id ds)" using db by (simp add: dispatchable_batch_def)
  have len: "length rets = length ds" using list_all2_lengthD [OF l2] by simp
  have cnt: "0 \<le> xr_execution_count (launched now d (row_by xr_job_id (di_job_id d) (executions db)) i) \<and>
      xr_execution_count (launched now d (row_by xr_job_id (di_job_id d) (executions db)) i) < 4294967296"
    if "d \<in> set ds" for d i
    using that db by (auto simp: dispatchable_batch_def dispatchable_def launched_def list_all_iff split: option.splits)
  have "list_all2 (\<lambda>d r. xr_job_id r = di_job_id d \<and> 0 \<le> xr_execution_count r \<and> xr_execution_count r < 4294967296) ds rets"
    using l2 by (rule list.rel_mono_strong) (use cnt in auto)
  from dispatch_chunks_ok [of now "execution_queue_names db" "chunks ROWS_PER_STATEMENT ds", unfolded ingest_chunks, OF up this dist, of Map.empty]
  have "dispatch_chunks now (execution_queue_names db) (chunks ROWS_PER_STATEMENT ds) (executions db) Map.empty =
      Inr (rows', Map.empty(map di_job_id ds [\<mapsto>] map (\<lambda>(d, r). dispatched_of d r) (zip ds rets)))" .
  moreover have "collect_dispatched (Map.empty(map di_job_id ds [\<mapsto>] map (\<lambda>(d, r). dispatched_of d r) (zip ds rets))) ds =
      Inr (map (\<lambda>(d, r). dispatched_of d r) (zip ds rets))"
    using map_upds_nth [OF dist, of "map (\<lambda>(d, r). dispatched_of d r) (zip ds rets)"] len
    by (intro collect_dispatched_ok [OF dist]) simp_all
  ultimately have "dispatch_batch None now ds db =
       (Inr (map (\<lambda>(d, r). dispatched_of d r) (zip ds rets)), db\<lparr>executions := (if ds = [] then executions db else rows')\<rparr>)"
    by (simp add: dispatch_batch_def)
  moreover have "(if ds = [] then executions db else rows') = rows'" using up by auto
  ultimately show ?thesis using l2 lk by (intro exI conjI) simp_all
qed

end
