(* ===== verification/Maq_Executions.thy ===== *)
theory Maq_Executions
  imports Maq_Results
begin

text \<open>
  How executions end and what their life looks like (\<open>ResultsConn::complete_batch\<close>, \<open>abandon\<close>,
  \<open>recover_stale\<close>, \<open>handle\<close> of results.rs). The two fenced updates are interpretations of
  \<open>fenced_update\<close>; \<open>settle_one\<close> and \<open>disposition\<close> specify the processing of one worker result;
  \<open>exec_next\<close> is the step relation of one execution row.
\<close>

section \<open>Completion\<close>

interpretation completed: fenced_update xr_id running_guard set_completed
  by unfold_locales (simp_all add: running_guard_def set_completed_def)

interpretation failed: fenced_update xr_id running_guard set_failed
  by unfold_locales (simp_all add: running_guard_def set_failed_def)

interpretation stale: fenced_update xr_id stale_guard set_failed
  by unfold_locales (simp_all add: stale_guard_def set_failed_def)

text \<open>
  The specification of completion, one result at a time: the running execution with the result's
  job and dispatch id, if there is one, ends with the outcome.
\<close>

definition settle :: "i64 \<Rightarrow> PendingCompletion \<Rightarrow> ExecRow \<Rightarrow> ExecRow" where
  "settle now p r =
     (case pc_outcome p of
        Succeeded payload \<Rightarrow> set_completed (payload, now) r
      | OutcomeFailed message \<Rightarrow> set_failed (message, now) r)"

definition settle_one :: "i64 \<Rightarrow> PendingCompletion \<Rightarrow> ExecRow list \<Rightarrow> ExecRow list" where
  "settle_one now p rows = update_where (running_guard (pc_key p)) (settle now p) rows"

definition disposition :: "QueueRow list \<Rightarrow> ExecRow list \<Rightarrow> PendingCompletion \<Rightarrow> CompletionDisposition" where
  "disposition queues rows p =
     (case find (running_guard (pc_key p)) rows of
        None \<Rightarrow> Ignored
      | Some r \<Rightarrow>
          if is_success (pc_outcome p) then DispCompleted
          else case row_by qr_name (xr_queue_name r) queues of
                 None \<Rightarrow> DispCompleted
               | Some q \<Rightarrow> if xr_execution_count r \<le> qr_max_retries q then Repend else DispCompleted)"

definition settle_all :: "i64 \<Rightarrow> PendingCompletion list \<Rightarrow> ExecRow list \<Rightarrow> ExecRow list" where
  "settle_all now ps rows =
     map (\<lambda>r. case filter (\<lambda>p. running_guard (pc_key p) r) ps of [] \<Rightarrow> r | p # _ \<Rightarrow> settle now p r) rows"

lemma settle_simps [simp]:
  "xr_id (settle now p r) = xr_id r" "xr_job_id (settle now p r) = xr_job_id r"
  "xr_dispatch_id (settle now p r) = xr_dispatch_id r" "xr_queue_name (settle now p r) = xr_queue_name r"
  "xr_execution_count (settle now p r) = xr_execution_count r"
  "\<not> running_guard k (settle now p r)" "xr_key (settle now p r) = xr_key r"
  by (simp_all add: settle_def set_completed_def set_failed_def running_guard_def xr_key_def split: JobOutcome.split)

lemma settle_all_keys [simp]:
  "map xr_id (settle_all now ps rows) = map xr_id rows"
  "map xr_job_id (settle_all now ps rows) = map xr_job_id rows"
  "map xr_dispatch_id (settle_all now ps rows) = map xr_dispatch_id rows"
  "map xr_queue_name (settle_all now ps rows) = map xr_queue_name rows"
  "map xr_key (settle_all now ps rows) = map xr_key rows"
  by (simp_all add: settle_all_def split: list.split)

lemma settle_all_Nil [simp]: "settle_all now [] rows = rows"
  by (simp add: settle_all_def)

lemma settle_all_append: "settle_all now (ps @ qs) rows = settle_all now qs (settle_all now ps rows)"
  by (auto simp: settle_all_def split: list.split)

lemma settle_all_fold: "settle_all now ps rows = fold (settle_one now) ps rows"
proof (induction ps arbitrary: rows)
  case (Cons p ps)
  have "settle_all now [p] rows = settle_one now p rows"
    by (auto simp: settle_all_def settle_one_def update_where_def)
  with Cons settle_all_append [of now "[p]" ps rows] show ?case by simp
qed simp

lemma running_guard_unique:
  "running_guard k r \<Longrightarrow> running_guard l r \<Longrightarrow> k = l"
  by (auto simp: running_guard_def prod_eq_iff)

lemma running_guard_key: "running_guard k r \<Longrightarrow> xr_key r = k"
  by (auto simp: running_guard_def xr_key_def prod_eq_iff)

lemma matches_at_most_one:
  assumes "distinct (map pc_key ps)"
  shows "filter (\<lambda>p. running_guard (pc_key p) r) ps = [] \<or> (\<exists>p \<in> set ps. filter (\<lambda>p. running_guard (pc_key p) r) ps = [p])"
  using assms
proof (induction ps)
  case (Cons p ps)
  show ?case
  proof (cases "running_guard (pc_key p) r")
    case True
    have "\<not> running_guard (pc_key q) r" if "q \<in> set ps" for q
    proof
      assume "running_guard (pc_key q) r"
      from running_guard_unique [OF True this] that have "pc_key p \<in> pc_key ` set ps" by simp
      with Cons.prems show False by simp
    qed
    then have "filter (\<lambda>p. running_guard (pc_key p) r) ps = []" by (simp add: filter_empty_conv)
    with True show ?thesis by simp
  next
    case False
    with Cons show ?thesis by auto
  qed
qed simp

lemma settle_all_eq_set:
  assumes "distinct (map pc_key ps)" and "distinct (map pc_key qs)" and "set ps = set qs"
  shows "settle_all now ps rows = settle_all now qs rows"
proof -
  have "filter (\<lambda>p. running_guard (pc_key p) r) ps = filter (\<lambda>p. running_guard (pc_key p) r) qs" for r
  proof -
    let ?f = "filter (\<lambda>p. running_guard (pc_key p) r)"
    have "set (?f ps) = set (?f qs)" using assms(3) by simp
    with matches_at_most_one [OF assms(1), of r] matches_at_most_one [OF assms(2), of r] show ?thesis
      by (elim disjE bexE) simp_all
  qed
  then show ?thesis by (simp add: settle_all_def)
qed

lemma update_from_settle:
  assumes "distinct (map pc_key vs)" and "\<And>p r. p \<in> set vs \<Longrightarrow> upd p r = settle now p r"
  shows "update_from pick (\<lambda>p. running_guard (pc_key p)) upd vs rows = settle_all now vs rows"
proof -
  have "(let ms = filter (\<lambda>v. running_guard (pc_key v) r) vs in if ms = [] then r else upd (pick_nth pick ms) r) =
      (case filter (\<lambda>p. running_guard (pc_key p) r) vs of [] \<Rightarrow> r | p # _ \<Rightarrow> settle now p r)" for r
    using matches_at_most_one [OF assms(1), of r] assms(2) by (auto simp: Let_def)
  then show "update_from pick (\<lambda>p. running_guard (pc_key p)) upd vs rows = settle_all now vs rows"
    by (simp add: update_from_def settle_all_def)
qed

lemma find_settle_all:
  assumes "k \<notin> pc_key ` set ps"
  shows "find (running_guard k) (settle_all now ps rows) = find (running_guard k) rows"
  unfolding settle_all_def
proof (rule find_map_same)
  fix r
  show "(case filter (\<lambda>p. running_guard (pc_key p) r) ps of [] \<Rightarrow> r | p # _ \<Rightarrow> settle now p r) = r \<or>
      \<not> running_guard k r \<and>
      \<not> running_guard k (case filter (\<lambda>p. running_guard (pc_key p) r) ps of [] \<Rightarrow> r | p # _ \<Rightarrow> settle now p r)"
  proof (cases "filter (\<lambda>p. running_guard (pc_key p) r) ps")
    case (Cons p qs)
    then have "p \<in> set ps" "running_guard (pc_key p) r"
      by (auto dest!: arg_cong [of _ _ set] simp: set_eq_iff)
    with assms have "\<not> running_guard k r" using running_guard_unique by blast
    with Cons show ?thesis by simp
  qed simp
qed

lemma updated_from_keys:
  assumes "\<And>p r. xr_key (upd p r) = xr_key r"
  shows "set (map xr_key (updated_from pick (\<lambda>p. running_guard (pc_key p)) upd vs rows)) =
     {k \<in> pc_key ` set vs. find (running_guard k) rows \<noteq> None}"
proof -
  have "set (map xr_key (updated_from pick (\<lambda>p. running_guard (pc_key p)) upd vs rows)) =
      xr_key ` {r \<in> set rows. \<exists>p \<in> set vs. running_guard (pc_key p) r}"
    by (auto simp: updated_from_def assms filter_empty_conv image_image)
  also have "\<dots> = {k \<in> pc_key ` set vs. find (running_guard k) rows \<noteq> None}"
  proof (intro set_eqI iffI)
    fix k assume "k \<in> xr_key ` {r \<in> set rows. \<exists>p \<in> set vs. running_guard (pc_key p) r}"
    then obtain r p where "k = xr_key r" "r \<in> set rows" "p \<in> set vs" "running_guard (pc_key p) r" by blast
    moreover from this(4) have "xr_key r = pc_key p" by (rule running_guard_key)
    ultimately show "k \<in> {k \<in> pc_key ` set vs. find (running_guard k) rows \<noteq> None}"
      unfolding find_None_iff by auto
  next
    fix k assume "k \<in> {k \<in> pc_key ` set vs. find (running_guard k) rows \<noteq> None}"
    then obtain p r where p: "k = pc_key p" "p \<in> set vs" and r: "r \<in> set rows" "running_guard k r"
      unfolding find_None_iff by auto
    from running_guard_key [OF r(2)] show "k \<in> xr_key ` {r \<in> set rows. \<exists>p \<in> set vs. running_guard (pc_key p) r}"
      using p r by (intro image_eqI [of _ _ r]) auto
  qed
  finally show ?thesis .
qed

definition idx_key :: "PendingCompletion list \<Rightarrow> nat \<Rightarrow> i64 \<times> string" where
  "idx_key batch i = pc_key (batch ! i)"

lemma complete_success_chunk_eq:
  assumes "distinct (map (idx_key batch) chunk)"
    and "\<And>i. i \<in> set chunk \<Longrightarrow> is_success (pc_outcome (batch ! i))"
  shows "complete_success_chunk pick now batch chunk (rows, ds) =
    (settle_all now (map (\<lambda>i. batch ! i) chunk) rows,
     fold (\<lambda>i ds. if find (running_guard (idx_key batch i)) rows \<noteq> None then ds[i := DispCompleted] else ds) chunk ds)"
proof -
  let ?vs = "map (\<lambda>i. batch ! i) chunk"
  let ?upd = "\<lambda>p. set_completed (outcome_payload (pc_outcome p), now)"
  have d: "distinct (map pc_key ?vs)" using assms(1) by (simp add: comp_def idx_key_def [abs_def])
  have upd: "?upd p r = settle now p r" if "p \<in> set ?vs" for p r
    using that assms(2) by (fastforce simp: settle_def split: JobOutcome.split)
  have key: "xr_key (?upd p r) = xr_key r" for p r by (simp add: set_completed_def xr_key_def)
  have rows: "update_from pick (\<lambda>p. running_guard (pc_key p)) ?upd ?vs rows = settle_all now ?vs rows"
    using upd by (rule update_from_settle [OF d])
  have disp: "fold (\<lambda>i ds. if pc_key (batch ! i) \<in>
        set (map xr_key (updated_from pick (\<lambda>p. running_guard (pc_key p)) ?upd ?vs rows))
        then ds[i := DispCompleted] else ds) chunk ds =
      fold (\<lambda>i ds. if find (running_guard (idx_key batch i)) rows \<noteq> None then ds[i := DispCompleted] else ds) chunk ds"
    unfolding updated_from_keys [OF key] by (intro fold_cong) (auto simp: idx_key_def)
  show ?thesis by (simp only: complete_success_chunk_def Let_def prod.case rows disp)
qed

lemma complete_success_chunks_eq:
  assumes "distinct (map (idx_key batch) (concat cs))"
    and "\<And>i. i \<in> set (concat cs) \<Longrightarrow> is_success (pc_outcome (batch ! i))"
  shows "fold (complete_success_chunk pick now batch) cs (rows, ds) =
    (settle_all now (map (\<lambda>i. batch ! i) (concat cs)) rows,
     fold (\<lambda>i ds. if find (running_guard (idx_key batch i)) rows \<noteq> None then ds[i := DispCompleted] else ds) (concat cs) ds)"
  using assms
proof (induction cs arbitrary: rows ds)
  case (Cons c cs)
  let ?rows = "settle_all now (map (\<lambda>i. batch ! i) c) rows"
  have c: "complete_success_chunk pick now batch c (rows, ds) = (?rows,
     fold (\<lambda>i ds. if find (running_guard (idx_key batch i)) rows \<noteq> None then ds[i := DispCompleted] else ds) c ds)"
    using Cons.prems by (intro complete_success_chunk_eq) auto
  have same: "find (running_guard (idx_key batch i)) ?rows = find (running_guard (idx_key batch i)) rows"
    if "i \<in> set (concat cs)" for i
  proof (rule find_settle_all)
    have "idx_key batch ` set c \<inter> idx_key batch ` set (concat cs) = {}"
      using Cons.prems(1) by (simp only: concat.simps map_append distinct_append set_map)
    then have "idx_key batch i \<notin> idx_key batch ` set c" using that by blast
    then show "idx_key batch i \<notin> pc_key ` set (map (\<lambda>i. batch ! i) c)"
      by (simp add: image_image idx_key_def)
  qed
  have "fold (\<lambda>i ds. if find (running_guard (idx_key batch i)) ?rows \<noteq> None then ds[i := DispCompleted] else ds) (concat cs) x =
      fold (\<lambda>i ds. if find (running_guard (idx_key batch i)) rows \<noteq> None then ds[i := DispCompleted] else ds) (concat cs) x" for x
    by (intro fold_cong) (simp_all only: same)
  with Cons c show ?case by (simp add: settle_all_append)
qed simp

lemma queue_limits_ok:
  assumes "set ns \<subseteq> qr_name ` set queues"
    and "\<And>n. m n \<noteq> None \<Longrightarrow> m n = map_option qr_max_retries (row_by qr_name n queues)"
  shows "\<exists>m'. queue_limits queues ns m = Inr m' \<and>
    (\<forall>n. n \<in> set ns \<or> m n \<noteq> None \<longrightarrow> m' n = map_option qr_max_retries (row_by qr_name n queues))"
  using assms
proof (induction ns arbitrary: m)
  case (Cons n ns)
  show ?case
  proof (cases "m n = None")
    case True
    from Cons.prems(1) obtain q where q: "row_by qr_name n queues = Some q"
      by (cases "row_by qr_name n queues") (auto simp: row_by_None)
    have "\<exists>m'. queue_limits queues ns (m(n \<mapsto> qr_max_retries q)) = Inr m' \<and>
        (\<forall>k. k \<in> set ns \<or> (m(n \<mapsto> qr_max_retries q)) k \<noteq> None \<longrightarrow>
          m' k = map_option qr_max_retries (row_by qr_name k queues))"
      using Cons.prems q by (intro Cons.IH) (auto split: if_splits)
    with True q show ?thesis by auto
  next
    case False
    then have "\<exists>y. m n = Some y" by simp
    with Cons.IH [of m] Cons.prems False show ?thesis by (auto split: if_splits)
  qed
qed simp

lemma fail_lookup:
  assumes dist: "distinct (map xr_key rows)"
    and upd: "\<And>p r. xr_key (upd p r) = xr_key r \<and> xr_execution_count (upd p r) = xr_execution_count r \<and>
                     xr_queue_name (upd p r) = xr_queue_name r"
    and p: "p \<in> set vs"
  shows "map_of (rev (map (\<lambda>r. (xr_key r, (xr_execution_count r, lim (xr_queue_name r))))
           (updated_from pick (\<lambda>p. running_guard (pc_key p)) upd vs rows))) (pc_key p) =
         map_option (\<lambda>r. (xr_execution_count r, lim (xr_queue_name r))) (find (running_guard (pc_key p)) rows)"
    (is "map_of (rev (map ?h ?U)) _ = _")
proof -
  have keysU: "map xr_key ?U = map xr_key (filter (\<lambda>r. filter (\<lambda>v. running_guard (pc_key v) r) vs \<noteq> []) rows)"
    by (simp add: updated_from_def upd)
  have dU: "distinct (map fst (rev (map ?h ?U)))"
    using keysU dist by (simp add: comp_def distinct_map_filter flip: rev_map)
  show ?thesis
  proof (cases "find (running_guard (pc_key p)) rows")
    case None
    have "pc_key p \<notin> set (map xr_key ?U)"
      unfolding updated_from_keys [of upd, OF upd [THEN conjunct1]] using None by blast
    then have "pc_key p \<notin> fst ` set (rev (map ?h ?U))" by (auto simp: image_iff)
    then have "map_of (rev (map ?h ?U)) (pc_key p) = None" by (subst map_of_eq_None_iff)
    then show ?thesis using None by (simp only: option.map)
  next
    case (Some r)
    then have r: "r \<in> set rows" "running_guard (pc_key p) r" by (auto simp: find_Some_iff)
    then have "r \<in> set (filter (\<lambda>r. filter (\<lambda>v. running_guard (pc_key v) r) vs \<noteq> []) rows)"
      using p by (auto simp: filter_empty_conv)
    then obtain x where "upd x r \<in> set ?U" unfolding updated_from_def by (auto intro: imageI)
    then have "?h (upd x r) \<in> set (rev (map ?h ?U))" by (simp only: set_rev set_map) (rule imageI)
    moreover have "?h (upd x r) = (pc_key p, (xr_execution_count r, lim (xr_queue_name r)))"
      using upd [of x r] running_guard_key [OF r(2)] by simp
    ultimately have "(pc_key p, (xr_execution_count r, lim (xr_queue_name r))) \<in> set (rev (map ?h ?U))" by simp
    from map_of_is_SomeI [OF dU this] show ?thesis using Some by simp
  qed
qed

lemma complete_fail_chunk_eq:
  assumes d: "distinct (map (idx_key batch) chunk)"
    and fails: "\<And>i. i \<in> set chunk \<Longrightarrow> \<not> is_success (pc_outcome (batch ! i))"
    and keys: "distinct (map xr_key rows)" and qs: "xr_queue_name ` set rows \<subseteq> qr_name ` set queues"
  shows "complete_fail_chunk pick now queues batch chunk (rows, ds) =
    Inr (settle_all now (map (\<lambda>i. batch ! i) chunk) rows,
         fold (\<lambda>i ds. ds[i := disposition queues rows (batch ! i)]) chunk ds)"
proof -
  let ?vs = "map (\<lambda>i. batch ! i) chunk"
  let ?upd = "\<lambda>p. set_failed (outcome_message (pc_outcome p), now)"
  let ?U = "updated_from pick (\<lambda>p. running_guard (pc_key p)) ?upd ?vs rows"
  have dk: "distinct (map pc_key ?vs)" using d by (simp add: comp_def idx_key_def [abs_def])
  have upd: "?upd p r = settle now p r" if "p \<in> set ?vs" for p r
    using that fails by (fastforce simp: settle_def split: JobOutcome.split)
  have keep: "xr_key (?upd p r) = xr_key r \<and> xr_execution_count (?upd p r) = xr_execution_count r \<and>
      xr_queue_name (?upd p r) = xr_queue_name r" for p r by (simp add: set_failed_def xr_key_def)
  have rows: "update_from pick (\<lambda>p. running_guard (pc_key p)) ?upd ?vs rows = settle_all now ?vs rows"
    using upd by (rule update_from_settle [OF dk])
  have "set (map xr_queue_name ?U) \<subseteq> qr_name ` set queues"
    using qs by (auto simp: updated_from_def keep)
  from queue_limits_ok [OF this, of Map.empty] obtain limits where
    lim: "queue_limits queues (map xr_queue_name ?U) Map.empty = Inr limits"
    and lims: "\<And>n. n \<in> set (map xr_queue_name ?U) \<Longrightarrow> limits n = map_option qr_max_retries (row_by qr_name n queues)"
    by auto
  let ?lim = "\<lambda>n. case limits n of Some m \<Rightarrow> m | None \<Rightarrow> 0"
  let ?by = "map_of (rev (map (\<lambda>r. (xr_key r, (xr_execution_count r, ?lim (xr_queue_name r)))) ?U))"
  have disp: "fail_disposition ?by (batch ! i) = disposition queues rows (batch ! i)" if i: "i \<in> set chunk" for i
  proof -
    have p: "batch ! i \<in> set ?vs" using i by simp
    note look = fail_lookup [OF keys keep p, of ?lim pick]
    show ?thesis
    proof (cases "find (running_guard (pc_key (batch ! i))) rows")
      case None
      then show ?thesis unfolding fail_disposition_def disposition_def look by simp
    next
      case (Some r)
      then have r: "r \<in> set rows" "running_guard (pc_key (batch ! i)) r" by (auto simp: find_Some_iff)
      then have "r \<in> set (filter (\<lambda>r. filter (\<lambda>v. running_guard (pc_key v) r) ?vs \<noteq> []) rows)"
        using p by (auto simp: filter_empty_conv)
      then have "xr_queue_name r \<in> set (map xr_queue_name ?U)"
        unfolding updated_from_def map_map by (auto simp: comp_def keep)
      note l = lims [OF this]
      obtain q where "row_by qr_name (xr_queue_name r) queues = Some q"
        using qs r(1) by (cases "row_by qr_name (xr_queue_name r) queues") (auto simp: row_by_None)
      with Some l fails [OF i] show ?thesis
        unfolding fail_disposition_def disposition_def look by simp
    qed
  qed
  have "fold (\<lambda>i ds. ds[i := fail_disposition ?by (batch ! i)]) chunk ds =
      fold (\<lambda>i ds. ds[i := disposition queues rows (batch ! i)]) chunk ds"
    by (intro fold_cong) (simp_all only: disp)
  then show ?thesis
    by (simp only: complete_fail_chunk_def Let_def prod.case lim rows sum.case)
qed

lemma settle_all_key_sets [simp]:
  "xr_queue_name ` set (settle_all now ps rows) = xr_queue_name ` set rows"
  using settle_all_keys(4) [of now ps rows] by (metis list.set_map)

lemma idx_key_disjoint:
  assumes "distinct (map (idx_key batch) (xs @ ys))" and "i \<in> set ys"
  shows "idx_key batch i \<notin> pc_key ` set (map (\<lambda>i. batch ! i) xs)"
proof -
  have "idx_key batch ` set xs \<inter> idx_key batch ` set ys = {}"
    using assms(1) by (simp only: map_append distinct_append set_map)
  then have "idx_key batch i \<notin> idx_key batch ` set xs" using assms(2) by blast
  then show ?thesis by (simp add: image_image idx_key_def)
qed

lemma disposition_settle_all:
  assumes "pc_key p \<notin> pc_key ` set ps"
  shows "disposition queues (settle_all now ps rows) p = disposition queues rows p"
  by (simp add: disposition_def find_settle_all [OF assms])

lemma complete_fail_chunks_eq:
  assumes "distinct (map (idx_key batch) (concat cs))"
    and "\<And>i. i \<in> set (concat cs) \<Longrightarrow> \<not> is_success (pc_outcome (batch ! i))"
    and "distinct (map xr_key rows)" and "xr_queue_name ` set rows \<subseteq> qr_name ` set queues"
  shows "complete_fail_chunks pick now queues batch cs (rows, ds) =
    Inr (settle_all now (map (\<lambda>i. batch ! i) (concat cs)) rows,
         fold (\<lambda>i ds. ds[i := disposition queues rows (batch ! i)]) (concat cs) ds)"
  using assms
proof (induction cs arbitrary: rows ds)
  case (Cons c cs)
  let ?rows = "settle_all now (map (\<lambda>i. batch ! i) c) rows"
  have c: "complete_fail_chunk pick now queues batch c (rows, ds) =
      Inr (?rows, fold (\<lambda>i ds. ds[i := disposition queues rows (batch ! i)]) c ds)"
    using Cons.prems by (intro complete_fail_chunk_eq) auto
  have dist: "distinct (map (idx_key batch) (c @ concat cs))" using Cons.prems(1) by simp
  have same: "disposition queues ?rows (batch ! i) = disposition queues rows (batch ! i)"
    if "i \<in> set (concat cs)" for i
    using idx_key_disjoint [OF dist that] unfolding idx_key_def by (rule disposition_settle_all)
  have "complete_fail_chunks pick now queues batch cs (?rows, x) =
      Inr (settle_all now (map (\<lambda>i. batch ! i) (concat cs)) ?rows,
           fold (\<lambda>i ds. ds[i := disposition queues ?rows (batch ! i)]) (concat cs) x)" for x
    using Cons.prems by (intro Cons.IH) auto
  moreover have "fold (\<lambda>i ds. ds[i := disposition queues ?rows (batch ! i)]) (concat cs) x =
      fold (\<lambda>i ds. ds[i := disposition queues rows (batch ! i)]) (concat cs) x" for x
    by (intro fold_cong) (simp_all only: same)
  ultimately show ?case using c by (simp add: settle_all_append)
qed simp

lemma distinct_xr_key: "distinct (map xr_job_id rows) \<Longrightarrow> distinct (map xr_key rows)"
  by (induction rows) (auto simp: xr_key_def dest: image_eqI [OF sym])

lemma results_wf_keys:
  assumes "results_wf db"
  shows "distinct (map xr_key (executions db))"
    and "xr_queue_name ` set (executions db) \<subseteq> qr_name ` set (execution_queues db)"
  using assms
  by (auto simp: results_wf_def exec_rows_wf_def list_all_iff exec_row_ok_def execution_queue_names_def intro: distinct_xr_key)

lemma complete_batch_eq:
  assumes wf: "results_wf db" and d: "distinct (map pc_key batch)" and ne: "batch \<noteq> []"
  shows "complete_batch None pick now batch db =
    (db\<lparr>executions := fold (settle_one now) batch (executions db)\<rparr>,
     map (\<lambda>p. (pc_reply p, Inr (disposition (execution_queues db) (executions db) p))) batch,
     Some (length batch))"
proof -
  let ?ok = "\<lambda>i. is_success (pc_outcome (batch ! i))"
  define S where "S = filter ?ok [0..<length batch]"
  define F where "F = filter (\<lambda>i. \<not> ?ok i) [0..<length batch]"
  define rows where "rows = executions db"
  define qs where "qs = execution_queues db"
  define rows1 where "rows1 = settle_all now (map (\<lambda>i. batch ! i) S) rows"
  define ds1 where "ds1 = fold (\<lambda>i ds. if find (running_guard (idx_key batch i)) rows \<noteq> None
      then ds[i := DispCompleted] else ds) S (replicate (length batch) Ignored)"
  define ds2 where "ds2 = fold (\<lambda>i ds. ds[i := disposition qs rows1 (batch ! i)]) F ds1"
  have mem: "i \<in> set S \<longleftrightarrow> i < length batch \<and> ?ok i" "i \<in> set F \<longleftrightarrow> i < length batch \<and> \<not> ?ok i" for i
    by (auto simp: S_def F_def)
  have dist: "distinct (S @ F)" by (auto simp: S_def F_def)
  have "inj_on (idx_key batch) {i. i < length batch}"
    using d by (auto simp: inj_on_def idx_key_def distinct_conv_nth)
  then have "inj_on (idx_key batch) (set (S @ F))" by (rule inj_on_subset) (auto simp: mem)
  with dist have dS: "distinct (map (idx_key batch) (S @ F))" by (simp only: distinct_map)
  have succ: "fold (complete_success_chunk pick now batch) (chunks ROWS_PER_STATEMENT S)
        (rows, replicate (length batch) Ignored) = (rows1, ds1)"
    unfolding rows1_def ds1_def using dS mem
    by (intro complete_success_chunks_eq [of batch "chunks ROWS_PER_STATEMENT S", unfolded ingest_chunks]) simp_all
  have fails: "complete_fail_chunks pick now qs batch (chunks ROWS_PER_STATEMENT F) (rows1, ds1) =
      Inr (settle_all now (map (\<lambda>i. batch ! i) F) rows1, ds2)"
    unfolding ds2_def using dS mem results_wf_keys [OF wf]
    by (intro complete_fail_chunks_eq [of batch "chunks ROWS_PER_STATEMENT F", unfolded ingest_chunks])
      (simp_all add: rows1_def rows_def qs_def)
  have perm: "settle_all now (map (\<lambda>i. batch ! i) (S @ F)) rows = settle_all now batch rows"
  proof (rule settle_all_eq_set)
    show "distinct (map pc_key (map (\<lambda>i. batch ! i) (S @ F)))"
      using dS by (simp add: idx_key_def [abs_def] comp_def)
    show "set (map (\<lambda>i. batch ! i) (S @ F)) = set batch"
    proof -
      have "set (S @ F) = {i. i < length batch}" by (auto simp: mem)
      then show ?thesis unfolding set_map by (auto simp: set_conv_nth)
    qed
  qed (rule d)
  have lens: "length ds1 = length batch" "length ds2 = length batch"
    by (simp_all add: ds2_def ds1_def fold_set_nth fold_set_all_nth)
  have disp: "ds2 ! j = disposition qs rows (batch ! j)" if j: "j < length batch" for j
  proof (cases "?ok j")
    case True
    then have "ds2 ! j = ds1 ! j" using j lens(1) by (simp add: ds2_def fold_set_all_nth mem)
    also have "\<dots> = (if find (running_guard (idx_key batch j)) rows \<noteq> None then DispCompleted else Ignored)"
      using j True unfolding ds1_def by (subst fold_set_nth) (simp_all add: mem)
    finally show ?thesis using True by (simp add: disposition_def idx_key_def split: option.split)
  next
    case False
    then have F: "j \<in> set F" using j by (simp add: mem)
    have "disposition qs rows1 (batch ! j) = disposition qs rows (batch ! j)"
      using idx_key_disjoint [OF dS F] unfolding rows1_def idx_key_def by (rule disposition_settle_all)
    then show ?thesis using j lens(1) F by (simp add: ds2_def fold_set_all_nth)
  qed
  then have "map (\<lambda>(p, d). (pc_reply p, Inr d)) (zip batch ds2) = map (\<lambda>p. (pc_reply p, Inr (disposition qs rows p))) batch"
    using lens(2) by (intro nth_equalityI) simp_all
  moreover have "settle_all now (map (\<lambda>i. batch ! i) F) rows1 = fold (settle_one now) batch rows"
    using perm by (simp add: rows1_def settle_all_append settle_all_fold)
  ultimately show ?thesis
    using ne succ fails unfolding complete_batch_def Let_def S_def F_def rows_def qs_def by simp
qed

section \<open>The life of an execution\<close>

text \<open>
  What one request can do to an execution: nothing, end a running one, or start the next
  attempt of a failed one under a new dispatch id.
\<close>

inductive exec_next :: "ExecRow \<Rightarrow> ExecRow \<Rightarrow> bool" where
  exec_stay: "exec_next r r"
| exec_succeed: "xr_status r = ''running'' \<Longrightarrow> exec_next r (set_completed x r)"
| exec_fail: "xr_status r = ''running'' \<Longrightarrow> exec_next r (set_failed x r)"
| exec_relaunch: "xr_status r \<in> {''failed'', ''pending''} \<Longrightarrow> di_job_id d = xr_job_id r \<Longrightarrow>
    exec_next r (launched now d (Some r) 0)"

definition ends :: "ExecRow \<Rightarrow> ExecRow \<Rightarrow> bool" where
  "ends r r' \<longleftrightarrow> r' = r \<or> (xr_status r = ''running'' \<and> ((\<exists>x. r' = set_completed x r) \<or> (\<exists>x. r' = set_failed x r)))"

lemma ends_refl [simp]: "ends r r"
  by (simp add: ends_def)

lemma ends_trans: "ends r s \<Longrightarrow> ends s t \<Longrightarrow> ends r t"
  by (auto simp: ends_def set_completed_def set_failed_def)

lemma ends_exec_next: "ends r r' \<Longrightarrow> exec_next r r'"
  by (auto simp: ends_def intro: exec_next.intros)

lemma ends_list_refl: "list_all2 ends rows rows"
  by (simp add: list_all2_refl)

lemma ends_list_trans: "list_all2 ends xs ys \<Longrightarrow> list_all2 ends ys zs \<Longrightarrow> list_all2 ends xs zs"
  by (rule list_all2_trans [of ends ends ends]) (auto intro: ends_trans)

lemma ends_map: "(\<And>r. ends r (g r)) \<Longrightarrow> list_all2 ends rows (map g rows)"
  by (induction rows) simp_all

lemma ends_update_from:
  assumes "\<And>v r. on v r \<Longrightarrow> xr_status r = ''running''"
    and "\<And>v r. (\<exists>x. upd v r = set_completed x r) \<or> (\<exists>x. upd v r = set_failed x r)"
  shows "list_all2 ends rows (update_from pick on upd vs rows)"
  unfolding update_from_def Let_def
proof (rule ends_map)
  fix r
  show "ends r (if filter (\<lambda>v. on v r) vs = [] then r else upd (pick_nth pick (filter (\<lambda>v. on v r) vs)) r)"
    using pick_nth_in [of "filter (\<lambda>v. on v r) vs" pick] assms by (auto simp: ends_def)
qed

lemma ends_success_chunk: "list_all2 ends (fst st) (fst (complete_success_chunk pick now batch c st))"
  by (auto simp: complete_success_chunk_def Let_def running_guard_def split: prod.split intro!: ends_update_from)

lemma ends_success_chunks: "list_all2 ends (fst st) (fst (fold (complete_success_chunk pick now batch) cs st))"
proof (induction cs arbitrary: st)
  case (Cons c cs)
  show ?case
    using ends_list_trans [OF ends_success_chunk Cons [of "complete_success_chunk pick now batch c st"]] by simp
qed (simp add: list_all2_refl)

lemma ends_fail_chunk:
  "complete_fail_chunk pick now queues batch c st = Inr st' \<Longrightarrow> list_all2 ends (fst st) (fst st')"
  by (auto simp: complete_fail_chunk_def Let_def running_guard_def split: prod.splits sum.splits intro!: ends_update_from)

lemma ends_fail_chunks:
  "complete_fail_chunks pick now queues batch cs st = Inr st' \<Longrightarrow> list_all2 ends (fst st) (fst st')"
  by (induction cs arbitrary: st)
    (auto simp: list_all2_refl split: sum.splits intro: ends_list_trans [OF ends_fail_chunk])

lemma ends_complete_batch:
  assumes "complete_batch io pick now batch db = (db', replies, n)"
  shows "list_all2 ends (executions db) (executions db') \<and> execution_queues db' = execution_queues db"
proof -
  let ?st = "fold (complete_success_chunk pick now batch)
      (chunks ROWS_PER_STATEMENT (filter (\<lambda>i. is_success (pc_outcome (batch ! i))) [0..<length batch]))
      (executions db, replicate (length batch) Ignored)"
  have "list_all2 ends (executions db) (fst ?st)"
    using ends_success_chunks [of "(executions db, replicate (length batch) Ignored)"] by simp
  with assms show ?thesis
    by (auto simp: complete_batch_def Let_def list_all2_refl split: if_splits option.splits sum.splits
        dest!: ends_fail_chunks intro: ends_list_trans)
qed

lemma ends_abandon:
  "list_all2 ends (executions db) (executions (snd (abandon io now j d db))) \<and>
   execution_queues (snd (abandon io now j d db)) = execution_queues db"
proof -
  have "ends r (if running_guard (j, d) r then set_failed (''abandoned'', now) r else r)" for r
    unfolding ends_def running_guard_def by (cases "xr_status r = ''running''") auto
  then show ?thesis
    by (simp add: abandon_def update_where_def list_all2_refl ends_map split: option.split)
qed

lemma ends_recover_chunks:
  "recover_chunks pick now limits cs rows = Inr (rows', xs) \<Longrightarrow> list_all2 ends rows rows'"
proof (induction cs arbitrary: rows xs)
  case (Cons c cs)
  have "list_all2 ends rows (update_from pick stale_guard (\<lambda>_. set_failed (''lease expired'', now))
      (map (\<lambda>item. ex_id (ewq_execution item)) c) rows)"
    by (rule ends_update_from) (auto simp: stale_guard_def)
  with Cons show ?case
    by (auto simp: Let_def split: sum.splits intro: ends_list_trans)
qed (simp add: list_all2_refl)

lemma ends_recover_stale:
  "list_all2 ends (executions db) (executions (snd (recover_stale io1 io2 pick now db))) \<and>
   execution_queues (snd (recover_stale io1 io2 pick now db)) = execution_queues db"
  by (auto simp: recover_stale_def Let_def list_all2_refl split: option.splits sum.splits dest: ends_recover_chunks)

lemma ends_keys:
  assumes "list_all2 ends rows rows'"
  shows "map xr_id rows' = map xr_id rows" "map xr_job_id rows' = map xr_job_id rows"
    "map xr_dispatch_id rows' = map xr_dispatch_id rows" "map xr_execution_count rows' = map xr_execution_count rows"
    "list_all (exec_row_ok queues) rows \<Longrightarrow> list_all (exec_row_ok queues) rows'"
  using assms
  by (induction rule: list_all2_induct)
    (auto simp: ends_def set_completed_def set_failed_def exec_row_ok_def split: if_splits)

lemma ends_wf:
  assumes "results_wf db" and "list_all2 ends (executions db) (executions db')"
    and "execution_queues db' = execution_queues db"
  shows "results_wf db'"
proof -
  note k = ends_keys [OF assms(2)]
  have "list_all (\<lambda>r. xr_execution_count r < 4294967296) (executions db')"
    using assms(1) k(4) unfolding results_wf_def list_all_iff by (metis (mono_tags, lifting) image_iff list.set_map)
  then show ?thesis
    using assms(1,3) k by (simp add: results_wf_def exec_rows_wf_def execution_queue_names_def)
qed

lemma ends_row_by:
  assumes "list_all2 ends rows rows'" and "row_by xr_job_id j rows = Some r"
  shows "\<exists>r'. row_by xr_job_id j rows' = Some r' \<and> ends r r'"
  using assms
  by (induction rule: list_all2_induct)
    (auto simp: ends_def set_completed_def set_failed_def split: if_splits)

lemma results_upsert_queue_wf:
  assumes "results_wf db"
  shows "results_wf (snd (results_upsert_queue io1 io2 now q db))"
proof -
  obtain r rows where up: "upsert_queue_sql io1 io2 now q (execution_queues db) = (r, rows)" by force
  have "queue_rows_wf rows"
    using upsert_queue_sql_wf [of "execution_queues db" io1 io2 now q] assms up by (simp add: results_wf_def)
  moreover have "execution_queue_names db \<subseteq> set (map qr_name rows)"
    using upsert_queue_sql_names [of io1 io2 now q "execution_queues db"] up by (auto simp: execution_queue_names_def)
  ultimately show ?thesis
    using assms up
    by (auto simp: results_upsert_queue_def results_wf_def exec_rows_wf_def execution_queue_names_def list_all_iff
        exec_row_ok_def)
qed

lemma results_cleanup_wf: "results_wf db \<Longrightarrow> results_wf (snd (results_cleanup io cutoff db))"
  by (auto simp: results_cleanup_def results_wf_def exec_rows_wf_def execution_queue_names_def list_all_iff
      distinct_map_filter split: option.split)

lemma results_handle_keeps_wf:
  assumes wf: "results_wf db"
  shows "results_wf (fst (results_handle E req db))"
proof (cases req)
  case (RReqUpsertQueue q k)
  then show ?thesis using results_upsert_queue_wf [OF wf] by (auto simp: split: prod.split) (metis snd_conv)
next
  case (RReqDispatch ds k)
  then show ?thesis using dispatch_batch_wf [OF wf] by (auto split: prod.split) (metis snd_conv)
next
  case (RReqComplete j d oc k)
  then show ?thesis using ends_complete_batch ends_wf [OF wf] by (auto split: prod.split)
next
  case (RReqAbandon j d k)
  then show ?thesis using ends_abandon ends_wf [OF wf] by (auto split: prod.split) (metis snd_conv)
next
  case (RReqRecoverStale n k)
  then show ?thesis using ends_recover_stale ends_wf [OF wf] by (auto split: prod.split) (metis snd_conv)
next
  case (RReqCleanup c k)
  then show ?thesis using results_cleanup_wf [OF wf] by (auto split: prod.split) (metis snd_conv)
next
  case (RReqVacuum k)
  then show ?thesis using wf by (auto simp: results_vacuum_def split: prod.split option.splits)
qed

text \<open>What a dispatch does to the execution of one job.\<close>

definition dispatch_rel :: "i64 \<Rightarrow> i64 \<Rightarrow> ExecRow option \<Rightarrow> ExecRow option \<Rightarrow> bool" where
  "dispatch_rel now j old new \<longleftrightarrow>
     new = old \<or>
     (\<exists>d i. di_job_id d = j \<and> new = Some (launched now d old i) \<and>
        (case old of None \<Rightarrow> True | Some r \<Rightarrow> xr_status r \<in> {''failed'', ''pending''} \<and> xr_job_id r = j))"

lemma dispatch_rel_trans:
  assumes "dispatch_rel now j a b" and "dispatch_rel now j b c"
  shows "dispatch_rel now j a c"
proof (cases "b = a")
  case True
  then show ?thesis using assms by simp
next
  case False
  with assms(1) obtain d i where b: "b = Some (launched now d a i)"
    by (auto simp: dispatch_rel_def)
  have "xr_status (launched now d a i) = ''running''"
    by (simp add: launched_def split: option.split)
  then have "c = b" using assms(2) by (auto simp: dispatch_rel_def b)
  with assms(1) show ?thesis by simp
qed

lemma upsert_execution_rel:
  assumes "upsert_execution now queues d rows = Inr (rows', ret)"
  shows "dispatch_rel now j (row_by xr_job_id j rows) (row_by xr_job_id j rows')"
  using assms
proof (cases rule: upsert_execution_cases)
  case (skipped r)
  then show ?thesis by (simp add: dispatch_rel_def)
next
  case (updated r r')
  have r': "r' = launched now d (Some r) 0" using updated(3) by (simp add: launched_def)
  have rj: "xr_job_id r = di_job_id d" using row_by_Some [OF updated(1)] by simp
  have lk: "row_by xr_job_id j rows' =
      map_option (\<lambda>x. if xr_job_id x = di_job_id d then r' else x) (row_by xr_job_id j rows)"
    unfolding updated(5) update_where_def by (rule row_by_map) (simp add: updated(3) rj)
  show ?thesis
  proof (cases "j = di_job_id d")
    case True
    then have "row_by xr_job_id j rows' = Some (launched now d (Some r) 0)"
      using lk updated(1) rj r' by simp
    then show ?thesis
      unfolding dispatch_rel_def using True updated(1,2) rj by (intro disjI2 exI [of _ d] exI [of _ 0]) simp
  next
    case False
    then have "row_by xr_job_id j rows' = row_by xr_job_id j rows"
      using row_by_Some [of xr_job_id j rows] lk by (cases "row_by xr_job_id j rows") auto
    then show ?thesis by (simp add: dispatch_rel_def)
  qed
next
  case (inserted i r')
  have r': "r' = launched now d None i" using inserted(5) by (simp add: launched_def)
  show ?thesis
    using inserted(1,5,6)
    by (cases "j = di_job_id d") (auto simp: dispatch_rel_def row_by_append r' launched_def split: option.split
        intro!: exI [of _ d])
qed

lemma upsert_executions_rel:
  "upsert_executions now queues ds rows = Inr (rows', rets) \<Longrightarrow>
     dispatch_rel now j (row_by xr_job_id j rows) (row_by xr_job_id j rows')"
proof (induction ds arbitrary: rows rets)
  case (Cons d ds)
  from Cons.prems obtain rows1 ret rets1 where
    "upsert_execution now queues d rows = Inr (rows1, ret)"
    "upsert_executions now queues ds rows1 = Inr (rows', rets1)"
    by (auto split: sum.splits)
  then show ?case using dispatch_rel_trans [OF upsert_execution_rel Cons.IH] by blast
qed (simp add: dispatch_rel_def)

lemma dispatch_chunks_rel:
  "dispatch_chunks now queues cs rows m = Inr (rows', m') \<Longrightarrow>
     dispatch_rel now j (row_by xr_job_id j rows) (row_by xr_job_id j rows')"
proof (induction cs arbitrary: rows m)
  case (Cons c cs)
  from Cons.prems obtain rows1 ups m1 where
    "upsert_executions now queues c rows = Inr (rows1, ups)"
    "dispatch_chunks now queues cs rows1 m1 = Inr (rows', m')"
    by (auto simp: Let_def split: sum.splits)
  then show ?case using dispatch_rel_trans [OF upsert_executions_rel Cons.IH] by blast
qed (simp add: dispatch_rel_def)

lemma dispatch_batch_rel:
  "dispatch_rel now j (row_by xr_job_id j (executions db))
     (row_by xr_job_id j (executions (snd (dispatch_batch io now ds db))))"
  by (auto simp: dispatch_batch_def dispatch_rel_def [of now j x x for x] split: option.splits sum.splits
      intro: dispatch_chunks_rel)

lemma dispatch_rel_exec_next:
  assumes "dispatch_rel now j (Some r) new"
  shows "\<exists>r'. new = Some r' \<and> exec_next r r'"
  using assms unfolding dispatch_rel_def
proof (elim disjE exE conjE)
  fix d i assume "di_job_id d = j" "new = Some (launched now d (Some r) i)"
    "case Some r of None \<Rightarrow> True | Some r \<Rightarrow> xr_status r \<in> {''failed'', ''pending''} \<and> xr_job_id r = j"
  moreover have "launched now d (Some r) i = launched now d (Some r) 0" by (simp add: launched_def)
  ultimately show ?thesis using exec_relaunch [of r d now] by simp
qed (auto intro: exec_stay)

text \<open>The life of one job's execution under one request.\<close>

definition lifecycle_ok :: "ResultsRequest \<Rightarrow> ExecRow option \<Rightarrow> ExecRow option \<Rightarrow> bool" where
  "lifecycle_ok req old new \<longleftrightarrow>
     (case (old, new) of
        (None, None) \<Rightarrow> True
      | (None, Some r') \<Rightarrow>
          (\<exists>ds k. req = RReqDispatch ds k) \<and> xr_status r' = ''running'' \<and> xr_execution_count r' = 1
      | (Some r, None) \<Rightarrow> (\<exists>cutoff k. req = RReqCleanup cutoff k \<and> xr_updated_at r < cutoff)
      | (Some r, Some r') \<Rightarrow> exec_next r r')"

lemma ends_lifecycle:
  assumes "list_all2 ends (executions db) (executions db')"
  shows "lifecycle_ok req (row_by xr_job_id j (executions db)) (row_by xr_job_id j (executions db'))"
proof (cases "row_by xr_job_id j (executions db)")
  case None
  have "map xr_job_id (executions db') = map xr_job_id (executions db)" using ends_keys(2) [OF assms] .
  then have "xr_job_id ` set (executions db') = xr_job_id ` set (executions db)" by (metis list.set_map)
  with None have "row_by xr_job_id j (executions db') = None" by (simp add: row_by_None)
  with None show ?thesis by (simp add: lifecycle_ok_def)
next
  case (Some r)
  from ends_row_by [OF assms Some] Some show ?thesis by (auto simp: lifecycle_ok_def intro: ends_exec_next)
qed

lemma lifecycle_refl: "lifecycle_ok req x x"
  by (simp add: lifecycle_ok_def exec_stay split: option.split)

lemma dispatch_lifecycle:
  assumes "dispatch_rel now j old new"
  shows "lifecycle_ok (RReqDispatch ds k) old new"
proof (cases old)
  case None
  with assms show ?thesis by (auto simp: dispatch_rel_def lifecycle_ok_def launched_def)
next
  case (Some r)
  with dispatch_rel_exec_next [of now j r new] assms show ?thesis by (auto simp: lifecycle_ok_def)
qed

lemma results_handle_lifecycle:
  assumes wf: "results_wf db"
  shows "lifecycle_ok req (row_by xr_job_id j (executions db))
           (row_by xr_job_id j (executions (fst (results_handle E req db))))"
proof (cases req)
  case (RReqUpsertQueue q k)
  then show ?thesis by (auto simp: results_upsert_queue_def lifecycle_refl split: prod.split)
next
  case (RReqDispatch ds k)
  then show ?thesis
    using dispatch_lifecycle [OF dispatch_batch_rel [of "env_clock E 0" j db "env_io E 0" ds], of ds k]
    by (auto split: prod.split)
next
  case (RReqComplete i d oc k)
  then show ?thesis
    by (auto split: prod.split intro!: ends_lifecycle dest!: ends_complete_batch)
next
  case (RReqAbandon i d k)
  then show ?thesis
    using ends_lifecycle [OF ends_abandon [THEN conjunct1], of req j db "env_io E 0" "env_clock E 0" i d]
    by (auto split: prod.split)
next
  case (RReqRecoverStale n k)
  then show ?thesis
    using ends_lifecycle [OF ends_recover_stale [THEN conjunct1], of req j db "env_io E 0" "env_io E 1" "env_pick E" n]
    by (auto split: prod.split)
next
  case (RReqCleanup c k)
  have "distinct (map xr_job_id (executions db))" using wf by (simp add: results_wf_def exec_rows_wf_def)
  from row_by_filter [OF this, of j "\<lambda>r. \<not> xr_updated_at r < c"] RReqCleanup show ?thesis
    by (auto simp: results_cleanup_def lifecycle_refl lifecycle_ok_def exec_stay split: prod.split option.splits)
next
  case (RReqVacuum k)
  then show ?thesis by (auto simp: results_vacuum_def lifecycle_refl split: prod.split option.splits)
qed

section \<open>Expired leases\<close>

definition is_stale :: "i64 \<Rightarrow> ExecRow \<Rightarrow> bool" where
  "is_stale now r \<longleftrightarrow>
     xr_status r = ''running'' \<and> (case xr_lease_expires_at r of None \<Rightarrow> False | Some l \<Rightarrow> l < now)"

definition queue_of :: "ResultsDb \<Rightarrow> ExecRow \<Rightarrow> QueueRow" where
  "queue_of db r = the (row_by qr_name (xr_queue_name r) (execution_queues db))"

definition expire :: "i64 \<Rightarrow> ExecRow \<Rightarrow> ExecRow" where
  "expire now r = (if is_stale now r then set_failed (''lease expired'', now) r else r)"

definition recovered_row :: "ResultsDb \<Rightarrow> ExecRow \<Rightarrow> RecoveredStale" where
  "recovered_row db r =
     \<lparr>rs_job_id = xr_job_id r, rs_dispatch_id = xr_dispatch_id r,
      rs_should_repend = (xr_execution_count r \<le> qr_max_retries (queue_of db r))\<rparr>"

lemma collect_results_map_Inr: "collect_results (map (\<lambda>x. Inr (f x)) xs) = Inr (map f xs)"
  by (induction xs) simp_all

lemma results_wf_queue_of:
  assumes wf: "results_wf db" and r: "r \<in> set (executions db)"
  shows "row_by qr_name (xr_queue_name r) (execution_queues db) = Some (queue_of db r)"
    and "filter (\<lambda>q. qr_name q = xr_queue_name r) (execution_queues db) = [queue_of db r]"
    and "queue_row_ok (queue_of db r)"
proof -
  have "xr_queue_name r \<in> qr_name ` set (execution_queues db)"
    using results_wf_keys(2) [OF wf] r by blast
  then show row: "row_by qr_name (xr_queue_name r) (execution_queues db) = Some (queue_of db r)"
    by (cases "row_by qr_name (xr_queue_name r) (execution_queues db)") (auto simp: row_by_None queue_of_def)
  have q: "queue_of db r \<in> set (execution_queues db)" "qr_name (queue_of db r) = xr_queue_name r"
    using row_by_Some [OF row] by auto
  have qwf: "queue_rows_wf (execution_queues db)" using wf by (simp add: results_wf_def)
  show "filter (\<lambda>q. qr_name q = xr_queue_name r) (execution_queues db) = [queue_of db r]"
    using filter_key_single [of qr_name "execution_queues db" "queue_of db r"] qwf q by (simp add: queue_rows_wf_def)
  show "queue_row_ok (queue_of db r)"
    using qwf q(1) by (simp add: queue_rows_wf_def list_all_iff)
qed

definition stale_item :: "ResultsDb \<Rightarrow> ExecRow \<Rightarrow> ExecutionWithQueueConfig" where
  "stale_item db r = projr (row_to_execution_with_queue_config (r, queue_of db r))"

lemma stale_item_ok:
  assumes wf: "results_wf db" and r: "r \<in> set (executions db)"
  shows "row_to_execution_with_queue_config (r, queue_of db r) = Inr (stale_item db r)"
    and "ex_id (ewq_execution (stale_item db r)) = xr_id r"
    and "uint (jq_max_retries (ewq_queue (stale_item db r))) = qr_max_retries (queue_of db r)"
proof -
  have ok: "exec_row_ok (execution_queue_names db) r" "xr_execution_count r < 4294967296"
    using wf r by (auto simp: results_wf_def exec_rows_wf_def list_all_iff)
  from exec_row_ok_readable [OF ok] obtain x where x: "row_to_execution_at 0 r = Inr x"
    by (auto simp: row_to_execution_def)
  then have xid: "ex_id x = xr_id r"
    by (auto simp: row_to_execution_at_def split: sum.splits option.splits)
  note q = results_wf_queue_of(3) [OF wf r]
  then obtain m t where m: "u32_try_from (qr_max_retries (queue_of db r)) = Some m"
    and t: "u64_try_from (qr_timeout_secs (queue_of db r)) = Some t"
    by (auto simp: queue_row_ok_def u32_try_from_def u64_try_from_def i64_max_def)
  then show "row_to_execution_with_queue_config (r, queue_of db r) = Inr (stale_item db r)"
    "ex_id (ewq_execution (stale_item db r)) = xr_id r"
    "uint (jq_max_retries (ewq_queue (stale_item db r))) = qr_max_retries (queue_of db r)"
    using x xid uint_u32_try_from [OF m]
    by (simp_all add: stale_item_def row_to_execution_with_queue_config_def row_to_queue_at_def)
qed

lemma select_stale_eq:
  assumes wf: "results_wf db"
  shows "select_stale now db = map (\<lambda>r. (r, queue_of db r)) (filter (is_stale now) (executions db))"
proof -
  have "concat (map (\<lambda>r. map (\<lambda>q. (r, q)) (filter (\<lambda>q. qr_name q = xr_queue_name r) (execution_queues db))) rs) =
      map (\<lambda>r. (r, queue_of db r)) rs" if "set rs \<subseteq> set (executions db)" for rs
    using that by (induction rs) (simp_all add: results_wf_queue_of(2) [OF wf])
  from this [of "filter (is_stale now) (executions db)"] show ?thesis
    by (simp add: select_stale_def is_stale_def [abs_def])
qed

lemma recovered_of_ok:
  assumes "\<And>r. r \<in> set rs \<Longrightarrow> 1 \<le> xr_execution_count r \<and> xr_execution_count r < 4294967296 \<and>
      (\<exists>m. limits (xr_id r) = Some m \<and> uint m = lim r)"
  shows "recovered_of limits rs =
    Inr (map (\<lambda>r. \<lparr>rs_job_id = xr_job_id r, rs_dispatch_id = xr_dispatch_id r,
                  rs_should_repend = (xr_execution_count r \<le> lim r)\<rparr>) rs)"
  using assms
proof (induction rs)
  case (Cons r rs)
  from Cons.prems [of r] obtain m where
    c: "u32_try_from (xr_execution_count r) = Some (word_of_int (xr_execution_count r))"
    and m: "limits (xr_id r) = Some m" "uint m = lim r"
    by (auto simp: u32_try_from_def)
  have "(word_of_int (xr_execution_count r) \<le> m) = (xr_execution_count r \<le> lim r)"
    using uint_u32_try_from [OF c] m(2) by (simp add: word_le_def)
  with Cons c m show ?case by simp
qed simp

lemma stale_chunk:
  assumes dist: "distinct (map xr_id rows)" and st: "filter (is_stale now) rows = c @ cs"
  shows "updated_from pick stale_guard (\<lambda>_. set_failed x) (map xr_id c) rows = map (set_failed x) c"
    and "update_from pick stale_guard (\<lambda>_. set_failed x) (map xr_id c) rows =
      map (\<lambda>r. if xr_id r \<in> xr_id ` set c then set_failed x r else r) rows"
    and "filter (is_stale now) (map (\<lambda>r. if xr_id r \<in> xr_id ` set c then set_failed x r else r) rows) = cs"
proof -
  have dcs: "distinct (map xr_id (c @ cs))"
    unfolding st [symmetric] using dist by (rule distinct_map_filter)
  have csub: "set c \<subseteq> set rows" using arg_cong [OF st, of set] by auto
  have stale: "is_stale now r" if "r \<in> set rows" "xr_id r \<in> xr_id ` set c" for r
  proof -
    from that(2) obtain r' where r': "r' \<in> set c" "xr_id r = xr_id r'" by auto
    have "inj_on xr_id (set rows)" using dist by (simp add: distinct_map)
    then have "r = r'" using that(1) r' csub by (auto dest: inj_onD)
    with r'(1) have "r \<in> set (filter (is_stale now) rows)" unfolding st by simp
    then show ?thesis by simp
  qed
  have hit: "filter (\<lambda>i. stale_guard i r) (map xr_id c) = [] \<longleftrightarrow> xr_id r \<notin> xr_id ` set c" if "r \<in> set rows" for r
    using stale [OF that] by (auto simp: filter_empty_conv stale_guard_def is_stale_def)
  have "filter (\<lambda>r. filter (\<lambda>i. stale_guard i r) (map xr_id c) \<noteq> []) rows =
      filter (\<lambda>r. xr_id r \<in> xr_id ` set c) (filter (is_stale now) rows)"
    unfolding filter_filter by (rule filter_cong [OF refl]) (use hit stale in auto)
  also have "\<dots> = c" unfolding st by (rule filter_prefix_ids(1) [OF dcs])
  finally show "updated_from pick stale_guard (\<lambda>_. set_failed x) (map xr_id c) rows = map (set_failed x) c"
    by (simp add: updated_from_def)
  show "update_from pick stale_guard (\<lambda>_. set_failed x) (map xr_id c) rows =
      map (\<lambda>r. if xr_id r \<in> xr_id ` set c then set_failed x r else r) rows"
    unfolding update_from_def Let_def by (rule map_cong [OF refl]) (simp only: hit, simp)
  have not_stale: "\<not> is_stale now (set_failed x r)" for r by (simp add: is_stale_def set_failed_def)
  have "filter (is_stale now) (map (\<lambda>r. if xr_id r \<in> xr_id ` set c then set_failed x r else r) rows) =
      map (\<lambda>r. if xr_id r \<in> xr_id ` set c then set_failed x r else r)
        (filter (\<lambda>r. xr_id r \<notin> xr_id ` set c) (filter (is_stale now) rows))"
    unfolding filter_map filter_filter comp_def
    by (rule arg_cong [of _ _ "map _"], rule filter_cong [OF refl]) (simp add: not_stale conj_commute)
  also have "\<dots> = filter (\<lambda>r. xr_id r \<notin> xr_id ` set c) (filter (is_stale now) rows)"
    by (rule map_idI) simp
  also have "\<dots> = cs" unfolding st by (rule filter_prefix_ids(2) [OF dcs])
  finally show "filter (is_stale now) (map (\<lambda>r. if xr_id r \<in> xr_id ` set c then set_failed x r else r) rows) = cs" .
qed

lemma recover_chunks_ok:
  assumes "distinct (map xr_id rows)" and "filter (is_stale now) rows = concat cs"
    and "\<And>r. r \<in> set (concat cs) \<Longrightarrow> ex_id (ewq_execution (item r)) = xr_id r \<and> 1 \<le> xr_execution_count r \<and>
      xr_execution_count r < 4294967296 \<and> (\<exists>m. limits (xr_id r) = Some m \<and> uint m = lim (xr_queue_name r))"
  shows "recover_chunks pick now limits (map (map item) cs) rows =
    Inr (map (expire now) rows,
         map (\<lambda>r. \<lparr>rs_job_id = xr_job_id r, rs_dispatch_id = xr_dispatch_id r,
                  rs_should_repend = (xr_execution_count r \<le> lim (xr_queue_name r))\<rparr>) (concat cs))"
  using assms
proof (induction cs arbitrary: rows)
  case Nil
  then have "map (expire now) rows = rows"
    by (intro map_idI) (auto simp: expire_def filter_empty_conv)
  then show ?case by simp
next
  case (Cons c cs)
  let ?x = "(''lease expired'', now)"
  let ?rows = "map (\<lambda>r. if xr_id r \<in> xr_id ` set c then set_failed ?x r else r) rows"
  have st: "filter (is_stale now) rows = c @ concat cs" using Cons.prems(2) by simp
  note ch = stale_chunk(1,2) [OF Cons.prems(1) st, where pick = pick and x = ?x]
    stale_chunk(3) [OF Cons.prems(1) st, where x = ?x]
  have ids: "map (\<lambda>i. ex_id (ewq_execution i)) (map item c) = map xr_id c"
    using Cons.prems(3) by simp
  have here: "recovered_of limits (map (set_failed ?x) c) = Inr (map (\<lambda>r. \<lparr>rs_job_id = xr_job_id r,
      rs_dispatch_id = xr_dispatch_id r, rs_should_repend = (xr_execution_count r \<le> lim (xr_queue_name r))\<rparr>) c)"
    using Cons.prems(3) by (subst recovered_of_ok [where lim = "\<lambda>r. lim (xr_queue_name r)"]) (auto simp: set_failed_def)
  have keys: "distinct (map xr_id ?rows)"
  proof -
    have "map xr_id ?rows = map xr_id rows" by (simp add: set_failed_def)
    with Cons.prems(1) show ?thesis by (simp only:)
  qed
  have rest: "recover_chunks pick now limits (map (map item) cs) ?rows =
    Inr (map (expire now) ?rows, map (\<lambda>r. \<lparr>rs_job_id = xr_job_id r, rs_dispatch_id = xr_dispatch_id r,
                  rs_should_repend = (xr_execution_count r \<le> lim (xr_queue_name r))\<rparr>) (concat cs))"
    using Cons.prems(3) by (intro Cons.IH [OF keys ch(3)]) simp
  have ex: "map (expire now) ?rows = map (expire now) rows"
    unfolding map_map
  proof (rule map_cong [OF refl])
    fix r assume r: "r \<in> set rows"
    show "(expire now \<circ> (\<lambda>r. if xr_id r \<in> xr_id ` set c then set_failed ?x r else r)) r = expire now r"
    proof (cases "xr_id r \<in> xr_id ` set c")
      case True
      then obtain r' where r': "r' \<in> set c" "xr_id r = xr_id r'" by auto
      have "r' \<in> set (filter (is_stale now) rows)" using r'(1) unfolding st by simp
      then have "r' \<in> set rows" "is_stale now r'" by auto
      moreover have "inj_on xr_id (set rows)" using Cons.prems(1) by (simp add: distinct_map)
      ultimately have "is_stale now r" using r r'(2) by (metis inj_onD)
      with True show ?thesis by (simp add: expire_def is_stale_def [of now "set_failed _ _"] set_failed_def)
    qed simp
  qed
  show ?case
    by (simp only: list.map recover_chunks.simps Let_def ids ch(1,2) here rest ex sum.case prod.case
        concat.simps map_append)
qed


lemma recover_stale_eq:
  assumes wf: "results_wf db"
  shows "recover_stale None None pick now db =
    (Inr (map (recovered_row db) (filter (is_stale now) (executions db))),
     db\<lparr>executions := map (expire now) (executions db)\<rparr>)"
proof -
  define stale where "stale = filter (is_stale now) (executions db)"
  have sub: "r \<in> set (executions db)" if "r \<in> set stale" for r using that by (simp add: stale_def)
  have items: "collect_results (map row_to_execution_with_queue_config (select_stale now db)) = Inr (map (stale_item db) stale)"
  proof -
    have "map row_to_execution_with_queue_config (select_stale now db) = map (\<lambda>r. Inr (stale_item db r)) stale"
      unfolding select_stale_eq [OF wf] map_map stale_def
      by (rule map_cong [OF refl]) (simp add: stale_item_ok(1) [OF wf])
    then show ?thesis by (simp add: collect_results_map_Inr)
  qed
  let ?limits = "map_of (rev (map (\<lambda>item. (ex_id (ewq_execution item), jq_max_retries (ewq_queue item))) (map (stale_item db) stale)))"
  have dist: "distinct (map xr_id (executions db))" using wf by (simp add: results_wf_def exec_rows_wf_def)
  have lim: "?limits (xr_id r) = Some (jq_max_retries (ewq_queue (stale_item db r)))" if r: "r \<in> set stale" for r
  proof (rule map_of_is_SomeI)
    have "map fst (map (\<lambda>item. (ex_id (ewq_execution item), jq_max_retries (ewq_queue item))) (map (stale_item db) stale)) = map xr_id stale"
      using stale_item_ok(2) [OF wf sub] by (simp add: comp_def)
    moreover have "distinct (map xr_id stale)" unfolding stale_def using dist by (rule distinct_map_filter)
    ultimately show "distinct (map fst (rev (map (\<lambda>item. (ex_id (ewq_execution item), jq_max_retries (ewq_queue item))) (map (stale_item db) stale))))"
      by (simp only: rev_map [symmetric] distinct_rev)
    show "(xr_id r, jq_max_retries (ewq_queue (stale_item db r))) \<in>
        set (rev (map (\<lambda>item. (ex_id (ewq_execution item), jq_max_retries (ewq_queue item))) (map (stale_item db) stale)))"
      using r stale_item_ok(2) [OF wf sub [OF r]] by (auto simp: image_image intro!: rev_image_eqI [of r])
  qed
  let ?lim = "\<lambda>n. qr_max_retries (the (row_by qr_name n (execution_queues db)))"
  have "recover_chunks pick now ?limits (map (map (stale_item db)) (chunks ROWS_PER_STATEMENT stale)) (executions db) =
    Inr (map (expire now) (executions db),
         map (\<lambda>r. \<lparr>rs_job_id = xr_job_id r, rs_dispatch_id = xr_dispatch_id r,
                  rs_should_repend = (xr_execution_count r \<le> ?lim (xr_queue_name r))\<rparr>) (concat (chunks ROWS_PER_STATEMENT stale)))"
  proof (rule recover_chunks_ok [OF dist])
    show "filter (is_stale now) (executions db) = concat (chunks ROWS_PER_STATEMENT stale)"
      by (simp only: ingest_chunks stale_def)
    fix r assume "r \<in> set (concat (chunks ROWS_PER_STATEMENT stale))"
    then have r: "r \<in> set stale" by (simp only: ingest_chunks)
    have "1 \<le> xr_execution_count r \<and> xr_execution_count r < 4294967296"
      using wf sub [OF r] by (auto simp: results_wf_def exec_rows_wf_def list_all_iff exec_row_ok_def)
    with lim [OF r] stale_item_ok(2,3) [OF wf sub [OF r]]
    show "ex_id (ewq_execution (stale_item db r)) = xr_id r \<and> 1 \<le> xr_execution_count r \<and>
      xr_execution_count r < 4294967296 \<and> (\<exists>m. ?limits (xr_id r) = Some m \<and> uint m = ?lim (xr_queue_name r))"
      by (simp add: queue_of_def)
  qed
  moreover have "map (expire now) (executions db) = executions db" if "stale = []"
    using that by (intro map_idI) (auto simp: stale_def expire_def filter_empty_conv)
  ultimately show ?thesis
    by (auto simp: recover_stale_def items chunks_map ingest_chunks recovered_row_def [abs_def] queue_of_def stale_def [symmetric])
qed

section \<open>Properties of the results database\<close>

definition sample_exec :: "i64 \<Rightarrow> string \<Rightarrow> i64 \<Rightarrow> i64 option \<Rightarrow> string \<Rightarrow> bytes option \<Rightarrow> string option \<Rightarrow> ExecRow" where
  "sample_exec i s c l d p e =
     \<lparr>xr_id = i, xr_job_id = i, xr_queue_name = ''mail'', xr_status = s, xr_execution_count = c,
      xr_lease_expires_at = l, xr_dispatch_id = d, xr_result_payload = p, xr_result_error = e,
      xr_created_at = 1, xr_updated_at = 1\<rparr>"

definition sample_results :: ResultsDb where
  "sample_results =
     \<lparr>execution_queues = [\<lparr>qr_name = ''mail'', qr_max_retries = 3, qr_timeout_secs = 60,
                            qr_created_at = 1, qr_updated_at = 1\<rparr>],
      executions = [sample_exec 1 ''running'' 1 (Some 100) ''a'' None None,
                    sample_exec 2 ''failed'' 2 None ''b'' None (Some ''boom''),
                    sample_exec 3 ''completed'' 1 None ''c'' (Some [7]) None]\<rparr>"

lemmas sample_results_defs = sample_results_def sample_exec_def

lemma sample_results_wf: "results_wf sample_results"
  by (simp add: results_wf_def sample_results_defs queue_rows_wf_def queue_row_ok_def exec_rows_wf_def exec_row_ok_def
      execution_queue_names_def i64_max_def)

text \<open>Writing results one at a time, each as a batch of its own.\<close>

fun complete_each :: "(nat \<Rightarrow> nat) \<Rightarrow> i64 \<Rightarrow> PendingCompletion list \<Rightarrow> ResultsDb \<Rightarrow>
    ResultsDb \<times> (nat \<times> (StoreError + CompletionDisposition)) list" where
  "complete_each pick now [] db = (db, [])"
| "complete_each pick now (p # ps) db =
     (let (db1, replies, _) = complete_batch None pick now [p] db; (db2, replies') = complete_each pick now ps db1
      in (db2, replies @ replies'))"

lemma find_settle_other:
  assumes "pc_key p \<noteq> pc_key q"
  shows "find (running_guard (pc_key q)) (settle_one now p rows) = find (running_guard (pc_key q)) rows"
proof (induction rows)
  case (Cons r rows)
  have "settle_one now p (r # rows) = (if running_guard (pc_key p) r then settle now p r else r) # settle_one now p rows"
    by (simp add: settle_one_def update_where_def)
  moreover have "\<not> running_guard (pc_key q) (settle now p r) \<and> \<not> running_guard (pc_key q) r" if "running_guard (pc_key p) r"
    using that assms by (auto simp: running_guard_def settle_def set_completed_def set_failed_def pc_key_def split: JobOutcome.splits)
  ultimately show ?case using Cons by auto
qed (simp add: settle_one_def update_where_def)

lemma complete_each_eq:
  assumes "results_wf db" and "distinct (map pc_key batch)"
  shows "complete_each pick now batch db =
    (db\<lparr>executions := fold (settle_one now) batch (executions db)\<rparr>,
     map (\<lambda>p. (pc_reply p, Inr (disposition (execution_queues db) (executions db) p))) batch)"
  using assms
proof (induction batch arbitrary: db)
  case (Cons p ps)
  let ?db = "db\<lparr>executions := settle_one now p (executions db)\<rparr>"
  have one: "complete_batch None pick now [p] db =
      (?db, [(pc_reply p, Inr (disposition (execution_queues db) (executions db) p))], Some 1)"
    using complete_batch_eq [OF Cons.prems(1), of "[p]" pick now] by simp
  have "results_wf ?db" using ends_wf [OF Cons.prems(1)] ends_complete_batch [OF one] by blast
  moreover have "disposition (execution_queues db) (settle_one now p (executions db)) q = disposition (execution_queues db) (executions db) q"
    if "q \<in> set ps" for q
  proof -
    have "pc_key p \<noteq> pc_key q" using Cons.prems(2) that by auto
    then show ?thesis by (simp add: disposition_def find_settle_other)
  qed
  ultimately show ?case using Cons.IH [of ?db] Cons.prems(2) by (simp add: one)
qed simp

text \<open>
  C4. Writing a batch of worker results in bulk is writing them one at a time. For a batch that
  names no execution twice (its pairs of job and dispatch id are distinct) and a database call that
  does not fail, the bulk statements (successes first, then failures, in chunks) leave the same rows and give the
  same answers as batches of one result each, in the order of arrival: the running execution with
  the result's job and dispatch id is completed or failed, and the result is answered with
  completed, with repend if it failed within the queue's retry limit, or is ignored when no
  such execution is running.
\<close>

theorem complete_batch_is_sequential:
  assumes "results_wf db" and "distinct (map pc_key batch)" and "batch \<noteq> []"
  shows "complete_batch None pick now batch db =
    (db\<lparr>executions := fold (settle_one now) batch (executions db)\<rparr>,
     map (\<lambda>p. (pc_reply p, Inr (disposition (execution_queues db) (executions db) p))) batch,
     Some (length batch)) \<and>
    complete_batch None pick now batch db =
      (let (db', replies) = complete_each pick now batch db in (db', replies, Some (length batch)))"
  using complete_batch_eq [OF assms] complete_each_eq [OF assms(1,2)] by simp

definition sample_completion :: PendingCompletion where
  "sample_completion = \<lparr>pc_job_id = 1, pc_dispatch_id = ''a'', pc_outcome = OutcomeFailed ''late'', pc_reply = 8\<rparr>"

text \<open>A second running execution, and results for both, with a stale one between them.\<close>

definition busy_results :: ResultsDb where
  "busy_results = sample_results\<lparr>executions := executions sample_results @ [sample_exec 4 ''running'' 4 (Some 100) ''d'' None None]\<rparr>"

definition sample_batch :: "PendingCompletion list" where
  "sample_batch =
     [sample_completion,
      \<lparr>pc_job_id = 3, pc_dispatch_id = ''c'', pc_outcome = OutcomeFailed ''again'', pc_reply = 9\<rparr>,
      \<lparr>pc_job_id = 4, pc_dispatch_id = ''d'', pc_outcome = Succeeded [5], pc_reply = 10\<rparr>]"

lemma busy_results_wf: "results_wf busy_results"
  by (simp add: results_wf_def busy_results_def sample_results_defs queue_rows_wf_def queue_row_ok_def exec_rows_wf_def exec_row_ok_def
      execution_queue_names_def i64_max_def)

theorem complete_batch_is_sequential_witness:
  "fst (snd (complete_batch None id 50 sample_batch busy_results)) = [(8, Inr Repend), (9, Inr Ignored), (10, Inr DispCompleted)] \<and>
   fst (complete_batch None id 50 sample_batch busy_results) = fst (complete_each id 50 sample_batch busy_results) \<and>
   map xr_status (executions (fst (complete_batch None id 50 sample_batch busy_results))) = [''failed'', ''failed'', ''completed'', ''completed'']"
proof -
  have "distinct (map pc_key sample_batch)" "sample_batch \<noteq> []" by (simp_all add: sample_batch_def sample_completion_def pc_key_def)
  note eq = complete_batch_is_sequential [OF busy_results_wf this, of id 50]
  have a: "fst (snd (complete_batch None id 50 sample_batch busy_results)) = [(8, Inr Repend), (9, Inr Ignored), (10, Inr DispCompleted)]"
    unfolding conjunct1 [OF eq]
    by (simp add: sample_batch_def disposition_def sample_completion_def busy_results_def sample_results_defs running_guard_def pc_key_def)
  have b: "map xr_status (executions (fst (complete_batch None id 50 sample_batch busy_results))) = [''failed'', ''failed'', ''completed'', ''completed'']"
    unfolding conjunct1 [OF eq]
    by (simp add: sample_batch_def sample_completion_def busy_results_def sample_results_defs running_guard_def pc_key_def
        settle_one_def update_where_def settle_def set_completed_def set_failed_def)
  from a b conjunct2 [OF eq] show ?thesis by (simp add: case_prod_unfold Let_def)
qed

lemma find_settle_one [simp]: "find (running_guard (pc_key p)) (settle_one now p rows) = None"
  by (auto simp: find_None_iff settle_one_def update_where_def)

lemma settle_one_stale:
  assumes "find (running_guard (pc_key p)) rows = None"
  shows "settle_one now p rows = rows"
  using assms unfolding settle_one_def update_where_def
  by (intro map_idI) (auto simp: find_None_iff)

text \<open>
  A result that is delivered twice counts once: once a result for a job and dispatch id has
  been processed, any later result for the same job and dispatch id, whatever its outcome, is
  ignored and changes nothing.
\<close>

theorem duplicate_result_ignored:
  assumes wf: "results_wf db" and same: "pc_key q = pc_key p"
    and first: "complete_batch None pick now [p] db = (db', replies, n)"
  shows "complete_batch None pick' now' [q] db' = (db', [(pc_reply q, Inr Ignored)], Some 1)"
proof -
  have db': "db' = db\<lparr>executions := settle_one now p (executions db)\<rparr>"
    using complete_batch_eq [OF wf, of "[p]" pick now] first by simp
  have none: "find (running_guard (pc_key q)) (executions db') = None" by (simp add: db' same)
  have "results_wf db'" using ends_wf [OF wf] ends_complete_batch [OF first] by blast
  from complete_batch_eq [OF this, of "[q]" pick' now'] show ?thesis
    by (simp add: disposition_def none settle_one_stale)
qed

theorem duplicate_result_ignored_witness:
  "\<exists>db' replies n. complete_batch None id 50 [sample_completion] sample_results = (db', replies, n) \<and>
     complete_batch None id 60 [sample_completion\<lparr>pc_outcome := Succeeded [1]\<rparr>] db' = (db', [(8, Inr Ignored)], Some 1)"
proof -
  obtain db' replies n where eq: "complete_batch None id 50 [sample_completion] sample_results = (db', replies, n)"
    by (metis prod_cases3)
  from duplicate_result_ignored [OF sample_results_wf _ eq, of "sample_completion\<lparr>pc_outcome := Succeeded [1]\<rparr>" id 60] eq
  show ?thesis by (auto simp: pc_key_def sample_completion_def)
qed

text \<open>
  Every request to the results writer keeps the results database well formed: row ids, job
  ids and dispatch ids are unique, every execution's queue exists and its attempt count fits the
  type that reads it, only a running execution has a lease, only a completed one a payload, only
  a failed one an error, and none is ever stored as pending.
\<close>

theorem results_handle_preserves_wf:
  assumes "results_wf db"
  shows "results_wf (fst (results_handle E req db))"
  using assms by (rule results_handle_keeps_wf)

definition quiet_env :: env where
  "quiet_env = \<lparr>env_io = (\<lambda>_. None), env_clock = (\<lambda>_. 50), env_uuid = show_nat, env_pick = id\<rparr>"

theorem results_handle_preserves_wf_witness:
  "results_wf (fst (results_handle quiet_env (RReqAbandon 1 ''a'' 9) sample_results))"
  by (rule results_handle_preserves_wf [OF sample_results_wf])

text \<open>
  C25. The life of an execution: whatever the request, a job's execution row appears only by a
  dispatch, as its first running attempt; disappears only by a cleanup whose cutoff lies after
  its last modification; and otherwise stays as it is, ends if it was running, or, only if it
  had failed, starts its next attempt with the count increased by one. A completed execution
  therefore never changes again.
\<close>

theorem execution_lifecycle:
  assumes "results_wf db"
  shows "lifecycle_ok req (row_by xr_job_id j (executions db))
           (row_by xr_job_id j (executions (fst (results_handle E req db))))"
  using assms by (rule results_handle_lifecycle)

theorem execution_lifecycle_witness:
  "lifecycle_ok (RReqCleanup 5 9) (row_by xr_job_id 3 (executions sample_results))
     (row_by xr_job_id 3 (executions (fst (results_handle quiet_env (RReqCleanup 5 9) sample_results))))"
  by (rule execution_lifecycle [OF sample_results_wf])

text \<open>
  Dispatching a batch of distinct jobs under fresh dispatch ids succeeds when each job has
  no execution yet or a failed one: every job gets a running execution with the requested
  dispatch id and lease, its attempt count is one more than before, the reply lists the
  attempts in the order of the request, and the executions of other jobs do not change.
\<close>

theorem dispatch_batch_exact:
  assumes "dispatchable_batch (execution_queue_names db) (executions db) ds"
  shows "\<exists>rows' rets.
     dispatch_batch None now ds db =
       (Inr (map (\<lambda>(d, r). dispatched_of d r) (zip ds rets)), db\<lparr>executions := rows'\<rparr>) \<and>
     list_all2 (\<lambda>d r. \<exists>i. r = launched now d (row_by xr_job_id (di_job_id d) (executions db)) i) ds rets \<and>
     (\<forall>j. row_by xr_job_id j rows' =
        (case find (\<lambda>r. xr_job_id r = j) rets of Some r \<Rightarrow> Some r | None \<Rightarrow> row_by xr_job_id j (executions db)))"
  using assms by (rule dispatch_batch_ok)

definition sample_dispatch :: "DispatchInsert list" where
  "sample_dispatch =
     [\<lparr>di_job_id = 2, di_queue_name = ''mail'', di_dispatch_id = ''d2'', di_lease_expires_at = 200\<rparr>,
      \<lparr>di_job_id = 9, di_queue_name = ''mail'', di_dispatch_id = ''d9'', di_lease_expires_at = 200\<rparr>]"

lemma sample_dispatchable:
  "dispatchable_batch (execution_queue_names sample_results) (executions sample_results) sample_dispatch"
  using sample_results_wf
  by (simp add: dispatchable_batch_def dispatchable_def results_wf_def sample_dispatch_def sample_results_defs
      i64_max_def execution_queue_names_def)

theorem dispatch_batch_exact_witness:
  "\<exists>r2 r9. fst (dispatch_batch None 60 sample_dispatch sample_results) =
       Inr [dispatched_of (sample_dispatch ! 0) r2, dispatched_of (sample_dispatch ! 1) r9] \<and>
     xr_execution_count r2 = 3 \<and> xr_execution_count r9 = 1"
proof -
  from dispatch_batch_exact [OF sample_dispatchable, of 60] obtain rows' rets where
    eq: "fst (dispatch_batch None 60 sample_dispatch sample_results) =
       Inr (map (\<lambda>(d, r). dispatched_of d r) (zip sample_dispatch rets))"
    and l2: "list_all2 (\<lambda>d r. \<exists>i. r = launched 60 d (row_by xr_job_id (di_job_id d) (executions sample_results)) i) sample_dispatch rets"
    by auto
  from l2 obtain r2 r9 where r: "rets = [r2, r9]" "xr_execution_count r2 = 3" "xr_execution_count r9 = 1"
    by (auto simp: sample_dispatch_def list_all2_Cons1 launched_def sample_results_defs)
  have "zip sample_dispatch rets = [(sample_dispatch ! 0, r2), (sample_dispatch ! 1, r9)]"
    by (simp add: sample_dispatch_def r(1))
  with eq r(2,3) show ?thesis by (intro exI [of _ r2] exI [of _ r9]) simp
qed

text \<open>
  Recovering stale leases fails exactly the running executions whose lease lies before the
  given time, with the error "lease expired", leaves every other execution alone, and reports
  exactly these, each marked for retry if and only if its attempt count is within its queue's
  retry limit.
\<close>

theorem recover_stale_exact:
  assumes "results_wf db"
  shows "recover_stale None None pick now db =
    (Inr (map (recovered_row db) (filter (is_stale now) (executions db))),
     db\<lparr>executions := map (expire now) (executions db)\<rparr>)"
  using assms by (rule recover_stale_eq)

theorem recover_stale_exact_witness:
  "fst (recover_stale None None id 150 sample_results) =
     Inr [\<lparr>rs_job_id = 1, rs_dispatch_id = ''a'', rs_should_repend = True\<rparr>]"
  using recover_stale_exact [OF sample_results_wf, of id 150]
  by (simp add: recovered_row_def queue_of_def is_stale_def sample_results_defs)

text \<open>
  C39. A batch that contains a job whose execution cannot be restarted (here: a completed one) is
  answered with an error, but the transaction has been committed by then: the other job of the
  batch is left running under its new dispatch id although the caller is told that the dispatch
  failed.
\<close>

theorem dispatch_error_after_commit:
  assumes old: "row_by xr_job_id (di_job_id d1) (executions db) = Some r" "xr_status r = ''completed''"
    and ok: "dispatchable_batch (execution_queue_names db) (executions db) [d2]"
    and two: "di_job_id d1 \<noteq> di_job_id d2"
  shows "\<exists>db' r'. dispatch_batch None now [d1, d2] db =
      (Inl (Internal (''dispatch did not produce an execution for job '' @ show_int (di_job_id d1))), db') \<and>
     row_by xr_job_id (di_job_id d2) (executions db') = Some r' \<and>
     xr_status r' = ''running'' \<and> xr_dispatch_id r' = di_dispatch_id d2"
proof -
  from upsert_execution_ok [OF ok, of now] obtain rows' i where
    up: "upsert_execution now (execution_queue_names db) d2 (executions db) =
       Inr (rows', Some (launched now d2 (row_by xr_job_id (di_job_id d2) (executions db)) i))"
    and lk: "row_by xr_job_id (di_job_id d2) rows' =
       Some (launched now d2 (row_by xr_job_id (di_job_id d2) (executions db)) i)" by auto
  let ?r = "launched now d2 (row_by xr_job_id (di_job_id d2) (executions db)) i"
  have skip: "upsert_execution now (execution_queue_names db) d1 (executions db) = Inr (executions db, None)"
    using old by (simp add: upsert_execution_def Let_def)
  have "u32_try_from (xr_execution_count ?r) \<noteq> None"
    using ok by (auto simp: dispatchable_batch_def dispatchable_def launched_def u32_try_from_def split: option.splits)
  then have "\<exists>m. dispatch_chunks now (execution_queue_names db) [[d1, d2]] (executions db) Map.empty = Inr (rows', m) \<and>
      m (di_job_id d1) = None"
    using up skip two by (auto simp: Let_def)
  moreover have "xr_status ?r = ''running''" "xr_dispatch_id ?r = di_dispatch_id d2"
    by (simp_all add: launched_def split: option.split)
  ultimately show ?thesis
    using lk by (auto simp: dispatch_batch_def chunks_short ROWS_PER_STATEMENT_def)
qed

theorem dispatch_error_after_commit_witness:
  "\<exists>db' r'. dispatch_batch None 60
      [\<lparr>di_job_id = 3, di_queue_name = ''mail'', di_dispatch_id = ''d3'', di_lease_expires_at = 200\<rparr>,
       \<lparr>di_job_id = 9, di_queue_name = ''mail'', di_dispatch_id = ''d9'', di_lease_expires_at = 200\<rparr>] sample_results =
      (Inl (Internal (''dispatch did not produce an execution for job '' @ show_int 3)), db') \<and>
     row_by xr_job_id 9 (executions db') = Some r' \<and>
     xr_status r' = ''running'' \<and> xr_dispatch_id r' = ''d9''"
proof -
  let ?d3 = "\<lparr>di_job_id = 3, di_queue_name = ''mail'', di_dispatch_id = ''d3'', di_lease_expires_at = 200\<rparr>"
  let ?d9 = "\<lparr>di_job_id = 9, di_queue_name = ''mail'', di_dispatch_id = ''d9'', di_lease_expires_at = 200\<rparr>"
  have "dispatchable_batch (execution_queue_names sample_results) (executions sample_results) [?d9]"
    using sample_results_wf
    by (simp add: dispatchable_batch_def dispatchable_def results_wf_def sample_results_defs
        i64_max_def execution_queue_names_def)
  from dispatch_error_after_commit [OF _ _ this, of ?d3 "sample_exec 3 ''completed'' 1 None ''c'' (Some [7]) None" 60]
  show ?thesis by (simp add: sample_results_defs)
qed

end
