(* ===== verification/Maq_Store.thy ===== *)
theory Maq_Store
  imports Maq_Executions
begin

text \<open>
  The durable store (\<open>crates/persistence/src/sqlite/store.rs\<close>): the implementation of the engine's
  \<open>DurableStore\<close> port on the two databases. Every call of a writer handle
  (\<open>IngestHandle\<close>, \<open>ResultsHandle\<close>) is one request handled by that writer; a store operation
  makes several such calls one after the other, and the \<open>n\<close>-th call runs under the \<open>n\<close>-th
  element of a sequence of environments, so every call may fail on its own.
\<close>

section \<open>Writer handles\<close>

record Store =
  st_ingest :: IngestDb
  st_names :: "string set"
  st_results :: ResultsDb

fun take_reply :: "(nat \<times> 'r) list \<Rightarrow> 'r option" where
  "take_reply [] = None"
| "take_reply ((_, r) # _) = Some r"

definition ingest_call :: "env \<Rightarrow> (nat \<Rightarrow> IngestRequest) \<Rightarrow> Store \<Rightarrow> IngestReply option \<times> Store" where
  "ingest_call E build st =
     (let (db, names, replies) = ingest_handle E (build 0) (st_names st) (st_ingest st)
      in (take_reply replies, st\<lparr>st_ingest := db, st_names := names\<rparr>))"

definition results_call :: "env \<Rightarrow> (nat \<Rightarrow> ResultsRequest) \<Rightarrow> Store \<Rightarrow> ResultsReply option \<times> Store" where
  "results_call E build st =
     (let (db, replies) = results_handle E (build 0) (st_results st)
      in (take_reply replies, st\<lparr>st_results := db\<rparr>))"

definition ingest_dropped :: StoreError where
  "ingest_dropped = Internal ''ingest writer dropped reply''"

definition results_dropped :: StoreError where
  "results_dropped = Internal ''results writer dropped reply''"

definition ingest_h_upsert_queue :: "env \<Rightarrow> JobQueue \<Rightarrow> Store \<Rightarrow> (StoreError + JobQueue) \<times> Store" where
  "ingest_h_upsert_queue E queue st =
     (let (r, st') = ingest_call E (ReqUpsertQueue queue) st
      in (case r of Some (RepQueue x) \<Rightarrow> x | _ \<Rightarrow> Inl ingest_dropped, st'))"

definition ingest_h_enqueue :: "env \<Rightarrow> AcceptedJob \<Rightarrow> Store \<Rightarrow> (StoreError + AcceptedJob) \<times> Store" where
  "ingest_h_enqueue E job st =
     (let (r, st') = ingest_call E (ReqEnqueue job) st
      in (case r of Some (RepAccepted x) \<Rightarrow> x | _ \<Rightarrow> Inl ingest_dropped, st'))"

definition ingest_h_claim_batch :: "env \<Rightarrow> string \<Rightarrow> nat \<Rightarrow> Store \<Rightarrow> (StoreError + IngestClaimed list) \<times> Store" where
  "ingest_h_claim_batch E queue limit st =
     (let (r, st') = ingest_call E (ReqClaimBatch queue limit) st
      in (case r of Some (RepClaimed x) \<Rightarrow> x | _ \<Rightarrow> Inl ingest_dropped, st'))"

definition ingest_h_repend :: "env \<Rightarrow> i64 \<Rightarrow> string \<Rightarrow> Store \<Rightarrow> (StoreError + unit) \<times> Store" where
  "ingest_h_repend E jid dispatch_id st =
     (let (r, st') = ingest_call E (ReqRepend jid dispatch_id) st
      in (case r of Some (RepUnit x) \<Rightarrow> x | _ \<Rightarrow> Inl ingest_dropped, st'))"

definition ingest_h_cleanup :: "env \<Rightarrow> i64 \<Rightarrow> Store \<Rightarrow> (StoreError + nat) \<times> Store" where
  "ingest_h_cleanup E cutoff st =
     (let (r, st') = ingest_call E (ReqCleanup cutoff) st
      in (case r of Some (RepCount x) \<Rightarrow> x | _ \<Rightarrow> Inl ingest_dropped, st'))"

definition ingest_h_vacuum :: "env \<Rightarrow> Store \<Rightarrow> (StoreError + unit) \<times> Store" where
  "ingest_h_vacuum E st =
     (let (r, st') = ingest_call E ReqVacuum st
      in (case r of Some (RepUnit x) \<Rightarrow> x | _ \<Rightarrow> Inl ingest_dropped, st'))"

definition results_h_upsert_queue :: "env \<Rightarrow> JobQueue \<Rightarrow> Store \<Rightarrow> (StoreError + JobQueue) \<times> Store" where
  "results_h_upsert_queue E queue st =
     (let (r, st') = results_call E (RReqUpsertQueue queue) st
      in (case r of Some (RRepQueue x) \<Rightarrow> x | _ \<Rightarrow> Inl results_dropped, st'))"

definition results_h_dispatch ::
  "env \<Rightarrow> DispatchInsert list \<Rightarrow> Store \<Rightarrow> (StoreError + DispatchedExecution list) \<times> Store" where
  "results_h_dispatch E rows st =
     (let (r, st') = results_call E (RReqDispatch rows) st
      in (case r of Some (RRepDispatched x) \<Rightarrow> x | _ \<Rightarrow> Inl results_dropped, st'))"

definition results_h_complete ::
  "env \<Rightarrow> i64 \<Rightarrow> string \<Rightarrow> JobOutcome \<Rightarrow> Store \<Rightarrow> (StoreError + CompletionDisposition) \<times> Store" where
  "results_h_complete E jid dispatch_id outcome st =
     (let (r, st') = results_call E (RReqComplete jid dispatch_id outcome) st
      in (case r of Some (RRepDisposition x) \<Rightarrow> x | _ \<Rightarrow> Inl results_dropped, st'))"

definition results_h_abandon :: "env \<Rightarrow> i64 \<Rightarrow> string \<Rightarrow> Store \<Rightarrow> (StoreError + unit) \<times> Store" where
  "results_h_abandon E jid dispatch_id st =
     (let (r, st') = results_call E (RReqAbandon jid dispatch_id) st
      in (case r of Some (RRepUnit x) \<Rightarrow> x | _ \<Rightarrow> Inl results_dropped, st'))"

definition results_h_recover_stale :: "env \<Rightarrow> i64 \<Rightarrow> Store \<Rightarrow> (StoreError + RecoveredStale list) \<times> Store" where
  "results_h_recover_stale E now st =
     (let (r, st') = results_call E (RReqRecoverStale now) st
      in (case r of Some (RRepRecovered x) \<Rightarrow> x | _ \<Rightarrow> Inl results_dropped, st'))"

definition results_h_cleanup :: "env \<Rightarrow> i64 \<Rightarrow> Store \<Rightarrow> (StoreError + nat) \<times> Store" where
  "results_h_cleanup E cutoff st =
     (let (r, st') = results_call E (RReqCleanup cutoff) st
      in (case r of Some (RRepCount x) \<Rightarrow> x | _ \<Rightarrow> Inl results_dropped, st'))"

definition results_h_vacuum :: "env \<Rightarrow> Store \<Rightarrow> (StoreError + unit) \<times> Store" where
  "results_h_vacuum E st =
     (let (r, st') = results_call E RReqVacuum st
      in (case r of Some (RRepUnit x) \<Rightarrow> x | _ \<Rightarrow> Inl results_dropped, st'))"

section \<open>Store operations\<close>

definition accepted_row :: "env \<Rightarrow> i64 \<Rightarrow> Store \<Rightarrow> StoreError + AcceptedJob" where
  "accepted_row E jid st = read_accepted_job (env_io E 0) jid (st_ingest st)"

definition execution_row :: "env \<Rightarrow> i64 \<Rightarrow> Store \<Rightarrow> StoreError + Execution option" where
  "execution_row E jid st = read_execution (env_io E 0) jid (st_results st)"

definition merge_job :: "AcceptedJob \<Rightarrow> Execution option \<Rightarrow> Job" where
  "merge_job accepted execution = from_accepted accepted execution"

definition composed_job :: "(nat \<Rightarrow> env) \<Rightarrow> i64 \<Rightarrow> Store \<Rightarrow> StoreError + Job" where
  "composed_job Es jid st =
     (case accepted_row (Es 0) jid st of
        Inl e \<Rightarrow> Inl e
      | Inr accepted \<Rightarrow>
          (case execution_row (Es 1) jid st of
             Inl e \<Rightarrow> Inl e
           | Inr execution \<Rightarrow> Inr (merge_job accepted execution)))"

definition job_from_claimed :: "IngestClaimed \<Rightarrow> DispatchedExecution \<Rightarrow> Job" where
  "job_from_claimed claimed dispatched =
     \<lparr>job_id = ic_id claimed, job_name = ic_name claimed, job_status = Running,
      job_payload = ic_payload claimed, job_execution_count = de_execution_count dispatched,
      job_lease_expires_at = Some (de_lease_expires_at dispatched),
      job_dispatch_id = Some (de_dispatch_id dispatched), job_result_payload = None,
      job_result_error = None, job_created_at = ic_created_at claimed,
      job_updated_at = de_updated_at dispatched\<rparr>"

definition dispatch_insert_of :: "i64 \<Rightarrow> IngestClaimed \<Rightarrow> DispatchInsert" where
  "dispatch_insert_of claimed_at row =
     \<lparr>di_job_id = ic_id row, di_queue_name = ic_name row, di_dispatch_id = ic_dispatch_id row,
      di_lease_expires_at =
        i64_saturating_add claimed_at (i64_saturating_mul (u64_as_i64 (ic_timeout_secs row)) 1000)\<rparr>"

fun repend_claimed :: "(nat \<Rightarrow> env) \<Rightarrow> IngestClaimed list \<Rightarrow> Store \<Rightarrow> Store" where
  "repend_claimed Es [] st = st"
| "repend_claimed Es (row # rows) st =
     repend_claimed (\<lambda>n. Es (Suc n)) rows (snd (ingest_h_repend (Es 0) (ic_id row) (ic_dispatch_id row) st))"

definition claim_batch_inner ::
  "(nat \<Rightarrow> env) \<Rightarrow> string \<Rightarrow> nat \<Rightarrow> Store \<Rightarrow> (StoreError + Job list) \<times> Store" where
  "claim_batch_inner Es queue_name limit st =
     (let (r, st1) = ingest_h_claim_batch (Es 0) queue_name limit st in
      case r of
        Inl e \<Rightarrow> (Inl e, st1)
      | Inr claimed \<Rightarrow>
          if claimed = [] then (Inr [], st1)
          else
            let claimed_at = env_clock (Es 1) 1;
                (d, st2) = results_h_dispatch (Es 1) (map (dispatch_insert_of claimed_at) claimed) st1
            in case d of
                 Inr dispatched \<Rightarrow>
                   (Inr (map (\<lambda>(c, d). job_from_claimed c d) (zip claimed dispatched)), st2)
               | Inl err \<Rightarrow> (Inl err, repend_claimed (\<lambda>n. Es (2 + n)) claimed st2))"

definition claim_batch :: "(nat \<Rightarrow> env) \<Rightarrow> string \<Rightarrow> nat \<Rightarrow> Store \<Rightarrow> (StoreError + Job list) \<times> Store" where
  "claim_batch Es queue_name limit st = claim_batch_inner Es queue_name limit st"

definition claim_next :: "(nat \<Rightarrow> env) \<Rightarrow> string \<Rightarrow> Store \<Rightarrow> (StoreError + Job option) \<times> Store" where
  "claim_next Es queue_name st =
     (let (r, st') = claim_batch Es queue_name 1 st
      in (case r of Inl e \<Rightarrow> Inl e | Inr jobs \<Rightarrow> Inr (if jobs = [] then None else Some (last jobs)), st'))"

definition store_cleanup :: "(nat \<Rightarrow> env) \<Rightarrow> i64 \<Rightarrow> Store \<Rightarrow> (StoreError + nat) \<times> Store" where
  "store_cleanup Es cutoff st =
     (let (r, st1) = ingest_h_cleanup (Es 0) cutoff st in
      case r of
        Inl e \<Rightarrow> (Inl e, st1)
      | Inr a \<Rightarrow>
          (let (r', st2) = results_h_cleanup (Es 1) cutoff st1 in
           case r' of Inl e \<Rightarrow> (Inl e, st2) | Inr b \<Rightarrow> (Inr (a + b), st2)))"

text \<open>\<open>last_vacuum_run\<close> unwraps the parsed number: \<open>None\<close> is its panic.\<close>

definition last_vacuum_run :: "env \<Rightarrow> Store \<Rightarrow> (StoreError + i64 option) option" where
  "last_vacuum_run E st =
     (case read_meta (env_io E 0) ''last_vacuum_run'' (st_ingest st) of
        Inl e \<Rightarrow> Some (Inl e)
      | Inr None \<Rightarrow> Some (Inr None)
      | Inr (Some v) \<Rightarrow> (case parse_i64 v of None \<Rightarrow> None | Some i \<Rightarrow> Some (Inr (Some i))))"

definition store_vacuum :: "(nat \<Rightarrow> env) \<Rightarrow> Store \<Rightarrow> (StoreError + unit) \<times> Store" where
  "store_vacuum Es st =
     (let (r, st1) = results_h_vacuum (Es 0) st in
      case r of Inl e \<Rightarrow> (Inl e, st1) | Inr _ \<Rightarrow> ingest_h_vacuum (Es 1) st1)"

definition upsert_queue :: "(nat \<Rightarrow> env) \<Rightarrow> JobQueue \<Rightarrow> Store \<Rightarrow> (StoreError + JobQueue) \<times> Store" where
  "upsert_queue Es queue st =
     (let (r, st1) = ingest_h_upsert_queue (Es 0) queue st in
      case r of
        Inl e \<Rightarrow> (Inl e, st1)
      | Inr q \<Rightarrow>
          (let (r', st2) = results_h_upsert_queue (Es 1) q st1 in
           case r' of Inl e \<Rightarrow> (Inl e, st2) | Inr _ \<Rightarrow> (Inr q, st2)))"

definition get_queue :: "env \<Rightarrow> string \<Rightarrow> Store \<Rightarrow> StoreError + JobQueue option" where
  "get_queue E name st = read_queue (env_io E 0) name (st_ingest st)"

definition list_queues :: "env \<Rightarrow> Store \<Rightarrow> StoreError + JobQueue list" where
  "list_queues E st = read_queues (env_io E 0) (st_ingest st)"

definition store_enqueue :: "env \<Rightarrow> AcceptedJob \<Rightarrow> Store \<Rightarrow> (StoreError + AcceptedJob) \<times> Store" where
  "store_enqueue E job st = ingest_h_enqueue E job st"

definition get_job :: "(nat \<Rightarrow> env) \<Rightarrow> i64 \<Rightarrow> Store \<Rightarrow> StoreError + Job" where
  "get_job Es jid st = composed_job Es jid st"

definition store_status :: "(nat \<Rightarrow> env) \<Rightarrow> i64 \<Rightarrow> Store \<Rightarrow> StoreError + ExecutionStatus" where
  "store_status Es jid st =
     (case composed_job Es jid st of Inl e \<Rightarrow> Inl e | Inr job \<Rightarrow> Inr (job_status job))"

definition complete ::
  "(nat \<Rightarrow> env) \<Rightarrow> i64 \<Rightarrow> string \<Rightarrow> JobOutcome \<Rightarrow> Store \<Rightarrow> (StoreError + Job option) \<times> Store" where
  "complete Es jid dispatch_id outcome st =
     (let (r, st1) = results_h_complete (Es 0) jid dispatch_id outcome st in
      case r of
        Inl e \<Rightarrow> (Inl e, st1)
      | Inr disp \<Rightarrow>
          if disp = Ignored then (Inr None, st1)
          else
            let (r', st2) = (if disp = Repend then ingest_h_repend (Es 1) jid dispatch_id st1
                             else (Inr (), st1))
            in case r' of
                 Inl e \<Rightarrow> (Inl e, st2)
               | Inr _ \<Rightarrow>
                   (case composed_job (\<lambda>n. Es (2 + n)) jid st2 of
                      Inl e \<Rightarrow> (Inl e, st2)
                    | Inr job \<Rightarrow> (Inr (Some job), st2)))"

definition complete_worker_result ::
  "(nat \<Rightarrow> env) \<Rightarrow> i64 \<Rightarrow> string \<Rightarrow> JobOutcome \<Rightarrow> Store \<Rightarrow> (StoreError + bool) \<times> Store" where
  "complete_worker_result Es jid dispatch_id outcome st =
     (let (r, st1) = results_h_complete (Es 0) jid dispatch_id outcome st in
      case r of
        Inl e \<Rightarrow> (Inl e, st1)
      | Inr disp \<Rightarrow>
          if disp = Repend then
            let (r', st2) = ingest_h_repend (Es 1) jid dispatch_id st1
            in (case r' of Inl e \<Rightarrow> (Inl e, st2) | Inr _ \<Rightarrow> (Inr True, st2))
          else (Inr False, st1))"

definition release_claim :: "(nat \<Rightarrow> env) \<Rightarrow> i64 \<Rightarrow> string \<Rightarrow> Store \<Rightarrow> (StoreError + bool) \<times> Store" where
  "release_claim Es jid dispatch_id st =
     (case accepted_row (Es 0) jid st of
        Inl e \<Rightarrow> (Inl e, st)
      | Inr accepted \<Rightarrow>
          if aj_dispatch_id accepted \<noteq> Some dispatch_id then (Inr False, st)
          else
            let (r, st1) = results_h_abandon (Es 1) jid dispatch_id st in
            case r of
              Inl e \<Rightarrow> (Inl e, st1)
            | Inr _ \<Rightarrow>
                (let (r', st2) = ingest_h_repend (Es 2) jid dispatch_id st1
                 in case r' of Inl e \<Rightarrow> (Inl e, st2) | Inr _ \<Rightarrow> (Inr True, st2)))"

fun recover_items ::
  "(nat \<Rightarrow> env) \<Rightarrow> RecoveredStale list \<Rightarrow> Store \<Rightarrow> (StoreError + Job list) \<times> Store" where
  "recover_items Es [] st = (Inr [], st)"
| "recover_items Es (item # items) st =
     (let (r, st1) = (if rs_should_repend item
                      then ingest_h_repend (Es 0) (rs_job_id item) (rs_dispatch_id item) st
                      else (Inr (), st))
      in case r of
           Inl e \<Rightarrow> (Inl e, st1)
         | Inr _ \<Rightarrow>
             (case composed_job (\<lambda>n. Es (1 + n)) (rs_job_id item) st1 of
                Inl e \<Rightarrow> (Inl e, st1)
              | Inr job \<Rightarrow>
                  (let (rest, st2) = recover_items (\<lambda>n. Es (3 + n)) items st1
                   in (case rest of Inl e \<Rightarrow> Inl e | Inr jobs \<Rightarrow> Inr (job # jobs), st2))))"

definition recover_stale_leases :: "(nat \<Rightarrow> env) \<Rightarrow> i64 \<Rightarrow> Store \<Rightarrow> (StoreError + Job list) \<times> Store" where
  "recover_stale_leases Es now st =
     (let (r, st1) = results_h_recover_stale (Es 0) now st in
      case r of
        Inl e \<Rightarrow> (Inl e, st1)
      | Inr recovered \<Rightarrow> recover_items (\<lambda>n. Es (1 + n)) recovered st1)"

section \<open>Opening the store\<close>

text \<open>
  \<open>heal_orphan_claims\<close> (common.rs): every claim whose dispatch id no execution carries is
  reopened, one statement per claim.
\<close>

fun heal_orphans ::
  "(nat \<Rightarrow> env) \<Rightarrow> (i64 \<times> string) list \<Rightarrow> ResultsDb \<Rightarrow> IngestDb \<Rightarrow> (StoreError + unit) \<times> IngestDb" where
  "heal_orphans Es [] rdb idb = (Inr (), idb)"
| "heal_orphans Es ((jid, d) # rest) rdb idb =
     (case env_io (Es 0) 0 of
        Some e \<Rightarrow> (Inl (Internal e), idb)
      | None \<Rightarrow>
          if filter (\<lambda>r. xr_dispatch_id r = d) (executions rdb) = [] then
            case env_io (Es 0) 1 of
              Some e \<Rightarrow> (Inl (Internal e), idb)
            | None \<Rightarrow>
                heal_orphans (\<lambda>n. Es (Suc n)) rest rdb
                  (idb\<lparr>accepted_jobs := update_where (repend_guard (jid, d)) (repend_upd (env_clock (Es 0) 0))
                                          (accepted_jobs idb)\<rparr>)
          else heal_orphans (\<lambda>n. Es (Suc n)) rest rdb idb)"

definition heal_orphan_claims :: "(nat \<Rightarrow> env) \<Rightarrow> IngestDb \<Rightarrow> ResultsDb \<Rightarrow> (StoreError + unit) \<times> IngestDb" where
  "heal_orphan_claims Es idb rdb =
     (case env_io (Es 0) 0 of
        Some e \<Rightarrow> (Inl (Internal e), idb)
      | None \<Rightarrow>
          heal_orphans (\<lambda>n. Es (Suc n))
            (List.map_filter (\<lambda>r. map_option (\<lambda>d. (aj_id r, d)) (aj_dispatch_id r)) (accepted_jobs idb)) rdb idb)"

text \<open>\<open>open_with_options_pair\<close> on existing databases: the writer caches the stored queue names.\<close>

definition open_store :: "(nat \<Rightarrow> env) \<Rightarrow> IngestDb \<Rightarrow> ResultsDb \<Rightarrow> StoreError + Store" where
  "open_store Es idb rdb =
     (let names = queue_names idb; (r, idb') = heal_orphan_claims Es idb rdb
      in case r of
           Inl e \<Rightarrow> Inl e
         | Inr _ \<Rightarrow> Inr \<lparr>st_ingest = idb', st_names = names, st_results = rdb\<rparr>)"

end
