(* ===== verification/Maq_Store_Spec.thy ===== *)
theory Maq_Store_Spec
  imports Maq_Store
begin

text \<open>
  What the durable store promises: the invariant that every operation keeps (\<open>store_wf\<close>, both
  databases well-formed), the link between the two databases (\<open>linked\<close>), the view a caller has of a
  job (\<open>view\<close>) and the life of a job as an abstract step relation (\<open>job_step\<close>). For every operation
  of the store it is shown that without database failures it keeps the link and that its effect
  on the view of every job is a path of the abstract relation (\<open>refines\<close>).
\<close>

section \<open>Well-formed and linked stores\<close>

definition acc :: "Store \<Rightarrow> i64 \<Rightarrow> AcceptedJob option" where
  "acc st j = row_by aj_id j (accepted_jobs (st_ingest st))"

definition exe :: "Store \<Rightarrow> i64 \<Rightarrow> ExecRow option" where
  "exe st j = row_by xr_job_id j (executions (st_results st))"

definition store_wf :: "Store \<Rightarrow> bool" where
  "store_wf st \<longleftrightarrow> ingest_wf (st_names st) (st_ingest st) \<and> results_wf (st_results st)"

text \<open>
  The two databases agree: an open job has no execution or a failed one, a claimed job has an
  execution under the claim's dispatch id, and no execution lacks its job.
\<close>

definition linked_job :: "AcceptedJob option \<Rightarrow> ExecRow option \<Rightarrow> bool" where
  "linked_job a x \<longleftrightarrow>
     (case a of
        None \<Rightarrow> x = None
      | Some r \<Rightarrow>
          (case x of
             None \<Rightarrow> aj_dispatch_id r = None
           | Some e \<Rightarrow>
               xr_queue_name e = aj_queue_name r \<and>
               (case aj_dispatch_id r of
                  None \<Rightarrow> xr_status e = ''failed''
                | Some d \<Rightarrow> xr_dispatch_id e = d)))"

definition linked :: "Store \<Rightarrow> bool" where
  "linked st \<longleftrightarrow>
     (\<forall>j. linked_job (acc st j) (exe st j)) \<and>
     queue_names (st_ingest st) \<subseteq> execution_queue_names (st_results st)"

text \<open>What a caller sees of a job: its status and the number of attempts.\<close>

definition job_view :: "AcceptedJob option \<Rightarrow> ExecRow option \<Rightarrow> (ExecutionStatus \<times> i64) option" where
  "job_view a x =
     (case a of
        None \<Rightarrow> None
      | Some r \<Rightarrow>
          Some (case x of
                  None \<Rightarrow> (Pending, 0)
                | Some e \<Rightarrow>
                    (if xr_status e = ''failed'' \<and> aj_dispatch_id r = None then Pending
                     else the (parse_status (xr_status e)), xr_execution_count e)))"

definition view :: "Store \<Rightarrow> i64 \<Rightarrow> (ExecutionStatus \<times> i64) option" where
  "view st j = job_view (acc st j) (exe st j)"

definition fault_free :: "(nat \<Rightarrow> env) \<Rightarrow> bool" where
  "fault_free Es \<longleftrightarrow> (\<forall>n. env_io (Es n) = (\<lambda>_. None))"

lemma fault_free_io [simp]: "fault_free Es \<Longrightarrow> env_io (Es n) k = None"
  by (simp add: fault_free_def)

lemma fault_free_shift [simp]: "fault_free Es \<Longrightarrow> fault_free (\<lambda>n. Es (f n))"
  by (simp add: fault_free_def)

section \<open>Single calls that succeed\<close>

lemma repend_call:
  assumes "env_io E 0 = None"
  shows "ingest_h_repend E j d st =
    (Inr (), st\<lparr>st_ingest := (st_ingest st)\<lparr>accepted_jobs :=
       update_where (repend_guard (j, d)) (repend_upd (env_clock E 0)) (accepted_jobs (st_ingest st))\<rparr>\<rparr>)"
  using assms by (simp add: ingest_h_repend_def ingest_call_def ingest_repend_eq)

lemma abandon_call:
  assumes "env_io E 0 = None"
  shows "results_h_abandon E j d st =
    (Inr (), st\<lparr>st_results := (st_results st)\<lparr>executions :=
       update_where (running_guard (j, d)) (set_failed (''abandoned'', env_clock E 0)) (executions (st_results st))\<rparr>\<rparr>)"
  using assms by (simp add: results_h_abandon_def results_call_def abandon_def)

definition result_of :: "i64 \<Rightarrow> string \<Rightarrow> JobOutcome \<Rightarrow> PendingCompletion" where
  "result_of j d oc = \<lparr>pc_job_id = j, pc_dispatch_id = d, pc_outcome = oc, pc_reply = 0\<rparr>"

lemma complete_call:
  assumes "env_io E 0 = None" and "results_wf (st_results st)"
  shows "results_h_complete E j d oc st =
    (Inr (disposition (execution_queues (st_results st)) (executions (st_results st)) (result_of j d oc)),
     st\<lparr>st_results := (st_results st)\<lparr>executions :=
       settle_one (env_clock E 0) (result_of j d oc) (executions (st_results st))\<rparr>\<rparr>)"
  using assms complete_batch_eq [OF assms(2), of "[result_of j d oc]" "env_pick E" "env_clock E 0"]
  by (simp add: results_h_complete_def results_call_def result_of_def)

lemma recover_call:
  assumes "env_io E 0 = None" and "env_io E 1 = None" and "results_wf (st_results st)"
  shows "results_h_recover_stale E now st =
    (Inr (map (recovered_row (st_results st)) (filter (is_stale now) (executions (st_results st)))),
     st\<lparr>st_results := (st_results st)\<lparr>executions := map (expire now) (executions (st_results st))\<rparr>\<rparr>)"
  using assms recover_stale_eq [OF assms(3), of "env_pick E" now]
  by (simp add: results_h_recover_stale_def results_call_def)

lemma row_by_repend:
  "row_by aj_id k (update_where (repend_guard (j, d)) (repend_upd now) rows) =
     (if k = j then map_option (\<lambda>r. if aj_dispatch_id r = Some d then repend_upd now r else r) (row_by aj_id j rows)
      else row_by aj_id k rows)"
  using row_by_Some [of aj_id k rows]
  by (cases "row_by aj_id k rows") (auto simp: repend.lookup repend_guard_def)

lemma row_by_guarded:
  assumes "\<And>r. xr_job_id (f r) = xr_job_id r"
  shows "row_by xr_job_id k (update_where (running_guard (j, d)) f rows) =
     (if k = j then map_option (\<lambda>r. if running_guard (j, d) r then f r else r) (row_by xr_job_id j rows)
      else row_by xr_job_id k rows)"
  using row_by_Some [of xr_job_id k rows] row_by_update_where [of xr_job_id f k "running_guard (j, d)" rows] assms
  by (cases "row_by xr_job_id k rows") (auto simp: running_guard_def)

lemma find_running:
  assumes "distinct (map xr_job_id rows)"
  shows "find (running_guard (j, d)) rows =
     (case row_by xr_job_id j rows of None \<Rightarrow> None | Some r \<Rightarrow> if running_guard (j, d) r then Some r else None)"
  using assms
proof (induction rows)
  case (Cons r rows)
  show ?case
  proof (cases "xr_job_id r = j")
    case True
    then have "find (running_guard (j, d)) rows = None"
      using Cons.prems by (auto simp: find_None_iff running_guard_def dest: image_eqI [OF sym])
    with True show ?thesis by simp
  next
    case False
    then have "\<not> running_guard (j, d) r" by (simp add: running_guard_def)
    with False Cons show ?thesis by simp
  qed
qed simp

section \<open>The life of a job\<close>

text \<open>
  The abstract life of a job, for a queue with \<open>m\<close> retries: submitted, claimed (one more
  attempt), completed, reopened for another attempt, or failed for good once the attempts
  exceed the retries. Nothing leaves Completed or Failed.
\<close>

inductive job_step :: "i64 \<Rightarrow> (ExecutionStatus \<times> i64) option \<Rightarrow> (ExecutionStatus \<times> i64) option \<Rightarrow> bool"
  for m :: i64 where
  submit: "job_step m None (Some (Pending, 0))"
| claim: "job_step m (Some (Pending, n)) (Some (Running, n + 1))"
| succeed: "job_step m (Some (Running, n)) (Some (Completed, n))"
| reopen: "job_step m (Some (Running, n)) (Some (Pending, n))"
| exhaust: "m < n \<Longrightarrow> job_step m (Some (Running, n)) (Some (Failed, n))"

inductive_cases job_step_completedE: "job_step m (Some (Completed, n)) v"
inductive_cases job_step_failedE: "job_step m (Some (Failed, n)) v"

lemma job_step_terminal: "s \<in> {Completed, Failed} \<Longrightarrow> \<not> job_step m (Some (s, n)) v"
  by (auto elim: job_step_completedE job_step_failedE)

definition retries :: "Store \<Rightarrow> i64 \<Rightarrow> i64" where
  "retries st j = (case exe st j of None \<Rightarrow> 0 | Some e \<Rightarrow> qr_max_retries (queue_of (st_results st) e))"

definition refines :: "Store \<Rightarrow> Store \<Rightarrow> bool" where
  "refines st st' \<longleftrightarrow> (\<forall>j. view st' j = view st j \<or> job_step (retries st j) (view st j) (view st' j))"

lemma linked_running:
  assumes "linked st" and "exe st j = Some e" and "running_guard (j, d) e"
  shows "\<exists>r. acc st j = Some r \<and> aj_dispatch_id r = Some d"
proof -
  have "linked_job (acc st j) (Some e)" using assms(1,2) by (metis linked_def)
  with assms(3) show ?thesis
    by (auto simp: linked_job_def running_guard_def split: option.splits)
qed

lemma store_wf_exe:
  assumes "store_wf st" and "exe st j = Some e"
  shows "e \<in> set (executions (st_results st))" "xr_job_id e = j"
    "row_by qr_name (xr_queue_name e) (execution_queues (st_results st)) = Some (queue_of (st_results st) e)"
    "exec_row_ok (execution_queue_names (st_results st)) e" "xr_execution_count e < 4294967296"
proof -
  show e: "e \<in> set (executions (st_results st))" "xr_job_id e = j"
    using row_by_Some [OF assms(2) [unfolded exe_def]] by simp_all
  have wf: "results_wf (st_results st)" using assms(1) by (simp add: store_wf_def)
  show "row_by qr_name (xr_queue_name e) (execution_queues (st_results st)) = Some (queue_of (st_results st) e)"
    by (rule results_wf_queue_of(1) [OF wf e(1)])
  show "exec_row_ok (execution_queue_names (st_results st)) e" "xr_execution_count e < 4294967296"
    using wf e(1) by (auto simp: results_wf_def exec_rows_wf_def list_all_iff)
qed

definition end_job :: "i64 \<Rightarrow> ExecRow option \<Rightarrow> AcceptedJob option \<Rightarrow> Store \<Rightarrow> Store \<Rightarrow> bool" where
  "end_job j x a st st' \<longleftrightarrow>
     (\<forall>k. acc st' k = (if k = j then a else acc st k)) \<and> (\<forall>k. exe st' k = (if k = j then x else exe st k)) \<and>
     queue_names (st_ingest st') = queue_names (st_ingest st) \<and>
     execution_queue_names (st_results st') = execution_queue_names (st_results st)"

lemma end_job_linked:
  assumes "linked st" and "end_job j x a st st'" and "linked_job a x"
  shows "linked st'"
  using assms by (auto simp: linked_def end_job_def)

lemma end_job_refines:
  assumes "end_job j x a st st'" and "job_view a x = view st j \<or> job_step (retries st j) (view st j) (job_view a x)"
  shows "refines st st'"
  using assms by (auto simp: refines_def end_job_def view_def)

text \<open>The disposition of a result, read off the rows of its job.\<close>

lemma disposition_row:
  assumes wf: "store_wf st"
  shows "disposition (execution_queues (st_results st)) (executions (st_results st)) (result_of j d oc) =
    (case exe st j of
       None \<Rightarrow> Ignored
     | Some e \<Rightarrow>
         if \<not> running_guard (j, d) e then Ignored
         else if is_success oc \<or> retries st j < xr_execution_count e then DispCompleted
         else Repend)"
proof -
  have "distinct (map xr_job_id (executions (st_results st)))"
    using wf by (simp add: store_wf_def results_wf_def exec_rows_wf_def)
  note f = find_running [OF this, of j d, folded exe_def]
  show ?thesis
  proof (cases "exe st j")
    case None
    then show ?thesis using f by (simp add: disposition_def result_of_def pc_key_def)
  next
    case (Some e)
    then show ?thesis
      using f store_wf_exe(3) [OF wf Some] by (auto simp: disposition_def result_of_def pc_key_def retries_def)
  qed
qed

definition ended :: "i64 \<Rightarrow> JobOutcome \<Rightarrow> ExecRow \<Rightarrow> ExecRow" where
  "ended now oc e = settle now (result_of 0 [] oc) e"

lemma settle_result_of: "settle now (result_of j d oc) = ended now oc"
  by (rule ext) (simp add: settle_def ended_def result_of_def)

lemma settle_one_exe:
  "row_by xr_job_id k (settle_one now (result_of j d oc) rows) =
     (if k = j then map_option (\<lambda>r. if running_guard (j, d) r then ended now oc r else r) (row_by xr_job_id j rows)
      else row_by xr_job_id k rows)"
proof -
  have "xr_job_id (ended now oc r) = xr_job_id r" for r by (simp add: ended_def)
  from row_by_guarded [OF this] show ?thesis
    by (simp add: settle_one_def settle_result_of) (simp add: result_of_def pc_key_def)
qed

text \<open>One worker result, by the state of the job's execution.\<close>

lemma complete_worker_result_ok:
  assumes wf: "store_wf st" and ln: "linked st" and ff: "fault_free Es"
  shows "\<exists>st'. complete_worker_result Es j d oc st =
      (Inr (case exe st j of None \<Rightarrow> False
            | Some e \<Rightarrow> running_guard (j, d) e \<and> \<not> is_success oc \<and> xr_execution_count e \<le> retries st j), st') \<and>
    (case exe st j of
       None \<Rightarrow> end_job j None (acc st j) st st'
     | Some e \<Rightarrow>
         if \<not> running_guard (j, d) e then end_job j (Some e) (acc st j) st st'
         else if is_success oc \<or> retries st j < xr_execution_count e then
           end_job j (Some (ended (env_clock (Es 0) 0) oc e)) (acc st j) st st'
         else end_job j (Some (ended (env_clock (Es 0) 0) oc e))
                (map_option (repend_upd (env_clock (Es 1) 0)) (acc st j)) st st')"
proof -
  let ?now = "env_clock (Es 0) 0"
  let ?st1 = "st\<lparr>st_results := (st_results st)\<lparr>executions :=
       settle_one ?now (result_of j d oc) (executions (st_results st))\<rparr>\<rparr>"
  have rwf: "results_wf (st_results st)" using wf by (simp add: store_wf_def)
  note call = complete_call [OF fault_free_io [OF ff] rwf, of 0 j d oc, unfolded disposition_row [OF wf]]
  have x1: "exe ?st1 k = (if k = j then map_option (\<lambda>r. if running_guard (j, d) r then ended ?now oc r else r) (exe st j) else exe st k)"
    and a1: "acc ?st1 k = acc st k" for k
    by (simp_all add: exe_def acc_def settle_one_exe)
  have q1: "queue_names (st_ingest ?st1) = queue_names (st_ingest st)"
    "execution_queue_names (st_results ?st1) = execution_queue_names (st_results st)"
    by (simp_all add: execution_queue_names_def)
  show ?thesis
  proof (cases "\<exists>e. exe st j = Some e \<and> running_guard (j, d) e \<and> \<not> is_success oc \<and> xr_execution_count e \<le> retries st j")
    case False
    have "end_job j (map_option (\<lambda>r. if running_guard (j, d) r then ended ?now oc r else r) (exe st j)) (acc st j) st ?st1"
      unfolding end_job_def using x1 a1 q1 by simp
    with False call show ?thesis
      by (auto simp: complete_worker_result_def split: option.splits if_splits)
  next
    case True
    then obtain e where e: "exe st j = Some e" "running_guard (j, d) e" "\<not> is_success oc" "xr_execution_count e \<le> retries st j"
      by blast
    obtain r where r: "acc st j = Some r" "aj_dispatch_id r = Some d"
      using linked_running [OF ln e(1,2)] by blast
    let ?st2 = "snd (ingest_h_repend (Es 1) j d ?st1)"
    have "acc ?st2 k = (if k = j then Some (repend_upd (env_clock (Es 1) 0) r) else acc st k)" for k
      using r a1 by (simp add: repend_call ff acc_def row_by_repend)
    moreover have "exe ?st2 k = exe ?st1 k" for k
      by (simp add: repend_call ff exe_def)
    ultimately have "end_job j (Some (ended ?now oc e)) (Some (repend_upd (env_clock (Es 1) 0) r)) st ?st2"
      unfolding end_job_def using x1 e
      by (simp add: repend_call ff queue_names_def execution_queue_names_def)
    moreover have "complete_worker_result Es j d oc st = (Inr True, ?st2)"
      using call e by (simp add: complete_worker_result_def repend_call ff)
    ultimately show ?thesis using e r by simp
  qed
qed

section \<open>Every operation keeps the store well formed\<close>

lemma ingest_call_wf: "store_wf st \<Longrightarrow> store_wf (snd (ingest_call E build st))"
  using ingest_handle_keeps_wf [of "st_names st" "st_ingest st" E "build 0"]
  by (auto simp: ingest_call_def store_wf_def split: prod.splits)

lemma results_call_wf: "store_wf st \<Longrightarrow> store_wf (snd (results_call E build st))"
  using results_handle_keeps_wf [of "st_results st" E "build 0"]
  by (auto simp: results_call_def store_wf_def split: prod.splits)

lemma ingest_h_wf:
  assumes "store_wf st"
  shows "store_wf (snd (ingest_h_upsert_queue E q st))" "store_wf (snd (ingest_h_enqueue E job st))"
    "store_wf (snd (ingest_h_claim_batch E queue limit st))" "store_wf (snd (ingest_h_repend E j d st))"
    "store_wf (snd (ingest_h_cleanup E cutoff st))" "store_wf (snd (ingest_h_vacuum E st))"
  using ingest_call_wf [OF assms, of E]
  by (simp_all add: ingest_h_upsert_queue_def ingest_h_enqueue_def ingest_h_claim_batch_def ingest_h_repend_def
      ingest_h_cleanup_def ingest_h_vacuum_def case_prod_unfold Let_def)

lemma results_h_wf:
  assumes "store_wf st"
  shows "store_wf (snd (results_h_upsert_queue E q st))" "store_wf (snd (results_h_dispatch E rows st))"
    "store_wf (snd (results_h_complete E j d oc st))" "store_wf (snd (results_h_abandon E j d st))"
    "store_wf (snd (results_h_recover_stale E now st))" "store_wf (snd (results_h_cleanup E cutoff st))"
    "store_wf (snd (results_h_vacuum E st))"
  using results_call_wf [OF assms, of E]
  by (simp_all add: results_h_upsert_queue_def results_h_dispatch_def results_h_complete_def results_h_abandon_def
      results_h_recover_stale_def results_h_cleanup_def results_h_vacuum_def case_prod_unfold Let_def)

lemma repend_claimed_wf: "store_wf st \<Longrightarrow> store_wf (repend_claimed Es cs st)"
  by (induction Es cs st rule: repend_claimed.induct) (simp_all add: ingest_h_wf)

lemma claim_batch_wf:
  assumes "store_wf st"
  shows "store_wf (snd (claim_batch Es queue limit st))"
  using ingest_h_wf(3) [OF assms, of "Es 0" queue limit] results_h_wf(2) repend_claimed_wf
  by (auto simp: claim_batch_def claim_batch_inner_def Let_def case_prod_unfold split: sum.split)

lemma upsert_queue_wf:
  assumes "store_wf st"
  shows "store_wf (snd (upsert_queue Es q st))"
  using ingest_h_wf(1) [OF assms, of "Es 0" q] results_h_wf(1)
  by (auto simp: upsert_queue_def Let_def case_prod_unfold split: sum.split)

lemma store_enqueue_wf: "store_wf st \<Longrightarrow> store_wf (snd (store_enqueue E job st))"
  by (simp add: store_enqueue_def ingest_h_wf)

lemma complete_wf:
  assumes "store_wf st"
  shows "store_wf (snd (complete Es j d oc st))" "store_wf (snd (complete_worker_result Es j d oc st))"
  using results_h_wf(3) [OF assms, of "Es 0" j d oc] ingest_h_wf(4)
  by (auto simp: complete_def complete_worker_result_def Let_def case_prod_unfold split: sum.split)

lemma release_claim_wf:
  assumes "store_wf st"
  shows "store_wf (snd (release_claim Es j d st))"
  using results_h_wf(4) [OF assms, of "Es 1" j d] ingest_h_wf(4) assms
  by (auto simp: release_claim_def Let_def case_prod_unfold split: sum.split)

lemma recover_items_wf: "store_wf st \<Longrightarrow> store_wf (snd (recover_items Es items st))"
proof (induction items arbitrary: Es st)
  case (Cons item items)
  have "store_wf (snd (if rs_should_repend item then ingest_h_repend (Es 0) (rs_job_id item) (rs_dispatch_id item) st
      else (Inr (), st)))"
    using Cons.prems by (simp add: ingest_h_wf)
  with Cons.IH show ?case by (auto simp: Let_def case_prod_unfold split: sum.split)
qed simp

lemma recover_stale_leases_wf:
  assumes "store_wf st"
  shows "store_wf (snd (recover_stale_leases Es now st))"
  using results_h_wf(5) [OF assms, of "Es 0" now] recover_items_wf
  by (auto simp: recover_stale_leases_def Let_def case_prod_unfold split: sum.split)

lemma store_cleanup_wf:
  assumes "store_wf st"
  shows "store_wf (snd (store_cleanup Es cutoff st))"
  using ingest_h_wf(5) [OF assms, of "Es 0" cutoff] results_h_wf(6)
  by (auto simp: store_cleanup_def Let_def case_prod_unfold split: sum.split)

lemma store_vacuum_wf:
  assumes "store_wf st"
  shows "store_wf (snd (store_vacuum Es st))"
  using results_h_wf(7) [OF assms, of "Es 0"] ingest_h_wf(6)
  by (auto simp: store_vacuum_def Let_def case_prod_unfold split: sum.split)

lemmas store_ops_wf = claim_batch_wf upsert_queue_wf store_enqueue_wf complete_wf release_claim_wf
  recover_stale_leases_wf store_cleanup_wf store_vacuum_wf

section \<open>Reading a job\<close>

lemma composed_job_view:
  assumes wf: "store_wf st" and ff: "fault_free Es"
  shows "case view st j of
      None \<Rightarrow> composed_job Es j st = Inl (NotFound j)
    | Some (s, n) \<Rightarrow> \<exists>job. composed_job Es j st = Inr job \<and> job_id job = j \<and> job_status job = s \<and>
        uint (job_execution_count job) = n"
proof (cases "acc st j")
  case None
  then show ?thesis
    using ff by (simp add: view_def job_view_def composed_job_def accepted_row_def read_accepted_job_def acc_def)
next
  case (Some r)
  have a: "accepted_row (Es 0) j st = Inr r" "aj_id r = j"
    using Some ff row_by_Some [OF Some [unfolded acc_def]] by (simp_all add: accepted_row_def read_accepted_job_def acc_def)
  show ?thesis
  proof (cases "exe st j")
    case None
    then show ?thesis
      using Some a ff
      by (simp add: view_def job_view_def composed_job_def execution_row_def read_execution_def exe_def merge_job_def
          from_accepted_def)
  next
    case e: (Some e)
    from exec_row_ok_readable [OF store_wf_exe(4,5) [OF wf e]] obtain x where
      x: "row_to_execution e = Inr x" "as_str (ex_status x) = xr_status e" "uint (ex_execution_count x) = xr_execution_count e"
      by blast
    have p: "parse_status (xr_status e) = Some (ex_status x)" using x(2) [symmetric] by simp
    have f: "ex_status x = Failed \<longleftrightarrow> xr_status e = ''failed''"
      using x(2) as_str_inj [of "ex_status x" Failed] by auto
    have "composed_job Es j st = Inr (merge_job r (Some x))"
      using a x(1) e ff by (simp add: composed_job_def execution_row_def read_execution_def exe_def)
    then show ?thesis
      using Some a(2) e p f x(3)
      by (simp add: view_def job_view_def merge_job_def) (simp add: from_accepted_def)
  qed
qed

section \<open>Results, releases and expired leases\<close>

lemma linked_at: "linked st \<Longrightarrow> linked_job (acc st j) (exe st j)"
  by (simp add: linked_def)

lemma ended_status:
  "xr_status (ended now oc e) = (if is_success oc then ''completed'' else ''failed'')"
  "xr_dispatch_id (ended now oc e) = xr_dispatch_id e" "xr_queue_name (ended now oc e) = xr_queue_name e"
  "xr_execution_count (ended now oc e) = xr_execution_count e" "xr_job_id (ended now oc e) = xr_job_id e"
  by (cases oc; simp add: ended_def settle_def result_of_def set_completed_def set_failed_def)+

lemma view_running:
  assumes "acc st j = Some r" "exe st j = Some e" "running_guard (j, d) e"
  shows "view st j = Some (Running, xr_execution_count e)"
  using assms by (simp add: view_def job_view_def running_guard_def parse_status_def)

lemma complete_worker_result_refines:
  assumes wf: "store_wf st" and ln: "linked st" and ff: "fault_free Es"
    and eq: "complete_worker_result Es j d oc st = (res, st')"
  shows "linked st' \<and> refines st st'"
proof (cases "\<exists>e. exe st j = Some e \<and> running_guard (j, d) e")
  case False
  with complete_worker_result_ok [OF wf ln ff, of j d oc] eq have "end_job j (exe st j) (acc st j) st st'"
    by (auto split: option.splits if_splits)
  from end_job_linked [OF ln this] end_job_refines [OF this] linked_at [OF ln] show ?thesis
    by (simp add: view_def)
next
  case True
  then obtain e where e: "exe st j = Some e" "running_guard (j, d) e" by blast
  from linked_running [OF ln e] obtain r where r: "acc st j = Some r" "aj_dispatch_id r = Some d" by blast
  note v = view_running [OF r(1) e]
  have q: "xr_queue_name e = aj_queue_name r" "xr_dispatch_id e = d"
    using linked_at [OF ln, of j] e r by (simp_all add: linked_job_def running_guard_def)
  let ?e' = "ended (env_clock (Es 0) 0) oc e"
  show ?thesis
  proof (cases "is_success oc \<or> retries st j < xr_execution_count e")
    case True
    with complete_worker_result_ok [OF wf ln ff, of j d oc] eq e have en: "end_job j (Some ?e') (acc st j) st st'"
      by auto
    have "linked_job (acc st j) (Some ?e')" using r q by (simp add: linked_job_def ended_status)
    moreover have "job_step (retries st j) (view st j) (job_view (acc st j) (Some ?e'))"
      using True r by (auto simp: v job_view_def ended_status parse_status_def intro: job_step.intros)
    ultimately show ?thesis using end_job_linked [OF ln en] end_job_refines [OF en] by blast
  next
    case False
    let ?r' = "repend_upd (env_clock (Es 1) 0) r"
    from False complete_worker_result_ok [OF wf ln ff, of j d oc] eq e r have en: "end_job j (Some ?e') (Some ?r') st st'"
      by auto
    have "linked_job (Some ?r') (Some ?e')" using False q by (simp add: linked_job_def ended_status repend_upd_def)
    moreover have "job_step (retries st j) (view st j) (job_view (Some ?r') (Some ?e'))"
      using False by (auto simp: v job_view_def ended_status repend_upd_def intro: job_step.intros)
    ultimately show ?thesis using end_job_linked [OF ln en] end_job_refines [OF en] by blast
  qed
qed

lemma release_claim_ok:
  assumes wf: "store_wf st" and ln: "linked st" and ff: "fault_free Es"
    and e: "exe st j = Some e" "running_guard (j, d) e"
  shows "\<exists>st'. release_claim Es j d st = (Inr True, st') \<and>
    end_job j (Some (set_failed (''abandoned'', env_clock (Es 1) 0) e))
      (map_option (repend_upd (env_clock (Es 2) 0)) (acc st j)) st st'"
proof -
  from linked_running [OF ln e] obtain r where r: "acc st j = Some r" "aj_dispatch_id r = Some d" by blast
  have a: "accepted_row (Es 0) j st = Inr r"
    using r ff by (simp add: accepted_row_def read_accepted_job_def acc_def)
  let ?st1 = "snd (results_h_abandon (Es 1) j d st)"
  let ?st2 = "snd (ingest_h_repend (Es 2) j d ?st1)"
  have "release_claim Es j d st = (Inr True, ?st2)"
    using a r ff by (simp add: release_claim_def abandon_call repend_call)
  moreover have "exe ?st2 k = (if k = j then Some (set_failed (''abandoned'', env_clock (Es 1) 0) e) else exe st k)" for k
    using e ff by (simp add: abandon_call repend_call exe_def row_by_guarded set_failed_def)
  moreover have "acc ?st2 k = (if k = j then Some (repend_upd (env_clock (Es 2) 0) r) else acc st k)" for k
    using r ff by (simp add: abandon_call repend_call acc_def row_by_repend)
  ultimately show ?thesis
    using ff r by (simp add: end_job_def abandon_call repend_call queue_names_def execution_queue_names_def)
qed

lemma release_claim_refines:
  assumes wf: "store_wf st" and ln: "linked st" and ff: "fault_free Es"
    and run: "\<And>e. exe st j = Some e \<Longrightarrow> xr_dispatch_id e = d \<Longrightarrow> xr_status e = ''running''"
    and eq: "release_claim Es j d st = (res, st')"
  shows "linked st' \<and> refines st st'"
proof (cases "\<exists>e. exe st j = Some e \<and> running_guard (j, d) e")
  case True
  then obtain e where e: "exe st j = Some e" "running_guard (j, d) e" by blast
  from linked_running [OF ln e] obtain r where r: "acc st j = Some r" "aj_dispatch_id r = Some d" by blast
  note v = view_running [OF r(1) e]
  let ?e' = "set_failed (''abandoned'', env_clock (Es 1) 0) e"
  let ?r' = "repend_upd (env_clock (Es 2) 0) r"
  from release_claim_ok [OF wf ln ff e] eq r have en: "end_job j (Some ?e') (Some ?r') st st'" by simp
  have "linked_job (Some ?r') (Some ?e')"
    using linked_at [OF ln, of j] e r by (simp add: linked_job_def set_failed_def repend_upd_def)
  moreover have "job_step (retries st j) (view st j) (job_view (Some ?r') (Some ?e'))"
    by (auto simp: v job_view_def set_failed_def repend_upd_def intro: job_step.intros)
  ultimately show ?thesis using end_job_linked [OF ln en] end_job_refines [OF en] by blast
next
  case False
  have "aj_dispatch_id r \<noteq> Some d" if "acc st j = Some r" for r
  proof
    assume "aj_dispatch_id r = Some d"
    with linked_at [OF ln, of j] that obtain e where "exe st j = Some e" "xr_dispatch_id e = d"
      by (auto simp: linked_job_def split: option.splits)
    with run row_by_Some [of xr_job_id j] False show False by (fastforce simp: running_guard_def exe_def)
  qed
  then have "st' = st"
    using eq ff by (auto simp: release_claim_def accepted_row_def read_accepted_job_def acc_def split: option.splits)
  then show ?thesis using ln by (simp add: refines_def)
qed

lemma recover_items_ok:
  assumes "store_wf st" and "fault_free Es" and "\<And>item. item \<in> set items \<Longrightarrow> acc st (rs_job_id item) \<noteq> None"
  shows "\<exists>jobs st'. recover_items Es items st = (Inr jobs, st') \<and> map job_id jobs = map rs_job_id items \<and>
    st_results st' = st_results st \<and> queue_names (st_ingest st') = queue_names (st_ingest st) \<and>
    (\<forall>k. \<exists>t. acc st' k = map_option (\<lambda>r. if \<exists>item \<in> set items. rs_should_repend item \<and> rs_job_id item = k \<and>
        aj_dispatch_id r = Some (rs_dispatch_id item) then repend_upd t r else r) (acc st k))"
  using assms
proof (induction items arbitrary: Es st)
  case Nil
  then show ?case by (auto simp: option.map_ident)
next
  case (Cons item items)
  let ?st1 = "if rs_should_repend item then snd (ingest_h_repend (Es 0) (rs_job_id item) (rs_dispatch_id item) st) else st"
  have a1: "acc ?st1 k = map_option (\<lambda>r. if rs_should_repend item \<and> rs_job_id item = k \<and>
      aj_dispatch_id r = Some (rs_dispatch_id item) then repend_upd (env_clock (Es 0) 0) r else r) (acc st k)" for k
    using Cons.prems(2) by (auto simp: repend_call acc_def row_by_repend option.map_ident intro!: option.map_cong)
  have wf1: "store_wf ?st1" using Cons.prems(1) by (simp add: ingest_h_wf)
  have some1: "acc ?st1 (rs_job_id i) \<noteq> None" if "i \<in> set (item # items)" for i
    using Cons.prems(3) [OF that] a1 by simp
  from composed_job_view [OF wf1, of "\<lambda>n. Es (1 + n)" "rs_job_id item"] Cons.prems(2) some1 [of item]
  obtain job where job: "composed_job (\<lambda>n. Es (1 + n)) (rs_job_id item) ?st1 = Inr job" "job_id job = rs_job_id item"
    by (auto simp: view_def job_view_def split: option.splits)
  from Cons.IH [OF wf1, of "\<lambda>n. Es (3 + n)"] Cons.prems(2) some1 obtain jobs st' where
    rest: "recover_items (\<lambda>n. Es (3 + n)) items ?st1 = (Inr jobs, st')" "map job_id jobs = map rs_job_id items"
    "st_results st' = st_results ?st1" "queue_names (st_ingest st') = queue_names (st_ingest ?st1)"
    and a2: "\<And>k. \<exists>t. acc st' k = map_option (\<lambda>r. if \<exists>item \<in> set items. rs_should_repend item \<and> rs_job_id item = k \<and>
        aj_dispatch_id r = Some (rs_dispatch_id item) then repend_upd t r else r) (acc ?st1 k)"
    by (auto simp del: split_paired_Ex)
  have call: "(if rs_should_repend item then ingest_h_repend (Es 0) (rs_job_id item) (rs_dispatch_id item) st
      else (Inr (), st)) = (Inr (), ?st1)"
    using Cons.prems(2) by (simp add: repend_call)
  have "recover_items Es (item # items) st = (Inr (job # jobs), st')"
    by (simp only: recover_items.simps call Let_def prod.case sum.case job(1) rest(1))
  moreover have "\<exists>t. acc st' k = map_option (\<lambda>r. if \<exists>i \<in> set (item # items). rs_should_repend i \<and> rs_job_id i = k \<and>
        aj_dispatch_id r = Some (rs_dispatch_id i) then repend_upd t r else r) (acc st k)" for k
  proof (cases "acc st k")
    case None
    then show ?thesis using a1 [of k] a2 [of k] by auto
  next
    case (Some r)
    obtain t where t: "acc st' k = map_option (\<lambda>r. if \<exists>item \<in> set items. rs_should_repend item \<and> rs_job_id item = k \<and>
        aj_dispatch_id r = Some (rs_dispatch_id item) then repend_upd t r else r) (acc ?st1 k)" using a2 by blast
    show ?thesis
    proof (cases "rs_should_repend item \<and> rs_job_id item = k \<and> aj_dispatch_id r = Some (rs_dispatch_id item)")
      case True
      then show ?thesis
        unfolding t a1 Some by (intro exI [of _ "env_clock (Es 0) 0"]) (simp add: repend_upd_def)
    next
      case False
      then show ?thesis unfolding t a1 Some by (intro exI [of _ t]) auto
    qed
  qed
  moreover have "st_results ?st1 = st_results st" "queue_names (st_ingest ?st1) = queue_names (st_ingest st)"
    using Cons.prems(2) by (simp_all add: repend_call queue_names_def)
  ultimately show ?case using rest(2,3,4) job(2) by simp
qed


lemma expire_simps [simp]:
  "xr_job_id (expire now e) = xr_job_id e" "xr_queue_name (expire now e) = xr_queue_name e"
  "xr_dispatch_id (expire now e) = xr_dispatch_id e" "xr_execution_count (expire now e) = xr_execution_count e"
  by (simp_all add: expire_def set_failed_def)

lemma recover_stale_leases_ok:
  assumes wf: "store_wf st" and ln: "linked st" and ff: "fault_free Es"
  shows "\<exists>jobs st'. recover_stale_leases Es now st = (Inr jobs, st') \<and>
    map job_id jobs = map xr_job_id (filter (is_stale now) (executions (st_results st))) \<and>
    (\<forall>k. exe st' k = map_option (expire now) (exe st k)) \<and>
    (\<forall>k. \<exists>t. acc st' k = (case exe st k of
        Some e \<Rightarrow> if is_stale now e \<and> xr_execution_count e \<le> retries st k then map_option (repend_upd t) (acc st k) else acc st k
      | None \<Rightarrow> acc st k)) \<and>
    queue_names (st_ingest st') = queue_names (st_ingest st) \<and>
    execution_queue_names (st_results st') = execution_queue_names (st_results st)"
proof -
  have rwf: "results_wf (st_results st)" using wf by (simp add: store_wf_def)
  let ?st1 = "snd (results_h_recover_stale (Es 0) now st)"
  let ?stale = "filter (is_stale now) (executions (st_results st))"
  let ?items = "map (recovered_row (st_results st)) ?stale"
  note call = recover_call [OF fault_free_io [OF ff] fault_free_io [OF ff] rwf, of 0 now]
  have dist: "distinct (map xr_job_id (executions (st_results st)))"
    using rwf by (simp add: results_wf_def exec_rows_wf_def)
  have ex: "exe st (xr_job_id e) = Some e" if "e \<in> set (executions (st_results st))" for e
    using row_by_distinct [OF dist, of "xr_job_id e" e] that by (simp add: exe_def)
  have a1: "acc ?st1 k = acc st k" for k by (simp add: call acc_def)
  have running: "\<exists>r. acc st (xr_job_id e) = Some r \<and> aj_dispatch_id r = Some (xr_dispatch_id e)"
    if "e \<in> set (executions (st_results st))" "is_stale now e" for e
    using linked_running [OF ln ex [OF that(1)], of "xr_dispatch_id e"] that(2) by (auto simp: running_guard_def is_stale_def)
  have "acc ?st1 (rs_job_id item) \<noteq> None" if "item \<in> set ?items" for item
    using that running a1 by (fastforce simp: recovered_row_def)
  from recover_items_ok [where Es = "\<lambda>n. Es (1 + n)", OF results_h_wf(5) [OF wf] fault_free_shift [OF ff] this]
  obtain jobs st' where it: "recover_items (\<lambda>n. Es (1 + n)) ?items ?st1 = (Inr jobs, st')"
    "map job_id jobs = map rs_job_id ?items" "st_results st' = st_results ?st1"
    "queue_names (st_ingest st') = queue_names (st_ingest ?st1)"
    and a2: "\<And>k. \<exists>t. acc st' k = map_option (\<lambda>r. if \<exists>item \<in> set ?items. rs_should_repend item \<and> rs_job_id item = k \<and>
        aj_dispatch_id r = Some (rs_dispatch_id item) then repend_upd t r else r) (acc ?st1 k)" by blast
  have "recover_stale_leases Es now st = (Inr jobs, st')"
    using it(1) by (simp add: recover_stale_leases_def call)
  moreover have "map job_id jobs = map xr_job_id ?stale" using it(2) by (simp add: recovered_row_def comp_def)
  moreover have "exe st' k = map_option (expire now) (exe st k)" for k
    unfolding exe_def it(3) call by (simp add: row_by_map)
  moreover have "\<exists>t. acc st' k = (case exe st k of
        Some e \<Rightarrow> if is_stale now e \<and> xr_execution_count e \<le> retries st k then map_option (repend_upd t) (acc st k) else acc st k
      | None \<Rightarrow> acc st k)" for k
  proof -
    have items: "(\<exists>item \<in> set ?items. rs_should_repend item \<and> rs_job_id item = k \<and> d = Some (rs_dispatch_id item)) \<longleftrightarrow>
        (\<exists>e. exe st k = Some e \<and> is_stale now e \<and> xr_execution_count e \<le> retries st k \<and> d = Some (xr_dispatch_id e))" for d
    proof
      assume "\<exists>item \<in> set ?items. rs_should_repend item \<and> rs_job_id item = k \<and> d = Some (rs_dispatch_id item)"
      then obtain e where "e \<in> set (executions (st_results st))" "is_stale now e" "xr_job_id e = k"
        "xr_execution_count e \<le> qr_max_retries (queue_of (st_results st) e)" "d = Some (xr_dispatch_id e)"
        by (auto simp: recovered_row_def)
      with ex [of e] show "\<exists>e. exe st k = Some e \<and> is_stale now e \<and> xr_execution_count e \<le> retries st k \<and> d = Some (xr_dispatch_id e)"
        by (auto simp: retries_def)
    next
      assume "\<exists>e. exe st k = Some e \<and> is_stale now e \<and> xr_execution_count e \<le> retries st k \<and> d = Some (xr_dispatch_id e)"
      then obtain e where e: "exe st k = Some e" "is_stale now e" "xr_execution_count e \<le> retries st k" "d = Some (xr_dispatch_id e)" by blast
      with store_wf_exe(1,2) [OF wf e(1)]
      show "\<exists>item \<in> set ?items. rs_should_repend item \<and> rs_job_id item = k \<and> d = Some (rs_dispatch_id item)"
        by (auto simp: recovered_row_def retries_def)
    qed
    from a2 [of k] obtain t where t: "acc st' k = map_option (\<lambda>r. if \<exists>e. exe st k = Some e \<and> is_stale now e \<and>
        xr_execution_count e \<le> retries st k \<and> aj_dispatch_id r = Some (xr_dispatch_id e) then repend_upd t r else r) (acc st k)"
      unfolding items a1 by blast
    show ?thesis
    proof (cases "\<exists>e. exe st k = Some e \<and> is_stale now e \<and> xr_execution_count e \<le> retries st k")
      case True
      then obtain e where e: "exe st k = Some e" "is_stale now e" "xr_execution_count e \<le> retries st k" by blast
      with running [of e] store_wf_exe(1,2) [OF wf e(1)] obtain r where
        "acc st k = Some r" "aj_dispatch_id r = Some (xr_dispatch_id e)" by blast
      with t e show ?thesis by (intro exI [of _ t]) simp
    next
      case False
      then have "acc st' k = acc st k" using t by (cases "acc st k") auto
      with False show ?thesis by (auto split: option.split)
    qed
  qed
  ultimately show ?thesis
    using it(3,4) by (auto simp: call queue_names_def execution_queue_names_def)
qed


lemma recover_stale_leases_refines:
  assumes wf: "store_wf st" and ln: "linked st" and ff: "fault_free Es"
    and eq: "recover_stale_leases Es now st = (res, st')"
  shows "linked st' \<and> refines st st'"
proof -
  from recover_stale_leases_ok [OF wf ln ff, of now] eq have
    x: "\<And>k. exe st' k = map_option (expire now) (exe st k)"
    and a: "\<And>k. \<exists>t. acc st' k = (case exe st k of
        Some e \<Rightarrow> if is_stale now e \<and> xr_execution_count e \<le> retries st k then map_option (repend_upd t) (acc st k) else acc st k
      | None \<Rightarrow> acc st k)"
    and q: "queue_names (st_ingest st') = queue_names (st_ingest st)"
      "execution_queue_names (st_results st') = execution_queue_names (st_results st)"
    by auto
  have each: "linked_job (acc st' k) (exe st' k) \<and> (view st' k = view st k \<or> job_step (retries st k) (view st k) (view st' k))" for k
  proof (cases "\<exists>e. exe st k = Some e \<and> is_stale now e")
    case False
    then have "acc st' k = acc st k" "exe st' k = exe st k"
      using x [of k] a [of k] by (cases "exe st k"; auto simp: expire_def)+
    then show ?thesis using linked_at [OF ln, of k] by (simp add: view_def)
  next
    case True
    then obtain e where e: "exe st k = Some e" "is_stale now e" by blast
    have g: "running_guard (k, xr_dispatch_id e) e"
      using e(2) store_wf_exe(2) [OF wf e(1)] by (simp add: running_guard_def is_stale_def)
    from linked_running [OF ln e(1) g] obtain r where r: "acc st k = Some r" "aj_dispatch_id r = Some (xr_dispatch_id e)" by blast
    note v = view_running [OF r(1) e(1) g]
    have x': "exe st' k = Some (set_failed (''lease expired'', now) e)" using x [of k] e by (simp add: expire_def)
    show ?thesis
    proof (cases "xr_execution_count e \<le> retries st k")
      case True
      with a [of k] e r obtain t where "acc st' k = Some (repend_upd t r)" by auto
      then show ?thesis
        using linked_at [OF ln, of k] e r x' v
        by (auto simp: linked_job_def view_def job_view_def repend_upd_def set_failed_def intro: job_step.reopen)
    next
      case False
      with a [of k] e have "acc st' k = acc st k" by auto
      then show ?thesis
        using linked_at [OF ln, of k] e r x' v False
        by (auto simp: linked_job_def view_def job_view_def set_failed_def parse_status_def intro: job_step.exhaust)
    qed
  qed
  then show ?thesis using ln q by (auto simp: linked_def refines_def)
qed

section \<open>Submissions\<close>

lemma store_enqueue_cases:
  assumes wf: "store_wf st" and eq: "store_enqueue E job st = (r, st')"
  obtains
    (refused) e where "r = Inl e" "st' = st"
  | (stored) i where "r = Inr (job\<lparr>aj_id := i\<rparr>)" "acc st i = None" "0 < i"
      "\<And>k. acc st' k = (if k = i then Some (stored_row i job) else acc st k)" "\<And>k. exe st' k = exe st k"
      "st_results st' = st_results st" "queue_names (st_ingest st') = queue_names (st_ingest st)"
proof -
  let ?b = "[\<lparr>pe_job = job, pe_reply = 0\<rparr>]"
  obtain db' replies n where en: "enqueue_batch (env_io E 0) ?b (st_names st) (st_ingest st) = (db', replies, n)"
    by (metis prod_cases3)
  have pos: "list_all (\<lambda>r. 0 < aj_id r) (accepted_jobs (st_ingest st))"
    using wf by (auto simp: store_wf_def ingest_wf_def list_all_iff)
  have out: "r = (case take_reply (map (\<lambda>(k, r). (k, RepAccepted r)) replies) of Some (RepAccepted x) \<Rightarrow> x | _ \<Rightarrow> Inl ingest_dropped)"
    "st' = st\<lparr>st_ingest := db'\<rparr>"
    using eq en by (auto simp: store_enqueue_def ingest_h_enqueue_def ingest_call_def)
  from en pos show thesis
  proof (cases rule: enqueue_batch_cases)
    case (unchanged g)
    then show thesis using refused out by (cases "aj_queue_name job \<in> st_names st") auto
  next
    case (stored known m)
    then have known: "known = ?b" by (auto split: if_splits)
    have fresh: "m \<notin> aj_id ` set (accepted_jobs (st_ingest st))"
    proof
      assume "m \<in> aj_id ` set (accepted_jobs (st_ingest st))"
      then have "m \<le> max_rowid (map aj_id (accepted_jobs (st_ingest st)))" using max_rowid_ge by force
      then show False using stored(4) by simp
    qed
    have m: "0 < m" using stored(4) max_rowid_nonneg [OF pos] by simp
    have aj: "accepted_jobs db' = accepted_jobs (st_ingest st) @ [stored_row m job]"
      using stored(6) known by simp
    have none: "row_by aj_id m (accepted_jobs (st_ingest st)) = None" using fresh by (simp add: row_by_None)
    show thesis
    proof (rule that(2) [of m])
      show "r = Inr (job\<lparr>aj_id := m\<rparr>)" using out(1) stored(7) known stored(1) by (simp split: if_splits)
      show "acc st' k = (if k = m then Some (stored_row m job) else acc st k)" for k
        using none by (auto simp: acc_def out(2) aj row_by_append split: option.split)
      show "acc st m = None" by (simp add: acc_def none)
    qed (use m stored(6) in \<open>simp_all add: out(2) exe_def queue_names_def\<close>)
  qed
qed

lemma store_enqueue_refines:
  assumes wf: "store_wf st" and ln: "linked st" and eq: "store_enqueue E job st = (r, st')"
  shows "linked st' \<and> refines st st'"
  using wf eq
proof (cases rule: store_enqueue_cases)
  case (refused e)
  then show ?thesis using ln by (simp add: refines_def)
next
  case (stored i)
  have none: "exe st i = None" using linked_at [OF ln, of i] stored(2) by (simp add: linked_job_def)
  have "linked st'"
    unfolding linked_def using ln none stored(4-7) by (auto simp: linked_def linked_job_def)
  moreover have "refines st st'"
    unfolding refines_def view_def using none stored(2,4,5) by (auto simp: job_view_def intro: job_step.submit)
  ultimately show ?thesis ..
qed

section \<open>Queues\<close>

lemma upsert_queue_sql_result:
  assumes "upsert_queue_sql io1 io2 now q rows = (Inr q', rows')"
  shows "jq_name q' = jq_name q \<and> uint (jq_timeout_secs q') \<le> i64_max"
proof -
  from assms obtain t where t: "u64_to_sql (jq_timeout_secs q) = Some t"
    by (auto simp: upsert_queue_sql_def Let_def split: option.splits)
  then have tq: "t = uint (jq_timeout_secs q)" "uint (jq_timeout_secs q) \<le> i64_max"
    by (auto simp: u64_to_sql_def split: if_splits)
  let ?row = "\<lparr>qr_name = jq_name q, qr_max_retries = uint (jq_max_retries q), qr_timeout_secs = t,
      qr_created_at = jq_created_at q, qr_updated_at = now\<rparr>"
  from assms t obtain r where r: "row_by qr_name (jq_name q) (upsert_queue_rows ?row rows) = Some r"
    and conv: "row_to_queue r = Inr q'"
    by (auto simp: upsert_queue_sql_def Let_def split: option.splits sum.splits)
  have "qr_timeout_secs r = t"
  proof (cases "row_by qr_name (jq_name q) rows")
    case None
    then show ?thesis using r by (auto simp: upsert_queue_rows_def row_by_append)
  next
    case (Some x)
    then show ?thesis
      using r row_by_Some [OF Some] by (auto simp: upsert_queue_rows_def row_by_update_where)
  qed
  moreover have "u64_try_from (qr_timeout_secs r) = Some (jq_timeout_secs q')" "jq_name q' = qr_name r"
    using conv by (auto simp: row_to_queue_def row_to_queue_at_def split: option.splits)
  ultimately show ?thesis
    using tq row_by_Some [OF r] by simp
qed

lemma upsert_queue_rows_found:
  "\<exists>r. row_by qr_name (qr_name q) (upsert_queue_rows q rows) = Some r"
  using upsert_queue_rows_names [of q rows]
  by (cases "row_by qr_name (qr_name q) (upsert_queue_rows q rows)") (auto simp: row_by_None)

lemma upsert_queue_sql_ok:
  assumes "queue_rows_wf rows" and "uint (jq_timeout_secs q) \<le> i64_max"
  shows "\<exists>q' rows'. upsert_queue_sql None None now q rows = (Inr q', rows')"
proof -
  let ?row = "\<lparr>qr_name = jq_name q, qr_max_retries = uint (jq_max_retries q), qr_timeout_secs = uint (jq_timeout_secs q),
      qr_created_at = jq_created_at q, qr_updated_at = now\<rparr>"
  obtain r where r: "row_by qr_name (jq_name q) (upsert_queue_rows ?row rows) = Some r"
    using upsert_queue_rows_found [of ?row rows] by auto
  have "queue_row_ok ?row"
    using assms(2) unsigned_less [of "jq_max_retries q", where 'a = int] by (simp add: queue_row_ok_def)
  from upsert_queue_rows_wf [OF assms(1) this] row_by_Some [OF r] have "queue_row_ok r"
    by (auto simp: queue_rows_wf_def list_all_iff)
  from row_to_queue_ok [OF this] obtain q' where "row_to_queue r = Inr q'" by blast
  with r assms(2) show ?thesis by (simp add: upsert_queue_sql_def u64_to_sql_def)
qed

lemma upsert_queue_refines:
  assumes wf: "store_wf st" and ln: "linked st" and ff: "fault_free Es"
    and eq: "upsert_queue Es q st = (r, st')"
  shows "linked st' \<and> refines st st'"
proof -
  obtain r1 rows1 where up1: "upsert_queue_sql None None (env_clock (Es 0) 0) q (job_queues (st_ingest st)) = (r1, rows1)"
    by force
  have h1: "ingest_h_upsert_queue (Es 0) q st = (r1, st\<lparr>st_ingest := (st_ingest st)\<lparr>job_queues := rows1\<rparr>,
      st_names := (case r1 of Inl _ \<Rightarrow> st_names st | Inr _ \<Rightarrow> insert (jq_name q) (st_names st))\<rparr>)"
    using ff up1 by (simp add: ingest_h_upsert_queue_def ingest_call_def ingest_upsert_queue_def)
  have same: "linked s' \<and> refines st s'" if "\<And>k. acc s' k = acc st k" "\<And>k. exe s' k = exe st k"
    "queue_names (st_ingest s') \<subseteq> execution_queue_names (st_results s')" for s'
    using that ln by (simp add: linked_def refines_def view_def)
  show ?thesis
  proof (cases r1)
    case (Inl e)
    have "rows1 = job_queues (st_ingest st)"
    proof (cases "uint (jq_timeout_secs q) \<le> i64_max")
      case True
      from upsert_queue_sql_ok [OF _ True, of "job_queues (st_ingest st)" "env_clock (Es 0) 0"] wf up1 Inl show ?thesis
        by (auto simp: store_wf_def ingest_wf_def)
    next
      case False
      then show ?thesis using up1 by (auto simp: upsert_queue_sql_def u64_to_sql_def)
    qed
    then have "st' = st"
      using eq h1 Inl by (auto simp: upsert_queue_def)
    then show ?thesis using ln by (simp add: refines_def)
  next
    case (Inr q')
    note res = upsert_queue_sql_result [OF up1 [unfolded Inr]]
    have n1: "set (map qr_name rows1) = insert (jq_name q) (queue_names (st_ingest st))"
      using upsert_queue_sql_Inr [OF up1 [unfolded Inr]] by (simp add: queue_names_def)
    have "queue_rows_wf (execution_queues (st_results st))" using wf by (simp add: store_wf_def results_wf_def)
    from upsert_queue_sql_ok [OF this conjunct2 [OF res], of "env_clock (Es 1) 0"] obtain q2 rows2 where
      up2: "upsert_queue_sql None None (env_clock (Es 1) 0) q' (execution_queues (st_results st)) = (Inr q2, rows2)" by blast
    have n2: "set (map qr_name rows2) = insert (jq_name q') (execution_queue_names (st_results st))"
      using upsert_queue_sql_Inr [OF up2] by (simp add: execution_queue_names_def)
    have "st' = st\<lparr>st_ingest := (st_ingest st)\<lparr>job_queues := rows1\<rparr>, st_names := insert (jq_name q) (st_names st),
        st_results := (st_results st)\<lparr>execution_queues := rows2\<rparr>\<rparr>"
      using eq h1 Inr ff up2 by (simp add: upsert_queue_def results_h_upsert_queue_def results_call_def results_upsert_queue_def)
    then show ?thesis
      using n1 n2 res ln by (intro same) (auto simp: acc_def exe_def queue_names_def execution_queue_names_def linked_def)
  qed
qed

section \<open>Claims\<close>

text \<open>
  What a claim needs from its surroundings: fresh UUIDs, attempt counters that do not overflow
  and room for new row ids.
\<close>

definition claim_room :: "env \<Rightarrow> Store \<Rightarrow> bool" where
  "claim_room E st \<longleftrightarrow>
     inj (env_uuid E) \<and> range (env_uuid E) \<inter> set (map xr_dispatch_id (executions (st_results st))) = {} \<and>
     list_all (\<lambda>e. xr_execution_count e < 4294967295) (executions (st_results st)) \<and>
     max_rowid (map xr_id (executions (st_results st))) + int MAX_CLAIM_BATCH_SIZE \<le> i64_max"

definition claim_sel :: "string \<Rightarrow> nat \<Rightarrow> Store \<Rightarrow> AcceptedJob list" where
  "claim_sel queue limit st =
     take (clamp limit 1 MAX_CLAIM_BATCH_SIZE) (pending_rows queue (accepted_jobs (st_ingest st)))"

lemma claim_sel_props:
  assumes "store_wf st" and "r \<in> set (claim_sel queue limit st)"
  shows "acc st (aj_id r) = Some r" "aj_queue_name r = queue" "aj_dispatch_id r = None"
proof -
  have p: "r \<in> set (pending_rows queue (accepted_jobs (st_ingest st)))"
    using assms(2) unfolding claim_sel_def by (rule in_set_takeD)
  have "distinct (map aj_id (accepted_jobs (st_ingest st)))" using assms(1) by (simp add: store_wf_def ingest_wf_def)
  then show "acc st (aj_id r) = Some r" using p by (simp add: acc_def row_by_distinct pending_rows_props(1))
  show "aj_queue_name r = queue" "aj_dispatch_id r = None" using p by (simp_all add: pending_rows_props(1))
qed

lemma claim_sel_distinct:
  assumes "store_wf st"
  shows "distinct (map aj_id (claim_sel queue limit st))" "length (claim_sel queue limit st) \<le> MAX_CLAIM_BATCH_SIZE"
proof -
  have "claimable (accepted_jobs (st_ingest st)) (map aj_id (claim_sel queue limit st))"
    unfolding claim_sel_def using assms by (intro claimable_selection [of "st_names st"]) (simp add: store_wf_def)
  then show "distinct (map aj_id (claim_sel queue limit st))" by (simp add: claimable_def)
  have "clamp limit 1 MAX_CLAIM_BATCH_SIZE \<le> MAX_CLAIM_BATCH_SIZE" by (simp add: clamp_def MAX_CLAIM_BATCH_SIZE_def)
  then show "length (claim_sel queue limit st) \<le> MAX_CLAIM_BATCH_SIZE" by (simp add: claim_sel_def)
qed

lemma claim_dispatchable:
  assumes wf: "store_wf st" and ln: "linked st" and room: "claim_room E st" and q: "queue \<in> st_names st"
    and cl: "claimed = map (\<lambda>(r, d). claim_of r t d) (zip sel (map (env_uuid E) [0..<length sel]))"
    and sel: "sel = claim_sel queue limit st"
  shows "dispatchable_batch (execution_queue_names (st_results st)) (executions (st_results st))
           (map (dispatch_insert_of now) claimed)"
proof -
  let ?ds = "map (dispatch_insert_of now) claimed"
  have len: "length claimed = length sel" by (simp add: cl)
  have mem: "sel ! i \<in> set (claim_sel queue limit st)" if "i < length sel" for i
    unfolding sel [symmetric] using that by (rule nth_mem)
  have one: "?ds ! i = dispatch_insert_of now (claim_of (sel ! i) t (env_uuid E i))" if "i < length sel" for i
    using that by (simp add: cl)
  have nth: "di_job_id (?ds ! i) = aj_id (sel ! i)" "di_dispatch_id (?ds ! i) = env_uuid E i"
    "di_queue_name (?ds ! i) = queue" if "i < length sel" for i
    unfolding one [OF that] using claim_sel_props(2) [OF wf mem [OF that]]
    by (simp_all add: dispatch_insert_of_def claim_of_def)
  have jobs: "map di_job_id ?ds = map aj_id sel"
    by (rule nth_equalityI) (use nth(1) len in \<open>simp_all del: map_map\<close>)
  have dids: "map di_dispatch_id ?ds = map (env_uuid E) [0..<length sel]"
    by (rule nth_equalityI) (use nth(2) len in \<open>simp_all del: map_map\<close>)
  have qn: "queue \<in> execution_queue_names (st_results st)"
    using q wf ln by (auto simp: store_wf_def ingest_wf_def linked_def)
  have "dispatchable (execution_queue_names (st_results st)) (executions (st_results st)) (?ds ! i)" if i: "i < length sel" for i
  proof (cases "exe st (aj_id (sel ! i))")
    case None
    then show ?thesis using nth [OF i] qn by (simp add: dispatchable_def exe_def)
  next
    case (Some e)
    note p = claim_sel_props [OF wf mem [OF i]]
    have "xr_status e = ''failed''" using linked_at [OF ln, of "aj_id (sel ! i)"] p Some by (simp add: linked_job_def)
    moreover have "1 \<le> xr_execution_count e" "e \<in> set (executions (st_results st))"
      using store_wf_exe(1,4) [OF wf Some] by (simp_all add: exec_row_ok_def)
    ultimately show ?thesis
      using nth [OF i] Some room by (auto simp: dispatchable_def exe_def claim_room_def list_all_iff)
  qed
  then have all: "list_all (dispatchable (execution_queue_names (st_results st)) (executions (st_results st))) ?ds"
    by (simp add: list_all_length len)
  have "distinct (map (env_uuid E) [0..<length sel])"
    using room by (auto simp: distinct_map claim_room_def intro: inj_on_subset)
  moreover have "set (map di_dispatch_id ?ds) \<inter> set (map xr_dispatch_id (executions (st_results st))) = {}"
    unfolding dids using room by (auto simp: claim_room_def)
  moreover have "max_rowid (map xr_id (executions (st_results st))) + int (length ?ds) \<le> i64_max"
    using room claim_sel_distinct(2) [OF wf, of queue limit] by (simp add: claim_room_def len sel)
  ultimately show ?thesis
    using all wf claim_sel_distinct(1) [OF wf, of queue limit]
    unfolding dispatchable_batch_def jobs dids by (simp add: store_wf_def results_wf_def sel)
qed

lemma row_by_nth:
  assumes "distinct (map key xs)" and "i < length xs"
  shows "row_by key (key (xs ! i)) xs = Some (xs ! i)"
  using assms by (simp add: row_by_distinct)

lemma claim_batch_ok:
  assumes wf: "store_wf st" and ln: "linked st" and ff: "fault_free Es"
    and room: "claim_room (Es 0) st" and q: "queue \<in> st_names st"
    and sel_def: "sel = claim_sel queue limit st"
  shows "\<exists>jobs st'. claim_batch Es queue limit st = (Inr jobs, st') \<and>
    map job_id jobs = map aj_id sel \<and> map job_payload jobs = map aj_payload sel \<and>
    list_all (\<lambda>job. job_status job = Running \<and> job_lease_expires_at job \<noteq> None) jobs \<and>
    map job_dispatch_id jobs = map (\<lambda>n. Some (env_uuid (Es 0) n)) [0..<length sel] \<and>
    (\<forall>k. k \<notin> aj_id ` set sel \<longrightarrow> acc st' k = acc st k \<and> exe st' k = exe st k) \<and>
    (\<forall>n < length sel. \<exists>d i. di_job_id d = aj_id (sel ! n) \<and> di_queue_name d = queue \<and> di_dispatch_id d = env_uuid (Es 0) n \<and>
       acc st' (aj_id (sel ! n)) = Some ((sel ! n)\<lparr>aj_dispatch_id := Some (env_uuid (Es 0) n), aj_updated_at := env_clock (Es 0) 0\<rparr>) \<and>
       exe st' (aj_id (sel ! n)) = Some (launched (env_clock (Es 1) 0) d (exe st (aj_id (sel ! n))) i)) \<and>
    queue_names (st_ingest st') = queue_names (st_ingest st) \<and>
    execution_queue_names (st_results st') = execution_queue_names (st_results st)"
proof -
  let ?ds = "map (env_uuid (Es 0)) [0..<length sel]"
  have iwf: "ingest_wf (st_names st) (st_ingest st)" using wf by (simp add: store_wf_def)
  from ingest_claim_batch_eq [OF iwf q, of "env_pick (Es 0)" "env_clock (Es 0) 0" "env_uuid (Es 0)" limit]
  obtain t claimed where
    cb: "ingest_claim_batch None (env_pick (Es 0)) (env_clock (Es 0) 0) (env_uuid (Es 0)) queue limit (st_names st) (st_ingest st) =
      (Inr claimed, (st_ingest st)\<lparr>accepted_jobs := assign (env_clock (Es 0) 0) (zip (map aj_id sel) ?ds) (accepted_jobs (st_ingest st))\<rparr>)"
    and cl: "claimed = map (\<lambda>(r, d). claim_of r t d) (zip sel ?ds)"
    by (auto simp: Let_def sel_def claim_sel_def)
  have len: "length claimed = length sel" by (simp add: cl)
  define st1 where "st1 = st\<lparr>st_ingest := (st_ingest st)\<lparr>accepted_jobs := assign (env_clock (Es 0) 0) (zip (map aj_id sel) ?ds) (accepted_jobs (st_ingest st))\<rparr>\<rparr>"
  have h1: "ingest_h_claim_batch (Es 0) queue limit st = (Inr claimed, st1)"
    using cb ff by (simp add: ingest_h_claim_batch_def ingest_call_def st1_def)
  have dist: "distinct (map aj_id sel)" unfolding sel_def by (rule claim_sel_distinct(1) [OF wf])
  have a1: "acc st1 (aj_id (sel ! n)) = Some ((sel ! n)\<lparr>aj_dispatch_id := Some (env_uuid (Es 0) n), aj_updated_at := env_clock (Es 0) 0\<rparr>)"
    if n: "n < length sel" for n
  proof -
    have "map_of (zip (map aj_id sel) ?ds) (map aj_id sel ! n) = Some (?ds ! n)"
      using n dist by (intro map_of_zip_nth) simp_all
    moreover have "acc st (aj_id (sel ! n)) = Some (sel ! n)"
      using n by (intro claim_sel_props(1) [OF wf, of _ queue limit]) (simp add: sel_def)
    ultimately show ?thesis using n by (simp add: acc_def assign_lookup st1_def)
  qed
  have a2: "acc st1 k = acc st k" if "k \<notin> aj_id ` set sel" for k
  proof -
    have none: "map_of (zip (map aj_id sel) ?ds) k = None" using that by (simp add: map_of_zip_is_None)
    show ?thesis by (simp add: acc_def assign_lookup st1_def) (simp only: none option.case option.map_ident)
  qed
  show ?thesis
  proof (cases "sel = []")
    case True
    then have "claim_batch Es queue limit st = (Inr [], st1)"
      using h1 len by (simp add: claim_batch_def claim_batch_inner_def)
    then show ?thesis using True a2 by (auto simp: exe_def queue_names_def st1_def)
  next
    case False
    let ?dis = "map (dispatch_insert_of (env_clock (Es 1) 1)) claimed"
    have "dispatchable_batch (execution_queue_names (st_results st)) (executions (st_results st)) ?dis"
      using claim_dispatchable [OF wf ln room q cl] by (simp add: sel_def)
    from dispatch_batch_ok [OF this, of "env_clock (Es 1) 0"] obtain rows' rets where
      dp: "dispatch_batch None (env_clock (Es 1) 0) ?dis (st_results st) =
        (Inr (map (\<lambda>(d, r). dispatched_of d r) (zip ?dis rets)), (st_results st)\<lparr>executions := rows'\<rparr>)"
      and l2: "list_all2 (\<lambda>d r. \<exists>i. r = launched (env_clock (Es 1) 0) d (exe st (di_job_id d)) i) ?dis rets"
      and lk: "\<And>j. row_by xr_job_id j rows' = (case row_by xr_job_id j rets of Some r \<Rightarrow> Some r | None \<Rightarrow> exe st j)"
      unfolding exe_def row_by_def [of _ _ rets for rets] by (auto simp: row_by_def)
    define jobs where "jobs = map (\<lambda>(c, d). job_from_claimed c d) (zip claimed (map (\<lambda>(d, r). dispatched_of d r) (zip ?dis rets)))"
    define st2 where "st2 = st1\<lparr>st_results := (st_results st)\<lparr>executions := rows'\<rparr>\<rparr>"
    have h2: "results_h_dispatch (Es 1) ?dis st1 = (Inr (map (\<lambda>(d, r). dispatched_of d r) (zip ?dis rets)), st2)"
      using dp ff by (simp add: results_h_dispatch_def results_call_def st1_def st2_def)
    have "claimed \<noteq> []" using False len by auto
    then have res: "claim_batch Es queue limit st = (Inr jobs, st2)"
      using h1 h2 by (simp add: claim_batch_def claim_batch_inner_def Let_def jobs_def)
    have lr: "length rets = length sel" using list_all2_lengthD [OF l2] len by simp
    have cn: "claimed ! n = claim_of (sel ! n) t (env_uuid (Es 0) n)" if "n < length sel" for n
      using that by (simp add: cl)
    have dn: "?dis ! n = dispatch_insert_of (env_clock (Es 1) 1) (claim_of (sel ! n) t (env_uuid (Es 0) n))" if "n < length sel" for n
      using that cn [OF that] by (simp add: len)
    have mem: "sel ! n \<in> set (claim_sel queue limit st)" if "n < length sel" for n
      unfolding sel_def [symmetric] using that by (rule nth_mem)
    have nth: "di_job_id (?dis ! n) = aj_id (sel ! n)" "di_queue_name (?dis ! n) = queue"
      "di_dispatch_id (?dis ! n) = env_uuid (Es 0) n" if "n < length sel" for n
      unfolding dn [OF that] using claim_sel_props(2) [OF wf mem [OF that]]
      by (simp_all add: dispatch_insert_of_def claim_of_def)
    have ret: "\<exists>i. rets ! n = launched (env_clock (Es 1) 0) (?dis ! n) (exe st (aj_id (sel ! n))) i" if "n < length sel" for n
      using list_all2_nthD [OF l2, of n] that nth(1) [OF that] len by simp
    have rj: "map xr_job_id rets = map aj_id sel"
    proof (intro nth_equalityI)
      fix n assume n: "n < length (map xr_job_id rets)"
      then have "n < length sel" by (simp add: lr)
      with ret [OF this] nth(1) [OF this] show "map xr_job_id rets ! n = map aj_id sel ! n"
        using xr_job_id_launched [of _ "?dis ! n" "executions (st_results st)"] n by (auto simp: exe_def)
    qed (simp add: lr)
    have rd: "xr_dispatch_id (rets ! n) = env_uuid (Es 0) n" if "n < length sel" for n
      using ret [OF that] nth(3) [OF that] by (auto simp: launched_def split: option.split)
    have ex2: "exe st2 k = row_by xr_job_id k rows'" for k by (simp add: exe_def st2_def)
    have x1: "exe st2 (aj_id (sel ! n)) = Some (rets ! n)" if n: "n < length sel" for n
    proof -
      have "distinct (map xr_job_id rets)" using dist rj by simp
      from row_by_nth [OF this, of n] n lr rj have "row_by xr_job_id (aj_id (sel ! n)) rets = Some (rets ! n)"
        by (metis nth_map)
      then show ?thesis by (simp add: ex2 lk)
    qed
    have x2: "exe st2 k = exe st k" if "k \<notin> aj_id ` set sel" for k
    proof -
      have "k \<notin> xr_job_id ` set rets" using that rj by (metis list.set_map)
      then have "row_by xr_job_id k rets = None" by (simp add: row_by_None)
      then show ?thesis by (simp add: ex2 lk)
    qed
    have jn: "jobs ! n = job_from_claimed (claimed ! n) (dispatched_of (?dis ! n) (rets ! n))" if "n < length sel" for n
      using that by (simp add: jobs_def len lr)
    have lj: "length jobs = length sel" by (simp add: jobs_def len lr)
    have "map job_id jobs = map aj_id sel"
      by (rule nth_equalityI) (simp_all add: lj jn cn job_from_claimed_def claim_of_def)
    moreover have "map job_payload jobs = map aj_payload sel"
      by (rule nth_equalityI) (simp_all add: lj jn cn job_from_claimed_def claim_of_def)
    moreover have "map job_dispatch_id jobs = map (\<lambda>n. Some (env_uuid (Es 0) n)) [0..<length sel]"
      by (rule nth_equalityI) (simp_all add: lj jn rd job_from_claimed_def dispatched_of_def)
    moreover have "list_all (\<lambda>job. job_status job = Running \<and> job_lease_expires_at job \<noteq> None) jobs"
      by (simp add: list_all_length lj jn job_from_claimed_def)
    moreover have a3: "acc st2 k = acc st1 k" for k by (simp add: acc_def st2_def)
    moreover have "queue_names (st_ingest st2) = queue_names (st_ingest st)"
      "execution_queue_names (st_results st2) = execution_queue_names (st_results st)"
      by (simp_all add: queue_names_def execution_queue_names_def st1_def st2_def)
    moreover have "\<exists>d i. di_job_id d = aj_id (sel ! n) \<and> di_queue_name d = queue \<and> di_dispatch_id d = env_uuid (Es 0) n \<and>
       acc st2 (aj_id (sel ! n)) = Some ((sel ! n)\<lparr>aj_dispatch_id := Some (env_uuid (Es 0) n), aj_updated_at := env_clock (Es 0) 0\<rparr>) \<and>
       exe st2 (aj_id (sel ! n)) = Some (launched (env_clock (Es 1) 0) d (exe st (aj_id (sel ! n))) i)" if n: "n < length sel" for n
    proof -
      from ret [OF n] obtain i where i: "rets ! n = launched (env_clock (Es 1) 0) (?dis ! n) (exe st (aj_id (sel ! n))) i" ..
      show ?thesis
        by (rule exI [of _ "?dis ! n"], rule exI [of _ i])
          (simp only: nth [OF n] x1 [OF n] i a1 [OF n] a3 simp_thms)
    qed
    ultimately show ?thesis
      using res a2 x2 by (intro exI [of _ jobs] exI [of _ st2]) simp
  qed
qed

lemma claim_batch_refines:
  assumes wf: "store_wf st" and ln: "linked st" and ff: "fault_free Es" and room: "claim_room (Es 0) st"
    and eq: "claim_batch Es queue limit st = (res, st')"
  shows "linked st' \<and> refines st st'"
proof (cases "queue \<in> st_names st")
  case False
  then have "st' = st"
    using eq ff by (auto simp: claim_batch_def claim_batch_inner_def ingest_h_claim_batch_def ingest_call_def ingest_claim_batch_def)
  then show ?thesis using ln by (simp add: refines_def)
next
  case True
  define sel where "sel = claim_sel queue limit st"
  from claim_batch_ok [OF wf ln ff room True sel_def] eq have
    other: "\<And>k. k \<notin> aj_id ` set sel \<Longrightarrow> acc st' k = acc st k \<and> exe st' k = exe st k"
    and hit: "\<And>n. n < length sel \<Longrightarrow> \<exists>d i. di_job_id d = aj_id (sel ! n) \<and> di_queue_name d = queue \<and> di_dispatch_id d = env_uuid (Es 0) n \<and>
       acc st' (aj_id (sel ! n)) = Some ((sel ! n)\<lparr>aj_dispatch_id := Some (env_uuid (Es 0) n), aj_updated_at := env_clock (Es 0) 0\<rparr>) \<and>
       exe st' (aj_id (sel ! n)) = Some (launched (env_clock (Es 1) 0) d (exe st (aj_id (sel ! n))) i)"
    and q: "queue_names (st_ingest st') = queue_names (st_ingest st)"
      "execution_queue_names (st_results st') = execution_queue_names (st_results st)"
    by auto
  have each: "linked_job (acc st' k) (exe st' k) \<and> (view st' k = view st k \<or> job_step (retries st k) (view st k) (view st' k))" for k
  proof (cases "k \<in> aj_id ` set sel")
    case False
    with other [of k] linked_at [OF ln, of k] show ?thesis by (simp add: view_def)
  next
    case True
    then obtain n where n: "n < length sel" "k = aj_id (sel ! n)" by (auto simp: in_set_conv_nth)
    have mem: "sel ! n \<in> set (claim_sel queue limit st)" unfolding sel_def [symmetric] using n(1) by (rule nth_mem)
    note p = claim_sel_props [OF wf mem]
    from hit [OF n(1)] obtain d i where d: "di_job_id d = k" "di_queue_name d = queue" "di_dispatch_id d = env_uuid (Es 0) n"
      and a': "acc st' k = Some ((sel ! n)\<lparr>aj_dispatch_id := Some (env_uuid (Es 0) n), aj_updated_at := env_clock (Es 0) 0\<rparr>)"
      and x': "exe st' k = Some (launched (env_clock (Es 1) 0) d (exe st k) i)"
      unfolding n(2) by blast
    have lk: "linked_job (Some (sel ! n)) (exe st k)" using linked_at [OF ln, of k] p(1) n(2) by simp
    have "view st k = job_view (Some (sel ! n)) (exe st k)" using p(1) n(2) by (simp add: view_def)
    with lk d p a' x' show ?thesis
      by (cases "exe st k")
        (auto simp: linked_job_def view_def [of st'] job_view_def launched_def parse_status_def
          intro: job_step.claim job_step.claim [of _ 0, simplified])
  qed
  then show ?thesis using ln q by (auto simp: linked_def refines_def)
qed

end
