(* ===== verification/Maq_Store_Life.thy ===== *)
theory Maq_Store_Life
  imports Maq_Store_Spec
begin

text \<open>
  The properties of the store as a whole: runs of store operations refine the life of a job,
  terminal jobs stay terminal, claims, results, lease recovery, reads and maintenance do what the
  engine expects, and what opening the store after a crash heals and what it does not.
\<close>

section \<open>The store as a state machine\<close>

datatype StoreOp =
    OpUpsertQueue JobQueue
  | OpEnqueue AcceptedJob
  | OpClaim string nat
  | OpComplete i64 string JobOutcome
  | OpWorkerResult i64 string JobOutcome
  | OpRelease i64 string
  | OpRecover i64

fun run_op :: "(nat \<Rightarrow> env) \<Rightarrow> StoreOp \<Rightarrow> Store \<Rightarrow> Store" where
  "run_op Es (OpUpsertQueue q) st = snd (upsert_queue Es q st)"
| "run_op Es (OpEnqueue job) st = snd (store_enqueue (Es 0) job st)"
| "run_op Es (OpClaim queue limit) st = snd (claim_batch Es queue limit st)"
| "run_op Es (OpComplete j d oc) st = snd (complete Es j d oc st)"
| "run_op Es (OpWorkerResult j d oc) st = snd (complete_worker_result Es j d oc st)"
| "run_op Es (OpRelease j d) st = snd (release_claim Es j d st)"
| "run_op Es (OpRecover now) st = snd (recover_stale_leases Es now st)"

text \<open>
  When an operation is covered: the database calls succeed (those of a submission may fail), a claim
  draws UUIDs that no execution has and has room (attempts and row ids below their maximum),
  and a claim is released only while its execution is running. The engine releases a claim
  when its dispatch has failed; if the worker's result was stored before, the release is not covered.
\<close>

fun allowed :: "(nat \<Rightarrow> env) \<Rightarrow> StoreOp \<Rightarrow> Store \<Rightarrow> bool" where
  "allowed Es (OpEnqueue job) st \<longleftrightarrow> True"
| "allowed Es (OpClaim queue limit) st \<longleftrightarrow> fault_free Es \<and> claim_room (Es 0) st"
| "allowed Es (OpRelease j d) st \<longleftrightarrow>
     fault_free Es \<and> (case exe st j of None \<Rightarrow> True | Some e \<Rightarrow> xr_dispatch_id e = d \<longrightarrow> xr_status e = ''running'')"
| "allowed Es op st \<longleftrightarrow> fault_free Es"

definition Store_empty :: Store where
  "Store_empty = \<lparr>st_ingest = IngestDb_empty, st_names = {}, st_results = ResultsDb_empty\<rparr>"

inductive store_reach :: "Store \<Rightarrow> bool" where
  store_init: "store_reach Store_empty"
| store_step: "store_reach st \<Longrightarrow> allowed Es op st \<Longrightarrow> store_reach (run_op Es op st)"

lemma complete_same_state: "snd (complete Es j d oc st) = snd (complete_worker_result Es j d oc st)"
  by (auto simp: complete_def complete_worker_result_def Let_def case_prod_unfold split: sum.split)

lemma run_op_wf: "store_wf st \<Longrightarrow> store_wf (run_op Es op st)"
  by (cases op) (simp_all add: store_ops_wf)

lemma run_op_refines:
  assumes "store_wf st" and "linked st" and "allowed Es op st"
  shows "linked (run_op Es op st) \<and> refines st (run_op Es op st)"
proof (cases op)
  case (OpUpsertQueue q)
  with assms upsert_queue_refines [OF assms(1,2), of Es q] show ?thesis by (metis run_op.simps(1) allowed.simps(4) prod.collapse)
next
  case (OpEnqueue job)
  with assms store_enqueue_refines [OF assms(1,2), of "Es 0" job] show ?thesis by (metis run_op.simps(2) prod.collapse)
next
  case (OpClaim queue limit)
  with assms claim_batch_refines [OF assms(1,2), of Es queue limit] show ?thesis by (metis run_op.simps(3) allowed.simps(2) prod.collapse)
next
  case (OpComplete j d oc)
  with assms complete_worker_result_refines [OF assms(1,2), of Es j d oc] show ?thesis
    by (metis run_op.simps(4) allowed.simps(5) complete_same_state prod.collapse)
next
  case (OpWorkerResult j d oc)
  with assms complete_worker_result_refines [OF assms(1,2), of Es j d oc] show ?thesis
    by (metis run_op.simps(5) allowed.simps(6) prod.collapse)
next
  case (OpRelease j d)
  then have ff: "fault_free Es" and run: "\<And>e. exe st j = Some e \<Longrightarrow> xr_dispatch_id e = d \<Longrightarrow> xr_status e = ''running''"
    using assms(3) by auto
  obtain r st' where eq: "release_claim Es j d st = (r, st')" by force
  with OpRelease release_claim_refines [OF assms(1,2) ff run eq] show ?thesis by simp
next
  case (OpRecover now)
  with assms recover_stale_leases_refines [OF assms(1,2), of Es now] show ?thesis
    by (metis run_op.simps(7) allowed.simps(7) prod.collapse)
qed

lemma Store_empty_ok: "store_wf Store_empty \<and> linked Store_empty"
proof
  show "store_wf Store_empty" by (simp add: store_wf_def Store_empty_def ingest_wf_empty results_wf_empty)
  show "linked Store_empty"
    by (simp add: linked_def Store_empty_def acc_def exe_def IngestDb_empty_def ResultsDb_empty_def linked_job_def
        queue_names_def)
qed

lemma store_reach_ok: "store_reach st \<Longrightarrow> store_wf st \<and> linked st"
  by (induction rule: store_reach.induct) (use Store_empty_ok run_op_wf run_op_refines in blast)+

section \<open>Properties of the store\<close>

definition sample_store :: Store where
  "sample_store =
     \<lparr>st_ingest = \<lparr>job_queues = job_queues sample_ingest,
         accepted_jobs =
           [\<lparr>aj_id = 1, aj_queue_name = ''mail'', aj_payload = [1], aj_dispatch_id = Some ''a'', aj_created_at = 5, aj_updated_at = 6\<rparr>,
            \<lparr>aj_id = 2, aj_queue_name = ''mail'', aj_payload = [2], aj_dispatch_id = None, aj_created_at = 7, aj_updated_at = 8\<rparr>,
            \<lparr>aj_id = 3, aj_queue_name = ''mail'', aj_payload = [3], aj_dispatch_id = Some ''c'', aj_created_at = 9, aj_updated_at = 9\<rparr>],
         ing_meta = Map.empty\<rparr>,
      st_names = {''mail''}, st_results = sample_results\<rparr>"

definition quiet :: "nat \<Rightarrow> env" where
  "quiet n = quiet_env"

lemma fault_free_quiet [simp]: "fault_free quiet"
  by (simp add: fault_free_def quiet_def quiet_env_def)

lemma sample_store_wf: "store_wf sample_store"
  using sample_results_wf
  by (simp add: store_wf_def sample_store_def ingest_wf_def sample_ingest_def queue_rows_wf_def queue_row_ok_def
      queue_names_def i64_max_def)

lemma sample_store_linked: "linked sample_store"
  by (auto simp: linked_def linked_job_def acc_def exe_def sample_store_def sample_results_defs sample_ingest_def
      queue_names_def execution_queue_names_def)

text \<open>
  C1. The durable store refines the life of a job, as long as its databases work. Take any run from an empty store of queue
  registrations, submissions, claims, worker results, releases and lease recoveries, in any order, in which no
  database call fails (except that submissions may fail), each claim draws fresh UUIDs and has room
  for its row ids and attempts, and claims are released only while their execution is still running.
  Then the two databases are well formed and agree, and each further operation under the
  same conditions changes what a caller sees of any job only by a step of the life cycle: submitted,
  claimed with one more attempt, completed, reopened, or failed for good after more attempts than the
  queue's retries.
\<close>

theorem store_refines_job_life:
  assumes "store_reach st" and "allowed Es op st"
  shows "store_wf st \<and> linked st \<and>
    (view (run_op Es op st) j = view st j \<or> job_step (retries st j) (view st j) (view (run_op Es op st) j))"
  using store_reach_ok [OF assms(1)] run_op_refines [OF _ _ assms(2)] by (simp add: refines_def)

text \<open>
  A job that has completed, or failed for good, stays that way: no covered operation changes
  its status or its number of attempts.
\<close>

theorem terminal_job_stays:
  assumes "store_wf st" and "linked st" and "allowed Es op st"
    and "view st j = Some (s, n)" and "s \<in> {Completed, Failed}"
  shows "view (run_op Es op st) j = Some (s, n)"
  using run_op_refines [OF assms(1-3)] job_step_terminal [OF assms(5)] assms(4) by (metis refines_def)

theorem terminal_job_stays_witness:
  "view (run_op quiet (OpWorkerResult 3 ''c'' (OutcomeFailed ''late'')) sample_store) 3 = Some (Completed, 1)"
proof (rule terminal_job_stays [OF sample_store_wf sample_store_linked])
  show "view sample_store 3 = Some (Completed, 1)"
    by (simp add: view_def job_view_def acc_def exe_def sample_store_def sample_results_defs parse_status_def)
qed simp_all

text \<open>
  Claiming never gets stuck: on a linked store, with fresh UUIDs and working databases, a
  claim returns the oldest pending jobs of the queue, all running, with their payloads, a lease
  and one dispatch id each; their claim and their execution carry this dispatch id, and no other
  job is touched.
\<close>

theorem claim_batch_succeeds:
  assumes "store_wf st" and "linked st" and "fault_free Es" and "claim_room (Es 0) st" and "queue \<in> st_names st"
    and "sel = claim_sel queue limit st"
  shows "\<exists>jobs st'. claim_batch Es queue limit st = (Inr jobs, st') \<and>
    map job_id jobs = map aj_id sel \<and> map job_payload jobs = map aj_payload sel \<and>
    list_all (\<lambda>job. job_status job = Running \<and> job_lease_expires_at job \<noteq> None) jobs \<and>
    map job_dispatch_id jobs = map (\<lambda>n. Some (env_uuid (Es 0) n)) [0..<length sel] \<and>
    (\<forall>k. k \<notin> aj_id ` set sel \<longrightarrow> acc st' k = acc st k \<and> exe st' k = exe st k) \<and>
    (\<forall>n < length sel. \<exists>d i. di_job_id d = aj_id (sel ! n) \<and> di_queue_name d = queue \<and> di_dispatch_id d = env_uuid (Es 0) n \<and>
       acc st' (aj_id (sel ! n)) = Some ((sel ! n)\<lparr>aj_dispatch_id := Some (env_uuid (Es 0) n), aj_updated_at := env_clock (Es 0) 0\<rparr>) \<and>
       exe st' (aj_id (sel ! n)) = Some (launched (env_clock (Es 1) 0) d (exe st (aj_id (sel ! n))) i))"
  using claim_batch_ok [OF assms] by blast

definition tagged_env :: env where
  "tagged_env = quiet_env\<lparr>env_uuid := (\<lambda>n. ''uuid-'' @ show_nat n)\<rparr>"

lemma tagged_room: "claim_room tagged_env sample_store"
proof -
  have "inj (\<lambda>n. ''uuid-'' @ show_nat n)" by (auto intro: injI simp: show_nat_inj)
  then show ?thesis
    by (auto simp: claim_room_def tagged_env_def sample_store_def sample_results_defs MAX_CLAIM_BATCH_SIZE_def i64_max_def)
qed

theorem claim_batch_succeeds_witness:
  "\<exists>jobs st'. claim_batch (\<lambda>_. tagged_env) ''mail'' 5 sample_store = (Inr jobs, st') \<and> map job_id jobs = [2]"
proof -
  have ff: "fault_free (\<lambda>_. tagged_env)" by (simp add: fault_free_def tagged_env_def quiet_env_def)
  have q: "''mail'' \<in> st_names sample_store" by (simp add: sample_store_def)
  have sel: "map aj_id (claim_sel ''mail'' 5 sample_store) = [2]"
    by (simp add: claim_sel_def pending_rows_def sample_store_def clamp_def MAX_CLAIM_BATCH_SIZE_def)
  from claim_batch_succeeds [OF sample_store_wf sample_store_linked ff tagged_room q refl, of 5]
  show ?thesis unfolding sel by (elim exE conjE) (intro exI conjI, assumption+)
qed

lemma worker_result_view:
  assumes "store_wf st" and "linked st" and "fault_free Es"
  shows "\<exists>st'. complete_worker_result Es j d oc st =
      (Inr (case exe st j of None \<Rightarrow> False
            | Some e \<Rightarrow> running_guard (j, d) e \<and> \<not> is_success oc \<and> xr_execution_count e \<le> retries st j), st') \<and>
    view st' j =
      (case exe st j of
         None \<Rightarrow> view st j
       | Some e \<Rightarrow>
           if \<not> running_guard (j, d) e then view st j
           else Some (if is_success oc then Completed
                      else if xr_execution_count e \<le> retries st j then Pending else Failed, xr_execution_count e)) \<and>
    (\<forall>k. k \<noteq> j \<longrightarrow> acc st' k = acc st k \<and> exe st' k = exe st k)"
proof -
  obtain st' where res: "complete_worker_result Es j d oc st =
      (Inr (case exe st j of None \<Rightarrow> False
            | Some e \<Rightarrow> running_guard (j, d) e \<and> \<not> is_success oc \<and> xr_execution_count e \<le> retries st j), st')"
    and en: "case exe st j of
       None \<Rightarrow> end_job j None (acc st j) st st'
     | Some e \<Rightarrow>
         if \<not> running_guard (j, d) e then end_job j (Some e) (acc st j) st st'
         else if is_success oc \<or> retries st j < xr_execution_count e then
           end_job j (Some (ended (env_clock (Es 0) 0) oc e)) (acc st j) st st'
         else end_job j (Some (ended (env_clock (Es 0) 0) oc e))
                (map_option (repend_upd (env_clock (Es 1) 0)) (acc st j)) st st'"
    using complete_worker_result_ok [OF assms] by blast
  have others: "\<forall>k. k \<noteq> j \<longrightarrow> acc st' k = acc st k \<and> exe st' k = exe st k"
    using en by (auto simp: end_job_def split: option.splits if_splits)
  have "view st' j = (case exe st j of
         None \<Rightarrow> view st j
       | Some e \<Rightarrow>
           if \<not> running_guard (j, d) e then view st j
           else Some (if is_success oc then Completed
                      else if xr_execution_count e \<le> retries st j then Pending else Failed, xr_execution_count e))"
  proof (cases "\<exists>e. exe st j = Some e \<and> running_guard (j, d) e")
    case True
    then obtain e where e: "exe st j = Some e" "running_guard (j, d) e" by blast
    from linked_running [OF assms(2) e] obtain r where "acc st j = Some r" "aj_dispatch_id r = Some d" by blast
    with en e show ?thesis
      by (auto simp: end_job_def view_def job_view_def ended_status repend_upd_def parse_status_def split: if_splits)
  next
    case False
    with en show ?thesis by (auto simp: end_job_def view_def split: option.splits)
  qed
  with res others show ?thesis by blast
qed

text \<open>A run: a queue is registered, a job submitted and claimed.\<close>

definition life_submitted :: Store where
  "life_submitted = run_op quiet (OpEnqueue (AcceptedJob_new 60 ''mail'' [7])) (run_op quiet (OpUpsertQueue (JobQueue_new 1 ''mail'')) Store_empty)"

definition life_claimed :: Store where
  "life_claimed = run_op (\<lambda>_. tagged_env) (OpClaim ''mail'' 1) life_submitted"

lemma life_submitted_sel:
  "accepted_jobs (st_ingest life_submitted) = [\<lparr>aj_id = 1, aj_queue_name = ''mail'', aj_payload = [7], aj_dispatch_id = None, aj_created_at = 60, aj_updated_at = 60\<rparr>]"
  "''mail'' \<in> st_names life_submitted" "executions (st_results life_submitted) = []"
  by code_simp+

lemma life_submitted_view: "view life_submitted 1 = Some (Pending, 0)"
  using life_submitted_sel by (simp add: view_def job_view_def acc_def exe_def)

lemma tagged_ff: "fault_free (\<lambda>_. tagged_env)"
  by (simp add: fault_free_def tagged_env_def quiet_env_def)

lemma life_submitted_room: "claim_room tagged_env life_submitted"
proof -
  have "inj (env_uuid tagged_env)" using tagged_room by (simp add: claim_room_def)
  then show ?thesis using life_submitted_sel by (simp add: claim_room_def MAX_CLAIM_BATCH_SIZE_def i64_max_def max_rowid.simps)
qed

lemma life_submitted_reach: "store_reach life_submitted"
  unfolding life_submitted_def by (intro store_step store_init) simp_all

lemma life_claimed_reach: "store_reach life_claimed"
  unfolding life_claimed_def by (rule store_step [OF life_submitted_reach]) (simp add: tagged_ff life_submitted_room)

lemma life_claimed_exe: "\<exists>e. exe life_claimed 1 = Some e \<and> running_guard (1, ''uuid-0'') e \<and> xr_execution_count e = 1"
proof -
  have sel: "claim_sel ''mail'' 1 life_submitted = accepted_jobs (st_ingest life_submitted)"
    by (simp add: claim_sel_def pending_rows_def life_submitted_sel clamp_def MAX_CLAIM_BATCH_SIZE_def)
  have "exe life_submitted 1 = None" by (simp add: exe_def life_submitted_sel)
  with claim_batch_ok [OF conjunct1 [OF store_reach_ok [OF life_submitted_reach]] conjunct2 [OF store_reach_ok [OF life_submitted_reach]]
      tagged_ff life_submitted_room life_submitted_sel(2) refl, of 1, unfolded sel life_submitted_sel]
  obtain d i t where "di_job_id d = 1" "di_dispatch_id d = env_uuid tagged_env 0" "exe life_claimed 1 = Some (launched t d None i)"
    by (auto simp: life_claimed_def)
  moreover have "env_uuid tagged_env 0 = ''uuid-0''" by code_simp
  ultimately show ?thesis by (auto simp: launched_def running_guard_def)
qed

theorem store_refines_job_life_witness:
  "view life_submitted 1 = Some (Pending, 0) \<and> view life_claimed 1 = Some (Running, 1) \<and>
   job_step (retries life_submitted 1) (view life_submitted 1) (view life_claimed 1) \<and>
   (let st = run_op quiet (OpWorkerResult 1 ''uuid-0'' (Succeeded [8])) life_claimed
    in view st 1 = Some (Completed, 1) \<and> job_step (retries life_claimed 1) (view life_claimed 1) (view st 1))"
proof -
  obtain e where e: "exe life_claimed 1 = Some e" "running_guard (1, ''uuid-0'') e" "xr_execution_count e = 1" using life_claimed_exe by blast
  have ok: "store_wf life_claimed" "linked life_claimed" using store_reach_ok [OF life_claimed_reach] by auto
  from linked_running [OF ok(2) e(1,2)] obtain r where "acc life_claimed 1 = Some r" "aj_dispatch_id r = Some ''uuid-0''" by blast
  then have run: "view life_claimed 1 = Some (Running, 1)"
    using e by (simp add: view_def job_view_def running_guard_def parse_status_def)
  moreover have "allowed (\<lambda>_. tagged_env) (OpClaim ''mail'' 1) life_submitted" by (simp add: tagged_ff life_submitted_room)
  from store_refines_job_life [OF life_submitted_reach this, of 1]
  have "job_step (retries life_submitted 1) (view life_submitted 1) (view life_claimed 1)"
    using run life_submitted_view by (simp add: life_claimed_def)
  moreover have done_view: "view (run_op quiet (OpWorkerResult 1 ''uuid-0'' (Succeeded [8])) life_claimed) 1 = Some (Completed, 1)"
    using worker_result_view [OF ok fault_free_quiet, of 1 "''uuid-0''" "Succeeded [8]"] e by auto
  moreover from store_refines_job_life [OF life_claimed_reach, of quiet "OpWorkerResult 1 ''uuid-0'' (Succeeded [8])" 1]
  have "job_step (retries life_claimed 1) (view life_claimed 1) (view (run_op quiet (OpWorkerResult 1 ''uuid-0'' (Succeeded [8])) life_claimed) 1)"
    unfolding done_view run by simp
  ultimately show ?thesis using life_submitted_view by (simp add: Let_def)
qed

text \<open>
  C5. On linked databases (each claim and its execution agree, so the job of a running execution has not been purged) and when no
  database call fails, a worker result ends exactly the running execution it was dispatched for. A
  success completes the job; a failure reopens it when the attempts are within the queue's retries and
  fails it for good otherwise; any other result is ignored. The answer then tells whether the job was
  reopened.
\<close>

theorem worker_result_decides_retry:
  assumes "store_wf st" and "linked st" and "fault_free Es"
  shows "\<exists>st'. complete_worker_result Es j d oc st =
      (Inr (case exe st j of None \<Rightarrow> False
            | Some e \<Rightarrow> running_guard (j, d) e \<and> \<not> is_success oc \<and> xr_execution_count e \<le> retries st j), st') \<and>
    view st' j =
      (case exe st j of
         None \<Rightarrow> view st j
       | Some e \<Rightarrow>
           if \<not> running_guard (j, d) e then view st j
           else Some (if is_success oc then Completed
                      else if xr_execution_count e \<le> retries st j then Pending else Failed, xr_execution_count e)) \<and>
    (\<forall>k. k \<noteq> j \<longrightarrow> acc st' k = acc st k \<and> exe st' k = exe st k)"
  using assms by (rule worker_result_view)

theorem worker_result_decides_retry_witness:
  "\<exists>st'. complete_worker_result quiet 1 ''a'' (OutcomeFailed ''boom'') sample_store = (Inr True, st') \<and>
     view st' 1 = Some (Pending, 1)"
proof -
  have e: "exe sample_store 1 = Some (sample_exec 1 ''running'' 1 (Some 100) ''a'' None None)"
    by (simp add: exe_def sample_store_def sample_results_defs)
  have g: "running_guard (1, ''a'') (sample_exec 1 ''running'' 1 (Some 100) ''a'' None None)"
    "xr_execution_count (sample_exec 1 ''running'' 1 (Some 100) ''a'' None None) = 1" "retries sample_store 1 = 3"
    by (simp_all add: running_guard_def sample_exec_def retries_def e queue_of_def)
      (simp add: sample_store_def sample_results_defs)
  from worker_result_decides_retry [OF sample_store_wf sample_store_linked fault_free_quiet, of 1 "''a''" "OutcomeFailed ''boom''"]
  show ?thesis unfolding e by (auto simp: g)
qed

text \<open>
  C20. Recovering expired leases misses nothing. On linked databases, and when no database call fails, it succeeds: the jobs it
  returns are exactly those whose running execution has an expired lease; each of them is
  pending again if its attempts are within the queue's retries and failed for good otherwise;
  every other job looks the same as before.
\<close>

theorem recovery_is_complete:
  assumes "store_wf st" and "linked st" and "fault_free Es"
  shows "\<exists>jobs st'. recover_stale_leases Es now st = (Inr jobs, st') \<and>
    map job_id jobs = map xr_job_id (filter (is_stale now) (executions (st_results st))) \<and>
    (\<forall>k. view st' k =
       (case exe st k of
          None \<Rightarrow> view st k
        | Some e \<Rightarrow>
            if is_stale now e
            then Some (if xr_execution_count e \<le> retries st k then Pending else Failed, xr_execution_count e)
            else view st k))"
proof -
  from recover_stale_leases_ok [OF assms, of now] obtain jobs st' where
    res: "recover_stale_leases Es now st = (Inr jobs, st')"
      "map job_id jobs = map xr_job_id (filter (is_stale now) (executions (st_results st)))"
    and x: "\<And>k. exe st' k = map_option (expire now) (exe st k)"
    and a: "\<And>k. \<exists>t. acc st' k = (case exe st k of
        Some e \<Rightarrow> if is_stale now e \<and> xr_execution_count e \<le> retries st k then map_option (repend_upd t) (acc st k) else acc st k
      | None \<Rightarrow> acc st k)" by blast
  have "view st' k = (case exe st k of
          None \<Rightarrow> view st k
        | Some e \<Rightarrow>
            if is_stale now e
            then Some (if xr_execution_count e \<le> retries st k then Pending else Failed, xr_execution_count e)
            else view st k)" for k
  proof (cases "\<exists>e. exe st k = Some e \<and> is_stale now e")
    case True
    then obtain e where e: "exe st k = Some e" "is_stale now e" by blast
    have g: "running_guard (k, xr_dispatch_id e) e"
      using e(2) store_wf_exe(2) [OF assms(1) e(1)] by (simp add: running_guard_def is_stale_def)
    from linked_running [OF assms(2) e(1) g] obtain r where r: "acc st k = Some r" "aj_dispatch_id r = Some (xr_dispatch_id e)"
      by blast
    have x': "exe st' k = Some (set_failed (''lease expired'', now) e)" using x [of k] e by (simp add: expire_def)
    from a [of k] e r x' show ?thesis
      by (auto simp: view_def job_view_def repend_upd_def set_failed_def parse_status_def)
  next
    case False
    then have "acc st' k = acc st k" "exe st' k = exe st k"
      using x [of k] a [of k] by (cases "exe st k"; auto simp: expire_def)+
    with False show ?thesis by (auto simp: view_def split: option.split)
  qed
  with res show ?thesis by blast
qed

theorem recovery_is_complete_witness:
  "\<exists>jobs st'. recover_stale_leases quiet 150 sample_store = (Inr jobs, st') \<and> map job_id jobs = [1]"
proof -
  have s: "map xr_job_id (filter (is_stale 150) (executions (st_results sample_store))) = [1]"
    by (simp add: sample_store_def sample_results_defs is_stale_def)
  from recovery_is_complete [OF sample_store_wf sample_store_linked fault_free_quiet, of 150]
  show ?thesis unfolding s by (elim exE conjE) (intro exI conjI, assumption+)
qed

text \<open>
  C21. Whatever the database calls, the clock and the UUID generator do, in every call and in any
  combination, no operation of the store damages either database: both stay well formed.
\<close>

theorem faults_keep_store_wf:
  assumes "store_wf st"
  shows "store_wf (run_op Es op st) \<and> store_wf (snd (store_cleanup Es cutoff st)) \<and> store_wf (snd (store_vacuum Es st))"
  using assms by (simp add: run_op_wf store_ops_wf)

theorem faults_keep_store_wf_witness:
  "store_wf (run_op (\<lambda>n. if n = 1 then quiet_env\<lparr>env_io := (\<lambda>_. Some ''disk full'')\<rparr> else quiet_env) (OpClaim ''mail'' 5) sample_store)"
  using faults_keep_store_wf [OF sample_store_wf] by blast

text \<open>
  What a caller reads is the view: on a well-formed store whose reads succeed, reading a job
  returns the job with exactly the status and the number of attempts of the view, and reports
  an unknown job as not found.
\<close>

theorem get_job_reads_view:
  assumes "store_wf st" and "fault_free Es"
  shows "case view st j of
      None \<Rightarrow> get_job Es j st = Inl (NotFound j) \<and> store_status Es j st = Inl (NotFound j)
    | Some (s, n) \<Rightarrow> (\<exists>job. get_job Es j st = Inr job \<and> job_id job = j \<and> job_status job = s \<and>
        uint (job_execution_count job) = n) \<and> store_status Es j st = Inr s"
  using composed_job_view [OF assms, of j] by (auto simp: get_job_def store_status_def split: option.splits)

theorem get_job_reads_view_witness:
  "store_status quiet 2 sample_store = Inr Pending \<and> store_status quiet 9 sample_store = Inl (NotFound 9)"
proof -
  have "view sample_store 2 = Some (Pending, 2)" "view sample_store 9 = None"
    by (simp_all add: view_def job_view_def acc_def exe_def sample_store_def sample_results_defs)
  then show ?thesis
    using get_job_reads_view [OF sample_store_wf fault_free_quiet, of 2]
      get_job_reads_view [OF sample_store_wf fault_free_quiet, of 9] by auto
qed

text \<open>
  The time of the last vacuum survives its round trip through the metadata table: after a
  successful vacuum, \<open>last_vacuum_run\<close> returns the time it ran and does not panic.
\<close>

theorem last_vacuum_roundtrip:
  assumes "fault_free Es" and "i64_min \<le> env_clock (Es 1) 0" and "env_clock (Es 1) 0 \<le> i64_max" and "env_io E 0 = None"
  shows "\<exists>st'. store_vacuum Es st = (Inr (), st') \<and> last_vacuum_run E st' = Some (Inr (Some (env_clock (Es 1) 0)))"
  using assms
  by (simp add: store_vacuum_def results_h_vacuum_def results_call_def results_vacuum_def ingest_h_vacuum_def
      ingest_call_def ingest_vacuum_def last_vacuum_run_def read_meta_def parse_i64_show_int)

theorem last_vacuum_roundtrip_witness:
  "\<exists>st'. store_vacuum quiet sample_store = (Inr (), st') \<and> last_vacuum_run quiet_env st' = Some (Inr (Some 50))"
  using last_vacuum_roundtrip [OF fault_free_quiet, of quiet_env sample_store]
  by (simp add: quiet_def quiet_env_def i64_min_def i64_max_def)

section \<open>Opening after a crash\<close>

definition dispatch_ids :: "ResultsDb \<Rightarrow> string set" where
  "dispatch_ids db = set (map xr_dispatch_id (executions db))"

lemma heal_orphans_ok:
  assumes "fault_free Es"
  shows "\<exists>db'. heal_orphans Es ps rdb idb = (Inr (), db') \<and> job_queues db' = job_queues idb \<and>
    (\<forall>k. \<exists>t. row_by aj_id k (accepted_jobs db') =
       map_option (\<lambda>r. if \<exists>p \<in> set ps. repend_guard p r \<and> snd p \<notin> dispatch_ids rdb then repend_upd t r else r)
         (row_by aj_id k (accepted_jobs idb)))"
  using assms
proof (induction ps arbitrary: Es idb)
  case Nil
  then show ?case by (auto simp: option.map_ident)
next
  case (Cons p ps)
  obtain j d where p: "p = (j, d)" by force
  let ?orphan = "d \<notin> dispatch_ids rdb"
  let ?db = "if ?orphan then idb\<lparr>accepted_jobs := update_where (repend_guard p) (repend_upd (env_clock (Es 0) 0)) (accepted_jobs idb)\<rparr> else idb"
  have orphan: "filter (\<lambda>r. xr_dispatch_id r = d) (executions rdb) = [] \<longleftrightarrow> ?orphan"
    by (auto simp: dispatch_ids_def filter_empty_conv image_iff)
  have step: "heal_orphans Es (p # ps) rdb idb = heal_orphans (\<lambda>n. Es (Suc n)) ps rdb ?db"
    using Cons.prems by (simp add: p orphan)
  from Cons.IH [OF fault_free_shift [OF Cons.prems], of Suc ?db] obtain db' where
    rest: "heal_orphans (\<lambda>n. Es (Suc n)) ps rdb ?db = (Inr (), db')" "job_queues db' = job_queues ?db"
    and a: "\<And>k. \<exists>t. row_by aj_id k (accepted_jobs db') =
       map_option (\<lambda>r. if \<exists>p \<in> set ps. repend_guard p r \<and> snd p \<notin> dispatch_ids rdb then repend_upd t r else r)
         (row_by aj_id k (accepted_jobs ?db))" by blast
  have "\<exists>t. row_by aj_id k (accepted_jobs db') =
       map_option (\<lambda>r. if \<exists>q \<in> set (p # ps). repend_guard q r \<and> snd q \<notin> dispatch_ids rdb then repend_upd t r else r)
         (row_by aj_id k (accepted_jobs idb))" for k
  proof (cases "row_by aj_id k (accepted_jobs idb)")
    case None
    then have "row_by aj_id k (accepted_jobs ?db) = None" by (simp add: repend.lookup)
    with a [of k] None show ?thesis by auto
  next
    case (Some r)
    from a [of k] obtain t where t: "row_by aj_id k (accepted_jobs db') =
       map_option (\<lambda>r. if \<exists>p \<in> set ps. repend_guard p r \<and> snd p \<notin> dispatch_ids rdb then repend_upd t r else r)
         (row_by aj_id k (accepted_jobs ?db))" by blast
    show ?thesis
    proof (cases "repend_guard p r \<and> ?orphan")
      case True
      then have "row_by aj_id k (accepted_jobs ?db) = Some (repend_upd (env_clock (Es 0) 0) r)"
        using Some by (simp add: repend.lookup)
      with t True Some show ?thesis
        by (intro exI [of _ "env_clock (Es 0) 0"]) (simp add: repend.disarmed p)
    next
      case False
      then have "row_by aj_id k (accepted_jobs ?db) = Some r"
        using Some by (auto simp: repend.lookup)
      with t False Some show ?thesis by (intro exI [of _ t]) (auto simp: p)
    qed
  qed
  with step rest show ?case by simp
qed

lemma open_store_ok:
  assumes "fault_free Es" and "distinct (map aj_id (accepted_jobs idb))"
  shows "\<exists>st. open_store Es idb rdb = Inr st \<and> st_results st = rdb \<and> st_names st = queue_names idb \<and>
    queue_names (st_ingest st) = queue_names idb \<and>
    (\<forall>k. \<exists>t. acc st k = map_option (\<lambda>r. if \<exists>d. aj_dispatch_id r = Some d \<and> d \<notin> dispatch_ids rdb then repend_upd t r else r)
         (row_by aj_id k (accepted_jobs idb)))"
proof -
  let ?ps = "List.map_filter (\<lambda>r. map_option (\<lambda>d. (aj_id r, d)) (aj_dispatch_id r)) (accepted_jobs idb)"
  from heal_orphans_ok [OF fault_free_shift [OF assms(1)], of Suc ?ps rdb idb] obtain db' where
    h: "heal_orphans (\<lambda>n. Es (Suc n)) ?ps rdb idb = (Inr (), db')" "job_queues db' = job_queues idb"
    and a: "\<And>k. \<exists>t. row_by aj_id k (accepted_jobs db') =
       map_option (\<lambda>r. if \<exists>p \<in> set ?ps. repend_guard p r \<and> snd p \<notin> dispatch_ids rdb then repend_upd t r else r)
         (row_by aj_id k (accepted_jobs idb))" by blast
  have guard: "(\<exists>p \<in> set ?ps. repend_guard p r \<and> snd p \<notin> dispatch_ids rdb) \<longleftrightarrow>
      (\<exists>d. aj_dispatch_id r = Some d \<and> d \<notin> dispatch_ids rdb)" if r: "r \<in> set (accepted_jobs idb)" for r
  proof
    assume "\<exists>d. aj_dispatch_id r = Some d \<and> d \<notin> dispatch_ids rdb"
    then obtain d where d: "aj_dispatch_id r = Some d" "d \<notin> dispatch_ids rdb" by blast
    have "(aj_id r, d) \<in> set ?ps" using r d(1) by (force simp: List.map_filter_def)
    with d show "\<exists>p \<in> set ?ps. repend_guard p r \<and> snd p \<notin> dispatch_ids rdb"
      by (intro bexI [of _ "(aj_id r, d)"]) (simp_all add: repend_guard_def)
  qed (auto simp: repend_guard_def)
  let ?st = "\<lparr>st_ingest = db', st_names = queue_names idb, st_results = rdb\<rparr>"
  have "open_store Es idb rdb = Inr ?st"
    using assms(1) h(1) by (simp add: open_store_def heal_orphan_claims_def)
  moreover have "\<exists>t. acc ?st k = map_option (\<lambda>r. if \<exists>d. aj_dispatch_id r = Some d \<and> d \<notin> dispatch_ids rdb then repend_upd t r else r)
         (row_by aj_id k (accepted_jobs idb))" for k
    using a [of k] guard row_by_Some [of aj_id k "accepted_jobs idb"]
    by (cases "row_by aj_id k (accepted_jobs idb)") (auto simp: acc_def)
  ultimately show ?thesis using h(2) by (auto simp: queue_names_def)
qed

lemma linked_not_orphan:
  assumes "linked st" and "acc st k = Some r" and "aj_dispatch_id r = Some d"
  shows "d \<in> dispatch_ids (st_results st)"
  using linked_at [OF assms(1), of k] assms(2,3) row_by_Some [of xr_job_id k "executions (st_results st)"]
  by (auto simp: linked_job_def dispatch_ids_def exe_def split: option.splits)

text \<open>What the ingest half of a claim does to one job: nothing, or it marks an open job with a new dispatch id.\<close>

lemma ingest_claimed_row:
  assumes wf: "store_wf st" and cb: "ingest_claim_batch io pick now uuid queue limit (st_names st) (st_ingest st) = (r, db')"
  shows "row_by aj_id k (accepted_jobs db') = acc st k \<or>
      (\<exists>n t. row_by aj_id k (accepted_jobs db') =
           map_option (\<lambda>r. r\<lparr>aj_dispatch_id := Some (uuid n), aj_updated_at := t\<rparr>) (acc st k) \<and>
         map_option aj_dispatch_id (acc st k) = Some None)"
proof -
  have iwf: "ingest_wf (st_names st) (st_ingest st)" using wf by (simp add: store_wf_def)
  show ?thesis
    using iwf cb
  proof (cases rule: ingest_claim_batch_cases)
    case (unchanged e)
    then show ?thesis by (simp add: acc_def)
  next
    case (claimed sel t)
    let ?vs = "zip (map aj_id sel) (map uuid [0..<length sel])"
    have look: "row_by aj_id k (accepted_jobs db') = map_option (\<lambda>r. case map_of ?vs k of None \<Rightarrow> r
        | Some d \<Rightarrow> r\<lparr>aj_dispatch_id := Some d, aj_updated_at := now\<rparr>) (acc st k)"
      by (simp add: claimed(5) assign_lookup acc_def)
    show ?thesis
    proof (cases "map_of ?vs k")
      case None
      then have "row_by aj_id k (accepted_jobs db') = acc st k"
        unfolding look by (simp only: None option.case option.map_ident)
      then show ?thesis ..
    next
      case (Some d)
      from map_of_SomeD [OF this] have "k \<in> aj_id ` set sel" "d \<in> set (map uuid [0..<length sel])"
        by (auto dest: set_zip_leftD set_zip_rightD)
      then obtain r0 n where r0: "r0 \<in> set sel" "k = aj_id r0" and n: "d = uuid n" by auto
      have sel: "sel = claim_sel queue limit st" using claimed(3) by (simp add: claim_sel_def)
      note p = claim_sel_props [OF wf r0(1) [unfolded sel]]
      show ?thesis using look Some p r0(2) n by auto
    qed
  qed
qed

text \<open>Opening the store undoes that mark when no execution has the new dispatch id, and changes nothing else.\<close>

lemma open_heals_row:
  assumes ln: "linked st" and fresh: "\<And>n. uuid n \<notin> dispatch_ids (st_results st)"
    and row: "row = acc st k \<or> (\<exists>n t. row = map_option (\<lambda>r. r\<lparr>aj_dispatch_id := Some (uuid n), aj_updated_at := t\<rparr>) (acc st k) \<and>
         map_option aj_dispatch_id (acc st k) = Some None)"
    and heal: "healed = map_option (\<lambda>r. if \<exists>d. aj_dispatch_id r = Some d \<and> d \<notin> dispatch_ids (st_results st)
        then repend_upd t' r else r) row"
  shows "\<exists>t. healed = map_option (\<lambda>r. r\<lparr>aj_updated_at := t\<rparr>) (acc st k)"
proof (cases "acc st k")
  case None
  then show ?thesis using row heal by auto
next
  case (Some r)
  from row Some consider "row = Some r"
    | n t where "row = Some (r\<lparr>aj_dispatch_id := Some (uuid n), aj_updated_at := t\<rparr>)" "aj_dispatch_id r = None" by auto
  then show ?thesis
  proof cases
    case 1
    have "\<not> (\<exists>d. aj_dispatch_id r = Some d \<and> d \<notin> dispatch_ids (st_results st))"
      using linked_not_orphan [OF ln Some] by blast
    then have "healed = Some r" using heal 1 by auto
    then show ?thesis using Some by (intro exI [of _ "aj_updated_at r"]) simp
  next
    case 2
    then have "healed = Some (repend_upd t' (r\<lparr>aj_dispatch_id := Some (uuid n), aj_updated_at := t\<rparr>))"
      using heal fresh by auto
    then show ?thesis using Some 2(2) by (intro exI [of _ t']) (simp add: repend_upd_def)
  qed
qed

lemma open_keeps_claims:
  assumes ln: "linked st" and heal: "acc st2 k = map_option (\<lambda>r. if \<exists>d. aj_dispatch_id r = Some d \<and> d \<notin> dispatch_ids (st_results st)
        then repend_upd t' r else r) (acc st k)"
  shows "acc st2 k = acc st k"
proof (cases "acc st k")
  case (Some r)
  then have "\<not> (\<exists>d. aj_dispatch_id r = Some d \<and> d \<notin> dispatch_ids (st_results st))"
    using linked_not_orphan [OF ln Some] by blast
  with heal Some show ?thesis by auto
qed (use heal in simp)

text \<open>
  C19. A crash between the two halves of a claim is healed on the next open: if the process dies
  after the claim is recorded in the ingest database and before the dispatch is recorded in the
  results database, opening the store reopens exactly these claims; the databases agree again
  and every job looks as it did before the claim.
\<close>

theorem crash_after_claim_heals:
  assumes wf: "store_wf st" and ln: "linked st" and room: "claim_room E st" and ff: "fault_free Es"
    and crash: "ingest_h_claim_batch E queue limit st = (res, st1)"
  shows "\<exists>st2. open_store Es (st_ingest st1) (st_results st1) = Inr st2 \<and> linked st2 \<and> (\<forall>k. view st2 k = view st k)"
proof -
  obtain r db' where cb: "ingest_claim_batch (env_io E 0) (env_pick E) (env_clock E 0) (env_uuid E) queue limit
      (st_names st) (st_ingest st) = (r, db')" by force
  have st1: "st1 = st\<lparr>st_ingest := db'\<rparr>"
    using crash cb by (simp add: ingest_h_claim_batch_def ingest_call_def)
  have iwf: "ingest_wf (st_names st) (st_ingest st)" using wf by (simp add: store_wf_def)
  note step = ingest_claimed_row [OF wf cb]
  have dist: "distinct (map aj_id (accepted_jobs db'))"
    using ingest_claim_batch_wf [OF iwf cb] by (simp add: ingest_wf_def)
  from open_store_ok [OF ff dist, of "st_results st"] obtain st2 where
    op: "open_store Es db' (st_results st) = Inr st2" "st_results st2 = st_results st"
      "queue_names (st_ingest st2) = queue_names db'"
    and a2: "\<And>k. \<exists>t. acc st2 k = map_option (\<lambda>r. if \<exists>d. aj_dispatch_id r = Some d \<and> d \<notin> dispatch_ids (st_results st)
        then repend_upd t r else r) (row_by aj_id k (accepted_jobs db'))" by blast
  have same: "\<exists>t. acc st2 k = map_option (\<lambda>r. r\<lparr>aj_updated_at := t\<rparr>) (acc st k)" for k
  proof -
    have "env_uuid E n \<notin> dispatch_ids (st_results st)" for n using room by (auto simp: claim_room_def dispatch_ids_def)
    moreover obtain t where "acc st2 k = map_option (\<lambda>r. if \<exists>d. aj_dispatch_id r = Some d \<and> d \<notin> dispatch_ids (st_results st)
        then repend_upd t r else r) (row_by aj_id k (accepted_jobs db'))" using a2 by blast
    ultimately show ?thesis using open_heals_row [OF ln _ step] by blast
  qed
  have x2: "exe st2 k = exe st k" for k using op(2) by (simp add: exe_def)
  have q: "queue_names db' = queue_names (st_ingest st)"
    using iwf cb by (cases rule: ingest_claim_batch_cases) (simp_all add: queue_names_def)
  have each: "linked_job (acc st2 k) (exe st2 k) \<and> view st2 k = view st k" for k
    using same [of k] linked_at [OF ln, of k] x2 [of k]
    by (cases "acc st k") (auto simp: linked_job_def view_def job_view_def split: option.splits)
  then have "linked st2" using ln op(2,3) q by (simp add: linked_def)
  with each op(1) show ?thesis by (simp add: st1)
qed

theorem crash_after_claim_heals_witness:
  "\<exists>st2. open_store quiet (st_ingest (snd (ingest_h_claim_batch tagged_env ''mail'' 5 sample_store)))
       (st_results (snd (ingest_h_claim_batch tagged_env ''mail'' 5 sample_store))) = Inr st2 \<and> linked st2"
proof -
  obtain res st1 where eq: "ingest_h_claim_batch tagged_env ''mail'' 5 sample_store = (res, st1)" by force
  from crash_after_claim_heals [OF sample_store_wf sample_store_linked tagged_room fault_free_quiet eq] eq
  show ?thesis by auto
qed

lemma heal_orphans_wf:
  "ingest_wf names idb \<Longrightarrow> heal_orphans Es ps rdb idb = (r, idb') \<Longrightarrow> ingest_wf names idb' \<and> queue_names idb' = queue_names idb"
proof (induction Es ps rdb idb arbitrary: idb' rule: heal_orphans.induct)
  case (2 Es jid d rest rdb idb)
  let ?rows = "update_where (repend_guard (jid, d)) (repend_upd (env_clock (Es 0) 0)) (accepted_jobs idb)"
  have "ingest_wf names (idb\<lparr>accepted_jobs := ?rows\<rparr>)"
    by (rule ingest_wf_rows [OF 2(3)]) (simp_all add: update_where_def repend_upd_def)
  moreover have "queue_names (idb\<lparr>accepted_jobs := ?rows\<rparr>) = queue_names idb" by (simp add: queue_names_def)
  ultimately show ?case using 2 by (auto split: option.splits if_splits)
qed auto

lemma open_store_wf:
  assumes "ingest_wf names idb" and "results_wf rdb" and "open_store Es idb rdb = Inr st"
  shows "store_wf st"
proof -
  obtain r idb' where h: "heal_orphan_claims Es idb rdb = (r, idb')" by force
  have "ingest_wf (queue_names idb) idb" using assms(1) by (simp add: ingest_wf_def)
  then have "ingest_wf (queue_names idb) idb'"
    using h heal_orphans_wf by (auto simp: heal_orphan_claims_def split: option.splits)
  then show ?thesis using assms(2,3) h by (auto simp: open_store_def store_wf_def split: sum.splits)
qed

text \<open>One covered operation after another.\<close>

definition covered_step :: "Store \<Rightarrow> Store \<Rightarrow> bool" where
  "covered_step st st' \<longleftrightarrow> (\<exists>Es op. allowed Es op st \<and> st' = run_op Es op st)"

lemma covered_terminal:
  assumes "covered_step\<^sup>*\<^sup>* st st'" and "store_wf st" and "linked st" and "view st j = Some (s, n)" and "s \<in> {Completed, Failed}"
  shows "store_wf st' \<and> linked st' \<and> view st' j = Some (s, n)"
  using assms
proof (induction rule: rtranclp_induct)
  case (step st1 st2)
  then obtain Es op where op: "allowed Es op st1" "st2 = run_op Es op st1" by (auto simp: covered_step_def)
  from step have ok: "store_wf st1" "linked st1" "view st1 j = Some (s, n)" by auto
  from run_op_refines [OF ok(1,2) op(1)] run_op_wf [OF ok(1)] job_step_terminal [OF step.prems(4)] ok(3) op(2)
  show ?case by (metis refines_def)
qed simp

text \<open>
  C36. A crash between the two halves of a retry is not healed. If the process dies after a failed
  attempt is recorded in the results database and before the job is reopened in the ingest
  database, opening the store leaves the claim in place, because an execution with its dispatch
  id exists: the job is reported as failed although its attempts are within the queue's retries,
  and it stays so in every later run of fault-free queue registrations, submissions, claims, worker results, lease recoveries and
  releases of running executions. (Only a release of this very claim, whose execution has ended, would reopen it.)
\<close>

theorem crash_before_repend_strands_job:
  assumes wf: "store_wf st" and ln: "linked st" and ff: "fault_free Es" and E: "env_io E 0 = None"
    and e: "exe st j = Some e" "running_guard (j, d) e" and retry: "xr_execution_count e \<le> retries st j"
    and st1_def: "st1 = snd (results_h_complete E j d (OutcomeFailed m) st)"
  shows "\<exists>st2. open_store Es (st_ingest st1) (st_results st1) = Inr st2 \<and>
    view st2 j = Some (Failed, xr_execution_count e) \<and> xr_execution_count e \<le> retries st2 j \<and> linked st2 \<and>
    (\<forall>st3. covered_step\<^sup>*\<^sup>* st2 st3 \<longrightarrow> view st3 j = Some (Failed, xr_execution_count e))"
proof -
  let ?oc = "OutcomeFailed m"
  have rwf: "results_wf (st_results st)" using wf by (simp add: store_wf_def)
  have st1: "st1 = st\<lparr>st_results := (st_results st)\<lparr>executions :=
       settle_one (env_clock E 0) (result_of j d ?oc) (executions (st_results st))\<rparr>\<rparr>"
    unfolding st1_def using complete_call [OF E rwf] by simp
  have x1: "exe st1 k = (if k = j then Some (ended (env_clock E 0) ?oc e) else exe st k)" for k
    using e unfolding st1 by (simp add: exe_def settle_one_exe)
  have "map xr_dispatch_id (settle_one (env_clock E 0) (result_of j d ?oc) rows) = map xr_dispatch_id rows" for rows
    by (simp add: settle_one_def)
  then have ids: "dispatch_ids (st_results st1) = dispatch_ids (st_results st)" by (simp add: dispatch_ids_def st1)
  have "distinct (map aj_id (accepted_jobs (st_ingest st)))" using wf by (simp add: store_wf_def ingest_wf_def)
  from open_store_ok [OF ff this, of "st_results st1"] obtain st2 where
    op: "open_store Es (st_ingest st) (st_results st1) = Inr st2" "st_results st2 = st_results st1"
      "queue_names (st_ingest st2) = queue_names (st_ingest st)"
    and a2: "\<And>k. \<exists>t. acc st2 k = map_option (\<lambda>r. if \<exists>d. aj_dispatch_id r = Some d \<and> d \<notin> dispatch_ids (st_results st1)
        then repend_upd t r else r) (acc st k)" unfolding acc_def by blast
  have a: "acc st2 k = acc st k" for k
    using a2 [of k] open_keeps_claims [OF ln] unfolding ids by blast
  have x2: "exe st2 k = exe st1 k" for k using op(2) by (simp add: exe_def)
  from linked_running [OF ln e] obtain r where r: "acc st j = Some r" "aj_dispatch_id r = Some d" by blast
  have v: "view st2 j = Some (Failed, xr_execution_count e)"
    using r by (simp add: view_def job_view_def a x2 x1 ended_status parse_status_def)
  have "queue_of (st_results st1) (ended (env_clock E 0) ?oc e) = queue_of (st_results st) e"
    by (simp add: queue_of_def ended_status st1)
  then have n: "retries st2 j = retries st j"
    using e(1) by (simp add: retries_def x2 x1 op(2))
  have "linked_job (acc st2 k) (exe st2 k)" for k
    using linked_at [OF ln, of k] linked_at [OF ln, of j] r e
    by (simp add: a x2 x1) (auto simp: linked_job_def ended_status)
  then have ln2: "linked st2"
    using ln op(2,3) by (simp add: linked_def st1 execution_queue_names_def)
  have "store_wf st1" unfolding st1_def by (rule results_h_wf(3) [OF wf])
  then have "ingest_wf (st_names st1) (st_ingest st)" "results_wf (st_results st1)" by (simp_all add: store_wf_def st1)
  from covered_terminal [OF _ open_store_wf [OF this op(1)] ln2 v]
  have "\<forall>st3. covered_step\<^sup>*\<^sup>* st2 st3 \<longrightarrow> view st3 j = Some (Failed, xr_execution_count e)" by simp
  with v n retry op(1) ln2 show ?thesis by (intro exI [of _ st2]) (simp add: st1)
qed

theorem crash_before_repend_strands_job_witness:
  "\<exists>st2. open_store quiet (st_ingest (snd (results_h_complete quiet_env 1 ''a'' (OutcomeFailed ''boom'') sample_store)))
      (st_results (snd (results_h_complete quiet_env 1 ''a'' (OutcomeFailed ''boom'') sample_store))) = Inr st2 \<and>
     view st2 1 = Some (Failed, 1) \<and> 1 \<le> retries st2 1 \<and>
     view (run_op quiet (OpRecover 1000) st2) 1 = Some (Failed, 1)"
proof -
  let ?e = "sample_exec 1 ''running'' 1 (Some 100) ''a'' None None"
  have "exe sample_store 1 = Some ?e" by (simp add: exe_def sample_store_def sample_results_defs)
  moreover have "running_guard (1, ''a'') ?e" by (simp add: running_guard_def sample_exec_def)
  moreover have "xr_execution_count ?e \<le> retries sample_store 1"
    by (simp add: retries_def exe_def queue_of_def sample_store_def sample_results_defs)
  moreover have "env_io quiet_env 0 = None" by (simp add: quiet_env_def)
  moreover have "covered_step st2 (run_op quiet (OpRecover 1000) st2)" for st2
    unfolding covered_step_def by (intro exI [of _ quiet] exI [of _ "OpRecover 1000"]) simp
  ultimately show ?thesis
    using crash_before_repend_strands_job [OF sample_store_wf sample_store_linked fault_free_quiet _ _ _ _ refl, of quiet_env 1 ?e "''a''" "''boom''"]
    by (auto simp: sample_exec_def)
qed

text \<open>
  C37. Job ids are reused across cleanups. The ingest cleanup deletes jobs by creation time, the
  results cleanup deletes executions by modification time, and the id of a new job is one more
  than the largest id in use. When every job is old enough to be deleted but the execution of
  job 1 was modified recently, the next submission is accepted under id 1 and immediately reads
  as completed, with the attempts of the old job.
\<close>

theorem cleanup_reuses_job_id:
  assumes ff: "fault_free Es" and E: "env_io E 0 = None" and q: "aj_queue_name job \<in> st_names st"
    and names: "st_names st \<subseteq> queue_names (st_ingest st)" and wf: "store_wf st"
    and old: "list_all (\<lambda>r. aj_created_at r < cutoff) (accepted_jobs (st_ingest st))"
    and e: "exe st 1 = Some e" "xr_status e = ''completed''" "cutoff \<le> xr_updated_at e"
  shows "\<exists>st1 st2 n. store_cleanup Es cutoff st = (Inr n, st1) \<and>
    store_enqueue E job st1 = (Inr (job\<lparr>aj_id := 1\<rparr>), st2) \<and> view st2 1 = Some (Completed, xr_execution_count e)"
proof -
  let ?idb = "(st_ingest st)\<lparr>accepted_jobs := []\<rparr>"
  let ?rdb = "(st_results st)\<lparr>executions := filter (\<lambda>r. \<not> xr_updated_at r < cutoff) (executions (st_results st))\<rparr>"
  let ?st1 = "st\<lparr>st_ingest := ?idb, st_results := ?rdb\<rparr>"
  have none: "filter (\<lambda>r. \<not> aj_created_at r < cutoff) (accepted_jobs (st_ingest st)) = []"
    using old by (auto simp: filter_empty_conv list_all_iff)
  have cl: "\<exists>n. store_cleanup Es cutoff st = (Inr n, ?st1)"
    using ff none by (simp add: store_cleanup_def ingest_h_cleanup_def results_h_cleanup_def ingest_call_def results_call_def
        ingest_cleanup_def results_cleanup_def)
  have "distinct (map xr_job_id (executions (st_results st)))"
    using wf by (simp add: store_wf_def results_wf_def exec_rows_wf_def)
  from row_by_filter [OF this, of 1 "\<lambda>r. \<not> xr_updated_at r < cutoff"] e(1,3)
  have x1: "exe ?st1 1 = Some e" by (simp add: exe_def)
  let ?new = "stored_row 1 job"
  have "insert_chunks (queue_names ?idb) [] [[\<lparr>pe_job = job, pe_reply = 0\<rparr>]] = Inr ([?new], [\<lparr>pe_job = job\<lparr>aj_id := 1\<rparr>, pe_reply = 0\<rparr>])"
    using q names by (auto simp: queue_names_def next_rowid_def i64_max_def stamp_ids_eq stored_row_def)
  then have "enqueue_batch None [\<lparr>pe_job = job, pe_reply = 0\<rparr>] (st_names st) ?idb =
      (?idb\<lparr>accepted_jobs := [?new]\<rparr>, [(0, Inr (job\<lparr>aj_id := 1\<rparr>))], Some 1)"
    using q by (simp add: enqueue_batch_def chunks_short ROWS_PER_STATEMENT_def)
  then have en: "store_enqueue E job ?st1 = (Inr (job\<lparr>aj_id := 1\<rparr>), ?st1\<lparr>st_ingest := ?idb\<lparr>accepted_jobs := [?new]\<rparr>\<rparr>)"
    using E by (simp add: store_enqueue_def ingest_h_enqueue_def ingest_call_def)
  have "view (?st1\<lparr>st_ingest := ?idb\<lparr>accepted_jobs := [?new]\<rparr>\<rparr>) 1 = Some (Completed, xr_execution_count e)"
    using x1 e(2) by (simp add: view_def job_view_def acc_def exe_def parse_status_def)
  with cl en show ?thesis by blast
qed

definition aged_store :: Store where
  "aged_store =
     \<lparr>st_ingest = \<lparr>job_queues = job_queues sample_ingest,
         accepted_jobs = [\<lparr>aj_id = 1, aj_queue_name = ''mail'', aj_payload = [1], aj_dispatch_id = Some ''a'',
                           aj_created_at = 5, aj_updated_at = 6\<rparr>], ing_meta = Map.empty\<rparr>,
      st_names = {''mail''},
      st_results = sample_results\<lparr>executions := [(sample_exec 1 ''completed'' 1 None ''a'' (Some [7]) None)\<lparr>xr_updated_at := 900\<rparr>]\<rparr>\<rparr>"

theorem cleanup_reuses_job_id_witness:
  "\<exists>st1 st2 n. store_cleanup quiet 500 aged_store = (Inr n, st1) \<and>
     store_enqueue quiet_env (AcceptedJob_new 1000 ''mail'' [42]) st1 = (Inr ((AcceptedJob_new 1000 ''mail'' [42])\<lparr>aj_id := 1\<rparr>), st2) \<and>
     view st2 1 = Some (Completed, 1)"
proof -
  let ?e = "(sample_exec 1 ''completed'' 1 None ''a'' (Some [7]) None)\<lparr>xr_updated_at := 900\<rparr>"
  have wf: "store_wf aged_store"
    by (simp add: store_wf_def aged_store_def ingest_wf_def sample_ingest_def queue_rows_wf_def queue_row_ok_def
        queue_names_def i64_max_def results_wf_def sample_results_defs exec_rows_wf_def exec_row_ok_def execution_queue_names_def)
  show ?thesis
    using cleanup_reuses_job_id [OF fault_free_quiet _ _ _ wf, of quiet_env "AcceptedJob_new 1000 ''mail'' [42]" 500 ?e]
    by (simp add: quiet_env_def AcceptedJob_new_def aged_store_def queue_names_def sample_ingest_def exe_def sample_results_defs)
qed

section \<open>A release that comes too late\<close>

text \<open>A dispatch skips a completed execution, so a batch with its job is answered with an error.\<close>

lemma dispatch_rel_completed: "dispatch_rel now j (Some e) new \<Longrightarrow> xr_status e = ''completed'' \<Longrightarrow> new = Some e"
  by (auto simp: dispatch_rel_def)

lemma upsert_execution_skips:
  assumes "upsert_execution now queues d rows = Inr (rows', Some r)" and "row_by xr_job_id j rows = Some e" and "xr_status e = ''completed''"
  shows "xr_job_id r \<noteq> j"
  using assms(1)
proof (cases rule: upsert_execution_cases)
  case (updated r1 r')
  then show ?thesis using assms(2,3) row_by_Some [OF updated(1)] by auto
next
  case (inserted i r')
  then show ?thesis using assms(2) by auto
qed auto

lemma upsert_executions_skip:
  "upsert_executions now queues ds rows = Inr (rows', rets) \<Longrightarrow> row_by xr_job_id j rows = Some e \<Longrightarrow> xr_status e = ''completed'' \<Longrightarrow>
     j \<notin> xr_job_id ` set rets"
proof (induction ds arbitrary: rows rets)
  case (Cons d ds)
  from Cons.prems(1) obtain rows1 ret rets1 where
    u: "upsert_execution now queues d rows = Inr (rows1, ret)" "upsert_executions now queues ds rows1 = Inr (rows', rets1)"
      "rets = (case ret of None \<Rightarrow> rets1 | Some r \<Rightarrow> r # rets1)"
    by (auto split: sum.splits)
  have "row_by xr_job_id j rows1 = Some e"
    using dispatch_rel_completed [of now j e] upsert_execution_rel [OF u(1), of j] Cons.prems(2,3) by metis
  from Cons.IH [OF u(2) this Cons.prems(3)] upsert_execution_skips [OF _ Cons.prems(2,3), of now queues d rows1] u(1,3) show ?case
    by (cases ret) auto
qed auto

lemma record_upserted_other: "record_upserted l rs m = Inr m' \<Longrightarrow> j \<notin> xr_job_id ` set rs \<Longrightarrow> m' j = m j"
  by (induction rs arbitrary: m) (auto split: option.splits)

lemma dispatch_chunks_skip:
  "dispatch_chunks now queues cs rows m = Inr (rows', m') \<Longrightarrow> row_by xr_job_id j rows = Some e \<Longrightarrow> xr_status e = ''completed'' \<Longrightarrow> m' j = m j"
proof (induction cs arbitrary: rows m)
  case (Cons c cs)
  from Cons.prems(1) obtain rows1 ups l m1 where u: "upsert_executions now queues c rows = Inr (rows1, ups)"
    "record_upserted l ups m = Inr m1" "dispatch_chunks now queues cs rows1 m1 = Inr (rows', m')"
    by (auto simp: Let_def split: sum.splits)
  have "row_by xr_job_id j rows1 = Some e"
    using dispatch_rel_completed [of now j e] upsert_executions_rel [OF u(1), of j] Cons.prems(2,3) by metis
  from Cons.IH [OF u(3) this Cons.prems(3)] record_upserted_other [OF u(2) upsert_executions_skip [OF u(1) Cons.prems(2,3)]]
  show ?case by simp
qed auto

lemma collect_dispatched_missing: "m j = None \<Longrightarrow> j \<in> di_job_id ` set ds \<Longrightarrow> \<exists>e. collect_dispatched m ds = Inl e"
proof (induction ds arbitrary: m)
  case (Cons d ds)
  have "\<exists>e. collect_dispatched (m(di_job_id d := None)) ds = Inl e" if "di_job_id d \<noteq> j"
    using that Cons.prems by (intro Cons.IH) auto
  then show ?case using Cons.prems(1) by (cases "di_job_id d = j") (auto split: option.split)
qed simp

lemma dispatch_batch_completed:
  assumes "row_by xr_job_id j (executions db) = Some e" and "xr_status e = ''completed''" and "j \<in> di_job_id ` set ds"
  shows "\<exists>err. fst (dispatch_batch io now ds db) = Inl err"
proof (cases "io = None \<and> (\<exists>x. dispatch_chunks now (execution_queue_names db) (chunks ROWS_PER_STATEMENT ds) (executions db) Map.empty = Inr x)")
  case True
  then obtain rows' m where d: "dispatch_chunks now (execution_queue_names db) (chunks ROWS_PER_STATEMENT ds) (executions db) Map.empty = Inr (rows', m)"
    by auto
  have "m j = None" using dispatch_chunks_skip [OF d assms(1,2)] by simp
  from collect_dispatched_missing [of m j, OF this assms(3)] show ?thesis using True d assms(3) by (auto simp: dispatch_batch_def)
qed (use assms(3) in \<open>auto simp: dispatch_batch_def split: option.splits sum.splits\<close>)

text \<open>
  C40. Releasing a claim reopens its job even when the result of the job is stored. \<open>release_claim\<close> compares the dispatch id with the
  accepted job and then abandons the execution, which does nothing when it is no longer running, and reopens the job all the
  same. A release that comes after the worker's result (the dispatch failed although the worker got the job) leaves
  a completed job open: the databases no longer agree, the job is claimed again, and every dispatch of a batch that contains it is
  answered with an error.
\<close>

theorem late_release_reopens_completed_job:
  assumes ff: "fault_free Es"
    and r: "acc st j = Some r" "aj_dispatch_id r = Some d"
    and e: "exe st j = Some e" "xr_status e = ''completed''" and batch: "j \<in> di_job_id ` set rows"
  shows "\<exists>st' t err. release_claim Es j d st = (Inr True, st') \<and> acc st' j = Some (repend_upd t r) \<and> exe st' j = Some e \<and>
    \<not> linked st' \<and> fst (results_h_dispatch E rows st') = Inl err"
proof -
  let ?st1 = "snd (results_h_abandon (Es 1) j d st)"
  let ?st2 = "snd (ingest_h_repend (Es 2) j d ?st1)" and ?t = "env_clock (Es 2) 0"
  have "accepted_row (Es 0) j st = Inr r" using r ff by (simp add: accepted_row_def read_accepted_job_def acc_def)
  then have rel: "release_claim Es j d st = (Inr True, ?st2)"
    using r ff by (simp add: release_claim_def abandon_call repend_call)
  have a2: "acc ?st2 j = Some (repend_upd ?t r)"
    using r ff by (simp add: abandon_call repend_call acc_def row_by_repend)
  have e2: "exe ?st2 j = Some e"
    using e ff by (simp add: abandon_call repend_call exe_def row_by_guarded set_failed_def running_guard_def)
  have "\<not> linked_job (acc ?st2 j) (exe ?st2 j)"
    using a2 e2 e(2) by (simp add: linked_job_def repend_upd_def)
  then have "\<not> linked ?st2" using linked_at by blast
  moreover obtain err where "fst (dispatch_batch (env_io E 0) (env_clock E 0) rows (st_results ?st2)) = Inl err"
    using dispatch_batch_completed [OF _ e(2) batch] e2 by (metis exe_def)
  ultimately show ?thesis
    using rel a2 e2 by (auto simp: results_h_dispatch_def results_call_def case_prod_unfold)
qed

theorem late_release_reopens_completed_job_witness:
  "\<exists>st' t err. release_claim quiet 3 ''c'' sample_store = (Inr True, st') \<and>
     acc st' 3 = Some \<lparr>aj_id = 3, aj_queue_name = ''mail'', aj_payload = [3], aj_dispatch_id = None, aj_created_at = 9, aj_updated_at = t\<rparr> \<and>
     \<not> linked st' \<and>
     fst (results_h_dispatch quiet_env [\<lparr>di_job_id = 3, di_queue_name = ''mail'', di_dispatch_id = ''d3'', di_lease_expires_at = 200\<rparr>] st') = Inl err"
proof -
  let ?r = "\<lparr>aj_id = 3, aj_queue_name = ''mail'', aj_payload = [3], aj_dispatch_id = Some ''c'', aj_created_at = 9, aj_updated_at = 9\<rparr>"
  let ?e = "sample_exec 3 ''completed'' 1 None ''c'' (Some [7]) None"
  have "acc sample_store 3 = Some ?r" "exe sample_store 3 = Some ?e" "xr_status ?e = ''completed''"
    by (simp_all add: acc_def exe_def sample_store_def sample_results_defs)
  from late_release_reopens_completed_job [OF fault_free_quiet this(1) _ this(2,3),
      of "''c''" "[\<lparr>di_job_id = 3, di_queue_name = ''mail'', di_dispatch_id = ''d3'', di_lease_expires_at = 200\<rparr>]" quiet_env]
  show ?thesis by (auto simp: repend_upd_def)
qed

end
