(* ===== verification/Maq_System.thy ===== *)
theory Maq_System
  imports Maq_Engine_Pass Maq_Store_Life
begin

text \<open>
  The server: the engine on the SQLite store and the worker registry. The interpretations show that
  the registry and the store keep the contracts the engine relies on; the runs of the server
  interleave API calls, worker events, scheduling passes, deliveries and the tasks of the worker
  connections; the properties follow the budget, the slots and the wake-ups through all of them.
\<close>

section \<open>The store and the registry as ports\<close>

text \<open>
  The state of the store port is the store and the environments of the operations to come: the
  \<open>n\<close>-th operation runs under the \<open>n\<close>-th sequence of environments.
\<close>

type_synonym StoreState = "Store \<times> (nat \<Rightarrow> nat \<Rightarrow> env)"

definition with_envs :: "((nat \<Rightarrow> env) \<Rightarrow> Store \<Rightarrow> 'r \<times> Store) \<Rightarrow> StoreState \<Rightarrow> 'r \<times> StoreState" where
  "with_envs op s = (let (r, st) = op (snd s 0) (fst s) in (r, (st, \<lambda>n. snd s (Suc n))))"

text \<open>The ports of the server: \<open>main.rs\<close> passes the SQLite store and the worker registry to the engine.\<close>

definition maq_ports :: "(WorkerRegistry, StoreState) Ports" where
  "maq_ports =
     \<lparr>pt_reserve = reserve, pt_dispatch_start = dispatch_start, pt_dispatch_finish = dispatch_finish, pt_release = release,
      pt_enqueue = (\<lambda>job. with_envs (\<lambda>Es. store_enqueue (Es 0) job)),
      pt_get_job = (\<lambda>i. with_envs (\<lambda>Es st. (get_job Es i st, st))),
      pt_list_queues = with_envs (\<lambda>Es st. (list_queues (Es 0) st, st)),
      pt_claim_batch = (\<lambda>q n. with_envs (\<lambda>Es. claim_batch Es q n)),
      pt_complete_worker_result = (\<lambda>j d oc. with_envs (\<lambda>Es. complete_worker_result Es j d oc)),
      pt_release_claim = (\<lambda>j d. with_envs (\<lambda>Es. release_claim Es j d)),
      pt_recover_stale_leases = (\<lambda>now. with_envs (\<lambda>Es. recover_stale_leases Es now))\<rparr>"

lemma maq_ports_sel [simp]:
  "pt_reserve maq_ports = reserve" "pt_release maq_ports = release"
  "pt_dispatch_start maq_ports = dispatch_start" "pt_dispatch_finish maq_ports = dispatch_finish"
  "pt_enqueue maq_ports j = with_envs (\<lambda>Es. store_enqueue (Es 0) j)"
  "pt_get_job maq_ports i = with_envs (\<lambda>Es st. (get_job Es i st, st))"
  "pt_list_queues maq_ports = with_envs (\<lambda>Es st. (list_queues (Es 0) st, st))"
  "pt_claim_batch maq_ports q n = with_envs (\<lambda>Es. claim_batch Es q n)"
  "pt_complete_worker_result maq_ports i d oc = with_envs (\<lambda>Es. complete_worker_result Es i d oc)"
  "pt_release_claim maq_ports i d = with_envs (\<lambda>Es. release_claim Es i d)"
  "pt_recover_stale_leases maq_ports t = with_envs (\<lambda>Es. recover_stale_leases Es t)"
  by (simp_all add: maq_ports_def)

section \<open>The registry keeps the dispatcher contract\<close>

lemma find_ideal_worker_registered: "find_ideal_worker ws r = Some (i, w) \<Longrightarrow> map_of ws i = Some w"
  by (auto simp: find_ideal_worker_def split: option.splits)

lemma reserve_slots_permits: "p \<in> set (fst (reserve_slots r n ws)) \<Longrightarrow> \<exists>i. rsv_permit p = RegistryPermit i"
  by (induction r n ws rule: reserve_slots.induct) (auto simp: Let_def split: option.splits prod.splits)

lemma reserve_queues_permits: "p \<in> set (fst (reserve_queues rs ws)) \<Longrightarrow> \<exists>i. rsv_permit p = RegistryPermit i"
proof (induction rs ws rule: reserve_queues.induct)
  case (2 request queues ws)
  obtain ps ws1 where one: "reserve_slots request (qres_count request) ws = (ps, ws1)" by fastforce
  obtain qs ws2 where two: "reserve_queues queues ws1 = (qs, ws2)" by fastforce
  from 2(2) one two consider "p \<in> set ps" | "p \<in> set qs" by auto
  then show ?case
    using 2(1) [OF one [symmetric] refl] two reserve_slots_permits [of p request "qres_count request" ws] one
    by cases simp_all
qed simp

interpretation registry: dispatcher_port reserve release "registry_inv S"
  for S
proof unfold_locales
  fix d d' G rs ps
  assume inv: "registry_inv S d G" and dis: "distinct (map qres_queue_name rs)" and r: "reserve rs d = (Inr ps, d')"
  obtain ws' where ws': "reserve_queues rs (rg_workers d) = (ps, ws')" using r by (auto simp: reserve_def split: prod.splits)
  have "distinct (wkeys (rg_workers d))" using inv by (simp add: registry_inv_def)
  from reserve_queues_ok [OF this dis ws'] reserve_queues_permits [of _ rs "rg_workers d"] ws' reserve_inv [OF inv r]
  show "registry_inv S d' (G + permits_of ps) \<and>
      (\<forall>p\<in>set ps. rsv_queue_name p \<in> qres_queue_name ` set rs \<and> (\<exists>i. rsv_permit p = RegistryPermit i)) \<and>
      (\<forall>r\<in>set rs. length (filter (\<lambda>p. rsv_queue_name p = qres_queue_name r) ps) \<le> qres_count r)"
    by auto
next
  fix d G and p :: ReservedDispatch and i assume "registry_inv S d G" "rsv_permit p = RegistryPermit i" "i \<in># G"
  then show "registry_inv S (release p d) (G - {#i#})" by (simp add: release_def release_permit_inv)
qed (simp add: reserve_def case_prod_beta)

section \<open>The SQLite store keeps the store contract\<close>

lemma claim_batch_jobs:
  assumes wf: "store_wf st" and n: "0 < n" and cb: "claim_batch Es q n st = (Inr jobs, st')"
  shows "length jobs \<le> n \<and> (\<forall>job\<in>set jobs. job_name job = q \<and> job_dispatch_id job \<noteq> None)"
proof -
  obtain r db' where ing: "ingest_claim_batch (env_io (Es 0) 0) (env_pick (Es 0)) (env_clock (Es 0) 0) (env_uuid (Es 0)) q n
      (st_names st) (st_ingest st) = (r, db')" by fastforce
  obtain claimed st1 where h: "ingest_h_claim_batch (Es 0) q n st = (Inr claimed, st1)" "r = Inr claimed"
    using cb ing by (auto simp: claim_batch_def claim_batch_inner_def ingest_h_claim_batch_def ingest_call_def split: prod.splits sum.splits)
  have iwf: "ingest_wf (st_names st) (st_ingest st)" using wf by (simp add: store_wf_def)
  have cl: "length claimed \<le> n \<and> (\<forall>c\<in>set claimed. ic_name c = q)"
    using iwf ing
  proof (cases rule: ingest_claim_batch_cases)
    case (claimed sel t)
    have "clamp n 1 MAX_CLAIM_BATCH_SIZE \<le> n" using n by (simp add: clamp_def)
    then have "length sel \<le> n" by (simp add: claimed(3))
    moreover have "aj_queue_name x = q" if "x \<in> set sel" for x
      using that in_set_takeD unfolding claimed(3) by (fastforce simp: pending_rows_props(1))
    ultimately show ?thesis using claimed(4) h(2) by (auto simp: claim_of_def dest: set_zip_leftD)
  qed (use h(2) in simp)
  show ?thesis
  proof (cases "claimed = []")
    case True
    then show ?thesis using cb h by (simp add: claim_batch_def claim_batch_inner_def)
  next
    case False
    then obtain dispatched where "jobs = map (\<lambda>(c, d). job_from_claimed c d) (zip claimed dispatched)"
      using cb h by (auto simp: claim_batch_def claim_batch_inner_def Let_def split: prod.splits sum.splits)
    then show ?thesis using cl by (auto simp: job_from_claimed_def dest: set_zip_leftD)
  qed
qed

definition state_wf :: "StoreState \<Rightarrow> bool" where
  "state_wf s \<longleftrightarrow> store_wf (fst s)"

lemma with_envs_wf:
  assumes "\<And>Es st. store_wf st \<Longrightarrow> store_wf (snd (op Es st))" and "state_wf s" and "with_envs op s = (r, s')"
  shows "state_wf s'"
  using assms(1) [of "fst s" "snd s 0"] assms(2,3) by (auto simp: with_envs_def state_wf_def split: prod.splits)

interpretation sqlite: store_port "\<lambda>q n. with_envs (\<lambda>Es. claim_batch Es q n)" state_wf
proof unfold_locales
  fix s q n r s' assume "state_wf s" "with_envs (\<lambda>Es. claim_batch Es q n) s = (r, s')"
  then show "state_wf s'" using with_envs_wf [of "\<lambda>Es. claim_batch Es q n"] claim_batch_wf by blast
next
  fix s n q jobs s' assume a: "state_wf s" "0 < n" "with_envs (\<lambda>Es. claim_batch Es q n) s = (Inr jobs, s')"
  then have "claim_batch (snd s 0) q n (fst s) = (Inr jobs, fst s')" by (auto simp: with_envs_def split: prod.splits)
  from claim_batch_jobs [OF _ a(2) this] a(1)
  show "length jobs \<le> n \<and> (\<forall>job\<in>set jobs. job_name job = q \<and> job_dispatch_id job \<noteq> None)" by (simp add: state_wf_def)
qed

interpretation server: engine_ports maq_ports "registry_inv S" state_wf
  for S
proof -
  have "pt_claim_batch maq_ports = (\<lambda>q n. with_envs (\<lambda>Es. claim_batch Es q n))" by (simp add: maq_ports_def)
  then show "engine_ports maq_ports (registry_inv S) state_wf"
    by (simp add: engine_ports_def registry.dispatcher_port_axioms sqlite.store_port_axioms)
qed

section \<open>Runs of the server\<close>

text \<open>
  The deliveries that hold a reserved slot: those in the channel and the spawned tasks that have
  not called \<open>dispatch\<close> yet.
\<close>

definition undispatched :: "('d, 's) Engine \<Rightarrow> DeliveryWork list" where
  "undispatched e = en_delivery e @ map dt_work (filter (\<lambda>t. dt_stage t = Spawned) (en_running e))"

definition outstanding :: "('d, 's) Engine \<Rightarrow> ReservedDispatch list" where
  "outstanding e = map dw_permit (undispatched e)"

type_synonym Server = "(WorkerRegistry, StoreState) Engine"

text \<open>
  A step of the server, with the set of the reused worker ids beside it: an API call, an event for the
  result listener, an arm of the scheduler task, the end of a retry's sleep, the delivery pump, a
  step of a delivery task or a step of the worker connections (every registry step that neither
  makes nor ends a permit; any worker may register at any time). An arm of the scheduler task is one step here, and so is
  the end of a delivery; how the locked sections of the scheduler interleave with the others is the subject of
  the scheduler's own runs.
\<close>

inductive engine_step :: "Server \<times> Uuid set \<Rightarrow> Server \<times> Uuid set \<Rightarrow> bool" where
  en_submit: "submit maq_ports ser now (job :: string SubmitJob) e = (r, e') \<Longrightarrow> engine_step (e, S) (e', S)"
| en_get_job: "engine_get_job maq_ports i e = (r, e') \<Longrightarrow> engine_step (e, S) (e', S)"
| en_event: "engine_step (e, S) (on_event maq_ports ev e, S)"
| en_arm: "scheduler_arm maq_ports arm e = Some e' \<Longrightarrow> engine_step (e, S) (e', S)"
| en_wake: "n < length (sc_sleeping (en_sched e)) \<Longrightarrow> engine_step (e, S) (e\<lparr>en_sched := wake_retry n (en_sched e)\<rparr>, S)"
| en_seed: "engine_step (e, S) (engine_seed maq_ports e, S)"
| en_pump: "engine_step (e, S) (delivery_pump e, S)"
| en_task: "engine_step (e, S) (delivery_task maq_ports ack_id ack k e, S)"
| en_world: "registry_step (en_dispatcher e, permits_of (outstanding e), S) (reg, permits_of (outstanding e), S') \<Longrightarrow>
    engine_step (e, S) (e\<lparr>en_dispatcher := reg\<rparr>, S')"

inductive engine_reach :: "Server \<times> Uuid set \<Rightarrow> bool" where
  engine_start: "with_dispatcher (store, envs) WorkerRegistry_default options = Some e \<Longrightarrow> store_wf store \<Longrightarrow> engine_reach (e, {})"
| engine_next: "engine_reach s \<Longrightarrow> engine_step s s' \<Longrightarrow> engine_reach s'"

text \<open>The scheduler state is one that its own runs reach between two passes and two probes.\<close>

definition sched_quiet :: "SchedulerState \<Rightarrow> bool" where
  "sched_quiet s \<longleftrightarrow> (\<exists>x. sched_reach x \<and> rn_state x = s \<and> rn_passing x = {#} \<and> rn_probing x = {#})"

definition engine_inv :: "Uuid set \<Rightarrow> Server \<Rightarrow> bool" where
  "engine_inv S e \<longleftrightarrow>
     registry_inv S (en_dispatcher e) (permits_of (outstanding e)) \<and> state_wf (en_store e) \<and> en_delivery_open e \<and>
     en_budget e + length (en_delivery e) + length (en_running e) = do_max_delivery_in_flight (en_options e) \<and>
     list_all work_ok (en_delivery e @ map dt_work (en_running e)) \<and> sched_quiet (en_sched e)"

section \<open>The scheduler inside the engine\<close>

lemma sched_quiet_step:
  assumes "sched_quiet s" and "\<And>x. rn_state x = s \<Longrightarrow> rn_passing x = {#} \<Longrightarrow> rn_probing x = {#} \<Longrightarrow>
    \<exists>y. sched_step x y \<and> rn_state y = s' \<and> rn_passing y = {#} \<and> rn_probing y = {#}"
  shows "sched_quiet s'"
proof -
  from assms(1) obtain x where x: "sched_reach x" "rn_state x = s" "rn_passing x = {#}" "rn_probing x = {#}" by (auto simp: sched_quiet_def)
  from assms(2) [OF x(2-4)] obtain y where "sched_step x y" "rn_state y = s'" "rn_passing y = {#}" "rn_probing y = {#}" by blast
  with sched_next [OF x(1)] show ?thesis by (auto simp: sched_quiet_def)
qed

lemma sched_quiet_schedule: "sched_quiet s \<Longrightarrow> sched_quiet (schedule_queue q s)"
  by (erule sched_quiet_step) (use sd_schedule in fastforce)

lemma sched_quiet_fold: "sched_quiet s \<Longrightarrow> sched_quiet (fold schedule_queue qs s)"
  by (induction qs arbitrary: s) (simp_all add: sched_quiet_schedule)

lemma sched_quiet_seed: "sched_quiet s \<Longrightarrow> sched_quiet (seed_idle_queues listed s)"
  by (erule sched_quiet_step) (use sd_seed in fastforce)

lemma sched_quiet_wake: "sched_quiet s \<Longrightarrow> n < length (sc_sleeping s) \<Longrightarrow> sched_quiet (wake_retry n s)"
  by (erule sched_quiet_step) (use sd_wake in fastforce)

lemma sched_probed:
  assumes "sched_reach x" and "rn_probing x = mset qs"
  shows "\<exists>y. sched_reach y \<and> rn_state y = fold schedule_queue qs (rn_state x) \<and> rn_passing y = rn_passing x \<and> rn_probing y = {#}"
  using assms
proof (induction qs arbitrary: x)
  case (Cons q qs)
  from Cons.prems sd_probed [of q x]
  have "sched_reach (x\<lparr>rn_state := schedule_queue q (rn_state x), rn_probing := rn_probing x - {#q#}\<rparr>)" by (auto intro: sched_next)
  from Cons.IH [OF this] Cons.prems(2) show ?case by simp
qed auto

lemma sched_quiet_probe:
  assumes "sched_quiet s"
  shows "sched_quiet (probe_idle_queues options s)"
proof -
  from assms obtain x where x: "sched_reach x" "rn_state x = s" "rn_passing x = {#}" "rn_probing x = {#}" by (auto simp: sched_quiet_def)
  obtain qs s1 where pop: "probe_pop options s = (qs, s1)" by fastforce
  with sched_next [OF x(1) sd_probe [of options x qs s1]] x(2,4)
  have "sched_reach (x\<lparr>rn_state := s1, rn_probing := mset qs\<rparr>)" by simp
  from sched_probed [OF this, of qs] x(3) pop show ?thesis by (auto simp: sched_quiet_def probe_idle_queues_def)
qed

lemma sched_finish_all:
  assumes "sched_reach x" and "rn_passing x = mset qs" and "length outs = length qs"
  shows "\<exists>y. sched_reach y \<and> rn_state y = fold (\<lambda>(q, outcome). finish_pass q outcome) (zip qs outs) (rn_state x) \<and>
    rn_passing y = {#} \<and> rn_probing y = rn_probing x"
  using assms
proof (induction qs arbitrary: x outs)
  case (Cons q qs)
  from Cons.prems(3) obtain out outs' where outs: "outs = out # outs'" by (cases outs) auto
  from Cons.prems(1,2) sd_finish [of q x out]
  have "sched_reach (x\<lparr>rn_state := finish_pass q out (rn_state x), rn_passing := rn_passing x - {#q#}\<rparr>)" by (auto intro: sched_next)
  from Cons.IH [OF this, of outs'] Cons.prems(2,3) outs show ?case by simp
qed auto

lemma sched_quiet_tokens:
  assumes "sched_quiet s"
  shows "waiting s q = (if sc_scheduled s q = None then 0 else 1)"
  using assms sched_reach_inv unfolding sched_quiet_def sched_inv_def tokens_def by fastforce

lemma sched_quiet_distinct: "sched_quiet s \<Longrightarrow> distinct (sc_tx s)"
proof -
  assume s: "sched_quiet s"
  have "count (mset (sc_tx s)) q \<le> 1" for q
    using sched_quiet_tokens [OF s, of q] unfolding waiting_def by (simp only: split: if_splits)
  then show ?thesis by (metis count_mset_0_iff distinct_count_atmost_1 le_less less_one)
qed

lemma sched_quiet_pass:
  assumes "sched_quiet s" and "take_queues s = (qs, s1)" and "length outs = length qs"
  shows "sched_quiet (fold (\<lambda>(q, outcome). finish_pass q outcome) (zip qs outs) s1)"
proof -
  from assms(1) obtain x where x: "sched_reach x" "rn_state x = s" "rn_passing x = {#}" "rn_probing x = {#}" by (auto simp: sched_quiet_def)
  with sched_next [OF x(1) sd_take [of x qs s1]] assms(2) have "sched_reach (x\<lparr>rn_state := s1, rn_passing := mset qs\<rparr>)" by simp
  from sched_finish_all [OF this _ assms(3)] x(4) show ?thesis by (auto simp: sched_quiet_def)
qed

section \<open>Every step keeps the invariant\<close>

lemma engine_inv_sched: "engine_inv S e \<Longrightarrow> sched_quiet s \<Longrightarrow> engine_inv S (e\<lparr>en_sched := s\<rparr>)"
  by (simp add: engine_inv_def outstanding_def undispatched_def)

lemma engine_inv_store: "engine_inv S e \<Longrightarrow> state_wf s \<Longrightarrow> engine_inv S (e\<lparr>en_store := s\<rparr>)"
  by (simp add: engine_inv_def outstanding_def undispatched_def)

lemma engine_inv_schedule: "engine_inv S e \<Longrightarrow> engine_inv S (en_schedule q e)"
  unfolding en_schedule_def by (intro engine_inv_sched sched_quiet_schedule) (simp_all add: engine_inv_def)

lemma engine_inv_fold_schedule: "engine_inv S e \<Longrightarrow> engine_inv S (fold en_schedule qs e)"
  by (induction qs arbitrary: e) (simp_all add: engine_inv_schedule)

lemma engine_inv_op:
  assumes "engine_inv S e" and "with_envs op (en_store e) = (r, s)" and "\<And>Es st. store_wf st \<Longrightarrow> store_wf (snd (op Es st))"
  shows "engine_inv S (e\<lparr>en_store := s\<rparr>)"
  using assms with_envs_wf [of op "en_store e" r s] by (intro engine_inv_store) (simp_all add: engine_inv_def)

lemma submit_inv: "engine_inv S e \<Longrightarrow> submit maq_ports ser now job e = (r, e') \<Longrightarrow> engine_inv S e'"
  by (auto simp: submit_def Let_def store_enqueue_wf split: sum.splits prod.splits dest: engine_inv_op intro!: engine_inv_schedule)

lemma get_job_inv: "engine_inv S e \<Longrightarrow> engine_get_job maq_ports i e = (r, e') \<Longrightarrow> engine_inv S e'"
  by (auto simp: engine_get_job_def Let_def split: sum.splits prod.splits dest: engine_inv_op)

lemma complete_worker_result_inv:
  "engine_inv S e \<Longrightarrow> engine_complete_worker_result maq_ports j d oc e = (r, e') \<Longrightarrow> engine_inv S e'"
  by (auto simp: engine_complete_worker_result_def Let_def complete_wf split: prod.splits dest: engine_inv_op)

lemma on_event_inv: "engine_inv S e \<Longrightarrow> engine_inv S (on_event maq_ports ev e)"
  using complete_worker_result_inv [OF engine_inv_schedule]
  by (cases ev) (auto simp: on_event_def Let_def engine_inv_schedule split: prod.splits)

lemma recovery_tick_inv: "engine_inv S e \<Longrightarrow> engine_inv S (recovery_tick maq_ports now e)"
  by (auto simp: recovery_tick_def Let_def recover_stale_leases_wf split: sum.splits prod.splits
      dest: engine_inv_op intro!: engine_inv_fold_schedule)

lemma engine_seed_inv:
  assumes "engine_inv S e"
  shows "engine_inv S (engine_seed maq_ports e)"
proof -
  obtain r s where eq: "with_envs (\<lambda>Es st. (list_queues (Es 0) st, st)) (en_store e) = (r, s)" by (rule prod.exhaust)
  have "engine_inv S (e\<lparr>en_store := s\<rparr>)" by (rule engine_inv_op [OF assms eq]) simp
  moreover have "sched_quiet (seed_idle_queues r (en_sched e))" using assms by (intro sched_quiet_seed) (simp add: engine_inv_def)
  ultimately have "engine_inv S (e\<lparr>en_store := s, en_sched := seed_idle_queues r (en_sched e)\<rparr>)" by (rule engine_inv_sched)
  then show ?thesis by (simp add: engine_seed_def eq)
qed

lemma delivery_pump_inv:
  assumes "engine_inv S e"
  shows "engine_inv S (delivery_pump e)"
proof (cases "en_delivery e")
  case (Cons work works)
  let ?e = "e\<lparr>en_delivery := works, en_running := en_running e @ [\<lparr>dt_work = work, dt_stage = Spawned\<rparr>]\<rparr>"
  have "permits_of (outstanding ?e) = permits_of (outstanding e)"
    by (rule permits_of_mset) (simp add: outstanding_def undispatched_def Cons)
  with assms Cons show ?thesis by (simp add: delivery_pump_def engine_inv_def)
qed (use assms in \<open>simp add: delivery_pump_def\<close>)

lemma release_job_claim_inv: "engine_inv S e \<Longrightarrow> engine_inv S (release_job_claim maq_ports job e)"
proof (cases "job_dispatch_id job")
  case (Some d)
  assume inv: "engine_inv S e"
  obtain r s where eq: "with_envs (\<lambda>Es. release_claim Es (job_id job) d) (en_store e) = (r, s)" by (rule prod.exhaust)
  show ?thesis using engine_inv_op [OF inv eq release_claim_wf] Some eq by (simp add: release_job_claim_def)
qed (simp add: release_job_claim_def)

lemma list_all_without: "list_all Q xs \<Longrightarrow> list_all Q (take k xs @ drop (Suc k) xs)"
  unfolding list_all_iff set_append by (blast dest: in_set_takeD in_set_dropD)

lemma list_all_stage:
  "k < length ts \<Longrightarrow> list_all Q (map dt_work (ts[k := (ts ! k)\<lparr>dt_stage := stage\<rparr>])) = list_all Q (map dt_work ts)"
  using list_update_id [of "map dt_work ts" k] by (simp add: map_update)

lemma filter_update_mset:
  assumes "k < length ts"
  shows "mset (filter Q ts) = (if Q (ts ! k) then {#ts ! k#} else {#}) + mset (filter Q (take k ts @ drop (Suc k) ts))"
    "mset (filter Q (ts[k := t])) = (if Q t then {#t#} else {#}) + mset (filter Q (take k ts @ drop (Suc k) ts))"
proof -
  have "mset ts = add_mset (ts ! k) (mset (take k ts @ drop (Suc k) ts))"
    using arg_cong [OF id_take_nth_drop [OF assms], of mset] by simp
  then show "mset (filter Q ts) = (if Q (ts ! k) then {#ts ! k#} else {#}) + mset (filter Q (take k ts @ drop (Suc k) ts))"
    by (simp add: mset_filter)
  have "mset (ts[k := t]) = add_mset t (mset (take k ts @ drop (Suc k) ts))"
    by (simp add: upd_conv_take_nth_drop [OF assms])
  then show "mset (filter Q (ts[k := t])) = (if Q t then {#t#} else {#}) + mset (filter Q (take k ts @ drop (Suc k) ts))"
    by (simp add: mset_filter)
qed

text \<open>Changing the stage of a task that keeps its slot, or that gives it up.\<close>

lemma set_stage_inv:
  assumes inv: "engine_inv S e" and k: "k < length (en_running e)" and stage: "stage \<noteq> Spawned"
    and reg: "registry_inv S reg (if dt_stage (en_running e ! k) = Spawned
      then permits_of (outstanding e) - permits_of [dw_permit (dt_work (en_running e ! k))] else permits_of (outstanding e))"
  shows "engine_inv S (set_stage k stage (e\<lparr>en_dispatcher := reg\<rparr>))"
proof -
  let ?t = "en_running e ! k" and ?e = "set_stage k stage (e\<lparr>en_dispatcher := reg\<rparr>)"
  let ?Q = "\<lambda>t. dt_stage t = Spawned" and ?p = "dw_permit \<circ> dt_work"
  have run: "en_running ?e = (en_running e)[k := ?t\<lparr>dt_stage := stage\<rparr>]" by (simp add: set_stage_def)
  define rest where "rest = filter ?Q (take k (en_running e) @ drop (Suc k) (en_running e))"
  have f: "mset (filter ?Q (en_running e)) = (if ?Q ?t then {#?t#} else {#}) + mset rest" "mset (filter ?Q (en_running ?e)) = mset rest"
    unfolding run rest_def using filter_update_mset [OF k] stage by simp_all
  have out: "permits_of (outstanding x) = permits_of (map dw_permit (en_delivery x)) + permits_of (map ?p (filter ?Q (en_running x)))"
    for x :: Server by (simp add: outstanding_def undispatched_def)
  have e1: "permits_of (map ?p (filter ?Q (en_running ?e))) = permits_of (map ?p rest)"
    by (rule permits_of_mset) (simp only: mset_map f)
  have e2: "permits_of (map ?p (filter ?Q (en_running e))) = permits_of (if ?Q ?t then [?p ?t] else []) + permits_of (map ?p rest)"
    unfolding permits_of_simps(2) [symmetric] by (rule permits_of_mset) (simp only: mset_map f, simp)
  have "registry_inv S reg (permits_of (outstanding ?e))"
    using reg unfolding out e1 e2 by (simp add: set_stage_def split: if_splits)
  moreover have "list_all work_ok (map dt_work (en_running ?e)) = list_all work_ok (map dt_work (en_running e))"
    unfolding run by (rule list_all_stage [OF k])
  ultimately show ?thesis using inv by (simp add: engine_inv_def set_stage_def)
qed

lemma task_work_ok: "engine_inv S e \<Longrightarrow> k < length (en_running e) \<Longrightarrow> work_ok (dt_work (en_running e ! k))"
  by (simp add: engine_inv_def list_all_iff)

lemma delivery_start_inv:
  assumes inv: "engine_inv S e" and k: "k < length (en_running e)" and st: "dt_stage (en_running e ! k) = Spawned"
  shows "engine_inv S (delivery_start maq_ports ack_id k e)"
proof -
  let ?w = "dt_work (en_running e ! k)"
  obtain i d where i: "rsv_permit (dw_permit ?w) = RegistryPermit i" "job_dispatch_id (dw_job ?w) = Some d"
    using task_work_ok [OF inv k] by (auto simp: work_ok_def)
  have one: "permits_of [dw_permit ?w] = {#i#}" using i(1) by simp
  have "dw_permit ?w \<in> set (outstanding e)" using k st by (auto simp: outstanding_def undispatched_def)
  then have "0 < granted i (outstanding e)" using i(1) by (auto simp: granted_def filter_empty_conv)
  then have "i \<in># permits_of (outstanding e)" by (simp add: granted_permits_of flip: count_greater_zero_iff)
  moreover obtain r reg where r: "dispatch_start (dw_permit ?w) (dw_job ?w) ack_id (en_dispatcher e) = (r, reg)" by (rule prod.exhaust)
  ultimately have "registry_inv S reg (permits_of (outstanding e) - {#i#})"
    using dispatch_start_inv [OF _ i(1) _ i(2) r] inv by (simp add: engine_inv_def)
  then show ?thesis
    unfolding delivery_start_def Let_def maq_ports_sel r prod.case
    by (intro set_stage_inv [OF inv k]) (simp_all add: st one split: sum.split)
qed

lemma delivery_ack_inv:
  assumes inv: "engine_inv S e" and k: "k < length (en_running e)" and st: "dt_stage (en_running e ! k) = AwaitingAck sent"
  shows "engine_inv S (delivery_ack maq_ports sent ack k e)"
proof -
  obtain r reg where r: "dispatch_finish sent ack (en_dispatcher e) = (r, reg)" by (rule prod.exhaust)
  have "registry_inv S reg (permits_of (outstanding e))" using dispatch_finish_inv [OF _ r] inv by (simp add: engine_inv_def)
  then show ?thesis
    unfolding delivery_ack_def Let_def maq_ports_sel r prod.case by (intro set_stage_inv [OF inv k]) (simp_all add: st)
qed

lemma delivery_end_inv:
  assumes inv: "engine_inv S e" and k: "k < length (en_running e)" and st: "dt_stage (en_running e ! k) = Dispatched r"
  shows "engine_inv S (delivery_end maq_ports r k e)"
proof -
  define rest where "rest = take k (en_running e) @ drop (Suc k) (en_running e)"
  let ?job = "dw_job (dt_work (en_running e ! k))" and ?e = "e\<lparr>en_running := rest, en_budget := Suc (en_budget e)\<rparr>"
  have "mset (filter (\<lambda>t. dt_stage t = Spawned) rest) = mset (filter (\<lambda>t. dt_stage t = Spawned) (en_running e))"
    using filter_update_mset(1) [OF k] st by (simp add: rest_def)
  then have "permits_of (outstanding ?e) = permits_of (outstanding e)"
    by (intro permits_of_mset) (simp add: outstanding_def undispatched_def)
  moreover have "Suc (length rest) = length (en_running e)" using k by (simp add: rest_def)
  moreover have "list_all work_ok (map dt_work rest)"
    using inv list_all_without [of "work_ok \<circ> dt_work" "en_running e" k] by (simp add: engine_inv_def list.pred_map rest_def comp_def)
  ultimately have "engine_inv S ?e" using inv by (simp add: engine_inv_def)
  moreover have "delivery_end maq_ports r k e =
      en_schedule (job_name ?job) (if isl r then release_job_claim maq_ports ?job ?e else ?e)"
    by (simp add: delivery_end_def Let_def en_schedule_def release_job_claim_def rest_def split: option.split)
  ultimately show ?thesis by (simp add: engine_inv_schedule release_job_claim_inv)
qed

lemma delivery_task_inv: "engine_inv S e \<Longrightarrow> engine_inv S (delivery_task maq_ports ack_id ack k e)"
  by (simp add: delivery_task_def delivery_start_inv delivery_ack_inv delivery_end_inv split: DeliveryStage.split)

lemma drain_pass_ok:
  assumes inv: "engine_inv S e" and take: "take_queues (en_sched e) = (queues, s)"
  shows "\<exists>works e'. drain_pass maq_ports (remdups queues) (e\<lparr>en_sched := s\<rparr>) = Some e' \<and>
    pass_effect works queues (e\<lparr>en_sched := s\<rparr>) e' \<and> engine_inv S e'"
proof -
  let ?e = "e\<lparr>en_sched := s\<rparr>"
  have quiet: "sched_quiet (en_sched e)" using inv by (simp add: engine_inv_def)
  have dist: "distinct queues" "remdups queues = queues"
    using sched_quiet_distinct [OF quiet] take by (auto simp: take_queues_def)
  have "registry_inv S (en_dispatcher ?e) (permits_of (outstanding e))" "state_wf (en_store ?e)" "en_delivery_open ?e"
    "en_budget ?e + length (en_delivery ?e) \<le> do_max_delivery_in_flight (en_options ?e)"
    using inv by (simp_all add: engine_inv_def)
  from server.drain_pass_effect [OF this(1-3) dist(1) this(4)] obtain works e' where
    e': "drain_pass maq_ports queues ?e = Some e'" "pass_effect works queues ?e e'"
      "registry_inv S (en_dispatcher e') (permits_of (outstanding e) + permits_of (map dw_permit works))" "state_wf (en_store e')" by blast
  have frame: "en_delivery e' = en_delivery e @ works" "list_all work_ok works" "en_budget e' + length works = en_budget e"
    "en_options e' = en_options e" "en_delivery_open e' = en_delivery_open e" "en_running e' = en_running e"
    using e'(2) by (simp_all add: pass_effect_def)
  from e'(2) obtain outs where "length outs = length queues" "en_sched e' = fold (\<lambda>(q, outcome). finish_pass q outcome) (zip queues outs) s"
    by (auto simp: pass_effect_def)
  with sched_quiet_pass [OF quiet take] have "sched_quiet (en_sched e')" by simp
  moreover have "permits_of (outstanding e') = permits_of (outstanding e) + permits_of (map dw_permit works)"
    by (simp add: outstanding_def undispatched_def frame ac_simps)
  ultimately have "engine_inv S e'" using inv e'(3,4) frame by (simp add: engine_inv_def)
  with e'(1,2) show ?thesis unfolding dist(2) by blast
qed

lemma scheduler_arm_ok:
  assumes "engine_inv S e"
  shows "\<exists>e'. scheduler_arm maq_ports arm e = Some e' \<and> engine_inv S e'"
proof (cases arm)
  case WakeUp
  obtain queues s where tk: "take_queues (en_sched e) = (queues, s)" by fastforce
  from drain_pass_ok [OF assms tk] tk WakeUp show ?thesis by (auto simp: scheduler_arm_def)
next
  case (RecoveryTick now)
  then show ?thesis using recovery_tick_inv [OF assms] by (simp add: scheduler_arm_def)
next
  case IdleProbe
  have "sched_quiet (probe_idle_queues (en_options e) (en_sched e))" using assms by (intro sched_quiet_probe) (simp add: engine_inv_def)
  then show ?thesis using engine_inv_sched [OF assms] IdleProbe by (simp add: scheduler_arm_def)
qed

lemma engine_step_inv: "engine_step s s' \<Longrightarrow> engine_inv (snd s) (fst s) \<Longrightarrow> engine_inv (snd s') (fst s')"
proof (induction rule: engine_step.induct)
  case (en_arm arm e e' S)
  then show ?case using scheduler_arm_ok [of S e arm] by auto
next
  case (en_wake n e S)
  then show ?case by (simp, intro engine_inv_sched sched_quiet_wake) (simp_all add: engine_inv_def)
next
  case (en_world e S reg S')
  then have "registry_inv S' reg (permits_of (outstanding e))" using registry_step_inv [OF en_world(1)] by (simp add: engine_inv_def)
  then show ?case using en_world(2) by (simp add: engine_inv_def outstanding_def undispatched_def)
qed (unfold fst_conv snd_conv, (erule submit_inv get_job_inv on_event_inv engine_seed_inv delivery_pump_inv delivery_task_inv, assumption?)+)

lemma engine_reach_inv: "engine_reach s \<Longrightarrow> engine_inv (snd s) (fst s)"
proof (induction rule: engine_reach.induct)
  case (engine_start store envs options e)
  have "sched_quiet SchedulerState_default"
    unfolding sched_quiet_def by (intro exI [of _ SchedRun_start]) (simp add: sched_start, simp add: SchedRun_start_def)
  with engine_start show ?case
    by (auto simp: with_dispatcher_def engine_inv_def state_wf_def outstanding_def undispatched_def registry_inv_def
        WorkerRegistry_default_def split: sum.splits)
qed (rule engine_step_inv)

lemma sched_quiet_waiting:
  assumes "sched_quiet s" and "sc_scheduled s q \<noteq> None"
  shows "q \<in> set (sc_tx s) \<or> q \<in> fst ` set (sc_sleeping s)"
  using sched_quiet_tokens [OF assms(1), of q] assms(2) waiting_pos [of s q] by simp

section \<open>Properties of the server\<close>

text \<open>A server that has just been started on a store with a few jobs.\<close>

definition sample_server :: Server where
  "sample_server =
     \<lparr>en_store = (sample_store, \<lambda>_. quiet), en_dispatcher = WorkerRegistry_default, en_sched = SchedulerState_default,
      en_budget = 8192, en_delivery = [], en_delivery_open = True, en_running = [], en_options = DispatchOptions_default\<rparr>"

lemma sample_server_reach: "engine_reach (sample_server, {})"
proof (rule engine_start [OF _ sample_store_wf])
  show "with_dispatcher (sample_store, \<lambda>_. quiet) WorkerRegistry_default DispatchOptions_default = Some sample_server"
    by (simp add: with_dispatcher_def sample_server_def DispatchOptions_validate_def DispatchOptions_default_def
        MAX_CLAIM_BATCH_SIZE_def from_secs_def)
qed

text \<open>
  C2. Slots and budget are never lost. In every reachable state of the server, whatever the order of
  submissions, results, passes, steps of deliveries, retries, registrations, disconnections and store or
  connection failures, the free delivery budget, the deliveries in the channel and the delivery
  tasks that have not ended (before, during or after their \<open>dispatch\<close>) add up to the configured maximum. The reserved slots of a
  registered worker are at most the deliveries for its id that are in the channel or have not
  called \<open>dispatch\<close> yet, and exactly these unless a worker registered under this id while such a delivery for
  an earlier connection was left; a delivery that waits for its acknowledgement holds no
  reserved slot any more, and whatever the registry counts as in flight was sent on the worker's connection.
\<close>

theorem engine_accounts_for_every_slot:
  assumes "engine_reach (e, S)"
  shows "en_budget e + length (en_delivery e) + length (en_running e) = do_max_delivery_in_flight (en_options e) \<and>
    (\<forall>i w. map_of (rg_workers (en_dispatcher e)) i = Some w \<longrightarrow>
       unat (ws_reserved_slots w) \<le> length (filter (\<lambda>work. rsv_permit (dw_permit work) = RegistryPermit i) (undispatched e)) \<and>
       (i \<notin> S \<longrightarrow>
          unat (ws_reserved_slots w) = length (filter (\<lambda>work. rsv_permit (dw_permit work) = RegistryPermit i) (undispatched e))) \<and>
       (\<forall>d\<in>ws_in_flight w. \<exists>m\<in>set (sent_to w). is_JobDispatch m \<and> jd_dispatch_id m = d))"
proof -
  have inv: "engine_inv S e" using engine_reach_inv [OF assms] by simp
  have held: "count (permits_of (outstanding e)) i =
      length (filter (\<lambda>work. rsv_permit (dw_permit work) = RegistryPermit i) (undispatched e))" for i
    by (simp add: granted_permits_of granted_def outstanding_def filter_map comp_def)
  have "worker_ok (i \<in> S) (count (permits_of (outstanding e)) i) w" if "map_of (rg_workers (en_dispatcher e)) i = Some w" for i w
    using inv registry_inv_at [OF _ that] by (simp add: engine_inv_def)
  then have ok: "unat (ws_reserved_slots w) \<le> length (filter (\<lambda>work. rsv_permit (dw_permit work) = RegistryPermit i) (undispatched e)) \<and>
      (i \<notin> S \<longrightarrow> unat (ws_reserved_slots w) = length (filter (\<lambda>work. rsv_permit (dw_permit work) = RegistryPermit i) (undispatched e))) \<and>
      ws_in_flight w \<subseteq> {jd_dispatch_id m | m. m \<in> set (sent_to w) \<and> is_JobDispatch m}"
    if "map_of (rg_workers (en_dispatcher e)) i = Some w" for i w
    using that unfolding held worker_ok_def by blast
  moreover have "\<exists>m\<in>set (sent_to w). is_JobDispatch m \<and> jd_dispatch_id m = d"
    if "map_of (rg_workers (en_dispatcher e)) i = Some w" "d \<in> ws_in_flight w" for i w d
    using ok [OF that(1)] that(2) by blast
  ultimately show ?thesis using inv by (simp add: engine_inv_def)
qed

text \<open>
  A small server, with room for two deliveries, on which a worker with two slots registers and the pass that
  follows finds one job: the states after the pass, after the pump and after the first half of the dispatch.
\<close>

definition small_options :: DispatchOptions where
  "small_options = DispatchOptions_default\<lparr>do_max_delivery_in_flight := 2, do_batch_size_max := 2\<rparr>"

definition small_server :: Server where
  "small_server = sample_server\<lparr>en_store := (sample_store, \<lambda>_ _. tagged_env), en_budget := 2, en_options := small_options\<rparr>"

definition registered_server :: Server where
  "registered_server = en_schedule ''mail'' (small_server\<lparr>en_dispatcher := sample_registry 0 {} (take 1 sample_sent)\<rparr>)"

lemma registered_server_reach: "engine_reach (registered_server, {})"
proof -
  have start: "engine_reach (small_server, {})"
    by (rule engine_start [of sample_store "\<lambda>_ _. tagged_env" small_options, OF _ sample_store_wf])
       (simp add: with_dispatcher_def small_server_def sample_server_def small_options_def DispatchOptions_validate_def
         DispatchOptions_default_def MAX_CLAIM_BATCH_SIZE_def from_secs_def)
  have none: "outstanding (small_server\<lparr>en_dispatcher := reg\<rparr>) = []" for reg
    by (simp add: outstanding_def undispatched_def small_server_def sample_server_def)
  have reg: "engine_step (small_server, {}) (small_server\<lparr>en_dispatcher := sample_registry 0 {} []\<rparr>, {})"
    using en_world [of small_server "{}" "sample_registry 0 {} []" "{}"] step_register [OF sample_register, of "{#}" "{}"] none [of "en_dispatcher small_server"]
    by (simp add: reused_after_def small_server_def sample_server_def)
  have send: "engine_step (small_server\<lparr>en_dispatcher := sample_registry 0 {} []\<rparr>, {})
      (small_server\<lparr>en_dispatcher := sample_registry 0 {} (take 1 sample_sent)\<rparr>, {})"
    using en_world [of "small_server\<lparr>en_dispatcher := sample_registry 0 {} []\<rparr>" "{}" "sample_registry 0 {} (take 1 sample_sent)" "{}"]
      step_register_send [OF sample_register_send, of "{#}" "{}"] none [of "sample_registry 0 {} []"]
    by simp
  have "engine_reach (on_event maq_ports (EvRegistered ''mail'') (small_server\<lparr>en_dispatcher := sample_registry 0 {} (take 1 sample_sent)\<rparr>), {})"
    by (rule engine_next [OF engine_next [OF engine_next [OF start reg] send] en_event])
  then show ?thesis by (simp add: on_event_def registered_server_def)
qed

lemma sample_claim:
  "\<exists>job st'. claim_batch (\<lambda>_. tagged_env) ''mail'' 2 sample_store = (Inr [job], st') \<and> job_name job = ''mail'' \<and> job_dispatch_id job \<noteq> None"
proof -
  have ff: "fault_free (\<lambda>_. tagged_env)" by (simp add: fault_free_def tagged_env_def quiet_env_def)
  have q: "''mail'' \<in> st_names sample_store" by (simp add: sample_store_def)
  have sel: "map aj_id (claim_sel ''mail'' 2 sample_store) = [2]"
    by (simp add: claim_sel_def pending_rows_def sample_store_def clamp_def MAX_CLAIM_BATCH_SIZE_def)
  from claim_batch_ok [OF sample_store_wf sample_store_linked ff tagged_room q refl, of 2] sel
  obtain jobs st' where cb: "claim_batch (\<lambda>_. tagged_env) ''mail'' 2 sample_store = (Inr jobs, st')" "map job_id jobs = [2]" by auto
  then obtain job where "jobs = [job]" by auto
  with cb claim_batch_jobs [OF sample_store_wf _ cb(1)] show ?thesis by auto
qed

lemma sample_pass:
  "\<exists>work e. scheduler_arm maq_ports WakeUp registered_server = Some e \<and> en_delivery e = [work] \<and> en_running e = [] \<and>
     dw_permit work = sample_permit \<and> job_dispatch_id (dw_job work) \<noteq> None \<and>
     en_dispatcher e = sample_registry 1 {} (take 1 sample_sent) \<and> en_options e = small_options"
proof -
  obtain job st' where job: "claim_batch (\<lambda>_. tagged_env) ''mail'' 2 sample_store = (Inr [job], st')" "job_name job = ''mail''" "job_dispatch_id job \<noteq> None"
    using sample_claim by blast
  have rel: "release sample_permit (sample_registry 2 {} (take 1 sample_sent)) = sample_registry 1 {} (take 1 sample_sent)"
    by (simp add: release_def release_permit_def registry_eval)
  have tk: "take_queues (en_sched registered_server) = ([''mail''], (en_sched registered_server)\<lparr>sc_tx := []\<rparr>)"
    by (simp add: take_queues_def registered_server_def small_server_def sample_server_def en_schedule_def schedule_queue_def
        SchedulerState_default_def sc_send_def)
  show ?thesis
    using job sample_reserve rel
    by (simp add: scheduler_arm_def tk)
       (simp add: drain_pass_def per_queue_def registered_server_def en_schedule_def small_server_def sample_server_def small_options_def
        DispatchOptions_default_def MAX_CLAIM_BATCH_SIZE_def with_envs_def drain_queue_def try_send_def en_finish_def numeral_2_eq_2 Let_def)
qed

theorem engine_accounts_for_every_slot_witness:
  "\<exists>e1 e2 w1 w2 sent. engine_step (registered_server, {}) (e1, {}) \<and> length (en_delivery e1) = 1 \<and>
     map_of (rg_workers (en_dispatcher e1)) 7 = Some w1 \<and> unat (ws_reserved_slots w1) = 1 \<and>
     engine_step\<^sup>*\<^sup>* (e1, {}) (e2, {}) \<and> map dt_stage (en_running e2) = [AwaitingAck sent] \<and> en_budget e2 = 1 \<and>
     map_of (rg_workers (en_dispatcher e2)) 7 = Some w2 \<and> unat (ws_reserved_slots w2) = 0 \<and> ws_in_flight w2 \<noteq> {}"
proof -
  obtain work e where e: "scheduler_arm maq_ports WakeUp registered_server = Some e" "en_delivery e = [work]" "en_running e = []"
    "dw_permit work = sample_permit" "job_dispatch_id (dw_job work) \<noteq> None" "en_dispatcher e = sample_registry 1 {} (take 1 sample_sent)"
    "en_options e = small_options"
    using sample_pass by blast
  obtain d where d: "job_dispatch_id (dw_job work) = Some d" using e(5) by blast
  define e1 where "e1 = delivery_pump e"
  define e2 where "e2 = delivery_task maq_ports 1 AckOk 0 e1"
  have steps: "engine_step (registered_server, {}) (e, {})" "engine_step (e, {}) (e1, {})" "engine_step (e1, {}) (e2, {})"
    unfolding e1_def e2_def by (rule en_arm [OF e(1)] en_pump en_task)+
  have reach: "engine_reach (e, {})" "engine_reach (e2, {})"
    using engine_next [OF registered_server_reach steps(1)] engine_next steps(2,3) by blast+
  have run: "en_running e1 = [\<lparr>dt_work = work, dt_stage = Spawned\<rparr>]" "en_delivery e1 = []" "en_dispatcher e1 = en_dispatcher e"
    "en_options e1 = small_options"
    using e by (simp_all add: e1_def delivery_pump_def)
  obtain f where "dispatch_start sample_permit (dw_job work) 1 (en_dispatcher e) = (Inr (7, d, True), sample_registry 0 {d} f)"
    using d e(6) by (simp add: registry_eval)
  then have two: "en_running e2 = [\<lparr>dt_work = work, dt_stage = AwaitingAck (7, d, True)\<rparr>]" "en_delivery e2 = []"
    "en_dispatcher e2 = sample_registry 0 {d} f" "en_options e2 = small_options"
    using run e(4) by (simp_all add: e2_def delivery_task_def delivery_start_def set_stage_def)
  have w: "map_of (rg_workers (sample_registry r fl sent)) 7 = Some (sample_state r fl sent)" for r fl sent
    by (simp add: sample_registry_def)
  note one = engine_accounts_for_every_slot [OF reach(1), THEN conjunct2, THEN spec [of _ 7], THEN spec, unfolded e(6), THEN mp, OF w]
  have "en_budget e2 = 1" using engine_accounts_for_every_slot [OF reach(2), THEN conjunct1] two by (simp add: small_options_def)
  moreover have "unat (ws_reserved_slots (sample_state 0 {d} f)) = 0"
    using engine_accounts_for_every_slot [OF reach(2), THEN conjunct2, THEN spec [of _ 7], THEN spec, unfolded two(3), THEN mp, OF w] two
    by (simp add: undispatched_def)
  moreover have "unat (ws_reserved_slots (sample_state 1 {} (take 1 sample_sent))) = 1"
    using one e(2-4) by (simp add: undispatched_def)
  ultimately show ?thesis
    using steps e(2,6) two w by (intro exI [of _ e] exI [of _ e2]) (auto simp: sample_state_def intro: rtranclp.intros)
qed

text \<open>
  C7. A scheduling pass never panics and accounts for what it takes. In every reachable state of the
  server the pass over the queues that wait in the channel returns (the claimed jobs never
  exceed the permits and the delivery channel never overflows); it queues deliveries only for these
  queues, for each at most the share of the budget, each with a dispatch id and a permit of its
  queue; the budget shrinks by exactly these deliveries and the deliveries already queued or
  running stay as they were.
\<close>

theorem scheduling_pass_accounts:
  assumes "engine_reach (e, S)"
  shows "\<exists>works e'. scheduler_arm maq_ports WakeUp e = Some e' \<and>
    en_delivery e' = en_delivery e @ works \<and> en_running e' = en_running e \<and> en_budget e' + length works = en_budget e \<and>
    (\<forall>work\<in>set works. job_name (dw_job work) \<in> set (sc_tx (en_sched e)) \<and>
       job_name (dw_job work) = rsv_queue_name (dw_permit work) \<and> job_dispatch_id (dw_job work) \<noteq> None) \<and>
    (\<forall>q. length (filter (\<lambda>work. job_name (dw_job work) = q) works)
       \<le> per_queue (en_options e) (en_budget e) (length (sc_tx (en_sched e))))"
proof -
  obtain queues s where tk: "take_queues (en_sched e) = (queues, s)" by fastforce
  then have q: "queues = sc_tx (en_sched e)" by (simp add: take_queues_def)
  from drain_pass_ok [OF engine_reach_inv [OF assms, unfolded fst_conv snd_conv] tk] obtain works e' where
    "drain_pass maq_ports (remdups queues) (e\<lparr>en_sched := s\<rparr>) = Some e'" "pass_effect works queues (e\<lparr>en_sched := s\<rparr>) e'" by blast
  with tk q show ?thesis
    by (intro exI [of _ works] exI [of _ e']) (auto simp: scheduler_arm_def pass_effect_def list_all_iff work_ok_def)
qed

theorem scheduling_pass_accounts_witness:
  "\<exists>e'. scheduler_arm maq_ports WakeUp (en_schedule ''mail'' sample_server) = Some e' \<and> en_budget e' \<le> 8192"
proof -
  have "on_event maq_ports (EvRegistered ''mail'') sample_server = en_schedule ''mail'' sample_server" by (simp add: on_event_def)
  with engine_next [OF sample_server_reach en_event [of sample_server "{}" "EvRegistered ''mail''"]]
  have "engine_reach (en_schedule ''mail'' sample_server, {})" by simp
  from scheduling_pass_accounts [OF this] show ?thesis by (auto simp: en_schedule_def sample_server_def)
qed

text \<open>
  C24. A submission that is answered is stored and will be looked at. When \<open>submit\<close> returns a job, the
  job is new, it is stored as an unclaimed accepted job with the serialized payload under the queue it was submitted to, every
  other accepted job is as before, and a wake-up or a retry of its queue is pending in the scheduler.
\<close>

theorem submitted_job_is_owed_a_pass:
  assumes "engine_reach (e, S)" and "submit maq_ports ser now (job :: string SubmitJob) e = (Inr v, e')"
  shows "jv_status v = Pending \<and> jv_name v = sj_name job \<and> acc (fst (en_store e)) (jv_id v) = None \<and>
    (\<exists>row. acc (fst (en_store e')) (jv_id v) = Some row \<and> aj_queue_name row = sj_name job \<and>
       ser (sj_payload job) = Inr (aj_payload row) \<and> aj_dispatch_id row = None) \<and>
    (\<forall>k. k \<noteq> jv_id v \<longrightarrow> acc (fst (en_store e')) k = acc (fst (en_store e)) k) \<and>
    (sj_name job \<in> set (sc_tx (en_sched e')) \<or> sj_name job \<in> fst ` set (sc_sleeping (en_sched e')))"
proof -
  obtain p where p: "ser (sj_payload job) = Inr p" using assms(2) by (auto simp: submit_def split: sum.splits)
  let ?job = "AcceptedJob_new now (sj_name job) p"
  obtain result st' where st': "store_enqueue (snd (en_store e) 0 0) ?job (fst (en_store e)) = (Inr result, st')"
    and v: "v = \<lparr>jv_id = aj_id result, jv_name = aj_queue_name result, jv_status = Pending\<rparr>"
    and e': "fst (en_store e') = st'" "en_sched e' = schedule_queue (aj_queue_name result) (en_sched e)"
    using assms(2) p by (auto simp: submit_def with_envs_def Let_def en_schedule_def split: sum.splits prod.splits)
  have inv: "store_wf (fst (en_store e))" "sched_quiet (en_sched e)"
    using engine_reach_inv [OF assms(1)] by (simp_all add: engine_inv_def state_wf_def)
  from inv(1) st' obtain i where i: "result = ?job\<lparr>aj_id := i\<rparr>" "acc (fst (en_store e)) i = None"
    "\<And>k. acc st' k = (if k = i then Some (stored_row i ?job) else acc (fst (en_store e)) k)"
    by (cases rule: store_enqueue_cases) auto
  have q: "aj_queue_name result = sj_name job" by (simp add: i(1) AcceptedJob_new_def)
  have "sc_scheduled (en_sched e') (sj_name job) \<noteq> None" by (simp add: e'(2) q schedule_queue_scheduled)
  with sched_quiet_waiting [of "en_sched e'"] sched_quiet_schedule [OF inv(2)] e'(2)
  have "sj_name job \<in> set (sc_tx (en_sched e')) \<or> sj_name job \<in> fst ` set (sc_sleeping (en_sched e'))" by metis
  then show ?thesis using p i v e'(1) by (simp add: stored_row_def AcceptedJob_new_def)
qed

theorem submitted_job_is_owed_a_pass_witness:
  "\<exists>v e'. submit maq_ports (\<lambda>_. Inr [7]) 60 \<lparr>sj_name = ''mail'', sj_payload = ''{}''\<rparr> sample_server = (Inr v, e') \<and>
     jv_status v = Pending \<and> (''mail'' \<in> set (sc_tx (en_sched e')) \<or> ''mail'' \<in> fst ` set (sc_sleeping (en_sched e')))"
proof -
  have "\<not> isl (fst (store_enqueue quiet_env (AcceptedJob_new 60 ''mail'' [7]) sample_store))" by code_simp
  then obtain x st' where "store_enqueue quiet_env (AcceptedJob_new 60 ''mail'' [7]) sample_store = (Inr x, st')"
    by (metis isl_def prod.collapse sum.collapse(2) sum.disc(2))
  then obtain v e' where eq: "submit maq_ports (\<lambda>_. Inr [7]) 60 \<lparr>sj_name = ''mail'', sj_payload = ''{}''\<rparr> sample_server = (Inr v, e')"
    by (simp add: submit_def sample_server_def with_envs_def quiet_def)
  with submitted_job_is_owed_a_pass [OF sample_server_reach eq] show ?thesis by auto
qed

text \<open>
  C22. A delivery that fails reopens its job. Suppose that \<open>dispatch\<close> has returned an error to a delivery
  task, that the two databases agree (the store is linked) and the job is running under the delivery's dispatch id, and that no database call of
  the release fails (the task ignores an error of \<open>release_claim\<close>, and the job then waits for its lease to
  expire). Then the end of the task puts the job back to pending with its attempts counted, leaves every other job alone, gives its budget
  back, removes the task, and leaves a wake-up or a retry of the job's queue pending.
\<close>

theorem failed_delivery_reopens_job:
  assumes wf: "store_wf (fst (en_store e))" "linked (fst (en_store e))" "fault_free (snd (en_store e) 0)"
    and quiet: "sched_quiet (en_sched e)" and k: "k < length (en_running e)"
    and fail: "dt_stage (en_running e ! k) = Dispatched (Inl err)"
    and job: "job = dw_job (dt_work (en_running e ! k))" "job_dispatch_id job = Some d"
    and x: "exe (fst (en_store e)) (job_id job) = Some x" "running_guard (job_id job, d) x"
    and e': "e' = delivery_task maq_ports ack_id ack k e"
  shows "view (fst (en_store e')) (job_id job) = Some (Pending, xr_execution_count x) \<and>
    (\<forall>j. j \<noteq> job_id job \<longrightarrow> view (fst (en_store e')) j = view (fst (en_store e)) j) \<and>
    en_budget e' = Suc (en_budget e) \<and> length (en_running e') = length (en_running e) - 1 \<and>
    (job_name job \<in> set (sc_tx (en_sched e')) \<or> job_name job \<in> fst ` set (sc_sleeping (en_sched e')))"
proof -
  obtain st' where st': "release_claim (snd (en_store e) 0) (job_id job) d (fst (en_store e)) = (Inr True, st')"
    "end_job (job_id job) (Some (set_failed (''abandoned'', env_clock (snd (en_store e) 0 1) 0) x))
      (map_option (repend_upd (env_clock (snd (en_store e) 0 2) 0)) (acc (fst (en_store e)) (job_id job))) (fst (en_store e)) st'"
    using release_claim_ok [OF wf x] by blast
  have f: "fst (en_store e') = st'" "en_sched e' = schedule_queue (job_name job) (en_sched e)" "en_budget e' = Suc (en_budget e)"
    "length (en_running e') = length (en_running e) - 1"
    unfolding e' using k fail st'(1) job
    by (simp_all add: delivery_task_def delivery_end_def Let_def en_schedule_def release_job_claim_def with_envs_def)
  obtain r where r: "acc (fst (en_store e)) (job_id job) = Some r" using linked_running [OF wf(2) x] by blast
  have "view st' (job_id job) = Some (Pending, xr_execution_count x)"
    using st'(2) r by (simp add: end_job_def view_def job_view_def repend_upd_def set_failed_def)
  moreover have "view st' j = view (fst (en_store e)) j" if "j \<noteq> job_id job" for j
    using st'(2) that by (simp add: end_job_def view_def)
  moreover have "sc_scheduled (en_sched e') (job_name job) \<noteq> None" by (simp add: f(2) schedule_queue_scheduled)
  then have "job_name job \<in> set (sc_tx (en_sched e')) \<or> job_name job \<in> fst ` set (sc_sleeping (en_sched e'))"
    using sched_quiet_waiting sched_quiet_schedule [OF quiet] f(2) by metis
  ultimately show ?thesis using f(1,3,4) by simp
qed

definition sample_delivery :: DeliveryWork where
  "sample_delivery =
     \<lparr>dw_permit = \<lparr>rsv_queue_name = ''mail'', rsv_permit = RegistryPermit 7\<rparr>,
      dw_job = sample_job\<lparr>job_id := 1, job_name := ''mail'', job_dispatch_id := Some ''a''\<rparr>\<rparr>"

text \<open>The worker of the permit has gone: the first half of \<open>dispatch\<close> fails, and the next step of the task is its end.\<close>

theorem failed_delivery_reopens_job_witness:
  "view (fst (en_store (delivery_task maq_ports 0 AckOk 0 (delivery_task maq_ports 0 AckOk 0
     (sample_server\<lparr>en_running := [\<lparr>dt_work = sample_delivery, dt_stage = Spawned\<rparr>]\<rparr>))))) 1 = Some (Pending, 1)"
proof -
  let ?e = "delivery_task maq_ports 0 AckOk 0 (sample_server\<lparr>en_running := [\<lparr>dt_work = sample_delivery, dt_stage = Spawned\<rparr>]\<rparr>)"
  let ?x = "sample_exec 1 ''running'' 1 (Some 100) ''a'' None None"
  have e: "?e = sample_server\<lparr>en_running :=
      [\<lparr>dt_work = sample_delivery, dt_stage = Dispatched (Inl (DispatchInternal ''reserved worker disappeared''))\<rparr>]\<rparr>"
    by (simp add: delivery_task_def delivery_start_def set_stage_def dispatch_start_def sample_delivery_def sample_server_def
        WorkerRegistry_default_def)
  have st: "fst (en_store ?e) = sample_store" "snd (en_store ?e) 0 = quiet" "en_sched ?e = en_sched sample_server"
    "dt_work (en_running ?e ! 0) = sample_delivery" "0 < length (en_running ?e)"
    unfolding e by (simp_all add: sample_server_def)
  have fail: "dt_stage (en_running ?e ! 0) = Dispatched (Inl (DispatchInternal ''reserved worker disappeared''))" unfolding e by simp
  have x: "exe sample_store 1 = Some ?x" "running_guard (1, ''a'') ?x" "xr_execution_count ?x = 1"
    by (simp_all add: exe_def sample_store_def sample_results_defs running_guard_def sample_exec_def)
  have job: "job_id (dw_job sample_delivery) = 1" "job_dispatch_id (dw_job sample_delivery) = Some ''a''" by (simp_all add: sample_delivery_def)
  have quiet: "sched_quiet (en_sched ?e)" using engine_reach_inv [OF sample_server_reach] unfolding st(3) by (simp add: engine_inv_def)
  have "view (fst (en_store (delivery_task maq_ports 0 AckOk 0 ?e))) (job_id (dw_job sample_delivery)) = Some (Pending, xr_execution_count ?x)"
    using failed_delivery_reopens_job [where e = ?e and k = 0 and job = "dw_job sample_delivery" and d = "''a''" and x = ?x and
        ack_id = 0 and ack = AckOk and e' = "delivery_task maq_ports 0 AckOk 0 ?e", unfolded st(1,2,4) job(1),
        OF sample_store_wf sample_store_linked fault_free_quiet quiet st(5) fail refl job(2) x(1,2) refl] by (simp add: job(1))
  then show ?thesis by (simp only: job(1) x(3))
qed

text \<open>
  The store's own \<open>complete_worker_result\<close> is an optimisation of the port's default method. On a
  linked store without faults, the default, which calls \<open>complete\<close> and reads the whole job back to
  see whether it is pending, gives the same answer and the same store.
\<close>

theorem default_completion_agrees:
  assumes wf: "store_wf st" and ln: "linked st" and ff: "fault_free Es"
  shows "default_complete_worker_result (\<lambda>j d oc. complete Es j d oc) j d oc st = complete_worker_result Es j d oc st"
proof -
  have rwf: "results_wf (st_results st)" using wf by (simp add: store_wf_def)
  note call = complete_call [OF fault_free_io [OF ff] rwf, of 0 j d oc, unfolded disposition_row [OF wf]]
  obtain r st' where res: "complete_worker_result Es j d oc st = (r, st')" by fastforce
  from worker_result_view [OF wf ln ff, of j d oc] res
  have r: "r = Inr (case exe st j of None \<Rightarrow> False
            | Some e \<Rightarrow> running_guard (j, d) e \<and> \<not> is_success oc \<and> xr_execution_count e \<le> retries st j)"
    and v: "view st' j = (case exe st j of None \<Rightarrow> view st j
       | Some e \<Rightarrow> if \<not> running_guard (j, d) e then view st j
           else Some (if is_success oc then Completed
                      else if xr_execution_count e \<le> retries st j then Pending else Failed, xr_execution_count e))" by auto
  have st': "snd (complete Es j d oc st) = st'" using res complete_same_state by (metis snd_conv)
  show ?thesis
  proof (cases "\<exists>e. exe st j = Some e \<and> running_guard (j, d) e")
    case False
    then have "fst (complete Es j d oc st) = Inr None" using call by (auto simp: complete_def split: option.splits)
    with False r res st' show ?thesis
      by (auto simp: default_complete_worker_result_def split: option.splits prod.splits)
  next
    case True
    then obtain e where e: "exe st j = Some e" "running_guard (j, d) e" by blast
    have wf': "store_wf st'" using complete_wf(1) [OF wf, of Es j d oc] st' by simp
    from composed_job_view [OF wf' fault_free_shift [OF ff, of "\<lambda>n. 2 + n"], of j] v e obtain job where
      job: "composed_job (\<lambda>n. Es (2 + n)) j st' = Inr job"
      "job_status job = (if is_success oc then Completed else if xr_execution_count e \<le> retries st j then Pending else Failed)" by auto
    have "fst (complete Es j d oc st) = Inr (Some job)"
      using call e ff res job(1) by (auto simp: complete_def complete_worker_result_def repend_call Let_def split: if_splits)
    with e r res st' job(2) show ?thesis
      by (auto simp: default_complete_worker_result_def split: prod.splits)
  qed
qed

theorem default_completion_agrees_witness:
  "default_complete_worker_result (\<lambda>j d oc. complete quiet j d oc) 1 ''a'' (OutcomeFailed ''boom'') sample_store =
     complete_worker_result quiet 1 ''a'' (OutcomeFailed ''boom'') sample_store"
  using default_completion_agrees [OF sample_store_wf sample_store_linked fault_free_quiet] .

end
