(* ===== verification/Maq_Session.thy ===== *)
theory Maq_Session
  imports Maq_Protocol
begin

text \<open>
  A session of the worker SDK (\<open>crates/worker-sdk/src/lib.rs\<close>): the select loop of \<open>serve\<close>, the
  tasks of \<open>execute_job\<close> with the concurrency semaphore, \<open>report\<close>, and the writer. Every arm of
  the select loop and every stretch of a task between two waits is one definition; the step
  relation interleaves them. The payload parser (\<open>serde_json\<close>) and the user's handler are
  arguments. Connecting and the run of a whole worker are in \<open>Maq_Worker\<close>.
\<close>

section \<open>State\<close>

datatype SessionState = Serving | AwaitingDrain | SessionDraining

datatype WorkerRunError =
    Stopped
  | Configuration string
  | Remote string string
  | Protocol ProtocolError
  | RunIo IoErrorKind string
  | Tls string

fun show_WorkerRunError :: "WorkerRunError \<Rightarrow> string" where
  "show_WorkerRunError Stopped = ''worker stopped''"
| "show_WorkerRunError (Configuration m) = ''worker configuration error: '' @ m"
| "show_WorkerRunError (Remote code m) = ''remote worker error '' @ code @ '': '' @ m"
| "show_WorkerRunError (Protocol e) = ''protocol error: '' @ show_ProtocolError e"
| "show_WorkerRunError (RunIo k m) = ''I/O error: '' @ m"
| "show_WorkerRunError (Tls m) = ''TLS error: '' @ m"

text \<open>Where a task of \<open>execute_job\<close> stands; the user's handler may panic, and its task with it.\<close>

datatype Phase =
    Spawned bytes
  | AwaitSlot
  | InHandler
  | Reporting "string + bytes"
  | Finished "WorkerRunError + unit"
  | Panicked

record Task =
  tk_job_id :: i64
  tk_dispatch_id :: string
  tk_execution_count :: u32
  tk_phase :: Phase

text \<open>
  The session: its state, the join set, the free permits of the semaphore, the messages handed to
  the writer so far, and whether the writer still receives.
\<close>

record Session =
  sn_state :: SessionState
  sn_jobs :: "Task list"
  sn_slots :: nat
  sn_outbound :: "WorkerMessage list"
  sn_writer_alive :: bool

definition Session_new :: "u32 \<Rightarrow> Session" where
  "Session_new concurrency =
     \<lparr>sn_state = Serving, sn_jobs = [], sn_slots = unat concurrency, sn_outbound = [], sn_writer_alive = True\<rparr>"

text \<open>The registration \<open>run_until\<close> writes before the session starts.\<close>

definition register_message :: "Uuid \<Rightarrow> string \<Rightarrow> u32 \<Rightarrow> WorkerMessage" where
  "register_message instance_id queue_name concurrency = Register instance_id queue_name 0 concurrency"

text \<open>
  \<open>send_unacknowledged\<close> and \<open>send_and_wait\<close>: the message is queued unless the writer is gone; the
  second waits until the writer has written it, which \<open>written\<close> says.
\<close>

definition send_unacknowledged :: "WorkerMessage \<Rightarrow> Session \<Rightarrow> bool \<times> Session" where
  "send_unacknowledged m s =
     (if sn_writer_alive s then (True, s\<lparr>sn_outbound := sn_outbound s @ [m]\<rparr>) else (False, s))"

definition send_and_wait :: "bool \<Rightarrow> WorkerMessage \<Rightarrow> Session \<Rightarrow> (WorkerRunError + unit) \<times> Session" where
  "send_and_wait written m s =
     (if \<not> sn_writer_alive s then (Inl Stopped, s)
      else (if written then Inr () else Inl Stopped, s\<lparr>sn_outbound := sn_outbound s @ [m]\<rparr>))"

definition write_message :: "Cbor \<Rightarrow> WorkerMessage \<Rightarrow> Writer \<Rightarrow> (WorkerRunError + unit) \<times> Writer" where
  "write_message C p w =
     (case encode_frame C (v1 p) of
        Inl e \<Rightarrow> (Inl (Protocol e), w)
      | Inr bs \<Rightarrow>
          (case write_all bs w of
             (Inl (k, m), w') \<Rightarrow> (Inl (RunIo k m), w')
           | (Inr _, w') \<Rightarrow> (Inr (), w')))"

text \<open>\<open>writer_loop\<close> on the messages it receives: the number acknowledged, and the error that ended it.\<close>

fun writer_loop :: "Cbor \<Rightarrow> WorkerMessage list \<Rightarrow> Writer \<Rightarrow> (WorkerRunError + unit) \<times> nat \<times> Writer" where
  "writer_loop C [] w = (Inr (), 0, w)"
| "writer_loop C (m # ms) w =
     (case write_message C m w of
        (Inl e, w') \<Rightarrow> (Inl e, 0, w')
      | (Inr _, w') \<Rightarrow> (let (r, n, w'') = writer_loop C ms w' in (r, Suc n, w'')))"

section \<open>The tasks\<close>

text \<open>\<open>execute_job\<close> up to the wait for a slot.\<close>

definition execute_start :: "(bytes \<Rightarrow> string + 'p) \<Rightarrow> Task \<Rightarrow> Task" where
  "execute_start parse t =
     (case tk_phase t of
        Spawned p \<Rightarrow>
          (case parse p of
             Inl err \<Rightarrow> t\<lparr>tk_phase := Reporting (Inl (''invalid job payload: '' @ err))\<rparr>
           | Inr _ \<Rightarrow> t\<lparr>tk_phase := AwaitSlot\<rparr>)
      | _ \<Rightarrow> t)"

text \<open>\<open>report\<close>: the message, computed from the permits free at that moment.\<close>

definition report_message :: "nat \<Rightarrow> u32 \<Rightarrow> Task \<Rightarrow> string + bytes \<Rightarrow> WorkerMessage" where
  "report_message slots concurrency t result =
     (let free_slots = of_nat slots :: u32
      in JobResultMsg (tk_job_id t) (tk_dispatch_id t)
           (case result of Inr p \<Rightarrow> ResultSucceeded p | Inl m \<Rightarrow> ResultFailed m)
           (u32_saturating_sub concurrency free_slots) free_slots)"

text \<open>The stretches of a task as operations on the session; \<open>k\<close> is the task's place in the join set.\<close>

definition set_phase :: "nat \<Rightarrow> Phase \<Rightarrow> Session \<Rightarrow> Session" where
  "set_phase k ph s = s\<lparr>sn_jobs := (sn_jobs s)[k := (sn_jobs s ! k)\<lparr>tk_phase := ph\<rparr>]\<rparr>"

definition job_start :: "(bytes \<Rightarrow> string + 'p) \<Rightarrow> nat \<Rightarrow> Session \<Rightarrow> Session" where
  "job_start parse k s = s\<lparr>sn_jobs := (sn_jobs s)[k := execute_start parse (sn_jobs s ! k)]\<rparr>"

definition job_acquire :: "nat \<Rightarrow> Session \<Rightarrow> Session" where
  "job_acquire k s = (set_phase k InHandler s)\<lparr>sn_slots := sn_slots s - 1\<rparr>"

definition job_handled :: "nat \<Rightarrow> string + bytes \<Rightarrow> Session \<Rightarrow> Session" where
  "job_handled k result s = (set_phase k (Reporting result) s)\<lparr>sn_slots := sn_slots s + 1\<rparr>"

text \<open>Unwinding drops the permit.\<close>

definition job_panicked :: "nat \<Rightarrow> Session \<Rightarrow> Session" where
  "job_panicked k s = (set_phase k Panicked s)\<lparr>sn_slots := sn_slots s + 1\<rparr>"

definition job_report :: "u32 \<Rightarrow> bool \<Rightarrow> nat \<Rightarrow> string + bytes \<Rightarrow> Session \<Rightarrow> Session" where
  "job_report concurrency written k result s =
     (let (r, s') = send_and_wait written (report_message (sn_slots s) concurrency (sn_jobs s ! k) result) s
      in set_phase k (Finished r) s')"

section \<open>The select loop\<close>

text \<open>The arms of the \<open>select!\<close> in \<open>serve\<close>: an error ends the session.\<close>

definition on_shutdown :: "bool \<Rightarrow> Session \<Rightarrow> (WorkerRunError + unit) \<times> Session" where
  "on_shutdown written s =
     (case send_and_wait written Drain s of
        (Inl e, s') \<Rightarrow> (Inl e, s')
      | (Inr _, s') \<Rightarrow> (Inr (), s'\<lparr>sn_state := AwaitingDrain\<rparr>))"

definition on_joined :: "nat \<Rightarrow> Session \<Rightarrow> (WorkerRunError + unit) \<times> Session" where
  "on_joined k s =
     (case tk_phase (sn_jobs s ! k) of
        Finished (Inl e) \<Rightarrow> (Inl e, s\<lparr>sn_jobs := take k (sn_jobs s) @ drop (Suc k) (sn_jobs s)\<rparr>)
      | Finished (Inr _) \<Rightarrow> (Inr (), s\<lparr>sn_jobs := take k (sn_jobs s) @ drop (Suc k) (sn_jobs s)\<rparr>)
      | Panicked \<Rightarrow> (Inl Stopped, s\<lparr>sn_jobs := take k (sn_jobs s) @ drop (Suc k) (sn_jobs s)\<rparr>)
      | _ \<Rightarrow> (Inr (), s))"

definition on_frame :: "string \<Rightarrow> WorkerMessage \<Rightarrow> Session \<Rightarrow> (WorkerRunError + unit) \<times> Session" where
  "on_frame queue_name m s =
     (let unexpected = (Inl (Configuration ''unexpected worker frame''), s) in
      case m of
        Registered registered \<Rightarrow> if registered = queue_name then (Inr (), s) else unexpected
      | JobDispatch j d n p \<Rightarrow>
          if sn_state s \<noteq> SessionDraining then
            (Inr (), s\<lparr>sn_jobs := sn_jobs s @
               [\<lparr>tk_job_id = j, tk_dispatch_id = d, tk_execution_count = n, tk_phase = Spawned p\<rparr>]\<rparr>)
          else unexpected
      | Draining \<Rightarrow>
          if sn_state s = AwaitingDrain then (Inr (), s\<lparr>sn_state := SessionDraining\<rparr>) else unexpected
      | ErrorMsg code message \<Rightarrow> (Inl (Remote code message), s)
      | Heartbeat \<Rightarrow> (Inr (), s)
      | _ \<Rightarrow> unexpected)"

definition serve_returns :: "Session \<Rightarrow> bool" where
  "serve_returns s \<longleftrightarrow> sn_state s = SessionDraining \<and> sn_jobs s = []"

section \<open>Runs of a session\<close>

text \<open>
  The steps of a session that goes on, with the frames received so far beside it. The \<open>select!\<close>
  is biased but every arm it may take is a step here; a heartbeat may be sent at any time. A handler may
  panic, the writer may die at any time, and a report may fail, because the writer is gone or because
  it could not write; joining the task of a panicked handler or of a failed report is an error, which ends the session.
\<close>

inductive session_step :: "(bytes \<Rightarrow> string + 'p) \<Rightarrow> string \<Rightarrow> u32 \<Rightarrow>
    Session \<times> WorkerMessage list \<Rightarrow> Session \<times> WorkerMessage list \<Rightarrow> bool"
  for parse q concurrency where
  ss_shutdown: "sn_state s = Serving \<Longrightarrow> on_shutdown True s = (Inr (), s') \<Longrightarrow>
    session_step parse q concurrency (s, rx) (s', rx)"
| ss_joined: "k < length (sn_jobs s) \<Longrightarrow> tk_phase (sn_jobs s ! k) = Finished (Inr ()) \<Longrightarrow> on_joined k s = (Inr (), s') \<Longrightarrow>
    session_step parse q concurrency (s, rx) (s', rx)"
| ss_frame: "\<not> serve_returns s \<Longrightarrow> on_frame q m s = (Inr (), s') \<Longrightarrow> session_step parse q concurrency (s, rx) (s', rx @ [m])"
| ss_start: "k < length (sn_jobs s) \<Longrightarrow> session_step parse q concurrency (s, rx) (job_start parse k s, rx)"
| ss_acquire: "k < length (sn_jobs s) \<Longrightarrow> tk_phase (sn_jobs s ! k) = AwaitSlot \<Longrightarrow> 0 < sn_slots s \<Longrightarrow>
    session_step parse q concurrency (s, rx) (job_acquire k s, rx)"
| ss_handled: "k < length (sn_jobs s) \<Longrightarrow> tk_phase (sn_jobs s ! k) = InHandler \<Longrightarrow>
    session_step parse q concurrency (s, rx) (job_handled k result s, rx)"
| ss_panicked: "k < length (sn_jobs s) \<Longrightarrow> tk_phase (sn_jobs s ! k) = InHandler \<Longrightarrow>
    session_step parse q concurrency (s, rx) (job_panicked k s, rx)"
| ss_report: "k < length (sn_jobs s) \<Longrightarrow> tk_phase (sn_jobs s ! k) = Reporting result \<Longrightarrow>
    session_step parse q concurrency (s, rx) (job_report concurrency written k result s, rx)"
| ss_writer_died: "session_step parse q concurrency (s, rx) (s\<lparr>sn_writer_alive := False\<rparr>, rx)"
| ss_heartbeat: "session_step parse q concurrency (s, rx) (snd (send_unacknowledged Heartbeat s), rx)"

inductive session_reach :: "(bytes \<Rightarrow> string + 'p) \<Rightarrow> string \<Rightarrow> u32 \<Rightarrow> Session \<times> WorkerMessage list \<Rightarrow> bool"
  for parse q concurrency where
  session_start: "session_reach parse q concurrency (Session_new concurrency, [])"
| session_next: "session_reach parse q concurrency x \<Longrightarrow> session_step parse q concurrency x y \<Longrightarrow>
    session_reach parse q concurrency y"

section \<open>The session invariant\<close>

definition dispatches :: "WorkerMessage list \<Rightarrow> (i64 \<times> string) multiset" where
  "dispatches ms = mset (List.map_filter (\<lambda>m. case m of JobDispatch j d n p \<Rightarrow> Some (j, d) | _ \<Rightarrow> None) ms)"

definition results :: "WorkerMessage list \<Rightarrow> (i64 \<times> string) multiset" where
  "results ms = mset (List.map_filter (\<lambda>m. case m of JobResultMsg j d r a b \<Rightarrow> Some (j, d) | _ \<Rightarrow> None) ms)"

fun phase_live :: "Phase \<Rightarrow> bool" where
  "phase_live (Finished _) = False"
| "phase_live _ = True"

abbreviation live :: "Task \<Rightarrow> bool" where
  "live t \<equiv> phase_live (tk_phase t)"

definition unreported :: "Task list \<Rightarrow> (i64 \<times> string) multiset" where
  "unreported ts = image_mset (\<lambda>t. (tk_job_id t, tk_dispatch_id t)) (filter_mset live (mset ts))"

text \<open>Tasks whose report failed; their result may have reached the writer or not.\<close>

fun report_failed :: "Phase \<Rightarrow> bool" where
  "report_failed (Finished (Inl _)) = True"
| "report_failed _ = False"

definition failed_reports :: "Task list \<Rightarrow> (i64 \<times> string) multiset" where
  "failed_reports ts = image_mset (\<lambda>t. (tk_job_id t, tk_dispatch_id t)) (filter_mset (\<lambda>t. report_failed (tk_phase t)) (mset ts))"

definition in_handler :: "Task list \<Rightarrow> nat" where
  "in_handler ts = size (filter_mset (\<lambda>t. tk_phase t = InHandler) (mset ts))"

definition report_ok :: "u32 \<Rightarrow> WorkerMessage \<Rightarrow> bool" where
  "report_ok concurrency m =
     (case m of JobResultMsg j d r running free \<Rightarrow> unat running + unat free = unat concurrency | _ \<Rightarrow> True)"

definition session_inv :: "u32 \<Rightarrow> Session \<Rightarrow> WorkerMessage list \<Rightarrow> bool" where
  "session_inv concurrency s rx \<longleftrightarrow>
     sn_slots s + in_handler (sn_jobs s) = unat concurrency \<and>
     unreported (sn_jobs s) + results (sn_outbound s) \<subseteq># dispatches rx \<and>
     dispatches rx \<subseteq># unreported (sn_jobs s) + results (sn_outbound s) + failed_reports (sn_jobs s) \<and>
     list_all (report_ok concurrency) (sn_outbound s) \<and>
     count (mset (sn_outbound s)) Drain = (if sn_state s = Serving then 0 else 1) \<and>
     count (mset rx) Draining = (if sn_state s = SessionDraining then 1 else 0)"

lemma dispatches_simps [simp]:
  "dispatches [] = {#}"
  "dispatches (ms @ [m]) = dispatches ms + (case m of JobDispatch j d n p \<Rightarrow> {#(j, d)#} | _ \<Rightarrow> {#})"
  by (auto simp: dispatches_def map_filter_simps map_filter_def split: WorkerMessage.splits)

lemma results_simps [simp]:
  "results [] = {#}"
  "results (ms @ [m]) = results ms + (case m of JobResultMsg j d r a b \<Rightarrow> {#(j, d)#} | _ \<Rightarrow> {#})"
  by (auto simp: results_def map_filter_simps map_filter_def split: WorkerMessage.splits)

text \<open>Replacing one task changes the counts by that task alone.\<close>

lemma mset_replace: "k < length ts \<Longrightarrow> \<exists>M. mset ts = add_mset (ts ! k) M \<and> (\<forall>t. mset (ts[k := t]) = add_mset t M)"
  by (rule exI [of _ "mset ts - {#ts ! k#}"]) (simp add: mset_update)

lemma jobs_replace:
  assumes "k < length ts" and "tk_job_id t = tk_job_id (ts ! k)" and "tk_dispatch_id t = tk_dispatch_id (ts ! k)"
  shows "live t = live (ts ! k) \<Longrightarrow> unreported (ts[k := t]) = unreported ts"
    and "\<not> live t \<Longrightarrow> live (ts ! k) \<Longrightarrow> unreported ts = unreported (ts[k := t]) + {#(tk_job_id t, tk_dispatch_id t)#}"
    and "in_handler (ts[k := t]) + (if tk_phase (ts ! k) = InHandler then 1 else 0) =
      in_handler ts + (if tk_phase t = InHandler then 1 else 0)"
    and "failed_reports (ts[k := t]) + (if report_failed (tk_phase (ts ! k)) then {#(tk_job_id t, tk_dispatch_id t)#} else {#}) =
      failed_reports ts + (if report_failed (tk_phase t) then {#(tk_job_id t, tk_dispatch_id t)#} else {#})"
proof -
  from mset_replace [OF assms(1)] obtain M where M: "mset ts = add_mset (ts ! k) M" "mset (ts[k := t]) = add_mset t M" by blast
  show "live t = live (ts ! k) \<Longrightarrow> unreported (ts[k := t]) = unreported ts"
    using M assms(2,3) by (simp add: unreported_def)
  show "\<not> live t \<Longrightarrow> live (ts ! k) \<Longrightarrow> unreported ts = unreported (ts[k := t]) + {#(tk_job_id t, tk_dispatch_id t)#}"
    using M assms(2,3) by (simp add: unreported_def)
  show "in_handler (ts[k := t]) + (if tk_phase (ts ! k) = InHandler then 1 else 0) =
      in_handler ts + (if tk_phase t = InHandler then 1 else 0)"
    using M by (simp add: in_handler_def)
  show "failed_reports (ts[k := t]) + (if report_failed (tk_phase (ts ! k)) then {#(tk_job_id t, tk_dispatch_id t)#} else {#}) =
      failed_reports ts + (if report_failed (tk_phase t) then {#(tk_job_id t, tk_dispatch_id t)#} else {#})"
    using M assms(2,3) by (simp add: failed_reports_def)
qed

lemma set_phase_sel [simp]:
  "sn_state (set_phase k ph s) = sn_state s" "sn_slots (set_phase k ph s) = sn_slots s"
  "sn_outbound (set_phase k ph s) = sn_outbound s" "sn_writer_alive (set_phase k ph s) = sn_writer_alive s"
  by (simp_all add: set_phase_def)

lemma report_message_ok:
  assumes "n \<le> unat concurrency"
  shows "report_ok concurrency (report_message n concurrency t r)"
proof -
  have "unat (of_nat n :: u32) = n"
    using le_less_trans [OF assms unat_u32_lt] by (simp add: unat_of_nat)
  then show ?thesis using assms by (simp add: report_ok_def report_message_def Let_def unat_u32_saturating_sub)
qed

lemma on_frame_inv:
  assumes inv: "session_inv c s rx" and f: "on_frame q m s = (Inr (), s')"
  shows "session_inv c s' (rx @ [m])"
proof (cases m)
  case (JobDispatch j d n p)
  have s': "s' = s\<lparr>sn_jobs := sn_jobs s @ [\<lparr>tk_job_id = j, tk_dispatch_id = d, tk_execution_count = n, tk_phase = Spawned p\<rparr>]\<rparr>"
    using f JobDispatch by (simp add: on_frame_def split: if_splits)
  show ?thesis using inv by (simp add: JobDispatch s' session_inv_def unreported_def in_handler_def failed_reports_def ac_simps)
qed (use assms in \<open>auto simp: on_frame_def session_inv_def split: if_splits\<close>)

lemma job_report_inv:
  assumes inv: "session_inv c s rx" and k: "k < length (sn_jobs s)" "tk_phase (sn_jobs s ! k) = Reporting r"
  shows "session_inv c (job_report c written k r s) rx"
proof -
  let ?m = "report_message (sn_slots s) c (sn_jobs s ! k) r" and ?x = "(tk_job_id (sn_jobs s ! k), tk_dispatch_id (sn_jobs s ! k))"
  obtain q s' where sent: "send_and_wait written ?m s = (q, s')" by (rule prod.exhaust)
  let ?t = "(sn_jobs s ! k)\<lparr>tk_phase := Finished q\<rparr>"
  let ?jobs = "(sn_jobs s)[k := ?t]"
  have m: "report_ok c ?m" "results (sn_outbound s @ [?m]) = results (sn_outbound s) + {#?x#}" "Drain \<noteq> ?m"
    using inv report_message_ok by (simp_all add: session_inv_def report_message_def Let_def)
  have jobs: "unreported (sn_jobs s) = add_mset ?x (unreported ?jobs)" "in_handler ?jobs = in_handler (sn_jobs s)"
    "failed_reports ?jobs = failed_reports (sn_jobs s) + (if report_failed (Finished q) then {#?x#} else {#})"
    using jobs_replace [OF k(1), of ?t] k(2) by simp_all
  have sub: "add_mset ?x (unreported ?jobs + results (sn_outbound s)) \<subseteq># dispatches rx"
    "dispatches rx \<subseteq># add_mset ?x (unreported ?jobs + results (sn_outbound s) + failed_reports (sn_jobs s))"
    using inv unfolding session_inv_def jobs(1) by simp_all
  have other: "sn_slots s + in_handler (sn_jobs s) = unat c" "list_all (report_ok c) (sn_outbound s)"
    "count (mset (sn_outbound s)) Drain = (if sn_state s = Serving then 0 else 1)"
    "count (mset rx) Draining = (if sn_state s = SessionDraining then 1 else 0)"
    using inv unfolding session_inv_def by blast+
  have report: "job_report c written k r s = s'\<lparr>sn_jobs := ?jobs\<rparr>"
    using sent by (auto simp: job_report_def set_phase_def send_and_wait_def split: if_splits)
  consider "s' = s" "q = Inl Stopped" | "s' = s\<lparr>sn_outbound := sn_outbound s @ [?m]\<rparr>"
    using sent by (auto simp: send_and_wait_def split: if_splits)
  then show ?thesis
  proof cases
    case 1
    have "unreported ?jobs + results (sn_outbound s) \<subseteq># dispatches rx"
      using mset_subset_eq_insertD [OF sub(1)] by (simp add: subset_mset.less_imp_le)
    with other sub(2) jobs(2,3) 1 show ?thesis unfolding report by (simp add: session_inv_def)
  next
    case 2
    have "dispatches rx \<subseteq># add_mset ?x (unreported ?jobs + results (sn_outbound s) + failed_reports ?jobs)"
      by (rule subset_mset.order_trans [OF sub(2)]) (simp add: jobs(3))
    with other sub(1) jobs(2) m 2 show ?thesis unfolding report by (simp add: session_inv_def)
  qed
qed

lemma session_step_inv:
  assumes "session_step parse q concurrency x y" and "session_inv concurrency (fst x) (snd x)"
  shows "session_inv concurrency (fst y) (snd y)"
  using assms
proof (induction rule: session_step.induct)
  case (ss_shutdown s s' rx)
  then show ?case
    by (auto simp: on_shutdown_def send_and_wait_def session_inv_def report_ok_def split: if_splits)
next
  case (ss_joined k s s' rx)
  let ?t = "sn_jobs s ! k"
  have s': "s' = s\<lparr>sn_jobs := take k (sn_jobs s) @ drop (Suc k) (sn_jobs s)\<rparr>" using ss_joined by (simp add: on_joined_def)
  have "mset (sn_jobs s) = mset (take k (sn_jobs s) @ ?t # drop (Suc k) (sn_jobs s))"
    using id_take_nth_drop [OF ss_joined(1)] by simp
  then have "mset (sn_jobs s) = add_mset ?t (mset (sn_jobs s'))" by (simp add: s')
  then have "unreported (sn_jobs s') = unreported (sn_jobs s)" "in_handler (sn_jobs s') = in_handler (sn_jobs s)"
    "failed_reports (sn_jobs s') = failed_reports (sn_jobs s)"
    using ss_joined(2) by (simp_all add: unreported_def in_handler_def failed_reports_def)
  with ss_joined(4) show ?case by (simp add: session_inv_def s')
next
  case (ss_frame s m s' rx)
  then show ?case using on_frame_inv by simp
next
  case (ss_start k s rx)
  let ?t = "execute_start parse (sn_jobs s ! k)"
  have "live ?t = live (sn_jobs s ! k)" "tk_phase ?t = InHandler \<longleftrightarrow> tk_phase (sn_jobs s ! k) = InHandler"
    "report_failed (tk_phase ?t) = report_failed (tk_phase (sn_jobs s ! k))"
    "tk_job_id ?t = tk_job_id (sn_jobs s ! k)" "tk_dispatch_id ?t = tk_dispatch_id (sn_jobs s ! k)"
    by (simp_all add: execute_start_def split: Phase.splits sum.splits)
  with jobs_replace [OF ss_start(1), of ?t] ss_start(2) show ?case by (simp add: session_inv_def job_start_def split: if_splits)
next
  case (ss_acquire k s rx)
  with jobs_replace [OF ss_acquire(1), of "(sn_jobs s ! k)\<lparr>tk_phase := InHandler\<rparr>"] show ?case
    by (simp add: session_inv_def job_acquire_def set_phase_def)
next
  case (ss_handled k s rx result)
  with jobs_replace [OF ss_handled(1), of "(sn_jobs s ! k)\<lparr>tk_phase := Reporting result\<rparr>"] show ?case
    by (simp add: session_inv_def job_handled_def set_phase_def)
next
  case (ss_panicked k s rx)
  with jobs_replace [OF ss_panicked(1), of "(sn_jobs s ! k)\<lparr>tk_phase := Panicked\<rparr>"] show ?case
    by (simp add: session_inv_def job_panicked_def set_phase_def)
next
  case (ss_report k s result rx written)
  then show ?case using job_report_inv by simp
next
  case (ss_writer_died s rx)
  then show ?case by (simp add: session_inv_def)
next
  case (ss_heartbeat s rx)
  then show ?case by (simp add: send_unacknowledged_def session_inv_def report_ok_def)
qed

lemma session_reach_inv: "session_reach parse q concurrency x \<Longrightarrow> session_inv concurrency (fst x) (snd x)"
proof (induction rule: session_reach.induct)
  case session_start
  then show ?case by (simp add: session_inv_def Session_new_def unreported_def in_handler_def failed_reports_def)
next
  case (session_next x y)
  then show ?case by (metis session_step_inv)
qed

section \<open>Progress\<close>

fun phase_work :: "Phase \<Rightarrow> nat" where
  "phase_work (Spawned _) = 5"
| "phase_work AwaitSlot = 4"
| "phase_work InHandler = 3"
| "phase_work (Reporting _) = 2"
| "phase_work (Finished _) = 1"
| "phase_work Panicked = 1"

definition work :: "Session \<Rightarrow> nat" where
  "work s = (\<Sum>t\<in>#mset (sn_jobs s). phase_work (tk_phase t))"

text \<open>A task has failed when its handler panicked or its report failed; joining it ends the session with an error.\<close>

fun failed_phase :: "Phase \<Rightarrow> bool" where
  "failed_phase (Finished (Inl _)) = True"
| "failed_phase Panicked = True"
| "failed_phase _ = False"

definition no_failed_task :: "Session \<Rightarrow> bool" where
  "no_failed_task s \<longleftrightarrow> (\<forall>t\<in>set (sn_jobs s). \<not> failed_phase (tk_phase t))"

lemma no_failed_task_update:
  "no_failed_task s \<Longrightarrow> \<not> failed_phase (tk_phase t) \<Longrightarrow> no_failed_task (s\<lparr>sn_jobs := (sn_jobs s)[k := t]\<rparr>)"
  by (auto simp: no_failed_task_def dest!: set_update_subset_insert [THEN subsetD])

lemma no_failed_task_cong: "sn_jobs s = sn_jobs s' \<Longrightarrow> no_failed_task s = no_failed_task s'"
  by (simp add: no_failed_task_def)

lemma no_failed_other [simp]: "no_failed_task (s\<lparr>sn_slots := n\<rparr>) = no_failed_task s"
  "no_failed_task (s\<lparr>sn_outbound := ms\<rparr>) = no_failed_task s" "no_failed_task (s\<lparr>sn_writer_alive := b\<rparr>) = no_failed_task s"
  "no_failed_task (s\<lparr>sn_state := x\<rparr>) = no_failed_task s"
  by (simp_all add: no_failed_task_def)

text \<open>A failed task stays: no step of a session that goes on changes it or removes it.\<close>

lemma failed_kept:
  assumes "\<not> no_failed_task s" and "\<not> failed_phase (tk_phase (sn_jobs s ! k))"
  shows "\<not> no_failed_task (s\<lparr>sn_jobs := (sn_jobs s)[k := t]\<rparr>)"
proof -
  from assms(1) obtain i where i: "i < length (sn_jobs s)" "failed_phase (tk_phase (sn_jobs s ! i))"
    by (auto simp: no_failed_task_def in_set_conv_nth)
  with assms(2) have "i \<noteq> k" by auto
  with i have "(sn_jobs s)[k := t] ! i = sn_jobs s ! i" "i < length ((sn_jobs s)[k := t])" by simp_all
  then have "sn_jobs s ! i \<in> set ((sn_jobs s)[k := t])" by (metis nth_mem)
  with i(2) show ?thesis by (auto simp: no_failed_task_def)
qed

lemma session_step_failed:
  assumes "session_step parse q concurrency x y" and "\<not> no_failed_task (fst x)"
  shows "\<not> no_failed_task (fst y)"
  using assms
proof (induction rule: session_step.induct)
  case (ss_shutdown s s' rx)
  then show ?case by (auto simp: on_shutdown_def send_and_wait_def split: if_splits)
next
  case (ss_joined k s s' rx)
  have "sn_jobs s' = take k (sn_jobs s) @ drop (Suc k) (sn_jobs s)" using ss_joined by (auto simp: on_joined_def)
  then have "set (sn_jobs s) = insert (sn_jobs s ! k) (set (sn_jobs s'))"
    using id_take_nth_drop [OF ss_joined(1)] by (metis Un_insert_right list.simps(15) set_append)
  with ss_joined(2,4) show ?case by (auto simp: no_failed_task_def)
next
  case (ss_frame s m s' rx)
  then have "set (sn_jobs s) \<subseteq> set (sn_jobs s')" by (cases m) (auto simp: on_frame_def split: if_splits)
  with ss_frame(3) show ?case by (auto simp: no_failed_task_def)
next
  case (ss_start k s rx)
  show ?case
  proof (cases "failed_phase (tk_phase (sn_jobs s ! k))")
    case True
    then have "execute_start parse (sn_jobs s ! k) = sn_jobs s ! k" by (auto simp: execute_start_def split: Phase.splits)
    then show ?thesis using ss_start(2) by (simp add: job_start_def)
  qed (use ss_start failed_kept in \<open>simp add: job_start_def\<close>)
next
  case (ss_report k s result rx written)
  have "sn_jobs (job_report concurrency written k result s) =
      (sn_jobs s)[k := (sn_jobs s ! k)\<lparr>tk_phase := Finished (fst (send_and_wait written (report_message (sn_slots s) concurrency (sn_jobs s ! k) result) s))\<rparr>]"
    by (auto simp: job_report_def send_and_wait_def set_phase_def)
  with failed_kept [of s k] ss_report show ?case by (simp add: no_failed_task_def)
qed (use failed_kept in \<open>simp_all add: job_acquire_def job_handled_def job_panicked_def set_phase_def send_unacknowledged_def\<close>)

lemma failed_session_never_returns:
  "(session_step parse q concurrency)\<^sup>*\<^sup>* x y \<Longrightarrow> \<not> no_failed_task (fst x) \<Longrightarrow> \<not> serve_returns (fst y)"
proof -
  assume "(session_step parse q concurrency)\<^sup>*\<^sup>* x y" "\<not> no_failed_task (fst x)"
  then have "\<not> no_failed_task (fst y)" by (induction rule: rtranclp_induct) (auto dest: session_step_failed)
  then show ?thesis by (auto simp: serve_returns_def no_failed_task_def)
qed

lemma work_replace:
  assumes "k < length (sn_jobs s)" and "phase_work (tk_phase t) < phase_work (tk_phase (sn_jobs s ! k))"
  shows "work (s\<lparr>sn_jobs := (sn_jobs s)[k := t]\<rparr>) < work s"
proof -
  from mset_replace [OF assms(1)] obtain M where
    M: "mset (sn_jobs s) = add_mset (sn_jobs s ! k) M" "mset ((sn_jobs s)[k := t]) = add_mset t M" by blast
  with assms(2) show ?thesis by (simp add: work_def)
qed

lemma work_cong: "sn_jobs s = sn_jobs s' \<Longrightarrow> work s = work s'"
  by (simp add: work_def)

text \<open>
  A session with a live writer, an unfinished job and no failed task always has a step that brings it closer to the
  end.
\<close>

lemma session_progress:
  assumes reach: "session_reach parse q concurrency (s, rx)" and alive: "sn_writer_alive s" and nf: "no_failed_task s"
    and "0 < concurrency" and "sn_jobs s \<noteq> []"
  shows "\<exists>s'. session_step parse q concurrency (s, rx) (s', rx) \<and> work s' < work s \<and>
     sn_writer_alive s' \<and> no_failed_task s' \<and> sn_state s' = sn_state s"
proof -
  have inv: "session_inv concurrency s rx" using session_reach_inv [OF reach] by simp
  note nf_update = no_failed_task_update [OF nf]
  consider (start) k p where "k < length (sn_jobs s)" "tk_phase (sn_jobs s ! k) = Spawned p"
    | (handler) k where "k < length (sn_jobs s)" "tk_phase (sn_jobs s ! k) = InHandler"
    | (report) k r where "k < length (sn_jobs s)" "tk_phase (sn_jobs s ! k) = Reporting r"
    | (join) k where "k < length (sn_jobs s)" "tk_phase (sn_jobs s ! k) = Finished (Inr ())"
    | (await) "\<forall>t\<in>set (sn_jobs s). tk_phase t = AwaitSlot"
    using nf unfolding no_failed_task_def by (metis failed_phase.simps(1,2) Phase.exhaust in_set_conv_nth old.unit.exhaust sum.exhaust)
  then show ?thesis
  proof cases
    case start
    have "phase_work (tk_phase (execute_start parse (sn_jobs s ! k))) < phase_work (tk_phase (sn_jobs s ! k))"
      using start(2) by (simp add: execute_start_def split: sum.splits)
    moreover have "\<not> failed_phase (tk_phase (execute_start parse (sn_jobs s ! k)))"
      using start(2) by (simp add: execute_start_def split: sum.splits)
    ultimately show ?thesis using work_replace [OF start(1)] ss_start [OF start(1), of parse q concurrency rx] alive nf_update
      by (intro exI [of _ "job_start parse k s"]) (simp add: job_start_def)
  next
    case handler
    have "work (set_phase k (Reporting (Inl [])) s) < work s"
      using work_replace [OF handler(1)] handler(2) by (simp add: set_phase_def)
    then have "work (job_handled k (Inl []) s) < work s" by (simp add: job_handled_def work_def)
    with ss_handled [OF handler, of parse q concurrency rx "Inl []"] alive nf_update show ?thesis
      by (intro exI [of _ "job_handled k (Inl []) s"]) (simp add: job_handled_def set_phase_def)
  next
    case report
    have "work (set_phase k (Finished (Inr ())) s) < work s"
      using work_replace [OF report(1)] report(2) by (simp add: set_phase_def)
    then have "work (job_report concurrency True k r s) < work s"
      using alive by (simp add: job_report_def send_and_wait_def work_def set_phase_def)
    moreover have "no_failed_task (job_report concurrency True k r s)"
      using alive nf_update [of "(sn_jobs s ! k)\<lparr>tk_phase := Finished (Inr ())\<rparr>" k]
      by (simp add: job_report_def send_and_wait_def set_phase_def no_failed_task_def)
    ultimately show ?thesis using ss_report [OF report, of parse q concurrency rx True] alive
      by (intro exI [of _ "job_report concurrency True k r s"]) (simp add: job_report_def send_and_wait_def)
  next
    case join
    note r = join(2)
    let ?s' = "s\<lparr>sn_jobs := take k (sn_jobs s) @ drop (Suc k) (sn_jobs s)\<rparr>"
    have on: "on_joined k s = (Inr (), ?s')" using r by (simp add: on_joined_def)
    have "mset (sn_jobs s) = mset (take k (sn_jobs s) @ sn_jobs s ! k # drop (Suc k) (sn_jobs s))"
      using id_take_nth_drop [OF join(1)] by simp
    then have "mset (sn_jobs s) = add_mset (sn_jobs s ! k) (mset (sn_jobs ?s'))" by simp
    then have "work ?s' < work s" using r by (simp add: work_def)
    moreover have "no_failed_task ?s'"
      using nf set_take_subset [of k "sn_jobs s"] set_drop_subset [of "Suc k" "sn_jobs s"] by (auto simp: no_failed_task_def)
    ultimately show ?thesis using ss_joined [OF join(1) r on, of parse q concurrency rx] alive by (intro exI [of _ ?s']) simp
  next
    case await
    have "in_handler (sn_jobs s) = 0" using await by (auto simp: in_handler_def filter_mset_eq_conv)
    then have slots: "0 < sn_slots s" using inv \<open>0 < concurrency\<close> by (simp add: session_inv_def unat_gt_0 word_neq_0_conv)
    have k: "0 < length (sn_jobs s)" "tk_phase (sn_jobs s ! 0) = AwaitSlot" using assms(5) await by simp_all
    have "work (set_phase 0 InHandler s) < work s"
      using work_replace [OF k(1)] k(2) by (simp add: set_phase_def)
    then have "work (job_acquire 0 s) < work s" by (simp add: job_acquire_def work_def)
    with ss_acquire [OF k slots, of parse q concurrency rx] alive nf_update show ?thesis
      by (intro exI [of _ "job_acquire 0 s"]) (simp add: job_acquire_def set_phase_def)
  qed
qed

lemma session_can_finish_jobs:
  assumes "session_reach parse q concurrency (s, rx)" and "sn_writer_alive s" and "no_failed_task s" and "0 < concurrency"
  shows "\<exists>s'. (session_step parse q concurrency)\<^sup>*\<^sup>* (s, rx) (s', rx) \<and> sn_jobs s' = [] \<and> sn_state s' = sn_state s"
  using assms(1-3)
proof (induction "work s" arbitrary: s rule: less_induct)
  case less
  show ?case
  proof (cases "sn_jobs s = []")
    case True
    then show ?thesis by blast
  next
    case False
    from session_progress [OF less.prems \<open>0 < concurrency\<close> False] obtain s1 where
      s1: "session_step parse q concurrency (s, rx) (s1, rx)" "work s1 < work s" "sn_writer_alive s1" "no_failed_task s1" "sn_state s1 = sn_state s" by blast
    from less.hyps [OF s1(2) session_next [OF less.prems(1) s1(1)] s1(3,4)] s1(1,5) show ?thesis
      by (metis converse_rtranclp_into_rtranclp)
  qed
qed

section \<open>Properties of a session\<close>

text \<open>A run of a session: it registers, gets two jobs for its one slot and is asked to drain.\<close>

definition any_payload :: "bytes \<Rightarrow> string + bytes" where
  "any_payload b = (if b = [] then Inl ''EOF'' else Inr b)"

definition sample_frames :: "WorkerMessage list" where
  "sample_frames = [Registered ''mail'', JobDispatch 1 ''a'' 1 [7], JobDispatch 2 ''b'' 1 [], Draining]"

definition sample_session :: Session where
  "sample_session =
     \<lparr>sn_state = SessionDraining,
      sn_jobs = [\<lparr>tk_job_id = 1, tk_dispatch_id = ''a'', tk_execution_count = 1, tk_phase = Finished (Inr ())\<rparr>,
                 \<lparr>tk_job_id = 2, tk_dispatch_id = ''b'', tk_execution_count = 1, tk_phase = Reporting (Inl ''invalid job payload: EOF'')\<rparr>],
      sn_slots = 1, sn_outbound = [Drain, JobResultMsg 1 ''a'' (ResultSucceeded [8]) 0 1], sn_writer_alive = True\<rparr>"

lemma rtranclp_session_reach:
  "(session_step parse q c)\<^sup>*\<^sup>* x y \<Longrightarrow> session_reach parse q c x \<Longrightarrow> session_reach parse q c y"
  by (induction rule: rtranclp_induct) (auto intro: session_next)

lemma sample_session_reach: "session_reach any_payload ''mail'' 1 (sample_session, sample_frames)"
proof -
  let ?S = "session_step any_payload ''mail'' 1"
  define s0 where "s0 = Session_new 1"
  define s2 where "s2 = s0\<lparr>sn_jobs := [\<lparr>tk_job_id = 1, tk_dispatch_id = ''a'', tk_execution_count = 1, tk_phase = Spawned [7]\<rparr>]\<rparr>"
  define s3 where "s3 = s2\<lparr>sn_jobs := sn_jobs s2 @ [\<lparr>tk_job_id = 2, tk_dispatch_id = ''b'', tk_execution_count = 1, tk_phase = Spawned []\<rparr>]\<rparr>"
  define s4 where "s4 = job_start any_payload 1 (job_start any_payload 0 s3)"
  define s5 where "s5 = snd (on_shutdown True (job_acquire 0 s4))"
  define s6 where "s6 = s5\<lparr>sn_state := SessionDraining\<rparr>"
  define s7 where "s7 = job_handled 0 (Inr [8]) s6"
  note defs = s0_def s2_def s3_def s4_def s5_def s6_def s7_def Session_new_def job_start_def execute_start_def any_payload_def
    job_acquire_def set_phase_def on_shutdown_def send_and_wait_def job_handled_def
  have "?S (s0, []) (s0, [Registered ''mail''])"
    using ss_frame [of s0 "''mail''" "Registered ''mail''" s0 any_payload 1 "[]"] by (simp add: serve_returns_def on_frame_def defs)
  moreover have "?S (s0, [Registered ''mail'']) (s2, [Registered ''mail'', JobDispatch 1 ''a'' 1 [7]])"
    using ss_frame [of s0 "''mail''" "JobDispatch 1 ''a'' 1 [7]" s2 any_payload 1 "[Registered ''mail'']"]
    by (simp add: serve_returns_def on_frame_def defs)
  moreover have "?S (s2, [Registered ''mail'', JobDispatch 1 ''a'' 1 [7]]) (s3, take 3 sample_frames)"
    using ss_frame [of s2 "''mail''" "JobDispatch 2 ''b'' 1 []" s3 any_payload 1 "[Registered ''mail'', JobDispatch 1 ''a'' 1 [7]]"]
    by (simp add: serve_returns_def on_frame_def defs sample_frames_def)
  moreover have "?S (s3, rx) (job_start any_payload 0 s3, rx)" for rx
    by (rule ss_start) (simp add: defs)
  moreover have "?S (job_start any_payload 0 s3, rx) (s4, rx)" for rx
    unfolding s4_def by (rule ss_start) (simp add: defs)
  moreover have "?S (s4, rx) (job_acquire 0 s4, rx)" for rx
    by (rule ss_acquire) (simp_all add: defs)
  moreover have "?S (job_acquire 0 s4, rx) (s5, rx)" for rx
    by (rule ss_shutdown) (simp_all add: defs)
  moreover have "?S (s5, take 3 sample_frames) (s6, sample_frames)"
    using ss_frame [of s5 "''mail''" Draining s6 any_payload 1 "take 3 sample_frames"]
    by (simp add: serve_returns_def on_frame_def defs sample_frames_def)
  moreover have "?S (s6, rx) (s7, rx)" for rx
    unfolding s7_def by (rule ss_handled) (simp_all add: defs)
  moreover have "?S (s7, rx) (sample_session, rx)" for rx
  proof -
    have "job_report 1 True 0 (Inr [8]) s7 = sample_session"
      by (simp add: defs sample_session_def job_report_def report_message_def u32_saturating_sub_def)
    then show ?thesis using ss_report [of 0 s7 "Inr [8]" any_payload "''mail''" 1 rx True] by (simp add: defs)
  qed
  ultimately have "?S\<^sup>*\<^sup>* (s0, []) (sample_session, sample_frames)"
    by (meson converse_rtranclp_into_rtranclp rtranclp.rtrancl_refl)
  then show ?thesis using rtranclp_session_reach session_start s0_def by metis
qed

text \<open>
  Every accepted job is reported exactly once. In any run of a session no result is sent for a
  job that was not dispatched to it, none is sent twice, and when the session ends after a drain,
  the results sent are exactly the jobs dispatched to it, whatever the order in which jobs wait for
  a slot, run, fail to parse and report.
\<close>

theorem accepted_jobs_reported_once:
  assumes "session_reach parse q concurrency (s, rx)"
  shows "results (sn_outbound s) \<subseteq># dispatches rx \<and>
    (serve_returns s \<longrightarrow> results (sn_outbound s) = dispatches rx)"
proof -
  have "session_inv concurrency s rx" using session_reach_inv [OF assms] by simp
  then have sub: "unreported (sn_jobs s) + results (sn_outbound s) \<subseteq># dispatches rx"
    "dispatches rx \<subseteq># unreported (sn_jobs s) + results (sn_outbound s) + failed_reports (sn_jobs s)"
    by (simp_all add: session_inv_def)
  have "results (sn_outbound s) = dispatches rx" if "serve_returns s"
    using that sub by (intro subset_mset.antisym) (simp_all add: serve_returns_def unreported_def failed_reports_def)
  with subset_mset.order_trans [OF mset_subset_eq_add_right sub(1)] show ?thesis by simp
qed

theorem accepted_jobs_reported_once_witness:
  "results (sn_outbound sample_session) \<subseteq># dispatches sample_frames \<and> results (sn_outbound sample_session) = {#(1, ''a'')#}"
  using accepted_jobs_reported_once [OF sample_session_reach]
  by (simp add: sample_session_def results_def map_filter_simps)

text \<open>
  The concurrency limit holds: in any run at most \<open>concurrency\<close> jobs are in their handler at
  the same time, and every result the worker sends carries numbers of running jobs and free slots
  that add up to exactly that limit.
\<close>

theorem session_respects_concurrency:
  assumes "session_reach parse q concurrency (s, rx)"
  shows "in_handler (sn_jobs s) \<le> unat concurrency \<and>
    (\<forall>j d r running free. JobResultMsg j d r running free \<in> set (sn_outbound s) \<longrightarrow>
       unat running + unat free = unat concurrency)"
proof -
  have "session_inv concurrency s rx" using session_reach_inv [OF assms] by simp
  then show ?thesis by (fastforce simp: session_inv_def list_all_iff report_ok_def)
qed

theorem session_respects_concurrency_witness:
  "in_handler (sn_jobs sample_session) \<le> 1 \<and> unat (0 :: u32) + unat (1 :: u32) = unat (1 :: u32)"
proof -
  have "JobResultMsg 1 ''a'' (ResultSucceeded [8]) 0 1 \<in> set (sn_outbound sample_session)" by (simp add: sample_session_def)
  with session_respects_concurrency [OF sample_session_reach] show ?thesis by auto
qed

text \<open>
  C32. A drain can be completed as long as no task has failed. From any state that a draining session can reach (handlers may
  panic, reports may fail and the writer may die on the way) in which the writer works and no task has failed, there is a run without further input
  after which the session returns: jobs waiting for a slot are never blocked by each other. From a state with a
  failed task, whose handler panicked or whose report failed, no run of the session returns normally.
\<close>

theorem draining_session_can_return:
  assumes "session_reach parse q concurrency (s, rx)" and "sn_writer_alive s" and "0 < concurrency"
    and "sn_state s = SessionDraining"
  shows "(no_failed_task s \<longrightarrow> (\<exists>s'. (session_step parse q concurrency)\<^sup>*\<^sup>* (s, rx) (s', rx) \<and> serve_returns s')) \<and>
    (\<not> no_failed_task s \<longrightarrow> (\<forall>s' rx'. (session_step parse q concurrency)\<^sup>*\<^sup>* (s, rx) (s', rx') \<longrightarrow> \<not> serve_returns s'))"
proof (intro conjI impI allI)
  assume "no_failed_task s"
  from session_can_finish_jobs [OF assms(1,2) this assms(3)] assms(4)
  show "\<exists>s'. (session_step parse q concurrency)\<^sup>*\<^sup>* (s, rx) (s', rx) \<and> serve_returns s'" by (auto simp: serve_returns_def)
qed (use failed_session_never_returns in fastforce)

theorem draining_session_can_return_witness:
  "no_failed_task sample_session \<and>
   (\<exists>s'. (session_step any_payload ''mail'' 1)\<^sup>*\<^sup>* (sample_session, sample_frames) (s', sample_frames) \<and> serve_returns s')"
  using draining_session_can_return [OF sample_session_reach] by (simp add: sample_session_def no_failed_task_def)

text \<open>
  The session understands what a registry sends: a registration for its own queue and jobs
  before the \<open>Draining\<close> frame, heartbeats, and one \<open>Draining\<close> frame after its own \<open>Drain\<close> are all
  accepted, so a session is not ended by the frames of a correct registry.
\<close>

theorem session_accepts_registry_frames:
  assumes reach: "session_reach parse q concurrency (s, rx)"
    and m: "m = Heartbeat \<or> m = Registered q \<or> is_JobDispatch m \<and> Draining \<notin> set rx \<or>
      m = Draining \<and> Draining \<notin> set rx \<and> Drain \<in> set (sn_outbound s)"
  shows "\<exists>s'. on_frame q m s = (Inr (), s')"
proof -
  have inv: "session_inv concurrency s rx" using session_reach_inv [OF reach] by simp
  then have d: "Draining \<in> set rx \<longleftrightarrow> sn_state s = SessionDraining"
    by (auto simp: session_inv_def count_eq_zero_iff split: if_splits) (metis count_greater_zero_iff set_mset_mset zero_less_Suc)
  have "sn_state s \<noteq> Serving" if "Drain \<in> set (sn_outbound s)"
    using inv that by (auto simp: session_inv_def split: if_splits)
  with m d show ?thesis by (cases "sn_state s") (auto simp: on_frame_def is_JobDispatch_def)
qed

theorem session_accepts_registry_frames_witness:
  "\<exists>s'. on_frame ''mail'' (JobDispatch 3 ''c'' 1 [1]) (Session_new 1) = (Inr (), s')"
  using session_accepts_registry_frames [OF session_start, of "JobDispatch 3 ''c'' 1 [1]"] by simp

end
