(* ===== verification/Maq_Worker.thy ===== *)
theory Maq_Worker
  imports Maq_Session Maq_Registry
begin

text \<open>
  The ends of a worker connection: certificates and keys on both sides, the worker listener
  (\<open>start_worker_listener\<close>, \<open>crates/dispatcher/src/lib.rs\<close>), and a worker from connecting to the end of its session
  (\<open>Worker::run_until\<close> and \<open>serve\<close>, \<open>crates/worker-sdk/src/lib.rs\<close>) as a function of what happens during the session. It is shown
  that a worker that ends well has answered every job it read and that \<open>handle_worker\<close> hears every answer, and what a dropped read does.
\<close>

section \<open>Certificates and keys\<close>

text \<open>
  Files, the PEM reader and the TLS library: opening a file, the certificates and the first private key of a text, what the
  root store and the configuration builders accept. Certificates, keys and configurations are abstract.
\<close>

record ('cert, 'key, 'client, 'server) Tls =
  file_open :: "string \<Rightarrow> IoErrorKind \<times> string + bytes"
  pem_certs :: "bytes \<Rightarrow> IoErrorKind \<times> string + 'cert list"
  pem_private_key :: "bytes \<Rightarrow> IoErrorKind \<times> string + 'key option"
  root_add :: "'cert \<Rightarrow> string + unit"
  with_client_auth_cert :: "'cert list \<Rightarrow> 'cert list \<Rightarrow> 'key \<Rightarrow> string + 'client"
  client_verifier :: "'cert list \<Rightarrow> string + unit"
  with_single_cert :: "'cert list \<Rightarrow> 'cert list \<Rightarrow> 'key \<Rightarrow> string + 'server"

text \<open>\<open>RootCertStore::add\<close> for every certificate, in order; \<open>fail\<close> turns its error into the caller's.\<close>

fun add_roots :: "('cert \<Rightarrow> string + unit) \<Rightarrow> (string \<Rightarrow> 'e) \<Rightarrow> 'cert list \<Rightarrow> 'e + 'cert list" where
  "add_roots add fail [] = Inr []"
| "add_roots add fail (c # cs) =
     (case add c of
        Inl e \<Rightarrow> Inl (fail e)
      | Inr _ \<Rightarrow> (case add_roots add fail cs of Inl e \<Rightarrow> Inl e | Inr roots \<Rightarrow> Inr (c # roots)))"

text \<open>The worker SDK.\<close>

record WorkerConnection =
  wc_maqistor_addr :: string
  wc_server_name :: string
  wc_ca_cert_path :: string
  wc_client_cert_path :: string
  wc_client_key_path :: string

fun run_io :: "IoErrorKind \<times> string \<Rightarrow> WorkerRunError" where
  "run_io (k, m) = RunIo k m"

definition client_certs :: "('cert, 'key, 'client, 'server) Tls \<Rightarrow> string \<Rightarrow> WorkerRunError + 'cert list" where
  "client_certs T path =
     (case file_open T path of
        Inl e \<Rightarrow> Inl (run_io e)
      | Inr text \<Rightarrow> (case pem_certs T text of Inl e \<Rightarrow> Inl (run_io e) | Inr certs \<Rightarrow> Inr certs))"

definition client_key :: "('cert, 'key, 'client, 'server) Tls \<Rightarrow> string \<Rightarrow> WorkerRunError + 'key" where
  "client_key T path =
     (case file_open T path of
        Inl e \<Rightarrow> Inl (run_io e)
      | Inr text \<Rightarrow>
          (case pem_private_key T text of
             Inl e \<Rightarrow> Inl (run_io e)
           | Inr None \<Rightarrow> Inl (Configuration ''no client key in PEM'')
           | Inr (Some key) \<Rightarrow> Inr key))"

definition client_config :: "('cert, 'key, 'client, 'server) Tls \<Rightarrow> WorkerConnection \<Rightarrow> WorkerRunError + 'client" where
  "client_config T connection =
     (case client_certs T (wc_ca_cert_path connection) of Inl e \<Rightarrow> Inl e | Inr cas \<Rightarrow>
     (case add_roots (root_add T) Configuration cas of Inl e \<Rightarrow> Inl e | Inr roots \<Rightarrow>
     (case client_certs T (wc_client_cert_path connection) of Inl e \<Rightarrow> Inl e | Inr certs \<Rightarrow>
     (case client_key T (wc_client_key_path connection) of Inl e \<Rightarrow> Inl e | Inr key \<Rightarrow>
     (case with_client_auth_cert T roots certs key of Inl e \<Rightarrow> Inl (Tls e) | Inr config \<Rightarrow> Inr config)))))"

text \<open>The dispatcher; an error with a context shows the context.\<close>

record TlsFiles =
  tf_ca_cert_path :: string
  tf_cert_path :: string
  tf_key_path :: string

definition server_certs :: "('cert, 'key, 'client, 'server) Tls \<Rightarrow> string \<Rightarrow> string + 'cert list" where
  "server_certs T path =
     (case file_open T path of
        Inl _ \<Rightarrow> Inl (''open certificate '' @ path)
      | Inr text \<Rightarrow> (case pem_certs T text of Inl _ \<Rightarrow> Inl ''read PEM certificates'' | Inr certs \<Rightarrow> Inr certs))"

definition server_key :: "('cert, 'key, 'client, 'server) Tls \<Rightarrow> string \<Rightarrow> string + 'key" where
  "server_key T path =
     (case file_open T path of
        Inl _ \<Rightarrow> Inl (''open key '' @ path)
      | Inr text \<Rightarrow>
          (case pem_private_key T text of
             Inl (_, m) \<Rightarrow> Inl m
           | Inr None \<Rightarrow> Inl ''no private key in PEM''
           | Inr (Some key) \<Rightarrow> Inr key))"

definition server_config :: "('cert, 'key, 'client, 'server) Tls \<Rightarrow> TlsFiles \<Rightarrow> string + 'server" where
  "server_config T files =
     (case server_certs T (tf_cert_path files) of Inl e \<Rightarrow> Inl e | Inr certs \<Rightarrow>
     (case server_key T (tf_key_path files) of Inl e \<Rightarrow> Inl e | Inr key \<Rightarrow>
     (case server_certs T (tf_ca_cert_path files) of Inl e \<Rightarrow> Inl e | Inr cas \<Rightarrow>
     (case add_roots (root_add T) (\<lambda>e. e) cas of Inl e \<Rightarrow> Inl e | Inr roots \<Rightarrow>
     (case client_verifier T roots of Inl e \<Rightarrow> Inl e | Inr _ \<Rightarrow> with_single_cert T roots certs key)))))"

section \<open>The worker listener\<close>

text \<open>
  \<open>start_worker_listener\<close>: binding, the configuration, and an empty registry (the \<open>default\<close> one, given as an argument). The loop then
  accepts connections; \<open>accepts\<close> are the results of \<open>accept\<close>, and \<open>handshake\<close> that of the TLS handshake in the task of a connection.
  The streams that reach \<open>handle_worker\<close> are returned, in the order of acceptance.
\<close>

definition start_worker_listener ::
  "('addr \<Rightarrow> string + unit) \<Rightarrow> ('cert, 'key, 'client, 'server) Tls \<Rightarrow> WorkerRegistry \<Rightarrow> 'addr \<Rightarrow> TlsFiles
     \<Rightarrow> string + 'server \<times> WorkerRegistry" where
  "start_worker_listener bind T registry addr files =
     (case bind addr of
        Inl _ \<Rightarrow> Inl ''bind worker listener''
      | Inr _ \<Rightarrow> (case server_config T files of Inl e \<Rightarrow> Inl e | Inr config \<Rightarrow> Inr (config, registry)))"

fun accept_loop :: "('conn \<Rightarrow> string + 'stream) \<Rightarrow> (string + 'conn) list \<Rightarrow> 'stream list" where
  "accept_loop handshake [] = []"
| "accept_loop handshake (Inl e # accepts) = accept_loop handshake accepts"
| "accept_loop handshake (Inr conn # accepts) =
     (case handshake conn of
        Inl e \<Rightarrow> accept_loop handshake accepts
      | Inr stream \<Rightarrow> stream # accept_loop handshake accepts)"

section \<open>The session of a worker\<close>

text \<open>
  What happens in a session, in order: the arms of the \<open>select!\<close> loop (a shutdown request, the end of the writer, a finished task,
  a frame), the stretches of the tasks, heartbeats, and the failure of the writer. \<open>written\<close> says whether a message was written.
  The read of a turn is dropped when another arm finishes first; \<open>SvCancelled n\<close> is such a read that had taken \<open>n\<close> bytes, which is
  possible while the frame is not complete.
\<close>

datatype ServeEvent =
    SvShutdown bool
  | SvWriterGone
  | SvJoin nat
  | SvRead
  | SvCancelled nat
  | SvStart nat
  | SvAcquire nat
  | SvHandled nat "string + bytes"
  | SvPanicked nat
  | SvReport bool nat
  | SvHeartbeat
  | SvWriterDied

text \<open>The session, the stream it reads and the messages it has read.\<close>

type_synonym ServeState = "Session \<times> Reader \<times> WorkerMessage list"

definition task_phase :: "Session \<Rightarrow> nat \<Rightarrow> Phase option" where
  "task_phase s k = (if k < length (sn_jobs s) then Some (tk_phase (sn_jobs s ! k)) else None)"

definition partial_frame :: "nat \<Rightarrow> bytes \<Rightarrow> bool" where
  "partial_frame n bs \<longleftrightarrow> n \<le> length bs \<and> (n < 4 \<or> (from_be_bytes (take 4 bs) \<le> MAX_FRAME_BYTES \<and> n < 4 + from_be_bytes (take 4 bs)))"

definition read_turn ::
  "Cbor \<Rightarrow> string \<Rightarrow> ServeState \<Rightarrow> (WorkerRunError + unit) \<times> ServeState" where
  "read_turn C queue_name st =
     (case st of (s, rd, rx) \<Rightarrow>
      (case read_async_frame C rd of
         (Inl e, rd') \<Rightarrow> (Inl (Protocol e), (s, rd', rx))
       | (Inr frame, rd') \<Rightarrow>
           (let (r, s') = on_frame queue_name (payload frame) s in (r, (s', rd', rx @ [payload frame])))))"

text \<open>One event; an event that cannot happen now changes nothing.\<close>

fun serve_event ::
  "Cbor \<Rightarrow> (bytes \<Rightarrow> string + 'p) \<Rightarrow> string \<Rightarrow> u32 \<Rightarrow> ServeEvent \<Rightarrow> ServeState \<Rightarrow> (WorkerRunError + unit) \<times> ServeState" where
  "serve_event C parse q concurrency (SvShutdown written) (s, rd, rx) =
     (if sn_state s = Serving then let (r, s') = on_shutdown written s in (r, (s', rd, rx)) else (Inr (), (s, rd, rx)))"
| "serve_event C parse q concurrency SvWriterGone (s, rd, rx) =
     (if sn_writer_alive s then Inr () else Inl Stopped, (s, rd, rx))"
| "serve_event C parse q concurrency (SvJoin k) (s, rd, rx) =
     (if k < length (sn_jobs s) then let (r, s') = on_joined k s in (r, (s', rd, rx)) else (Inr (), (s, rd, rx)))"
| "serve_event C parse q concurrency SvRead (s, rd, rx) = read_turn C q (s, rd, rx)"
| "serve_event C parse q concurrency (SvCancelled n) (s, rd, rx) =
     (Inr (), (s, if partial_frame n (rd_bytes rd) then rd\<lparr>rd_bytes := drop n (rd_bytes rd)\<rparr> else rd, rx))"
| "serve_event C parse q concurrency (SvStart k) (s, rd, rx) =
     (Inr (), (if k < length (sn_jobs s) then job_start parse k s else s, rd, rx))"
| "serve_event C parse q concurrency (SvAcquire k) (s, rd, rx) =
     (Inr (), (if task_phase s k = Some AwaitSlot \<and> 0 < sn_slots s then job_acquire k s else s, rd, rx))"
| "serve_event C parse q concurrency (SvHandled k result) (s, rd, rx) =
     (Inr (), (if task_phase s k = Some InHandler then job_handled k result s else s, rd, rx))"
| "serve_event C parse q concurrency (SvPanicked k) (s, rd, rx) =
     (Inr (), (if task_phase s k = Some InHandler then job_panicked k s else s, rd, rx))"
| "serve_event C parse q concurrency (SvReport written k) (s, rd, rx) =
     (Inr (), (case task_phase s k of Some (Reporting result) \<Rightarrow> job_report concurrency written k result s | _ \<Rightarrow> s, rd, rx))"
| "serve_event C parse q concurrency SvHeartbeat (s, rd, rx) = (Inr (), (snd (send_unacknowledged Heartbeat s), rd, rx))"
| "serve_event C parse q concurrency SvWriterDied (s, rd, rx) = (Inr (), (s\<lparr>sn_writer_alive := False\<rparr>, rd, rx))"

text \<open>\<open>serve\<close> under a sequence of events; \<open>None\<close> is a session that is still going on after them.\<close>

fun serve ::
  "Cbor \<Rightarrow> (bytes \<Rightarrow> string + 'p) \<Rightarrow> string \<Rightarrow> u32 \<Rightarrow> ServeEvent list \<Rightarrow> ServeState
     \<Rightarrow> (WorkerRunError + unit) option \<times> ServeState" where
  "serve C parse q concurrency [] st = (if serve_returns (fst st) then Some (Inr ()) else None, st)"
| "serve C parse q concurrency (e # es) st =
     (if serve_returns (fst st) then (Some (Inr ()), st)
      else case serve_event C parse q concurrency e st of
        (Inl err, st') \<Rightarrow> (Some (Inl err), st')
      | (Inr _, st') \<Rightarrow> serve C parse q concurrency es st')"

section \<open>Running a worker\<close>

text \<open>Connecting: TCP, the check of the server name, and the TLS handshake, which gives the two halves of the stream.\<close>

record 'client Net =
  net_connect :: "string \<Rightarrow> IoErrorKind \<times> string + unit"
  valid_server_name :: "string \<Rightarrow> bool"
  net_handshake :: "string \<Rightarrow> 'client \<Rightarrow> IoErrorKind \<times> string + Reader \<times> Writer"

record Worker =
  wk_connection :: WorkerConnection
  wk_concurrency :: u32
  wk_queue_name :: string

definition worker_connect ::
  "('cert, 'key, 'client, 'server) Tls \<Rightarrow> 'client Net \<Rightarrow> WorkerConnection \<Rightarrow> WorkerRunError + Reader \<times> Writer" where
  "worker_connect T N connection =
     (case net_connect N (wc_maqistor_addr connection) of Inl e \<Rightarrow> Inl (run_io e) | Inr _ \<Rightarrow>
      if \<not> valid_server_name N (wc_server_name connection) then Inl (Configuration ''invalid TLS server name'')
      else
     (case client_config T connection of Inl e \<Rightarrow> Inl e | Inr config \<Rightarrow>
     (case net_handshake N (wc_server_name connection) config of Inl e \<Rightarrow> Inl (run_io e) | Inr stream \<Rightarrow> Inr stream)))"

text \<open>
  \<open>run_until\<close>: the registration, the session, and after a session that ended well the writer, which still writes what was
  sent to it (\<open>late\<close> heartbeats among it) before it returns. A successful run is given with the stream it wrote; after a failed session
  the writer is aborted.
\<close>

definition run_until ::
  "('cert, 'key, 'client, 'server) Tls \<Rightarrow> 'client Net \<Rightarrow> Cbor \<Rightarrow> (bytes \<Rightarrow> string + 'p) \<Rightarrow> Uuid \<Rightarrow> ServeEvent list \<Rightarrow> nat
     \<Rightarrow> Worker \<Rightarrow> (WorkerRunError + Writer) option" where
  "run_until T N C parse instance_id events late worker =
     (case worker_connect T N (wk_connection worker) of
        Inl e \<Rightarrow> Some (Inl e)
      | Inr (reader, writer) \<Rightarrow>
          (case write_message C (register_message instance_id (wk_queue_name worker) (wk_concurrency worker)) writer of
             (Inl e, _) \<Rightarrow> Some (Inl e)
           | (Inr _, writer1) \<Rightarrow>
               (case serve C parse (wk_queue_name worker) (wk_concurrency worker) events
                       (Session_new (wk_concurrency worker), reader, []) of
                  (None, _) \<Rightarrow> None
                | (Some (Inl e), _) \<Rightarrow> Some (Inl e)
                | (Some (Inr _), (s, _, _)) \<Rightarrow>
                    (case writer_loop C (sn_outbound s @ replicate late Heartbeat) writer1 of
                       (Inl e, _) \<Rightarrow> Some (Inl e)
                     | (Inr _, _, writer2) \<Rightarrow> Some (Inr writer2)))))"

section \<open>What a session keeps\<close>

lemma task_phase_SomeD: "task_phase s k = Some ph \<Longrightarrow> k < length (sn_jobs s) \<and> tk_phase (sn_jobs s ! k) = ph"
  by (auto simp: task_phase_def split: if_splits)

text \<open>An event after which \<open>serve\<close> goes on is a step of the session, or changes nothing of it.\<close>

lemma serve_event_step:
  assumes nr: "\<not> serve_returns s" and e: "serve_event C parse q c e (s, rd, rx) = (Inr (), (s', rd', rx'))"
  shows "s' = s \<and> rx' = rx \<or> session_step parse q c (s, rx) (s', rx')"
proof (cases e)
  case (SvShutdown written)
  show ?thesis
  proof (cases "sn_state s = Serving")
    case True
    then have "on_shutdown written s = (Inr (), s')" "rx' = rx" using e SvShutdown by (auto split: prod.splits)
    then have "on_shutdown True s = (Inr (), s')" by (auto simp: on_shutdown_def send_and_wait_def split: if_splits)
    with ss_shutdown [OF True] \<open>rx' = rx\<close> show ?thesis by blast
  qed (use e SvShutdown in simp)
next
  case (SvJoin k)
  show ?thesis
  proof (cases "k < length (sn_jobs s) \<and> tk_phase (sn_jobs s ! k) = Finished (Inr ())")
    case True
    then have "on_joined k s = (Inr (), s')" "rx' = rx" using e SvJoin by (auto split: prod.splits)
    with ss_joined True show ?thesis by blast
  qed (use e SvJoin in \<open>auto simp: on_joined_def split: if_splits Phase.splits sum.splits\<close>)
next
  case SvRead
  then obtain m rd1 where "read_async_frame C rd = (Inr m, rd1)" "on_frame q (payload m) s = (Inr (), s')" "rx' = rx @ [payload m]"
    using e by (auto simp: read_turn_def split: prod.splits sum.splits)
  then show ?thesis using ss_frame [OF nr] by blast
next
  case (SvReport written k)
  then show ?thesis
    using e ss_report [of k s _ parse q c rx written] task_phase_SomeD [of s k] by (auto split: option.splits Phase.splits)
next
  case SvHeartbeat
  then show ?thesis using e ss_heartbeat [of parse q c s rx] by auto
next
  case SvWriterDied
  then show ?thesis using e ss_writer_died [of parse q c s rx] by auto
qed (use e task_phase_SomeD in \<open>auto split: if_splits intro: ss_start ss_acquire ss_handled ss_panicked\<close>)

lemma serve_event_inv:
  assumes "session_inv c s rx" and "\<not> serve_returns s" and "serve_event C parse q c e (s, rd, rx) = (Inr (), (s', rd', rx'))"
  shows "session_inv c s' rx'"
  using serve_event_step [OF assms(2,3)] session_step_inv [of parse q c "(s, rx)" "(s', rx')"] assms(1) by auto

lemma session_new_inv: "session_inv c (Session_new c) []"
  using session_reach_inv [OF session_start] by simp

lemma returned_session_answered: "session_inv c s rx \<Longrightarrow> serve_returns s \<Longrightarrow> results (sn_outbound s) = dispatches rx"
  by (intro subset_mset.antisym) (simp_all add: session_inv_def serve_returns_def unreported_def failed_reports_def)

text \<open>A session that returns has answered every job it read.\<close>

lemma serve_returned_answered:
  assumes "serve C parse q c events (s, rd, rx) = (Some (Inr ()), (s', rd', rx'))" and "session_inv c s rx"
  shows "results (sn_outbound s') = dispatches rx'"
  using assms
proof (induction events arbitrary: s rd rx)
  case Nil
  then have "serve_returns s'" "session_inv c s' rx'" by (auto split: if_splits)
  then show ?case by (rule returned_session_answered [rotated])
next
  case (Cons e events)
  show ?case
  proof (cases "serve_returns s")
    case True
    with Cons.prems have "serve_returns s'" "session_inv c s' rx'" by auto
    then show ?thesis by (rule returned_session_answered [rotated])
  next
    case False
    obtain r s1 rd1 rx1 where e: "serve_event C parse q c e (s, rd, rx) = (r, (s1, rd1, rx1))" by (metis prod.exhaust)
    with Cons.prems(1) False have r: "r = Inr ()" and rest: "serve C parse q c events (s1, rd1, rx1) = (Some (Inr ()), (s', rd', rx'))"
      by (auto split: sum.splits)
    from Cons.IH [OF rest serve_event_inv [OF Cons.prems(2) False e [unfolded r]]] show ?thesis .
  qed
qed

text \<open>
  The stream of a session: of the frames that were written to it, those read so far are gone, the others are still there. This
  holds as long as no read is dropped half-way.
\<close>

definition reads_frames :: "WireFrame list \<Rightarrow> bytes list \<Rightarrow> Reader \<Rightarrow> WorkerMessage list \<Rightarrow> bool" where
  "reads_frames fs bss rd rx \<longleftrightarrow> (\<exists>n \<le> length fs. rx = map payload (take n fs) \<and> rd_bytes rd = concat (drop n bss))"

fun cancels :: "ServeEvent \<Rightarrow> bool" where
  "cancels (SvCancelled _) = True"
| "cancels _ = False"

lemma read_turn_frames:
  assumes C: "cbor_roundtrips C" and enc: "list_all2 (\<lambda>f bs. encode_frame C f = Inr bs) fs bss"
    and rf: "reads_frames fs bss rd rx" and e: "read_turn C q (s, rd, rx) = (Inr (), (s', rd', rx'))"
  shows "reads_frames fs bss rd' rx'"
proof -
  from rf obtain n where n: "n \<le> length fs" "rx = map payload (take n fs)" "rd_bytes rd = concat (drop n bss)"
    by (auto simp: reads_frames_def)
  have len: "length bss = length fs" using enc by (simp add: list_all2_lengthD)
  show ?thesis
  proof (cases "n = length fs")
    case True
    then have "rd_bytes rd = []" using n(3) len by simp
    then show ?thesis using e by (auto simp: read_turn_def read_async_frame_def read_exact_def split: prod.splits)
  next
    case False
    then have lt: "n < length fs" using n(1) by simp
    have b: "encode_frame C (fs ! n) = Inr (bss ! n)" using enc lt by (simp add: list_all2_conv_all_nth)
    have d: "drop n bss = bss ! n # drop (Suc n) bss" using lt len by (simp add: Cons_nth_drop_Suc)
    have rd: "rd = \<lparr>rd_bytes = bss ! n @ concat (drop (Suc n) bss), rd_fault = rd_fault rd\<rparr>" using n(3) d by simp
    have "read_async_frame C rd = (Inr (fs ! n), \<lparr>rd_bytes = concat (drop (Suc n) bss), rd_fault = rd_fault rd\<rparr>)"
      using read_encoded(2) [OF C b, of "concat (drop (Suc n) bss)" "rd_fault rd"] rd by simp
    with e have "rx' = rx @ [payload (fs ! n)]" "rd_bytes rd' = concat (drop (Suc n) bss)"
      by (auto simp: read_turn_def split: prod.splits)
    then show ?thesis using n(2) lt by (auto simp: reads_frames_def take_Suc_conv_app_nth intro!: exI [of _ "Suc n"])
  qed
qed

lemma serve_event_frames:
  assumes "cbor_roundtrips C" and "list_all2 (\<lambda>f bs. encode_frame C f = Inr bs) fs bss" and "reads_frames fs bss rd rx"
    and e: "serve_event C parse q c e (s, rd, rx) = (Inr (), (s', rd', rx'))" and "\<not> cancels e"
  shows "reads_frames fs bss rd' rx'"
proof (cases "e = SvRead")
  case True
  then show ?thesis using read_turn_frames [OF assms(1-3)] e by simp
next
  case False
  then have "rd' = rd" "rx' = rx" using e assms(5) by (cases e; auto split: prod.splits if_splits)+
  with assms(3) show ?thesis by simp
qed

lemma serve_frames:
  assumes C: "cbor_roundtrips C" and enc: "list_all2 (\<lambda>f bs. encode_frame C f = Inr bs) fs bss"
    and "reads_frames fs bss rd rx" and "list_all (\<lambda>e. \<not> cancels e) events"
    and "serve C parse q c events (s, rd, rx) = (Some (Inr ()), (s', rd', rx'))"
  shows "reads_frames fs bss rd' rx'"
  using assms(3-)
proof (induction events arbitrary: s rd rx)
  case (Cons e events)
  show ?case
  proof (cases "serve_returns s")
    case False
    obtain r s1 rd1 rx1 where e: "serve_event C parse q c e (s, rd, rx) = (r, (s1, rd1, rx1))" by (metis prod.exhaust)
    with Cons.prems(3) False have r: "r = Inr ()" and rest: "serve C parse q c events (s1, rd1, rx1) = (Some (Inr ()), (s', rd', rx'))"
      by (auto split: sum.splits)
    from serve_event_frames [OF C enc Cons.prems(1) e [unfolded r]] Cons.prems(2) Cons.IH rest show ?thesis by simp
  qed (use Cons.prems in simp)
qed (auto split: if_splits)

section \<open>What the writer leaves on the stream\<close>

lemma write_message_ok:
  assumes "write_message C m w = (Inr (), w')"
  shows "\<exists>bs. encode_frame C (v1 m) = Inr bs \<and> wt_bytes w' = wt_bytes w @ bs"
  using assms by (auto simp: write_message_def write_all_def split: sum.splits prod.splits option.splits if_splits)

lemma writer_loop_ok:
  assumes "writer_loop C ms w = (Inr (), n, w')"
  shows "\<exists>bss. list_all2 (\<lambda>f bs. encode_frame C f = Inr bs) (map v1 ms) bss \<and> wt_bytes w' = wt_bytes w @ concat bss"
  using assms
proof (induction ms arbitrary: w n)
  case (Cons m ms)
  from Cons.prems obtain w1 n1 where w1: "write_message C m w = (Inr (), w1)" "writer_loop C ms w1 = (Inr (), n1, w')"
    by (auto split: prod.splits sum.splits)
  from write_message_ok [OF w1(1)] Cons.IH [OF w1(2)] obtain bs bss where
    "encode_frame C (v1 m) = Inr bs" "wt_bytes w1 = wt_bytes w @ bs"
    "list_all2 (\<lambda>f bs. encode_frame C f = Inr bs) (map v1 ms) bss" "wt_bytes w' = wt_bytes w1 @ concat bss" by blast
  then show ?case by (intro exI [of _ "bs # bss"]) simp
qed simp

section \<open>The other end of the connection\<close>

text \<open>
  \<open>handle_worker\<close> on a stream when nothing else touches the registry: the first frame registers the worker, the \<open>Registered\<close> frame is
  sent and acknowledged with \<open>ack\<close>, and the loop handles the frames until the first error. Every frame takes at least four bytes,
  so the length of the stream bounds the number of reads.
\<close>

fun read_all :: "Cbor \<Rightarrow> nat \<Rightarrow> Reader \<Rightarrow> (string + WireFrame) list" where
  "read_all C 0 rd = []"
| "read_all C (Suc n) rd =
     (case dispatcher_read_frame C rd of
        (Inl e, _) \<Rightarrow> [Inl e]
      | (Inr frame, rd') \<Rightarrow> Inr frame # read_all C n rd')"

definition handle_worker ::
  "Cbor \<Rightarrow> string set \<Rightarrow> nat \<Rightarrow> (string + unit) \<Rightarrow> Ack \<Rightarrow> Reader \<Rightarrow> WorkerRegistry \<Rightarrow> string option \<times> WorkerRegistry" where
  "handle_worker C allowed now io ack rd reg =
     (let (first, rd1) = dispatcher_read_frame C rd; (r, _, reg1) = handle_register allowed now io first reg in
      case r of
        Inl e \<Rightarrow> (Some e, reg1)
      | Inr (i, queue_name) \<Rightarrow>
          (let (r2, reg2) = register_send i queue_name 0 reg1 in
           case r2 of
             Inl e \<Rightarrow> (Some e, reg2)
           | Inr _ \<Rightarrow>
               (let (r3, reg3) = register_acked ack queue_name reg2 in
                case r3 of
                  Inl e \<Rightarrow> (Some e, reg3)
                | Inr _ \<Rightarrow> worker_loop i (map (\<lambda>x. (now, 0, x)) (read_all C (Suc (length (rd_bytes rd1))) rd1)) reg3)))"

text \<open>The messages a session sends, and the event that each of them becomes.\<close>

fun worker_message :: "WorkerMessage \<Rightarrow> bool" where
  "worker_message (JobResultMsg _ _ _ _ _) = True"
| "worker_message Drain = True"
| "worker_message Heartbeat = True"
| "worker_message _ = False"

definition events_of :: "string \<Rightarrow> WorkerMessage list \<Rightarrow> WorkerEvent list" where
  "events_of q ms = List.map_filter (\<lambda>m. case m of
     JobResultMsg j d result _ _ \<Rightarrow> Some (EvResult q \<lparr>wr_job_id = j, wr_dispatch_id = d, wr_outcome = outcome_of result\<rparr>) | _ \<Rightarrow> None) ms"

definition answered :: "WorkerEvent list \<Rightarrow> (i64 \<times> string) multiset" where
  "answered evs = mset (List.map_filter (\<lambda>e. case e of EvResult q r \<Rightarrow> Some (wr_job_id r, wr_dispatch_id r) | _ \<Rightarrow> None) evs)"

lemma answered_events: "answered (events_of q ms) = results ms"
proof (induction ms)
  case (Cons m ms)
  then show ?case by (cases m) (simp_all add: answered_def events_of_def results_def map_filter_simps)
qed (simp add: answered_def events_of_def results_def map_filter_simps)

lemma serve_event_messages:
  assumes "list_all worker_message (sn_outbound s)" and "serve_event C parse q c e (s, rd, rx) = (r, (s', rd', rx'))"
  shows "list_all worker_message (sn_outbound s')"
proof (cases e)
  case SvRead
  then have "sn_outbound s' = sn_outbound s"
    using assms(2) by (auto simp: read_turn_def on_frame_def Let_def split: prod.splits sum.splits WorkerMessage.splits if_splits)
  then show ?thesis using assms(1) by simp
qed (use assms in \<open>auto simp: on_shutdown_def on_joined_def job_start_def job_acquire_def job_handled_def job_panicked_def job_report_def
      send_and_wait_def send_unacknowledged_def report_message_def Let_def
      split: prod.splits if_splits option.splits Phase.splits sum.splits\<close>)

lemma serve_messages:
  assumes "list_all worker_message (sn_outbound s)" and "serve C parse q c events (s, rd, rx) = (r, (s', rd', rx'))"
  shows "list_all worker_message (sn_outbound s')"
  using assms
proof (induction events arbitrary: s rd rx)
  case (Cons e events)
  obtain r1 s1 rd1 rx1 where e: "serve_event C parse q c e (s, rd, rx) = (r1, (s1, rd1, rx1))" by (metis prod.exhaust)
  from serve_event_messages [OF Cons.prems(1) e] Cons.IH [of s1 rd1 rx1] Cons.prems e show ?case
    by (cases r1) (auto split: if_splits)
qed (auto split: if_splits)

lemma payload_v1 [simp]: "payload (v1 m) = m"
  by (simp add: v1_def)

lemma handle_frame_message:
  assumes m: "worker_message m" and i: "map_of (rg_workers reg) i = Some st" "ob_open (ws_outbound st)"
  shows "\<exists>reg' st'. handle_frame now ack i (v1 m) reg = (Inr (), reg') \<and> map_of (rg_workers reg') i = Some st' \<and>
    ob_open (ws_outbound st') \<and> ws_queue_name st' = ws_queue_name st \<and> rg_events reg' = rg_events reg @ events_of (ws_queue_name st) [m]"
  using assms by (cases m) (simp_all add: handle_frame_def events_of_def map_filter_simps record_worker_result_def begin_drain_def ob_send_def Let_def)

lemma worker_loop_messages:
  assumes "list_all worker_message ms" and "map_of (rg_workers reg) i = Some st" and "ob_open (ws_outbound st)"
  shows "\<exists>reg'. worker_loop i (map (\<lambda>x. (now, ack, x)) (map (\<lambda>m. Inr (v1 m)) ms @ [Inl e])) reg = (Some e, reg') \<and>
    map_of (rg_workers reg') i = None \<and> rg_events reg' = rg_events reg @ events_of (ws_queue_name st) ms"
  using assms
proof (induction ms arbitrary: reg st)
  case (Cons m ms)
  from handle_frame_message [of m reg i st now ack] Cons.prems obtain reg1 st1 where
    h: "handle_frame now ack i (v1 m) reg = (Inr (), reg1)" "map_of (rg_workers reg1) i = Some st1" "ob_open (ws_outbound st1)"
      "ws_queue_name st1 = ws_queue_name st" "rg_events reg1 = rg_events reg @ events_of (ws_queue_name st) [m]" by auto
  from Cons.IH [OF _ h(2,3)] Cons.prems(1) obtain reg' where
    "worker_loop i (map (\<lambda>x. (now, ack, x)) (map (\<lambda>m. Inr (v1 m)) ms @ [Inl e])) reg1 = (Some e, reg')"
    "map_of (rg_workers reg') i = None" "rg_events reg' = rg_events reg1 @ events_of (ws_queue_name st1) ms" by auto
  moreover have "events_of q (m # ms) = events_of q [m] @ events_of q ms" for q
    by (cases m) (simp_all add: events_of_def map_filter_simps)
  ultimately show ?case using h by simp
qed (simp add: handle_disconnect_def events_of_def map_filter_simps)

lemma read_all_encoded:
  assumes C: "cbor_roundtrips C" and "list_all2 (\<lambda>f bs. encode_frame C f = Inr bs) fs bss" and "length fs < n"
  shows "read_all C n \<lparr>rd_bytes = concat bss, rd_fault = None\<rparr> = map Inr fs @ [Inl ''failed to fill whole buffer'']"
  using assms(2,3)
proof (induction fs bss arbitrary: n rule: list_all2_induct)
  case Nil
  then obtain k where "n = Suc k" by (cases n) auto
  then show ?case by (simp add: dispatcher_read_frame_def read_exact_def)
next
  case (Cons f fs bs bss)
  then obtain k where "n = Suc k" "length fs < k" by (cases n) auto
  with Cons.IH read_encoded(1) [OF C Cons.hyps(1)] show ?case by simp
qed

lemma length_encoded: "list_all2 (\<lambda>f bs. encode_frame C f = Inr bs) fs bss \<Longrightarrow> length fs \<le> length (concat bss)"
  by (induction fs bss rule: list_all2_induct) (auto simp: encode_frame_Inr)

lemma register_send_open:
  assumes "map_of (rg_workers reg) i = Some st" and "ob_open (ws_outbound st)"
  shows "\<exists>reg' st'. register_send i q ack reg = (Inr (), reg') \<and> map_of (rg_workers reg') i = Some st' \<and>
    ws_queue_name st' = ws_queue_name st \<and> ob_open (ws_outbound st') \<and> rg_events reg' = rg_events reg"
  using assms by (simp add: register_send_def ob_send_def Let_def)

lemma handle_worker_messages:
  assumes C: "cbor_roundtrips C" and b: "encode_frame C (v1 (register_message i q c)) = Inr b"
    and enc: "list_all2 (\<lambda>f bs. encode_frame C f = Inr bs) (map v1 ms) bss" and ms: "list_all worker_message ms"
    and q: "q \<in> allowed" "q \<noteq> []" and fresh: "map_of (rg_workers reg) i = None"
  shows "\<exists>reg'. handle_worker C allowed now io AckOk \<lparr>rd_bytes = b @ concat bss, rd_fault = None\<rparr> reg =
       (Some ''failed to fill whole buffer'', reg') \<and>
     rg_events reg' = rg_events reg @ EvRegistered q # events_of q ms \<and> map_of (rg_workers reg') i = None"
proof -
  let ?rd = "\<lparr>rd_bytes = concat bss, rd_fault = None\<rparr>"
  have first: "dispatcher_read_frame C \<lparr>rd_bytes = b @ concat bss, rd_fault = None\<rparr> = (Inr (v1 (register_message i q c)), ?rd)"
    by (rule read_encoded(1) [OF C b])
  have all: "read_all C (Suc (length (concat bss))) ?rd = map (\<lambda>m. Inr (v1 m)) ms @ [Inl ''failed to fill whole buffer'']"
    using read_all_encoded [OF C enc, of "Suc (length (concat bss))"] length_encoded [OF enc] by (simp add: comp_def)
  define st where "st = \<lparr>ws_queue_name = q, ws_capacity_slots = u32_saturating_add 0 c, ws_running_jobs = 0, ws_free_slots = c,
    ws_last_activity = now, ws_reserved_slots = 0, ws_in_flight = {}, ws_draining = False,
    ws_outbound = \<lparr>ob_open = True, ob_sent = [], ob_taken = 0\<rparr>\<rparr>"
  then have st: "ws_queue_name st = q" "ob_open (ws_outbound st)" by simp_all
  have reg1: "handle_register allowed now io (Inr (v1 (register_message i q c))) reg =
      (Inr (i, q), [], reg\<lparr>rg_workers := rg_workers reg @ [(i, st)]\<rparr>)"
    using q fresh by (simp add: handle_register_def register_message_def Let_def st_def)
  have "map_of (rg_workers (reg\<lparr>rg_workers := rg_workers reg @ [(i, st)]\<rparr>)) i = Some st" using fresh by (simp add: map_add_def)
  from register_send_open [OF this st(2), of q 0] st(1) obtain reg2 st2 where
    reg2: "register_send i q 0 (reg\<lparr>rg_workers := rg_workers reg @ [(i, st)]\<rparr>) = (Inr (), reg2)" "rg_events reg2 = rg_events reg"
    and st2: "map_of (rg_workers reg2) i = Some st2" "ws_queue_name st2 = q" "ob_open (ws_outbound st2)" by auto
  let ?reg3 = "reg2\<lparr>rg_events := rg_events reg2 @ [EvRegistered q]\<rparr>"
  from worker_loop_messages [OF ms, of ?reg3 i st2 now 0 "''failed to fill whole buffer''"] st2 reg2(2) obtain reg' where
    "worker_loop i (map (\<lambda>x. (now, 0, x)) (map (\<lambda>m. Inr (v1 m)) ms @ [Inl ''failed to fill whole buffer''])) ?reg3 =
       (Some ''failed to fill whole buffer'', reg')" "map_of (rg_workers reg') i = None"
    "rg_events reg' = rg_events reg @ EvRegistered q # events_of q ms" by auto
  then show ?thesis using first all reg1 reg2(1) by (simp add: handle_worker_def register_acked_def del: read_all.simps)
qed

section \<open>A worker from start to end\<close>

lemma run_until_ok:
  assumes "run_until T N C parse i events late worker = Some (Inr w)"
  obtains rd w0 s rd' rx n where "worker_connect T N (wk_connection worker) = Inr (rd, w0)"
    "serve C parse (wk_queue_name worker) (wk_concurrency worker) events (Session_new (wk_concurrency worker), rd, []) =
       (Some (Inr ()), (s, rd', rx))"
    "writer_loop C (register_message i (wk_queue_name worker) (wk_concurrency worker) # sn_outbound s @ replicate late Heartbeat) w0 =
       (Inr (), n, w)"
  using assms by (fastforce simp: run_until_def split: sum.splits prod.splits option.splits)

text \<open>
  C12. A worker that ends well has answered every job it was given, and the dispatcher has heard every answer. Let the
  dispatcher's frames arrive on the stream of a connection, and let no read be dropped half-way. Whatever happens during the session,
  if \<open>run_until\<close> returns without an error, then \<open>handle_worker\<close> on the bytes that the worker wrote registers it, raises events for
  results that are, one for one, the jobs among the frames the worker consumed, meets the end of the stream and removes the worker.
\<close>

theorem graceful_worker_answers_every_job:
  assumes C: "cbor_roundtrips C" and enc: "list_all2 (\<lambda>f bs. encode_frame C f = Inr bs) fs bss"
    and conn: "worker_connect T N (wk_connection worker) = Inr (\<lparr>rd_bytes = concat bss, rd_fault = fault\<rparr>, \<lparr>wt_bytes = [], wt_fault = broken\<rparr>)"
    and reads: "list_all (\<lambda>e. \<not> cancels e) events"
    and ok: "run_until T N C parse i events late worker = Some (Inr w)"
    and queue: "wk_queue_name worker \<in> allowed" "wk_queue_name worker \<noteq> []" and fresh: "map_of (rg_workers reg) i = None"
  shows "\<exists>n evs reg'. handle_worker C allowed now io AckOk \<lparr>rd_bytes = wt_bytes w, rd_fault = None\<rparr> reg =
       (Some ''failed to fill whole buffer'', reg') \<and>
     rg_events reg' = rg_events reg @ EvRegistered (wk_queue_name worker) # evs \<and>
     n \<le> length fs \<and> answered evs = dispatches (map payload (take n fs)) \<and> map_of (rg_workers reg') i = None"
proof -
  let ?rd = "\<lparr>rd_bytes = concat bss, rd_fault = fault\<rparr>" and ?q = "wk_queue_name worker" and ?c = "wk_concurrency worker"
  from ok obtain s rd' rx n where
    sv: "serve C parse ?q ?c events (Session_new ?c, ?rd, []) = (Some (Inr ()), (s, rd', rx))"
    and wr: "writer_loop C (register_message i ?q ?c # sn_outbound s @ replicate late Heartbeat) \<lparr>wt_bytes = [], wt_fault = broken\<rparr> = (Inr (), n, w)"
    by (rule run_until_ok) (use conn in auto)
  let ?ms = "sn_outbound s @ replicate late Heartbeat"
  have "list_all worker_message (sn_outbound (Session_new ?c))" by (simp add: Session_new_def)
  from serve_messages [OF this sv] have ms: "list_all worker_message ?ms" by (auto simp: list_all_iff)
  have "reads_frames fs bss ?rd []" by (auto simp: reads_frames_def intro!: exI [of _ 0])
  from serve_frames [OF C enc this reads sv] obtain k where k: "k \<le> length fs" "rx = map payload (take k fs)"
    by (auto simp: reads_frames_def)
  have "results ?ms = results (sn_outbound s)" by (simp add: results_def map_filter_def)
  with serve_returned_answered [OF sv session_new_inv] k have ans: "answered (events_of ?q ?ms) = dispatches (map payload (take k fs))"
    by (simp add: answered_events)
  from writer_loop_ok [OF wr] obtain b sent where sent: "encode_frame C (v1 (register_message i ?q ?c)) = Inr b"
      "list_all2 (\<lambda>f bs. encode_frame C f = Inr bs) (map v1 ?ms) sent" "wt_bytes w = b @ concat sent"
    by (auto simp: list_all2_Cons1)
  from handle_worker_messages [OF C sent(1,2) ms queue fresh, of now io] sent(3) k(1) ans show ?thesis by auto
qed

text \<open>A codec for a table of frames: a frame is written as its position.\<close>

definition table_cbor :: "WireFrame list \<Rightarrow> Cbor" where
  "table_cbor fs =
     \<lparr>to_vec = (\<lambda>f. case List.find (\<lambda>i. fs ! i = f) [0..<length fs] of Some i \<Rightarrow> Inr [of_nat i] | None \<Rightarrow> Inl ''unsupported''),
      from_slice = (\<lambda>b. case b of [x] \<Rightarrow> if unat x < length fs then Inr (fs ! unat x) else Inl ''unsupported'' | _ \<Rightarrow> Inl ''unsupported'')\<rparr>"

lemma table_cbor_roundtrips: "length fs \<le> 256 \<Longrightarrow> cbor_roundtrips (table_cbor fs)"
  by (auto simp: cbor_roundtrips_def table_cbor_def find_Some_iff unat_of_nat split: option.splits)

definition mail_frames :: "WireFrame list" where
  "mail_frames = map v1 [Registered ''mail'', JobDispatch 1 ''a'' 1 [7], Draining, Register 7 ''mail'' 0 1, Heartbeat,
     JobResultMsg 1 ''a'' (ResultSucceeded [8]) 0 1, Drain]"

definition mail_worker :: Worker where
  "mail_worker = \<lparr>wk_connection = \<lparr>wc_maqistor_addr = ''localhost:7000'', wc_server_name = ''localhost'', wc_ca_cert_path = ''ca.pem'',
       wc_client_cert_path = ''worker.pem'', wc_client_key_path = ''worker.key''\<rparr>, wk_concurrency = 1, wk_queue_name = ''mail''\<rparr>"

definition mail_tls :: "(nat, nat, nat, nat) Tls" where
  "mail_tls = \<lparr>file_open = (\<lambda>_. Inr []), pem_certs = (\<lambda>_. Inr [1]), pem_private_key = (\<lambda>_. Inr (Some 2)), root_add = (\<lambda>_. Inr ()),
     with_client_auth_cert = (\<lambda>_ _ _. Inr 3), client_verifier = (\<lambda>_. Inr ()), with_single_cert = (\<lambda>_ _ _. Inr 4)\<rparr>"

definition mail_net :: "nat Net" where
  "mail_net = \<lparr>net_connect = (\<lambda>_. Inr ()), valid_server_name = (\<lambda>_. True),
     net_handshake = (\<lambda>_ _. Inr (\<lparr>rd_bytes = [0, 0, 0, 1, 0, 0, 0, 0, 1, 1, 0, 0, 0, 1, 2], rd_fault = None\<rparr>, \<lparr>wt_bytes = [], wt_fault = None\<rparr>))\<rparr>"

definition mail_events :: "ServeEvent list" where
  "mail_events = [SvRead, SvHeartbeat, SvRead, SvStart 0, SvAcquire 0, SvHandled 0 (Inr [8]), SvReport True 0, SvShutdown True, SvJoin 0, SvRead]"

lemma table_cbor_encodes:
  assumes "distinct fs" and "length fs \<le> 256" and "i < length fs" and "protocol_version (fs ! i) = PROTOCOL_VERSION"
  shows "encode_frame (table_cbor fs) (fs ! i) = Inr [0, 0, 0, 1, of_nat i]"
proof -
  have "List.find (\<lambda>k. fs ! k = fs ! i) [0..<length fs] = Some i"
    using assms(1,3) by (auto simp: find_Some_iff nth_eq_iff_index_eq intro!: exI [of _ i])
  then show ?thesis
    using assms(4) by (simp add: encode_frame_def table_cbor_def MAX_FRAME_BYTES_def to_be_bytes_4)
qed

lemma mail_cbor: "cbor_roundtrips (table_cbor mail_frames)"
  by (rule table_cbor_roundtrips) (simp add: mail_frames_def)

lemma mail_encodes:
  "encode_frame (table_cbor mail_frames) (v1 (Registered ''mail'')) = Inr [0, 0, 0, 1, 0]"
  "encode_frame (table_cbor mail_frames) (v1 (JobDispatch 1 ''a'' 1 [7])) = Inr [0, 0, 0, 1, 1]"
  "encode_frame (table_cbor mail_frames) (v1 Draining) = Inr [0, 0, 0, 1, 2]"
  "encode_frame (table_cbor mail_frames) (v1 (Register 7 ''mail'' 0 1)) = Inr [0, 0, 0, 1, 3]"
  "encode_frame (table_cbor mail_frames) (v1 Heartbeat) = Inr [0, 0, 0, 1, 4]"
  "encode_frame (table_cbor mail_frames) (v1 (JobResultMsg 1 ''a'' (ResultSucceeded [8]) 0 1)) = Inr [0, 0, 0, 1, 5]"
  "encode_frame (table_cbor mail_frames) (v1 Drain) = Inr [0, 0, 0, 1, 6]"
proof -
  have d: "distinct mail_frames" by (simp add: mail_frames_def v1_def)
  have l: "length mail_frames = 7" by (simp add: mail_frames_def)
  have "\<forall>f \<in> set mail_frames. protocol_version f = PROTOCOL_VERSION" by (simp add: mail_frames_def v1_def)
  then have v: "protocol_version (mail_frames ! i) = PROTOCOL_VERSION" if "i < 7" for i using that l by (metis nth_mem)
  have "encode_frame (table_cbor mail_frames) (mail_frames ! i) = Inr [0, 0, 0, 1, of_nat i]" if "i < 7" for i
    using table_cbor_encodes [OF d _ _ v [OF that]] l that by simp
  note this [of 0] this [of 1] this [of 2] this [of 3] this [of 4] this [of 5] this [of 6]
  then show
    "encode_frame (table_cbor mail_frames) (v1 (Registered ''mail'')) = Inr [0, 0, 0, 1, 0]"
    "encode_frame (table_cbor mail_frames) (v1 (JobDispatch 1 ''a'' 1 [7])) = Inr [0, 0, 0, 1, 1]"
    "encode_frame (table_cbor mail_frames) (v1 Draining) = Inr [0, 0, 0, 1, 2]"
    "encode_frame (table_cbor mail_frames) (v1 (Register 7 ''mail'' 0 1)) = Inr [0, 0, 0, 1, 3]"
    "encode_frame (table_cbor mail_frames) (v1 Heartbeat) = Inr [0, 0, 0, 1, 4]"
    "encode_frame (table_cbor mail_frames) (v1 (JobResultMsg 1 ''a'' (ResultSucceeded [8]) 0 1)) = Inr [0, 0, 0, 1, 5]"
    "encode_frame (table_cbor mail_frames) (v1 Drain) = Inr [0, 0, 0, 1, 6]"
    unfolding mail_frames_def by (simp_all add: numeral_eq_Suc)
qed

lemmas mail_reads = mail_encodes [THEN read_encoded(2) [OF mail_cbor], simplified]

lemma mail_encoded:
  "list_all2 (\<lambda>f bs. encode_frame (table_cbor mail_frames) f = Inr bs) (take 3 mail_frames) [[0, 0, 0, 1, 0], [0, 0, 0, 1, 1], [0, 0, 0, 1, 2]]"
  using mail_encodes by (simp add: mail_frames_def)

lemma mail_connected:
  "worker_connect mail_tls mail_net (wk_connection mail_worker) =
     Inr (\<lparr>rd_bytes = concat [[0, 0, 0, 1, 0], [0, 0, 0, 1, 1], [0, 0, 0, 1, 2]], rd_fault = None\<rparr>, \<lparr>wt_bytes = [], wt_fault = None\<rparr>)"
  by (simp add: worker_connect_def client_config_def client_certs_def client_key_def mail_tls_def mail_net_def mail_worker_def)

lemmas session_evaluation = read_turn_def on_frame_def Session_new_def serve_returns_def job_start_def execute_start_def any_payload_def
  task_phase_def job_acquire_def job_handled_def job_panicked_def job_report_def set_phase_def send_and_wait_def send_unacknowledged_def
  on_shutdown_def on_joined_def report_message_def u32_saturating_sub_def payload_v1

lemma mail_run:
  "run_until mail_tls mail_net (table_cbor mail_frames) any_payload 7 mail_events 0 mail_worker =
     Some (Inr \<lparr>wt_bytes = [0, 0, 0, 1, 3, 0, 0, 0, 1, 4, 0, 0, 0, 1, 5, 0, 0, 0, 1, 6], wt_fault = None\<rparr>)"
  unfolding run_until_def mail_connected
  by (simp add: mail_events_def mail_worker_def register_message_def write_message_def mail_encodes write_all_def mail_reads session_evaluation)

theorem graceful_worker_answers_every_job_witness:
  "\<exists>n evs reg'. handle_worker (table_cbor mail_frames) {''mail''} 5 (Inr ()) AckOk
       \<lparr>rd_bytes = [0, 0, 0, 1, 3, 0, 0, 0, 1, 4, 0, 0, 0, 1, 5, 0, 0, 0, 1, 6], rd_fault = None\<rparr> WorkerRegistry_default =
       (Some ''failed to fill whole buffer'', reg') \<and>
     rg_events reg' = EvRegistered ''mail'' # evs \<and> n \<le> 3 \<and> answered evs = dispatches (map payload (take n (take 3 mail_frames)))"
proof -
  have reads: "list_all (\<lambda>e. \<not> cancels e) mail_events" by (simp add: mail_events_def)
  have len: "length (take 3 mail_frames) = 3" by (simp add: mail_frames_def)
  have q: "wk_queue_name mail_worker = ''mail''" by (simp add: mail_worker_def)
  have r: "rg_events WorkerRegistry_default = []" "map_of (rg_workers WorkerRegistry_default) 7 = None"
    by (simp_all add: WorkerRegistry_default_def)
  from graceful_worker_answers_every_job [OF mail_cbor mail_encoded mail_connected reads mail_run _ _ r(2), of "{''mail''}" 5 "Inr ()"]
  show ?thesis unfolding len q r(1) by auto
qed

text \<open>A task that panics ends the session when it is joined.\<close>

lemma panicked_handler_stops_session:
  "fst (serve (table_cbor mail_frames) any_payload ''mail'' 1 [SvRead, SvRead, SvStart 0, SvAcquire 0, SvPanicked 0, SvJoin 0]
     (Session_new 1, \<lparr>rd_bytes = [0, 0, 0, 1, 0, 0, 0, 0, 1, 1], rd_fault = None\<rparr>, [])) = Some (Inl Stopped)"
  using mail_reads(1) [of "[0, 0, 0, 1, 1]" None] mail_reads(2) [of "[]" None] by (simp add: session_evaluation)

section \<open>A read that is dropped half-way\<close>

lemma from_be_bytes_large:
  assumes "4 \<le> length bs" and "bs ! 0 \<noteq> 0"
  shows "MAX_FRAME_BYTES < from_be_bytes (take 4 bs)"
proof -
  obtain a b c d rest where bs: "bs = a # b # c # d # rest"
    using assms(1) by (auto simp: numeral_eq_Suc Suc_le_length_iff)
  then have "1 \<le> unat a" using assms(2) by (simp add: Suc_le_eq unat_gt_0)
  then show ?thesis by (simp add: bs from_be_bytes_def MAX_FRAME_BYTES_def)
qed

text \<open>
  C34. A frame is lost when its read is dropped half-way. The loop reads frames with \<open>read_exact\<close> inside \<open>select!\<close>; when another arm
  finishes first, the bytes taken so far are gone with the future. If the read of a well-formed frame is dropped after some of its
  bytes and a byte of the frame that is not zero comes next, the following read takes this byte for the start of a length: it
  fails, and the session ends with an error, although the stream only carries frames that would have been read one after the other.
\<close>

theorem cancelled_read_ends_session:
  assumes C: "cbor_roundtrips C" and enc: "encode_frame C f = Inr bs"
    and n: "n + 4 \<le> length bs" "bs ! n \<noteq> 0" and on: "\<not> serve_returns s"
  shows "read_async_frame C \<lparr>rd_bytes = bs @ rest, rd_fault = fault\<rparr> = (Inr f, \<lparr>rd_bytes = rest, rd_fault = fault\<rparr>) \<and>
    fst (serve C parse q c (SvCancelled n # SvRead # events) (s, \<lparr>rd_bytes = bs @ rest, rd_fault = fault\<rparr>, rx)) =
      Some (Inl (Protocol FrameTooLarge))"
proof -
  from enc obtain body where body: "length body \<le> MAX_FRAME_BYTES" "bs = to_be_bytes 4 (length body) @ body"
    by (auto simp: encode_frame_Inr)
  then have "from_be_bytes (take 4 (bs @ rest)) = length body" "length bs = 4 + length body"
    by (simp_all add: from_to_be_bytes_small)
  then have p: "partial_frame n (bs @ rest)" using n(1) body(1) by (simp add: partial_frame_def)
  have "MAX_FRAME_BYTES < from_be_bytes (take 4 (drop n (bs @ rest)))"
    using n by (intro from_be_bytes_large) (simp_all add: nth_append)
  then have "read_async_frame C \<lparr>rd_bytes = drop n (bs @ rest), rd_fault = fault\<rparr> =
      (Inl FrameTooLarge, \<lparr>rd_bytes = drop 4 (drop n (bs @ rest)), rd_fault = fault\<rparr>)"
    using n(1) by (auto simp: read_async_frame_def read_exact_def)
  with p on read_encoded(2) [OF C enc] show ?thesis by (simp add: read_turn_def)
qed

definition nines_cbor :: Cbor where
  "nines_cbor =
     \<lparr>to_vec = (\<lambda>f. if f = v1 (JobDispatch 1 ''a'' 1 [7]) then Inr [9, 9, 9, 9] else Inl ''unsupported''),
      from_slice = (\<lambda>b. if b = [9, 9, 9, 9] then Inr (v1 (JobDispatch 1 ''a'' 1 [7])) else Inl ''unsupported'')\<rparr>"

theorem cancelled_read_ends_session_witness:
  "fst (serve nines_cbor any_payload ''mail'' 1 [SvCancelled 4, SvRead]
     (Session_new 1, \<lparr>rd_bytes = [0, 0, 0, 4, 9, 9, 9, 9] @ [], rd_fault = None\<rparr>, [])) = Some (Inl (Protocol FrameTooLarge))"
proof -
  have C: "cbor_roundtrips nines_cbor" by (simp add: cbor_roundtrips_def nines_cbor_def)
  have enc: "encode_frame nines_cbor (v1 (JobDispatch 1 ''a'' 1 [7])) = Inr [0, 0, 0, 4, 9, 9, 9, 9]"
    by (simp add: encode_frame_def nines_cbor_def v1_def MAX_FRAME_BYTES_def to_be_bytes_4)
  show ?thesis
    by (rule cancelled_read_ends_session [OF C enc, THEN conjunct2]) (simp_all add: serve_returns_def Session_new_def)
qed

section \<open>Who may connect\<close>

lemma add_roots_ok: "add_roots add fail cs = Inr roots \<Longrightarrow> roots = cs \<and> list_all (\<lambda>c. add c = Inr ()) cs"
  by (induction cs arbitrary: roots) (auto split: sum.splits)

text \<open>
  A listener that started verifies its clients: its configuration was built with a verifier for exactly the certificates of the
  CA file, after the certificate chain and the key of the server were read.
\<close>

lemma listener_verifies_clients:
  assumes "start_worker_listener bind T registry addr files = Inr (config, registry')"
  shows "registry' = registry \<and> (\<exists>certs key cas. server_certs T (tf_cert_path files) = Inr certs \<and> server_key T (tf_key_path files) = Inr key \<and>
    server_certs T (tf_ca_cert_path files) = Inr cas \<and> client_verifier T cas = Inr () \<and> with_single_cert T cas certs key = Inr config)"
  using assms by (auto simp: start_worker_listener_def server_config_def split: sum.splits dest: add_roots_ok)

text \<open>A failed accept or handshake costs its own connection only.\<close>

lemma accept_loop_append: "accept_loop handshake (xs @ ys) = accept_loop handshake xs @ accept_loop handshake ys"
  by (induction handshake xs rule: accept_loop.induct) (simp_all split: sum.split)

lemma accept_loop_serves: "handshake conn = Inr stream \<Longrightarrow> Inr conn \<in> set accepts \<Longrightarrow> stream \<in> set (accept_loop handshake accepts)"
  by (induction handshake accepts rule: accept_loop.induct) (auto split: sum.split)

text \<open>
  Before anything is written, a worker needs a reachable address, a valid server name and files from which a client
  configuration can be built, in this order.
\<close>

lemma run_until_unconnected:
  assumes "worker_connect T N (wk_connection worker) = Inl e"
  shows "run_until T N C parse i events late worker = Some (Inl e)"
  using assms by (simp add: run_until_def)

lemma worker_connect_ok:
  assumes "worker_connect T N connection = Inr stream"
  shows "valid_server_name N (wc_server_name connection) \<and> (\<exists>cas certs key config. client_certs T (wc_ca_cert_path connection) = Inr cas \<and>
    client_certs T (wc_client_cert_path connection) = Inr certs \<and> client_key T (wc_client_key_path connection) = Inr key \<and>
    with_client_auth_cert T cas certs key = Inr config \<and> net_handshake N (wc_server_name connection) config = Inr stream)"
  using assms by (auto simp: worker_connect_def client_config_def split: sum.splits if_splits dest: add_roots_ok)

text \<open>\<open>Worker::run\<close>: no shutdown is ever requested.\<close>

fun requests_shutdown :: "ServeEvent \<Rightarrow> bool" where
  "requests_shutdown (SvShutdown _) = True"
| "requests_shutdown _ = False"

definition worker_run ::
  "('cert, 'key, 'client, 'server) Tls \<Rightarrow> 'client Net \<Rightarrow> Cbor \<Rightarrow> (bytes \<Rightarrow> string + 'p) \<Rightarrow> Uuid \<Rightarrow> ServeEvent list \<Rightarrow> nat
     \<Rightarrow> Worker \<Rightarrow> (WorkerRunError + Writer) option" where
  "worker_run T N C parse instance_id events late worker =
     run_until T N C parse instance_id (filter (\<lambda>e. \<not> requests_shutdown e) events) late worker"

section \<open>A worker without shutdown\<close>

lemma serving_stays:
  assumes "sn_state s = Serving" and "\<not> requests_shutdown e"
    and "serve_event C parse q c e (s, rd, rx) = (Inr (), (s', rd', rx'))"
  shows "sn_state s' = Serving"
proof (cases e)
  case SvRead
  then obtain m where f: "on_frame q m s = (Inr (), s')"
    using assms(3) by (auto simp: read_turn_def split: prod.splits sum.splits)
  then show ?thesis using assms(1) by (cases m) (auto simp: on_frame_def split: if_splits)
qed (use assms in \<open>auto simp: on_joined_def job_start_def job_acquire_def job_handled_def job_panicked_def job_report_def send_and_wait_def
      send_unacknowledged_def split: prod.splits if_splits option.splits Phase.splits sum.splits\<close>)

lemma serve_without_shutdown:
  assumes "sn_state s = Serving" and "list_all (\<lambda>e. \<not> requests_shutdown e) events"
  shows "fst (serve C parse q c events (s, rd, rx)) \<noteq> Some (Inr ())"
  using assms
proof (induction events arbitrary: s rd rx)
  case (Cons e events)
  obtain r s1 rd1 rx1 where e: "serve_event C parse q c e (s, rd, rx) = (r, (s1, rd1, rx1))" by (metis prod.exhaust)
  have "sn_state s1 = Serving" if "r = Inr ()" using serving_stays [OF Cons.prems(1) _ e [unfolded that]] Cons.prems(2) by simp
  with Cons.IH [of s1 rd1 rx1] Cons.prems e show ?case by (cases r) (auto simp: serve_returns_def)
qed (simp add: serve_returns_def)

text \<open>A worker that is run without a shutdown returns with an error or not at all.\<close>

lemma run_only_fails: "worker_run T N C parse i events late worker \<noteq> Some (Inr w)"
proof
  assume "worker_run T N C parse i events late worker = Some (Inr w)"
  then obtain rd s rd' rx where "serve C parse (wk_queue_name worker) (wk_concurrency worker)
      (filter (\<lambda>e. \<not> requests_shutdown e) events) (Session_new (wk_concurrency worker), rd, []) = (Some (Inr ()), (s, rd', rx))"
    unfolding worker_run_def by (rule run_until_ok)
  then show False
    using serve_without_shutdown [of "Session_new (wk_concurrency worker)" "filter (\<lambda>e. \<not> requests_shutdown e) events" C parse]
    by (metis (no_types, lifting) Ball_set Session_new_def Session.select_convs(1) fst_conv mem_Collect_eq set_filter)
qed

end
