(* ===== verification/Maq_Float.thy ===== *)
theory Maq_Float
  imports Maq_Types "HOL-Library.Log_Nat"
begin

text \<open>
  The double-precision numbers of the Rust standard library as far as the adaptive controllers use
  them: the finite values as rationals, the infinities and NaN; every arithmetic operation is the
  exact one followed by rounding to nearest, ties to even, with 53 bits of precision, gradual
  underflow and overflow to infinity. The sign of zero is not represented: no operation of the
  controllers can tell the two zeros apart. With them come the conversions between doubles,
  \<open>usize\<close> and \<open>Duration\<close>.
\<close>

section \<open>Rounding\<close>

datatype f64 = NaN | Inf bool | Fin rat

definition pow2 :: "int \<Rightarrow> rat" where
  "pow2 e = (if 0 \<le> e then 2 ^ nat e else 1 / 2 ^ nat (- e))"

definition round_half_even :: "rat \<Rightarrow> int" where
  "round_half_even x =
     (let k = \<lfloor>x\<rfloor>; d = x - of_int k in if d < 1 / 2 \<or> d = 1 / 2 \<and> even k then k else k + 1)"

text \<open>The exponent of the leading bit of a positive number.\<close>

definition log2_floor :: "rat \<Rightarrow> int" where
  "log2_floor x =
     (let (p, q) = quotient_of x; e = bitlen p - bitlen q in if pow2 e \<le> x then e else e - 1)"

definition ulp_exp :: "rat \<Rightarrow> int" where
  "ulp_exp x = max (log2_floor \<bar>x\<bar> - 52) (- 1074)"

definition rnd :: "rat \<Rightarrow> f64" where
  "rnd x =
     (if x = 0 then Fin 0
      else let e = ulp_exp x; y = of_int (round_half_even (x / pow2 e)) * pow2 e
           in if pow2 1024 \<le> \<bar>y\<bar> then Inf (y < 0) else Fin y)"

section \<open>Operations\<close>

fun f64_add :: "f64 \<Rightarrow> f64 \<Rightarrow> f64" where
  "f64_add (Fin x) (Fin y) = rnd (x + y)"
| "f64_add (Inf s) (Inf t) = (if s = t then Inf s else NaN)"
| "f64_add (Inf s) (Fin y) = Inf s"
| "f64_add (Fin x) (Inf t) = Inf t"
| "f64_add _ _ = NaN"

fun f64_neg :: "f64 \<Rightarrow> f64" where
  "f64_neg (Fin x) = Fin (- x)"
| "f64_neg (Inf s) = Inf (\<not> s)"
| "f64_neg NaN = NaN"

definition f64_sub :: "f64 \<Rightarrow> f64 \<Rightarrow> f64" where
  "f64_sub x y = f64_add x (f64_neg y)"

fun f64_mul :: "f64 \<Rightarrow> f64 \<Rightarrow> f64" where
  "f64_mul (Fin x) (Fin y) = rnd (x * y)"
| "f64_mul (Inf s) (Inf t) = Inf (s \<noteq> t)"
| "f64_mul (Inf s) (Fin y) = (if y = 0 then NaN else Inf (s \<noteq> (y < 0)))"
| "f64_mul (Fin x) (Inf t) = (if x = 0 then NaN else Inf (t \<noteq> (x < 0)))"
| "f64_mul _ _ = NaN"

fun f64_div :: "f64 \<Rightarrow> f64 \<Rightarrow> f64" where
  "f64_div (Fin x) (Fin y) = (if y = 0 then if x = 0 then NaN else Inf (x < 0) else rnd (x / y))"
| "f64_div (Inf s) (Fin y) = Inf (s \<noteq> (y < 0))"
| "f64_div (Fin x) (Inf t) = Fin 0"
| "f64_div _ _ = NaN"

fun f64_lt :: "f64 \<Rightarrow> f64 \<Rightarrow> bool" where
  "f64_lt (Fin x) (Fin y) = (x < y)"
| "f64_lt (Inf s) (Inf t) = (s \<and> \<not> t)"
| "f64_lt (Inf s) (Fin y) = s"
| "f64_lt (Fin x) (Inf t) = (\<not> t)"
| "f64_lt _ _ = False"

definition f64_le :: "f64 \<Rightarrow> f64 \<Rightarrow> bool" where
  "f64_le x y \<longleftrightarrow> f64_lt x y \<or> x = y \<and> x \<noteq> NaN"

text \<open>\<open>f64::max\<close> ignores a NaN.\<close>

definition f64_max :: "f64 \<Rightarrow> f64 \<Rightarrow> f64" where
  "f64_max x y = (if x = NaN then y else if y = NaN then x else if f64_lt x y then y else x)"

fun is_finite :: "f64 \<Rightarrow> bool" where
  "is_finite (Fin _) = True"
| "is_finite _ = False"

fun on_finite :: "(rat \<Rightarrow> rat) \<Rightarrow> f64 \<Rightarrow> f64" where
  "on_finite f (Fin x) = Fin (f x)"
| "on_finite f x = x"

definition f64_ceil :: "f64 \<Rightarrow> f64" where
  "f64_ceil = on_finite (\<lambda>x. of_int \<lceil>x\<rceil>)"

definition f64_floor :: "f64 \<Rightarrow> f64" where
  "f64_floor = on_finite (\<lambda>x. of_int \<lfloor>x\<rfloor>)"

text \<open>\<open>f64::round\<close> rounds half away from zero.\<close>

definition f64_round :: "f64 \<Rightarrow> f64" where
  "f64_round = on_finite (\<lambda>x. of_int (if 0 \<le> x then \<lfloor>x + 1 / 2\<rfloor> else \<lceil>x - 1 / 2\<rceil>))"

text \<open>The integer square root, and \<open>f64::sqrt\<close>: the correctly rounded root.\<close>

fun isqrt :: "nat \<Rightarrow> nat" where
  "isqrt n = (if n = 0 then 0 else let r = 2 * isqrt (n div 4) in if (r + 1) * (r + 1) \<le> n then r + 1 else r)"

declare isqrt.simps [simp del]

fun f64_sqrt :: "f64 \<Rightarrow> f64" where
  "f64_sqrt (Fin x) =
     (if x < 0 then NaN else if x = 0 then Fin 0
      else
        let e = max (log2_floor x div 2 - 52) (- 1074); s = x / (pow2 e * pow2 e); k = isqrt (nat \<lfloor>s\<rfloor>);
            h = of_nat k + 1 / 2;
            m = (if s < h * h \<or> s = h * h \<and> even k then k else k + 1)
        in Fin (of_nat m * pow2 e))"
| "f64_sqrt (Inf s) = (if s then NaN else Inf False)"
| "f64_sqrt NaN = NaN"

section \<open>Conversions\<close>

definition usize_max :: nat where
  "usize_max = 18446744073709551615"

definition of_usize :: "nat \<Rightarrow> f64" where
  "of_usize n = rnd (of_nat n)"

text \<open>\<open>as usize\<close> truncates and saturates; a NaN becomes zero.\<close>

fun to_usize :: "f64 \<Rightarrow> nat" where
  "to_usize (Fin x) = min (nat \<lfloor>x\<rfloor>) usize_max"
| "to_usize (Inf s) = (if s then 0 else usize_max)"
| "to_usize NaN = 0"

definition as_secs_f64 :: "duration \<Rightarrow> f64" where
  "as_secs_f64 d = f64_add (of_usize (d div 1000000000)) (f64_div (of_usize (d mod 1000000000)) (Fin 1000000000))"

text \<open>\<open>Duration::from_secs_f64\<close> panics (\<open>None\<close>) on negative, infinite and NaN values and on overflow.\<close>

definition duration_limit :: int where
  "duration_limit = 18446744073709551616000000000"

fun from_secs_f64 :: "f64 \<Rightarrow> duration option" where
  "from_secs_f64 (Fin x) =
     (let n = round_half_even (x * 1000000000) in if 0 \<le> x \<and> n < duration_limit then Some (nat n) else None)"
| "from_secs_f64 _ = None"

definition MIN_POSITIVE :: f64 where
  "MIN_POSITIVE = Fin (pow2 (- 1022))"

section \<open>Rounding is close\<close>

lemma pow2_pos [simp]: "0 < pow2 e"
  by (simp add: pow2_def)

lemma pow2_add: "pow2 (a + b) = pow2 a * pow2 b"
proof -
  have "pow2 e = 2 powi e" for e by (simp add: pow2_def power_int_def inverse_eq_divide power_one_over)
  then show ?thesis by (simp add: power_int_add del: power_int_numeral_neg_numeral)
qed

lemma pow2_mono: "a \<le> b \<Longrightarrow> pow2 a \<le> pow2 b"
proof -
  assume "a \<le> b"
  then have "1 \<le> pow2 (b - a)" by (simp add: pow2_def)
  with pow2_add [of a "b - a"] show ?thesis by simp
qed

lemma round_half_even_close: "\<bar>of_int (round_half_even x) - x\<bar> \<le> (1 / 2 :: rat)"
proof -
  have "of_int \<lfloor>x\<rfloor> \<le> x" "x < of_int \<lfloor>x\<rfloor> + 1" by linarith+
  then show ?thesis unfolding round_half_even_def Let_def by (auto simp: abs_le_iff)
qed

lemma round_half_even_nonneg: "0 \<le> x \<Longrightarrow> 0 \<le> round_half_even x"
proof -
  assume "0 \<le> x"
  then have "0 \<le> \<lfloor>x\<rfloor>" by simp
  then show ?thesis by (simp add: round_half_even_def Let_def)
qed

lemma round_half_even_of_int [simp]: "round_half_even (of_int k) = k"
  by (simp add: round_half_even_def)

lemma bitlen_bounds_pos: "0 < p \<Longrightarrow> pow2 (bitlen p - 1) \<le> of_int p \<and> of_int p < pow2 (bitlen p)"
proof -
  assume p: "0 < p"
  from bitlen_bounds [OF p] have b: "2 ^ nat (bitlen p - 1) \<le> p" "p < 2 ^ nat (bitlen p)" by blast+
  have pos: "0 < bitlen p"
  proof (rule ccontr)
    assume "\<not> 0 < bitlen p"
    then have "nat (bitlen p) = 0" by simp
    then show False using b(2) p by simp
  qed
  have "(of_int (2 ^ nat (bitlen p - 1)) :: rat) \<le> of_int p" "(of_int p :: rat) < of_int (2 ^ nat (bitlen p))"
    using b by (simp_all only: of_int_le_iff of_int_less_iff)
  with pos show ?thesis by (simp add: pow2_def)
qed

lemma log2_floor_le:
  assumes "0 < x"
  shows "pow2 (log2_floor x) \<le> x"
proof -
  obtain p q where pq: "quotient_of x = (p, q)" by fastforce
  have q: "0 < q" using quotient_of_denom_pos [OF pq] .
  have x: "x = of_int p / of_int q" using quotient_of_div [OF pq] .
  have p: "0 < p" using assms x q by (simp add: zero_less_divide_iff)
  let ?e = "bitlen p - bitlen q"
  have "pow2 (?e - 1) * of_int q \<le> of_int p"
  proof -
    have "pow2 (?e - 1) * of_int q \<le> pow2 (?e - 1) * pow2 (bitlen q)"
      using bitlen_bounds_pos [OF q] by (intro mult_left_mono) (simp_all add: less_imp_le)
    also have "\<dots> = pow2 (bitlen p - 1)" by (simp flip: pow2_add)
    also have "\<dots> \<le> of_int p" using bitlen_bounds_pos [OF p] by blast
    finally show ?thesis .
  qed
  then have "pow2 (?e - 1) \<le> x" using q by (simp add: x pos_le_divide_eq)
  then show ?thesis by (simp add: log2_floor_def pq Let_def)
qed

text \<open>The error of rounding: half a unit in the last place, which is tiny beside the number.\<close>

lemma rnd_close:
  assumes "0 \<le> x" and "x \<le> pow2 1022"
  shows "\<exists>y. rnd x = Fin y \<and> 0 \<le> y \<and> \<bar>y - x\<bar> \<le> x / 2 ^ 53 + pow2 (- 1075)"
proof (cases "x = 0")
  case True
  then show ?thesis by (simp add: rnd_def less_imp_le)
next
  case False
  with assms have x: "0 < x" by simp
  let ?e = "ulp_exp x"
  define y where "y = of_int (round_half_even (x / pow2 ?e)) * pow2 ?e"
  have "\<bar>of_int (round_half_even (x / pow2 ?e)) - x / pow2 ?e\<bar> * pow2 ?e \<le> 1 / 2 * pow2 ?e"
    using round_half_even_close by (rule mult_right_mono) (simp add: less_imp_le)
  moreover have "\<bar>of_int (round_half_even (x / pow2 ?e)) - x / pow2 ?e\<bar> * pow2 ?e = \<bar>y - x\<bar>"
  proof -
    have "\<bar>a - x / c\<bar> * c = \<bar>a * c - x\<bar>" if "0 < c" for a c :: rat
      using that abs_mult [of "a - x / c" c] by (simp add: left_diff_distrib)
    from this [OF pow2_pos] show ?thesis by (simp only: y_def)
  qed
  ultimately have err: "\<bar>y - x\<bar> \<le> pow2 ?e / 2" by simp
  have ulp: "pow2 ?e \<le> x / 2 ^ 52 + pow2 (- 1074)"
  proof (cases "log2_floor x - 52 \<le> - 1074")
    case True
    then show ?thesis using x by (simp add: ulp_exp_def max_def)
  next
    case False
    have "pow2 (log2_floor x - 52) = pow2 (log2_floor x) * pow2 (- 52)" by (simp flip: pow2_add)
    also have "\<dots> \<le> x * pow2 (- 52)" using log2_floor_le [OF x] by (rule mult_right_mono) (simp add: less_imp_le)
    finally have "pow2 ?e \<le> x / 2 ^ 52" using False x by (simp add: ulp_exp_def max_def) (simp add: pow2_def)
    then show ?thesis using pow2_pos [of "- 1074"] by linarith
  qed
  have half: "pow2 (- 1075) = pow2 (- 1074) / 2" using pow2_add [of "- 1074" "- 1"] by (simp add: pow2_def)
  have close: "\<bar>y - x\<bar> \<le> x / 2 ^ 53 + pow2 (- 1075)" using err ulp half by simp
  have "0 \<le> round_half_even (x / pow2 ?e)"
    using x by (intro round_half_even_nonneg) (simp add: less_imp_le)
  then have nonneg: "0 \<le> y" by (simp add: y_def less_imp_le)
  have "x / 2 ^ 53 \<le> pow2 1022" "pow2 (- 1075) \<le> pow2 1022"
    using assms by (simp_all add: pow2_mono)
  then have "y \<le> 3 * pow2 1022" using close assms(2) by linarith
  also have "\<dots> < pow2 1024" using pow2_add [of 1022 2] by (simp add: pow2_def)
  finally have "rnd x = Fin y" using x nonneg by (simp add: rnd_def Let_def y_def)
  with nonneg close show ?thesis by blast
qed

end
