(* ===== verification/Maq_Adaptive.thy ===== *)
theory Maq_Adaptive
  imports Maq_Float
begin

text \<open>
  The adaptive batching: moving averages, direction streaks and the batch size of
  \<open>crates/engine/src/adaptive.rs\<close>, the write options of \<open>sqlite/options.rs\<close>, and the batch controller
  and the lane controller of the writers in \<open>sqlite/adaptive.rs\<close>. Instants are nanoseconds of the
  monotonic clock. A panic of a duration conversion is \<open>None\<close>.
\<close>

section \<open>engine/src/adaptive.rs\<close>

record Ewma =
  ew_alpha :: f64
  ew_value :: "f64 option"

definition Ewma_new :: "nat \<Rightarrow> Ewma" where
  "Ewma_new window = \<lparr>ew_alpha = f64_div (Fin 2) (f64_add (of_usize window) (Fin 1)), ew_value = None\<rparr>"

definition Ewma_observe :: "f64 \<Rightarrow> Ewma \<Rightarrow> Ewma" where
  "Ewma_observe sample w =
     (if \<not> is_finite sample \<or> f64_lt sample (Fin 0) then w
      else
        w\<lparr>ew_value := Some (case ew_value w of
             Some v \<Rightarrow> f64_add (f64_mul (ew_alpha w) sample) (f64_mul (f64_sub (Fin 1) (ew_alpha w)) v)
           | None \<Rightarrow> sample)\<rparr>)"

record DirectionStreak =
  ds_direction :: int
  ds_samples :: u8

definition DirectionStreak_default :: DirectionStreak where
  "DirectionStreak_default = \<lparr>ds_direction = 0, ds_samples = 0\<rparr>"

definition confirm :: "int \<Rightarrow> DirectionStreak \<Rightarrow> bool \<times> DirectionStreak" where
  "confirm direction s =
     (if direction = 0 then (False, \<lparr>ds_direction = 0, ds_samples = 0\<rparr>)
      else
        let s1 = (if ds_direction s = direction then s\<lparr>ds_samples := u8_saturating_add (ds_samples s) 1\<rparr>
                  else \<lparr>ds_direction = direction, ds_samples = 1\<rparr>)
        in if 3 \<le> ds_samples s1 then (True, s1\<lparr>ds_samples := 0\<rparr>) else (False, s1))"

record AdaptiveBatch =
  ab_min :: nat
  ab_max :: nat
  ab_size :: nat
  ab_probe_factor :: f64
  ab_backoff_factor :: f64
  ab_direction :: DirectionStreak

definition AdaptiveBatch_new :: "nat \<Rightarrow> nat \<Rightarrow> f64 \<Rightarrow> f64 \<Rightarrow> AdaptiveBatch" where
  "AdaptiveBatch_new lo hi probe_factor backoff_factor =
     \<lparr>ab_min = lo, ab_max = hi,
      ab_size = clamp (to_usize (f64_round (f64_sqrt (f64_mul (of_usize lo) (of_usize hi))))) lo hi,
      ab_probe_factor = probe_factor, ab_backoff_factor = backoff_factor, ab_direction = DirectionStreak_default\<rparr>"

definition set_size :: "nat \<Rightarrow> AdaptiveBatch \<Rightarrow> AdaptiveBatch" where
  "set_size n b = b\<lparr>ab_size := clamp n (ab_min b) (ab_max b)\<rparr>"

definition observe_direction :: "int \<Rightarrow> AdaptiveBatch \<Rightarrow> bool \<times> AdaptiveBatch" where
  "observe_direction direction b =
     (let (confirmed, s) = confirm direction (ab_direction b); b1 = b\<lparr>ab_direction := s\<rparr> in
      if \<not> confirmed then (False, b1)
      else
        let next_size = (if direction = 1 then to_usize (f64_ceil (f64_mul (of_usize (ab_size b)) (ab_probe_factor b)))
                    else if direction = - 1 then to_usize (f64_floor (f64_mul (of_usize (ab_size b)) (ab_backoff_factor b)))
                    else ab_size b);
            b2 = b1\<lparr>ab_size := clamp next_size (ab_min b) (ab_max b)\<rparr>
        in (ab_size b2 \<noteq> ab_size b, b2))"

definition reset_direction :: "AdaptiveBatch \<Rightarrow> AdaptiveBatch" where
  "reset_direction b = b\<lparr>ab_direction := snd (confirm 0 (ab_direction b))\<rparr>"

section \<open>sqlite/options.rs\<close>

datatype DurabilityMode = DurabilityNone | Balanced | Strict

record BatchOptions =
  bo_batch_size_min :: nat
  bo_batch_size_max :: nat
  bo_batch_wait_min :: duration
  bo_batch_wait_max :: duration
  bo_ewma_window :: nat
  bo_batch_probe_factor :: f64
  bo_batch_backoff_factor :: f64

definition enqueue_defaults :: BatchOptions where
  "enqueue_defaults =
     \<lparr>bo_batch_size_min = 64, bo_batch_size_max = 8192, bo_batch_wait_min = from_millis 1,
      bo_batch_wait_max = from_millis 100, bo_ewma_window = 16, bo_batch_probe_factor = rnd (11 / 10),
      bo_batch_backoff_factor = rnd (8 / 10)\<rparr>"

definition completion_defaults :: BatchOptions where
  "completion_defaults =
     \<lparr>bo_batch_size_min = 128, bo_batch_size_max = 8192, bo_batch_wait_min = from_millis 1,
      bo_batch_wait_max = from_millis 20, bo_ewma_window = 16, bo_batch_probe_factor = rnd (125 / 100),
      bo_batch_backoff_factor = rnd (8 / 10)\<rparr>"

definition BatchOptions_validate :: "string \<Rightarrow> BatchOptions \<Rightarrow> string + unit" where
  "BatchOptions_validate section o' =
     (if bo_ewma_window o' = 0 then Inl (section @ ''.ewma_window must be greater than zero'')
      else if \<not> is_finite (bo_batch_probe_factor o') \<or> f64_le (bo_batch_probe_factor o') (Fin 1) then
        Inl (section @ ''.batch_probe_factor must be greater than one'')
      else if \<not> is_finite (bo_batch_backoff_factor o') \<or>
          \<not> (f64_le (Fin 0) (bo_batch_backoff_factor o') \<and> f64_lt (bo_batch_backoff_factor o') (Fin 1)) then
        Inl (section @ ''.batch_backoff_factor must be greater than zero and less than one'')
      else if bo_batch_size_min o' = 0 \<or> bo_batch_size_max o' < bo_batch_size_min o' then
        Inl (section @ ''.batch_size_min must be positive and not exceed batch_size_max'')
      else if bo_batch_wait_min o' = 0 \<or> bo_batch_wait_max o' < bo_batch_wait_min o' then
        Inl (section @ ''.batch_wait_min_ms must be positive and not exceed batch_wait_max_ms'')
      else Inr ())"

record SqliteWriteOptions =
  swo_durability :: DurabilityMode
  swo_enqueue :: BatchOptions
  swo_completion :: BatchOptions

definition SqliteWriteOptions_default :: SqliteWriteOptions where
  "SqliteWriteOptions_default =
     \<lparr>swo_durability = DurabilityNone, swo_enqueue = enqueue_defaults, swo_completion = completion_defaults\<rparr>"

definition SqliteWriteOptions_validate :: "SqliteWriteOptions \<Rightarrow> string + unit" where
  "SqliteWriteOptions_validate o' =
     (case BatchOptions_validate ''persistence.enqueue'' (swo_enqueue o') of
        Inl e \<Rightarrow> Inl e
      | Inr _ \<Rightarrow> BatchOptions_validate ''persistence.completion'' (swo_completion o'))"

section \<open>sqlite/adaptive.rs: lanes\<close>

datatype FlushReason = FullBatch | Timeout

datatype ResultsLane = Dispatch | Completion

datatype ResultsLaneSelectionReason = OnlyActive | InitialTieBreak | Preferred | StarvationOverride

definition MAX_RESULTS_PREFERRED_LANE_TURNS :: nat where
  "MAX_RESULTS_PREFERRED_LANE_TURNS = 32"

record ResultsLaneController =
  lc_dispatch_rows :: Ewma
  lc_dispatch_duration :: Ewma
  lc_completion_rows :: Ewma
  lc_completion_duration :: Ewma
  lc_shared_rows :: Ewma
  lc_shared_duration :: Ewma
  lc_preferred :: "ResultsLane option"
  lc_streak :: DirectionStreak
  lc_preferred_turns :: nat

definition ResultsLaneController_new :: "nat \<Rightarrow> ResultsLaneController" where
  "ResultsLaneController_new w =
     \<lparr>lc_dispatch_rows = Ewma_new w, lc_dispatch_duration = Ewma_new w, lc_completion_rows = Ewma_new w,
      lc_completion_duration = Ewma_new w, lc_shared_rows = Ewma_new w, lc_shared_duration = Ewma_new w,
      lc_preferred = None, lc_streak = DirectionStreak_default, lc_preferred_turns = 0\<rparr>"

fun other_lane :: "ResultsLane \<Rightarrow> ResultsLane" where
  "other_lane Dispatch = Completion"
| "other_lane Completion = Dispatch"

definition or_else :: "'a option \<Rightarrow> 'a option \<Rightarrow> 'a option" where
  "or_else a b = (case a of None \<Rightarrow> b | Some x \<Rightarrow> Some x)"

definition pressure :: "ResultsLane \<Rightarrow> nat \<Rightarrow> nat option \<Rightarrow> nat \<Rightarrow> ResultsLaneController \<Rightarrow> f64 option" where
  "pressure lane queued_rows oldest now c =
     (let (rows, dur) = (case lane of
            Dispatch \<Rightarrow> (ew_value (lc_dispatch_rows c), ew_value (lc_dispatch_duration c))
          | Completion \<Rightarrow> (ew_value (lc_completion_rows c), ew_value (lc_completion_duration c)))
      in case or_else rows (ew_value (lc_shared_rows c)) of
           None \<Rightarrow> None
         | Some rows_per_turn \<Rightarrow>
             (case or_else dur (ew_value (lc_shared_duration c)) of
                None \<Rightarrow> None
              | Some turn_duration \<Rightarrow>
                  let queued_turns = f64_div (of_usize queued_rows) (f64_max rows_per_turn (Fin 1));
                      waited = (case oldest of None \<Rightarrow> Fin 0 | Some queued_at \<Rightarrow> as_secs_f64 (now - queued_at));
                      wait_turns = f64_div waited (f64_max turn_duration MIN_POSITIVE)
                  in Some (f64_add queued_turns wait_turns)))"

definition lane_direction :: "f64 option \<Rightarrow> f64 option \<Rightarrow> int" where
  "lane_direction dispatch_pressure completion_pressure =
     (case (dispatch_pressure, completion_pressure) of
        (Some d, Some c) \<Rightarrow> if f64_lt d c then 1 else if f64_lt c d then - 1 else 0
      | _ \<Rightarrow> 0)"

text \<open>The preference after the pressures were compared.\<close>

definition update_preferred :: "int \<Rightarrow> ResultsLaneController \<Rightarrow> ResultsLaneController" where
  "update_preferred direction c =
     (let (confirmed, s) = confirm direction (lc_streak c); c1 = c\<lparr>lc_streak := s\<rparr> in
      if confirmed then
        let next_preferred = (if direction = 1 then Some Completion else if direction = - 1 then Some Dispatch else lc_preferred c)
        in if next_preferred \<noteq> lc_preferred c then c1\<lparr>lc_preferred := next_preferred, lc_preferred_turns := 0\<rparr> else c1
      else c1)"

definition select :: "nat \<Rightarrow> nat option \<Rightarrow> nat \<Rightarrow> nat option \<Rightarrow> nat \<Rightarrow> ResultsLaneController \<Rightarrow>
    (ResultsLane \<times> ResultsLaneSelectionReason) option \<times> ResultsLaneController" where
  "select dispatch_rows dispatch_oldest completion_rows completion_oldest now c =
     (if dispatch_rows = 0 \<and> completion_rows = 0 then (None, c)
      else if completion_rows = 0 then (Some (Dispatch, OnlyActive), c\<lparr>lc_preferred_turns := 0\<rparr>)
      else if dispatch_rows = 0 then (Some (Completion, OnlyActive), c\<lparr>lc_preferred_turns := 0\<rparr>)
      else
        let direction = lane_direction (pressure Dispatch dispatch_rows dispatch_oldest now c)
                          (pressure Completion completion_rows completion_oldest now c);
            c1 = update_preferred direction c
        in (case lc_preferred c1 of
              None \<Rightarrow> (Some (Completion, InitialTieBreak), c1)
            | Some preferred \<Rightarrow>
                if MAX_RESULTS_PREFERRED_LANE_TURNS \<le> lc_preferred_turns c1
                then (Some (other_lane preferred, StarvationOverride), c1)
                else (Some (preferred, Preferred), c1)))"

definition observe_success :: "ResultsLane \<Rightarrow> nat \<Rightarrow> duration \<Rightarrow> ResultsLaneController \<Rightarrow> ResultsLaneController" where
  "observe_success lane rows dur c =
     (if rows = 0 then c
      else
        let r = of_usize rows; d = as_secs_f64 dur;
            c1 = (case lane of
                    Dispatch \<Rightarrow> c\<lparr>lc_dispatch_rows := Ewma_observe r (lc_dispatch_rows c),
                                   lc_dispatch_duration := Ewma_observe d (lc_dispatch_duration c)\<rparr>
                  | Completion \<Rightarrow> c\<lparr>lc_completion_rows := Ewma_observe r (lc_completion_rows c),
                                     lc_completion_duration := Ewma_observe d (lc_completion_duration c)\<rparr>)
        in c1\<lparr>lc_shared_rows := Ewma_observe r (lc_shared_rows c1), lc_shared_duration := Ewma_observe d (lc_shared_duration c1)\<rparr>)"

definition record_turn :: "ResultsLane \<Rightarrow> ResultsLaneController \<Rightarrow> ResultsLaneController" where
  "record_turn lane c =
     (if lc_preferred c = Some lane then c\<lparr>lc_preferred_turns := min (lc_preferred_turns c + 1) usize_max\<rparr>
      else c\<lparr>lc_preferred_turns := 0\<rparr>)"

section \<open>sqlite/adaptive.rs: batches\<close>

definition LOW_FILL_TIMEOUTS :: u8 where
  "LOW_FILL_TIMEOUTS = 3"

record AdaptiveBatchController =
  bc_limits :: BatchOptions
  bc_request_rate :: Ewma
  bc_commit_rate :: Ewma
  bc_commit_duration :: Ewma
  bc_fill_ratio :: Ewma
  bc_baseline_commit_duration :: "f64 option"
  bc_batch :: AdaptiveBatch
  bc_batch_wait :: duration
  bc_backlog :: nat
  bc_low_fill_timeouts :: u8
  bc_last_request :: "nat option"
  bc_last_commit :: "nat option"
  bc_wait_streak :: DirectionStreak
  bc_completion_goodput :: Ewma
  bc_goodput_baseline :: "f64 option"

definition AdaptiveBatchController_new :: "BatchOptions \<Rightarrow> AdaptiveBatchController" where
  "AdaptiveBatchController_new o' =
     \<lparr>bc_limits = o', bc_request_rate = Ewma_new (bo_ewma_window o'), bc_commit_rate = Ewma_new (bo_ewma_window o'),
      bc_commit_duration = Ewma_new (bo_ewma_window o'), bc_fill_ratio = Ewma_new (bo_ewma_window o'),
      bc_baseline_commit_duration = None,
      bc_batch = AdaptiveBatch_new (bo_batch_size_min o') (bo_batch_size_max o') (bo_batch_probe_factor o') (bo_batch_backoff_factor o'),
      bc_batch_wait = bo_batch_wait_min o', bc_backlog = 0, bc_low_fill_timeouts = 0, bc_last_request = None,
      bc_last_commit = None, bc_wait_streak = DirectionStreak_default,
      bc_completion_goodput = Ewma_new (bo_ewma_window o'), bc_goodput_baseline = None\<rparr>"

definition batch_size :: "AdaptiveBatchController \<Rightarrow> nat" where
  "batch_size c = ab_size (bc_batch c)"

definition observe_request :: "nat \<Rightarrow> AdaptiveBatchController \<Rightarrow> AdaptiveBatchController" where
  "observe_request now c =
     (let c1 = c\<lparr>bc_last_request := Some now\<rparr> in
      case bc_last_request c of
        None \<Rightarrow> c1
      | Some previous \<Rightarrow>
          let elapsed = as_secs_f64 (now - previous)
          in if f64_lt (Fin 0) elapsed then c1\<lparr>bc_request_rate := Ewma_observe (f64_div (Fin 1) elapsed) (bc_request_rate c1)\<rparr> else c1)"

definition observe_commit_baseline :: "f64 \<Rightarrow> AdaptiveBatchController \<Rightarrow> AdaptiveBatchController" where
  "observe_commit_baseline sample c =
     c\<lparr>bc_baseline_commit_duration := Some (case bc_baseline_commit_duration c of
          None \<Rightarrow> sample
        | Some baseline \<Rightarrow>
            if f64_lt sample baseline then sample
            else f64_add baseline (f64_mul (f64_sub sample baseline) (rnd (2 / 100))))\<rparr>"

text \<open>The step down after several batches that timed out nearly empty.\<close>

definition shrink_batch :: "AdaptiveBatchController \<Rightarrow> AdaptiveBatchController" where
  "shrink_batch c =
     (let b = set_size (to_usize (f64_floor (f64_mul (of_usize (batch_size c)) (bo_batch_backoff_factor (bc_limits c))))) (bc_batch c)
      in c\<lparr>bc_batch := reset_direction b, bc_low_fill_timeouts := 0\<rparr>)"

definition adjust_batch_size :: "AdaptiveBatchController \<Rightarrow> AdaptiveBatchController" where
  "adjust_batch_size c =
     (case (ew_value (bc_commit_duration c), bc_baseline_commit_duration c) of
        (Some commit_duration, Some baseline) \<Rightarrow>
          let queueing_ratio = f64_div commit_duration (f64_max baseline MIN_POSITIVE) in
          if LOW_FILL_TIMEOUTS \<le> bc_low_fill_timeouts c \<and> f64_le queueing_ratio (rnd (120 / 100)) then shrink_batch c
          else
            let demand = (case (ew_value (bc_request_rate c), ew_value (bc_commit_rate c)) of
                  (Some request_rate, Some commit_rate) \<Rightarrow>
                    f64_lt (Fin 0) commit_rate \<and> f64_lt (f64_mul (of_usize (batch_size c)) commit_rate) request_rate
                | _ \<Rightarrow> False);
                direction = (if f64_lt (rnd (120 / 100)) queueing_ratio then - 1
                             else if 0 < bc_backlog c \<or> demand then 1 else 0)
            in c\<lparr>bc_batch := snd (observe_direction direction (bc_batch c))\<rparr>
      | _ \<Rightarrow> c)"

definition adjust_completion_batch_size :: "AdaptiveBatchController \<Rightarrow> AdaptiveBatchController" where
  "adjust_completion_batch_size c =
     (case ew_value (bc_completion_goodput c) of
        None \<Rightarrow> c
      | Some goodput \<Rightarrow>
          if LOW_FILL_TIMEOUTS \<le> bc_low_fill_timeouts c \<and> bc_backlog c = 0 then
            (shrink_batch c)\<lparr>bc_goodput_baseline := Some goodput\<rparr>
          else if bc_backlog c = 0 then
            c\<lparr>bc_goodput_baseline := Some goodput, bc_batch := snd (observe_direction 0 (bc_batch c))\<rparr>
          else
            let baseline = (case bc_goodput_baseline c of Some b \<Rightarrow> b | None \<Rightarrow> goodput);
                direction = (if f64_lt goodput (f64_mul baseline (rnd (95 / 100))) then - 1 else 1);
                (changed, b) = observe_direction direction (bc_batch c)
            in c\<lparr>bc_batch := b,
                 bc_goodput_baseline := Some
                   (if direction > 0 then f64_add baseline (f64_mul (f64_sub goodput baseline) (rnd (10 / 100)))
                    else if changed then goodput else baseline)\<rparr>)"

definition adjust_batch_wait :: "AdaptiveBatchController \<Rightarrow> AdaptiveBatchController option" where
  "adjust_batch_wait c =
     (case ew_value (bc_request_rate c) of
        None \<Rightarrow> Some c
      | Some request_rate \<Rightarrow>
          if \<not> f64_lt (Fin 0) request_rate then Some c
          else
            let lo = bo_batch_wait_min (bc_limits c); hi = bo_batch_wait_max (bc_limits c); wait = as_secs_f64 (bc_batch_wait c) in
            (case from_secs_f64 (f64_max (f64_div (f64_mul (of_usize (batch_size c)) (rnd (75 / 100))) request_rate) (as_secs_f64 lo)) of
               None \<Rightarrow> None
             | Some d \<Rightarrow>
                 let desired = clamp d lo hi;
                     direction = (if f64_lt (f64_mul wait (rnd (120 / 100))) (as_secs_f64 desired) then 1
                                  else if f64_lt (as_secs_f64 desired) (f64_mul wait (rnd (80 / 100))) then - 1 else 0);
                     (confirmed, s) = confirm direction (bc_wait_streak c); c1 = c\<lparr>bc_wait_streak := s\<rparr>
                 in if \<not> confirmed then Some c1
                    else
                      (case (if direction = 1 then map_option (\<lambda>n. min n desired) (from_secs_f64 (f64_mul wait (rnd (125 / 100))))
                             else if direction = - 1 then map_option (\<lambda>n. max n desired) (from_secs_f64 (f64_mul wait (rnd (80 / 100))))
                             else Some (bc_batch_wait c)) of
                         None \<Rightarrow> None
                       | Some next_wait \<Rightarrow> Some (c1\<lparr>bc_batch_wait := clamp next_wait lo hi\<rparr>))))"

text \<open>The count of batches that timed out less than half full with nothing waiting.\<close>

definition count_low_fill :: "nat \<Rightarrow> nat \<Rightarrow> FlushReason \<Rightarrow> AdaptiveBatchController \<Rightarrow> AdaptiveBatchController" where
  "count_low_fill filled backlog reason c =
     (let fill_ratio = f64_div (of_usize filled) (of_usize (max (batch_size c) 1))
      in c\<lparr>bc_fill_ratio := Ewma_observe fill_ratio (bc_fill_ratio c),
           bc_low_fill_timeouts :=
             (if reason = Timeout \<and> backlog = 0 \<and> f64_lt fill_ratio (rnd (1 / 2))
              then u8_saturating_add (bc_low_fill_timeouts c) 1 else 0)\<rparr>)"

definition record_successful_commit :: "nat \<Rightarrow> duration \<Rightarrow> nat \<Rightarrow> nat \<Rightarrow> FlushReason \<Rightarrow> AdaptiveBatchController \<Rightarrow>
    AdaptiveBatchController option" where
  "record_successful_commit filled elapsed completed_at backlog reason c =
     (let dur = as_secs_f64 elapsed;
          c1 = observe_commit_baseline dur (c\<lparr>bc_backlog := backlog, bc_commit_duration := Ewma_observe dur (bc_commit_duration c)\<rparr>);
          c2 = c1\<lparr>bc_last_commit := Some completed_at\<rparr>;
          c3 = (case bc_last_commit c1 of
                  None \<Rightarrow> c2
                | Some previous \<Rightarrow>
                    let interval = as_secs_f64 (completed_at - previous)
                    in if f64_lt (Fin 0) interval then c2\<lparr>bc_commit_rate := Ewma_observe (f64_div (Fin 1) interval) (bc_commit_rate c2)\<rparr>
                       else c2)
      in adjust_batch_wait (adjust_batch_size (count_low_fill filled backlog reason c3)))"

definition record_successful_completion_commit :: "nat \<Rightarrow> duration \<Rightarrow> nat \<Rightarrow> nat \<Rightarrow> FlushReason \<Rightarrow> AdaptiveBatchController \<Rightarrow>
    AdaptiveBatchController option" where
  "record_successful_completion_commit filled elapsed completed_at backlog reason c =
     (let interval = (case bc_last_commit c of Some previous \<Rightarrow> completed_at - previous | None \<Rightarrow> elapsed);
          c1 = c\<lparr>bc_backlog := backlog, bc_last_commit := Some completed_at\<rparr>;
          seconds = as_secs_f64 interval;
          c2 = (if f64_lt (Fin 0) seconds
                then c1\<lparr>bc_completion_goodput := Ewma_observe (f64_div (of_usize filled) seconds) (bc_completion_goodput c1)\<rparr> else c1)
      in adjust_batch_wait (adjust_completion_batch_size (count_low_fill filled backlog reason c2)))"

end
