(* ===== verification/Maq_Adaptive_Runs.thy ===== *)
theory Maq_Adaptive_Runs
  imports Maq_Adaptive
begin

text \<open>
  Runs of the adaptive controllers: how far rounded arithmetic is from the exact one, that the batch
  size and the waiting time stay within their limits and reach them under a sustained
  direction, that recording a commit does not panic, and how the two lanes of the results
  writer share its turns.
\<close>

section \<open>Streaks\<close>

definition streak_ok :: "DirectionStreak \<Rightarrow> bool" where
  "streak_ok s \<longleftrightarrow> unat (ds_samples s) < 3"

lemma streak_ok_default [simp]: "streak_ok DirectionStreak_default"
  by (simp add: streak_ok_def DirectionStreak_default_def)

text \<open>How many confirmations of a direction are still missing.\<close>

definition missing :: "int \<Rightarrow> DirectionStreak \<Rightarrow> nat" where
  "missing d s = (if ds_direction s = d then 3 - unat (ds_samples s) else 3)"

lemma unat_next_sample: "streak_ok s \<Longrightarrow> unat (u8_saturating_add (ds_samples s) 1) = Suc (unat (ds_samples s))"
  by (simp add: streak_ok_def u8_saturating_add_def unat_word_ariths)

lemma confirm_eq:
  assumes "streak_ok s" and "d \<noteq> 0" and "confirm d s = (b, s')"
  shows "streak_ok s' \<and> (b \<longleftrightarrow> missing d s = 1) \<and> missing d s' = (if b then 3 else missing d s - 1)"
proof -
  have le: "3 \<le> w \<longleftrightarrow> 3 \<le> unat w" for w :: u8 by (simp add: word_le_nat_alt)
  show ?thesis
    using assms unat_next_sample [OF assms(1)]
    by (auto simp: confirm_def Let_def streak_ok_def missing_def le split: if_splits)
qed

lemma confirm_zero: "confirm 0 s = (False, DirectionStreak_default)"
  by (simp add: confirm_def DirectionStreak_default_def)

lemma confirm_ok: "streak_ok s \<Longrightarrow> confirm d s = (b, s') \<Longrightarrow> streak_ok s'"
  using confirm_eq [of s d b s'] by (cases "d = 0") (auto simp: confirm_zero)

section \<open>Batch sizes\<close>

definition batch_ok :: "AdaptiveBatch \<Rightarrow> bool" where
  "batch_ok b \<longleftrightarrow> ab_min b \<le> ab_size b \<and> ab_size b \<le> ab_max b \<and> streak_ok (ab_direction b)"

lemma observe_direction_sel [simp]:
  "ab_min (snd (observe_direction d b)) = ab_min b" "ab_max (snd (observe_direction d b)) = ab_max b"
  "ab_probe_factor (snd (observe_direction d b)) = ab_probe_factor b"
  "ab_backoff_factor (snd (observe_direction d b)) = ab_backoff_factor b"
  by (simp_all add: observe_direction_def Let_def split: prod.splits)

lemma observe_direction_ok: "batch_ok b \<Longrightarrow> batch_ok (snd (observe_direction d b))"
  using clamp_bounds [of "ab_min b" "ab_max b"] confirm_ok [of "ab_direction b" d]
  by (auto simp: batch_ok_def observe_direction_def Let_def split: prod.splits)

lemma set_size_ok: "batch_ok b \<Longrightarrow> batch_ok (set_size n b)"
  using clamp_bounds [of "ab_min b" "ab_max b" n] by (auto simp: batch_ok_def set_size_def)

lemma reset_direction_ok: "batch_ok b \<Longrightarrow> batch_ok (reset_direction b)"
  by (simp add: batch_ok_def reset_direction_def confirm_zero)

text \<open>Multiplying a size by a factor, as the code computes it, stays near the exact product.\<close>

lemma of_usize_close:
  assumes "n \<le> 2 ^ 64"
  shows "\<exists>x. of_usize n = Fin x \<and> \<bar>x - of_nat n\<bar> \<le> of_nat n / 2 ^ 53 + pow2 (- 1075)"
proof -
  have "(of_nat n :: rat) \<le> 2 ^ 64" using assms by (metis of_nat_le_iff of_nat_numeral of_nat_power)
  also have "\<dots> \<le> pow2 1022" using pow2_mono [of 64 1022] by (simp add: pow2_def)
  finally show ?thesis unfolding of_usize_def using rnd_close [of "of_nat n"] by auto
qed

lemma tiny: "pow2 (- 1075) \<le> 1 / 2 ^ 60"
  using pow2_mono [of "- 1075" "- 60"] by (simp add: pow2_def)

lemma scaled_size_close:
  assumes n: "n \<le> 2 ^ 64" and f: "0 \<le> f" "f \<le> 1000"
  shows "\<exists>y. f64_mul (of_usize n) (Fin f) = Fin y \<and> 0 \<le> y \<and> \<bar>y - of_nat n * f\<bar> \<le> (of_nat n * f + f) / 2 ^ 51 + 1 / 2 ^ 50"
proof -
  from of_usize_close [OF n] obtain x where x: "of_usize n = Fin x" "\<bar>x - of_nat n\<bar> \<le> of_nat n / 2 ^ 53 + pow2 (- 1075)" by blast
  have nr: "(of_nat n :: rat) \<le> 2 ^ 64" using n by (metis of_nat_le_iff of_nat_numeral of_nat_power)
  have close: "\<bar>x - of_nat n\<bar> \<le> of_nat n / 2 ^ 53 + 1 / 2 ^ 60" using x(2) tiny by linarith
  have small: "of_nat n / 2 ^ 53 \<le> (of_nat n :: rat) / 2" "(1 :: rat) / 2 ^ 60 \<le> 1 / 2" by (simp_all add: divide_left_mono)
  then have up: "x \<le> 2 * of_nat n + 1" using close of_nat_0_le_iff [of n, where 'a = rat] by linarith
  have x0: "0 \<le> x"
  proof (cases n)
    case 0
    then show ?thesis using x(1) by (simp add: of_usize_def rnd_def)
  next
    case (Suc m)
    then have "(1 :: rat) \<le> of_nat n" by simp
    then show ?thesis using close small by linarith
  qed
  have p0: "0 \<le> x * f" using x0 f by simp
  have "x * f \<le> (2 * of_nat n + 1) * 1000" using x0 f up by (intro mult_mono) auto
  also have "\<dots> \<le> (2 * 2 ^ 64 + 1) * 1000" using nr by simp
  also have "\<dots> \<le> pow2 1022" using pow2_mono [of 80 1022] by (simp add: pow2_def)
  finally obtain y where y: "rnd (x * f) = Fin y" "0 \<le> y" "\<bar>y - x * f\<bar> \<le> x * f / 2 ^ 53 + pow2 (- 1075)"
    using rnd_close [OF p0] by blast
  have "\<bar>x * f - of_nat n * f\<bar> = \<bar>x - of_nat n\<bar> * f" using f(1) abs_mult [of "x - of_nat n" f] by (simp add: left_diff_distrib)
  also have "\<dots> \<le> (of_nat n / 2 ^ 53 + 1 / 2 ^ 60) * f" using close f(1) by (rule mult_right_mono)
  finally have d: "\<bar>x * f - of_nat n * f\<bar> \<le> (of_nat n * f) / 2 ^ 53 + f / 2 ^ 60" by (simp add: algebra_simps)
  have nf: "0 \<le> of_nat n * f" using f by simp
  have "\<bar>y - of_nat n * f\<bar> \<le> \<bar>y - x * f\<bar> + \<bar>x * f - of_nat n * f\<bar>" by linarith
  also have "\<dots> \<le> x * f / 2 ^ 53 + 1 / 2 ^ 60 + ((of_nat n * f) / 2 ^ 53 + f / 2 ^ 60)" using y(3) d tiny by linarith
  also have "\<dots> \<le> (of_nat n * f + f) / 2 ^ 51 + 1 / 2 ^ 50"
  proof -
    have "a / 2 ^ 53 + 1 / 2 ^ 60 + (b / 2 ^ 53 + f / 2 ^ 60) \<le> (b + f) / 2 ^ 51 + 1 / 2 ^ 50"
      if "a \<le> b + (b / 2 ^ 53 + f / 2 ^ 60)" "0 \<le> b" for a b :: rat
      using that f(1) by (simp add: field_simps)
    moreover have "x * f \<le> of_nat n * f + (of_nat n * f / 2 ^ 53 + f / 2 ^ 60)" using d by linarith
    ultimately show ?thesis using nf by blast
  qed
  finally show ?thesis using x(1) y by auto
qed

lemma probe_grows:
  assumes n: "1 \<le> n" "n \<le> 2 ^ 64" and f: "101 / 100 \<le> f" "f \<le> 1000"
  shows "min usize_max (Suc n) \<le> to_usize (f64_ceil (f64_mul (of_usize n) (Fin f)))"
proof -
  from scaled_size_close [OF n(2) _ f(2)] f(1) obtain y where
    y: "f64_mul (of_usize n) (Fin f) = Fin y" "\<bar>y - of_nat n * f\<bar> \<le> (of_nat n * f + f) / 2 ^ 51 + 1 / 2 ^ 50" by auto
  have n1: "(1 :: rat) \<le> of_nat n" using n(1) by simp
  have "of_nat n * (101 / 100) \<le> of_nat n * f" using f(1) by (intro mult_left_mono) simp_all
  moreover have "1 * f \<le> of_nat n * f" using n1 f(1) by (intro mult_right_mono) simp_all
  moreover have "of_nat n < y" if "m * (101 / 100) \<le> p" "f \<le> p" "1 \<le> m" "m = of_nat n" "p = of_nat n * f" for m p :: rat
  proof -
    have "(p + f) / 2 ^ 51 + 1 / 2 ^ 50 < p - m" using that(1-3) by (simp add: field_simps)
    then show ?thesis using y(2) unfolding that(5) [symmetric] unfolding that(4) [symmetric] by linarith
  qed
  ultimately have "of_nat n < y" using n1 by simp
  then have "int (Suc n) \<le> \<lceil>y\<rceil>" by (simp add: le_ceiling_iff)
  then have "Suc n \<le> nat \<lceil>y\<rceil>" by linarith
  then show ?thesis by (simp add: y(1) f64_ceil_def)
qed

lemma backoff_shrinks:
  assumes n: "1 \<le> n" "n \<le> 2 ^ 64" and f: "0 \<le> f" "f \<le> 99 / 100"
  shows "to_usize (f64_floor (f64_mul (of_usize n) (Fin f))) \<le> n - 1"
proof -
  from scaled_size_close [OF n(2) f(1)] f(2) obtain y where
    y: "f64_mul (of_usize n) (Fin f) = Fin y" "0 \<le> y" "\<bar>y - of_nat n * f\<bar> \<le> (of_nat n * f + f) / 2 ^ 51 + 1 / 2 ^ 50" by auto
  have n1: "(1 :: rat) \<le> of_nat n" using n(1) by simp
  have "of_nat n * f \<le> of_nat n * (99 / 100)" using f(2) by (intro mult_left_mono) simp_all
  moreover have "y < of_nat n" if "p \<le> m * (99 / 100)" "1 \<le> m" "m = of_nat n" "p = of_nat n * f" for m p :: rat
  proof -
    have "(p + f) / 2 ^ 51 + 1 / 2 ^ 50 < m - p" using that(1,2) f(2) by (simp add: field_simps)
    then show ?thesis using y(3) unfolding that(4) [symmetric] unfolding that(3) [symmetric] by linarith
  qed
  ultimately have "y < of_nat n" using n1 by simp
  then have "\<lfloor>y\<rfloor> < int n" by (simp add: floor_less_iff)
  then have "nat \<lfloor>y\<rfloor> \<le> n - 1" using n(1) by linarith
  then show ?thesis by (simp add: y(1) f64_floor_def)
qed

text \<open>What one observation of a direction does to the size and to the streak.\<close>

lemma observe_up:
  assumes ok: "batch_ok b" "1 \<le> ab_min b" "ab_max b \<le> usize_max" and f: "ab_probe_factor b = Fin f" "101 / 100 \<le> f" "f \<le> 1000"
    and b': "b' = snd (observe_direction 1 b)"
  shows "missing 1 (ab_direction b') = (if missing 1 (ab_direction b) = 1 then 3 else missing 1 (ab_direction b) - 1) \<and>
    ab_max b' - ab_size b' \<le> ab_max b - ab_size b - (if missing 1 (ab_direction b) = 1 then 1 else 0)"
proof -
  obtain c s where cf: "confirm 1 (ab_direction b) = (c, s)" by fastforce
  from confirm_eq [OF _ _ cf] ok(1) have s: "c \<longleftrightarrow> missing 1 (ab_direction b) = 1"
    "missing 1 s = (if c then 3 else missing 1 (ab_direction b) - 1)" by (simp_all add: batch_ok_def)
  have n: "1 \<le> ab_size b" "ab_size b \<le> 2 ^ 64" using ok by (simp_all add: batch_ok_def usize_max_def)
  from probe_grows [OF n f(2,3)]
  have "ab_max b - clamp (to_usize (f64_ceil (f64_mul (of_usize (ab_size b)) (Fin f)))) (ab_min b) (ab_max b) \<le> ab_max b - ab_size b - 1"
    using ok(1,3) by (simp add: clamp_def batch_ok_def)
  with s cf f(1) show ?thesis by (auto simp: b' observe_direction_def Let_def)
qed

lemma observe_down:
  assumes ok: "batch_ok b" "1 \<le> ab_min b" "ab_max b \<le> usize_max" and f: "ab_backoff_factor b = Fin f" "0 \<le> f" "f \<le> 99 / 100"
    and b': "b' = snd (observe_direction (- 1) b)"
  shows "missing (- 1) (ab_direction b') = (if missing (- 1) (ab_direction b) = 1 then 3 else missing (- 1) (ab_direction b) - 1) \<and>
    ab_size b' - ab_min b' \<le> ab_size b - ab_min b - (if missing (- 1) (ab_direction b) = 1 then 1 else 0)"
proof -
  obtain c s where cf: "confirm (- 1) (ab_direction b) = (c, s)" by fastforce
  from confirm_eq [OF _ _ cf] ok(1) have s: "c \<longleftrightarrow> missing (- 1) (ab_direction b) = 1"
    "missing (- 1) s = (if c then 3 else missing (- 1) (ab_direction b) - 1)" by (simp_all add: batch_ok_def)
  have n: "1 \<le> ab_size b" "ab_size b \<le> 2 ^ 64" using ok by (simp_all add: batch_ok_def usize_max_def)
  from backoff_shrinks [OF n f(2,3)]
  have "clamp (to_usize (f64_floor (f64_mul (of_usize (ab_size b)) (Fin f)))) (ab_min b) (ab_max b) - ab_min b \<le> ab_size b - ab_min b - 1"
    using ok(1) by (simp add: clamp_def batch_ok_def)
  with s cf f(1) show ?thesis by (auto simp: b' observe_direction_def Let_def)
qed

text \<open>
  A step that is confirmed every third time and then lowers a distance reaches distance zero.
\<close>

lemma drive_to_zero:
  fixes rank miss :: "'b \<Rightarrow> nat"
  assumes step: "\<And>b. ok b \<Longrightarrow> ok (g b) \<and> miss (g b) = (if miss b = 1 then 3 else miss b - 1) \<and>
      rank (g b) \<le> rank b - (if miss b = 1 then 1 else 0) \<and> 1 \<le> miss b \<and> miss b \<le> 3"
    and "ok b" and "3 * rank b \<le> k"
  shows "rank ((g ^^ k) b) = 0"
proof -
  have "rank ((g ^^ k) b) = 0" if "ok b" "rank b = 0 \<or> 3 * rank b - 3 + miss b \<le> k" for b k
    using that
  proof (induction k arbitrary: b)
    case 0
    then show ?case using step [of b] by auto
  next
    case (Suc k)
    have "rank (g b) = 0 \<or> 3 * rank (g b) - 3 + miss (g b) \<le> k"
      using step [OF Suc.prems(1)] Suc.prems(2) by (auto split: if_splits)
    then show ?case using Suc.IH [of "g b"] step [OF Suc.prems(1)] by (simp add: funpow_swap1)
  qed
  moreover have "rank b = 0 \<or> 3 * rank b - 3 + miss b \<le> k" using step [OF assms(2)] assms(3) by auto
  ultimately show ?thesis using assms(2) by blast
qed

lemma missing_bounds: "streak_ok s \<Longrightarrow> 1 \<le> missing d s \<and> missing d s \<le> 3"
  by (auto simp: missing_def streak_ok_def)

section \<open>Properties of the batch size\<close>

text \<open>
  A sustained direction drives the batch size to its limit. Whatever the size and the streak, three
  times the distance to the maximum observations of growing demand bring the size to the
  maximum, and three times the distance to the minimum observations of regression bring it
  to the minimum, with the rounding of double arithmetic and the conversions to \<open>usize\<close> taken into
  account.
\<close>

theorem sustained_direction_reaches_limit:
  assumes ok: "batch_ok b" "1 \<le> ab_min b" "ab_max b \<le> usize_max"
    and up: "ab_probe_factor b = Fin pf" "101 / 100 \<le> pf" "pf \<le> 1000"
    and down: "ab_backoff_factor b = Fin bf" "0 \<le> bf" "bf \<le> 99 / 100"
  shows "ab_size (((\<lambda>b. snd (observe_direction 1 b)) ^^ (3 * (ab_max b - ab_size b))) b) = ab_max b \<and>
    ab_size (((\<lambda>b. snd (observe_direction (- 1) b)) ^^ (3 * (ab_size b - ab_min b))) b) = ab_min b"
proof -
  let ?ok = "\<lambda>c. batch_ok c \<and> ab_min c = ab_min b \<and> ab_max c = ab_max b \<and> ab_probe_factor c = Fin pf \<and> ab_backoff_factor c = Fin bf"
  have good: "?ok b" using ok(1) up(1) down(1) by simp
  have keep: "?ok (((\<lambda>b. snd (observe_direction d b)) ^^ k) b)" for d k
    by (induction k) (use good observe_direction_ok in \<open>auto simp: funpow_swap1\<close>)
  let ?u = "((\<lambda>b. snd (observe_direction 1 b)) ^^ (3 * (ab_max b - ab_size b))) b"
  have "(\<lambda>c. ab_max c - ab_size c) ?u = 0"
  proof (rule drive_to_zero [where ok = ?ok and miss = "\<lambda>c. missing 1 (ab_direction c)"])
    fix c assume c: "?ok c"
    have "streak_ok (ab_direction c)" using c by (simp add: batch_ok_def)
    from observe_up [of c pf, OF _ _ _ _ up(2,3) refl] missing_bounds [OF this, of 1] observe_direction_ok [of c 1] c ok(2,3)
    show "?ok (snd (observe_direction 1 c)) \<and> missing 1 (ab_direction (snd (observe_direction 1 c))) =
        (if missing 1 (ab_direction c) = 1 then 3 else missing 1 (ab_direction c) - 1) \<and>
      ab_max (snd (observe_direction 1 c)) - ab_size (snd (observe_direction 1 c)) \<le>
        ab_max c - ab_size c - (if missing 1 (ab_direction c) = 1 then 1 else 0) \<and>
      1 \<le> missing 1 (ab_direction c) \<and> missing 1 (ab_direction c) \<le> 3" by simp
  qed (use good in simp_all)
  moreover have "ab_size ?u \<le> ab_max b" "ab_max ?u = ab_max b" using keep [of "3 * (ab_max b - ab_size b)" 1] by (simp_all add: batch_ok_def)
  ultimately have 1: "ab_size ?u = ab_max b" by simp
  let ?d = "((\<lambda>b. snd (observe_direction (- 1) b)) ^^ (3 * (ab_size b - ab_min b))) b"
  have "(\<lambda>c. ab_size c - ab_min c) ?d = 0"
  proof (rule drive_to_zero [where ok = ?ok and miss = "\<lambda>c. missing (- 1) (ab_direction c)"])
    fix c assume c: "?ok c"
    have "streak_ok (ab_direction c)" using c by (simp add: batch_ok_def)
    from observe_down [of c bf, OF _ _ _ _ down(2,3) refl] missing_bounds [OF this, of "- 1"] observe_direction_ok [of c "- 1"] c ok(2,3)
    show "?ok (snd (observe_direction (- 1) c)) \<and> missing (- 1) (ab_direction (snd (observe_direction (- 1) c))) =
        (if missing (- 1) (ab_direction c) = 1 then 3 else missing (- 1) (ab_direction c) - 1) \<and>
      ab_size (snd (observe_direction (- 1) c)) - ab_min (snd (observe_direction (- 1) c)) \<le>
        ab_size c - ab_min c - (if missing (- 1) (ab_direction c) = 1 then 1 else 0) \<and>
      1 \<le> missing (- 1) (ab_direction c) \<and> missing (- 1) (ab_direction c) \<le> 3" by simp
  qed (use good in simp_all)
  moreover have "ab_min b \<le> ab_size ?d" "ab_min ?d = ab_min b" using keep [of "3 * (ab_size b - ab_min b)" "- 1"] by (simp_all add: batch_ok_def)
  ultimately show ?thesis using 1 by simp
qed

lemma AdaptiveBatch_new_ok: "lo \<le> hi \<Longrightarrow> batch_ok (AdaptiveBatch_new lo hi p q)"
  using clamp_bounds [of lo hi] by (simp add: AdaptiveBatch_new_def batch_ok_def)

text \<open>The default factors, rounded to doubles.\<close>

lemma default_factors:
  "\<exists>pf. rnd (11 / 10) = Fin pf \<and> 101 / 100 \<le> pf \<and> pf \<le> 2"
  "\<exists>bf. rnd (8 / 10) = Fin bf \<and> 0 \<le> bf \<and> bf \<le> 99 / 100"
proof -
  have big: "11 / 10 \<le> pow2 1022" "8 / 10 \<le> pow2 1022" using pow2_mono [of 1 1022] by (simp_all add: pow2_def)
  have t: "x / 2 ^ 53 + pow2 (- 1075) \<le> 1 / 100" if "x \<le> 2" for x using that tiny by (simp add: field_simps)
  from rnd_close [OF _ big(1)] t [of "11 / 10"] show "\<exists>pf. rnd (11 / 10) = Fin pf \<and> 101 / 100 \<le> pf \<and> pf \<le> 2" by auto
  from rnd_close [OF _ big(2)] t [of "8 / 10"] show "\<exists>bf. rnd (8 / 10) = Fin bf \<and> 0 \<le> bf \<and> bf \<le> 99 / 100" by auto
qed

theorem sustained_direction_reaches_limit_witness:
  "\<exists>b. b = AdaptiveBatch_new 64 8192 (rnd (11 / 10)) (rnd (8 / 10)) \<and>
     ab_size (((\<lambda>b. snd (observe_direction 1 b)) ^^ (3 * (8192 - ab_size b))) b) = 8192 \<and>
     ab_size (((\<lambda>b. snd (observe_direction (- 1) b)) ^^ (3 * (ab_size b - 64))) b) = 64"
proof -
  let ?b = "AdaptiveBatch_new 64 8192 (rnd (11 / 10)) (rnd (8 / 10))"
  obtain pf where pf: "rnd (11 / 10) = Fin pf" "101 / 100 \<le> pf" "pf \<le> 2" using default_factors(1) by blast
  obtain bf where bf: "rnd (8 / 10) = Fin bf" "0 \<le> bf" "bf \<le> 99 / 100" using default_factors(2) by blast
  have sel: "ab_min ?b = 64" "ab_max ?b = 8192" "ab_probe_factor ?b = Fin pf" "ab_backoff_factor ?b = Fin bf"
    using pf(1) bf(1) by (simp_all add: AdaptiveBatch_new_def)
  have "batch_ok ?b" by (rule AdaptiveBatch_new_ok) simp
  from sustained_direction_reaches_limit [OF this, of pf bf] sel pf(2,3) bf(2,3) show ?thesis by (simp add: usize_max_def)
qed

section \<open>Properties of the batch controller\<close>

definition limits_ok :: "AdaptiveBatchController \<Rightarrow> bool" where
  "limits_ok c \<longleftrightarrow>
     batch_ok (bc_batch c) \<and> ab_min (bc_batch c) = bo_batch_size_min (bc_limits c) \<and> ab_max (bc_batch c) = bo_batch_size_max (bc_limits c) \<and>
     bo_batch_wait_min (bc_limits c) \<le> bc_batch_wait c \<and> bc_batch_wait c \<le> bo_batch_wait_max (bc_limits c)"

lemma limits_ok_batch:
  assumes "limits_ok c" and "bc_limits c' = bc_limits c" and "bc_batch_wait c' = bc_batch_wait c"
    and "batch_ok (bc_batch c')" "ab_min (bc_batch c') = ab_min (bc_batch c)" "ab_max (bc_batch c') = ab_max (bc_batch c)"
  shows "limits_ok c'"
  using assms by (simp add: limits_ok_def)

lemma observe_request_sel [simp]:
  "bc_limits (observe_request now c) = bc_limits c" "bc_batch_wait (observe_request now c) = bc_batch_wait c"
  "bc_batch (observe_request now c) = bc_batch c"
  by (simp_all add: observe_request_def Let_def split: option.splits)

lemma observe_commit_baseline_sel [simp]:
  "bc_limits (observe_commit_baseline x c) = bc_limits c" "bc_batch_wait (observe_commit_baseline x c) = bc_batch_wait c"
  "bc_batch (observe_commit_baseline x c) = bc_batch c" "bc_request_rate (observe_commit_baseline x c) = bc_request_rate c"
  "bc_last_commit (observe_commit_baseline x c) = bc_last_commit c"
  by (simp_all add: observe_commit_baseline_def)

lemma count_low_fill_sel [simp]:
  "bc_limits (count_low_fill f b r c) = bc_limits c" "bc_batch_wait (count_low_fill f b r c) = bc_batch_wait c"
  "bc_batch (count_low_fill f b r c) = bc_batch c" "bc_request_rate (count_low_fill f b r c) = bc_request_rate c"
  by (simp_all add: count_low_fill_def Let_def)

lemma set_size_sel [simp]: "ab_min (set_size n b) = ab_min b" "ab_max (set_size n b) = ab_max b"
  by (simp_all add: set_size_def)

lemma reset_direction_sel [simp]: "ab_min (reset_direction b) = ab_min b" "ab_max (reset_direction b) = ab_max b"
  by (simp_all add: reset_direction_def)

text \<open>Both size adjustments change only the batch and bookkeeping.\<close>

lemma shrink_batch_sel [simp]:
  "bc_limits (shrink_batch c) = bc_limits c" "bc_batch_wait (shrink_batch c) = bc_batch_wait c"
  "bc_request_rate (shrink_batch c) = bc_request_rate c"
  by (simp_all add: shrink_batch_def Let_def)

lemma shrink_batch_ok: "limits_ok c \<Longrightarrow> limits_ok (shrink_batch c)"
  by (rule limits_ok_batch, assumption) (auto simp: shrink_batch_def Let_def limits_ok_def intro: reset_direction_ok set_size_ok)

lemma limits_ok_observe: "limits_ok c \<Longrightarrow> limits_ok (c\<lparr>bc_batch := snd (observe_direction d (bc_batch c))\<rparr>)"
  by (simp add: limits_ok_def observe_direction_ok)

lemma limits_ok_baseline [simp]: "limits_ok (c\<lparr>bc_goodput_baseline := x\<rparr>) = limits_ok c"
  by (simp add: limits_ok_def)

lemma adjust_batch_size_ok:
  assumes "limits_ok c"
  shows "limits_ok (adjust_batch_size c)" "bc_limits (adjust_batch_size c) = bc_limits c"
    "bc_batch_wait (adjust_batch_size c) = bc_batch_wait c" "bc_request_rate (adjust_batch_size c) = bc_request_rate c"
  using assms shrink_batch_ok [OF assms] limits_ok_observe [OF assms]
  by (auto simp: adjust_batch_size_def Let_def split: option.split)

lemma adjust_completion_batch_size_ok:
  assumes "limits_ok c"
  shows "limits_ok (adjust_completion_batch_size c)" "bc_limits (adjust_completion_batch_size c) = bc_limits c"
    "bc_batch_wait (adjust_completion_batch_size c) = bc_batch_wait c"
    "bc_request_rate (adjust_completion_batch_size c) = bc_request_rate c"
proof -
  have ok: "limits_ok (c\<lparr>bc_batch := b, bc_goodput_baseline := x\<rparr>)" if "observe_direction d (bc_batch c) = (ch, b)" for b x d ch
    using limits_ok_observe [OF assms, of d] that by (simp add: limits_ok_def)
  have zero: "limits_ok (c\<lparr>bc_goodput_baseline := x, bc_batch := snd (observe_direction 0 (bc_batch c))\<rparr>)" for x
    using limits_ok_observe [OF assms, of 0] by (simp add: limits_ok_def)
  show "limits_ok (adjust_completion_batch_size c)" "bc_limits (adjust_completion_batch_size c) = bc_limits c"
    "bc_batch_wait (adjust_completion_batch_size c) = bc_batch_wait c"
    "bc_request_rate (adjust_completion_batch_size c) = bc_request_rate c"
    using assms shrink_batch_ok [OF assms] ok zero
    by (auto simp: adjust_completion_batch_size_def Let_def split: option.split prod.split)
qed

lemma adjust_batch_wait_ok:
  assumes "limits_ok c" and "adjust_batch_wait c = Some c'"
  shows "limits_ok c' \<and> bc_limits c' = bc_limits c"
proof -
  have "bo_batch_wait_min (bc_limits c) \<le> bo_batch_wait_max (bc_limits c)" using assms(1) by (simp add: limits_ok_def)
  note cl = clamp_bounds [OF this]
  have "limits_ok (c\<lparr>bc_wait_streak := s, bc_batch_wait := clamp n (bo_batch_wait_min (bc_limits c)) (bo_batch_wait_max (bc_limits c))\<rparr>)" for s n
    using assms(1) cl by (simp add: limits_ok_def)
  moreover have "limits_ok (c\<lparr>bc_wait_streak := s\<rparr>)" for s using assms(1) by (simp add: limits_ok_def)
  ultimately show ?thesis
    using assms unfolding adjust_batch_wait_def
    by (auto simp: Let_def split: option.splits if_splits prod.splits)
qed

text \<open>What the writers tell a controller, and a run of it.\<close>

datatype ControllerOp =
    Requested nat
  | Committed nat duration nat nat FlushReason
  | CompletionsCommitted nat duration nat nat FlushReason

fun controller_step :: "ControllerOp \<Rightarrow> AdaptiveBatchController \<Rightarrow> AdaptiveBatchController option" where
  "controller_step (Requested now) c = Some (observe_request now c)"
| "controller_step (Committed filled elapsed t backlog reason) c = record_successful_commit filled elapsed t backlog reason c"
| "controller_step (CompletionsCommitted filled elapsed t backlog reason) c =
     record_successful_completion_commit filled elapsed t backlog reason c"

fun controller_run :: "ControllerOp list \<Rightarrow> AdaptiveBatchController \<Rightarrow> AdaptiveBatchController option" where
  "controller_run [] c = Some c"
| "controller_run (op # ops) c = (case controller_step op c of None \<Rightarrow> None | Some c' \<Rightarrow> controller_run ops c')"

text \<open>The state a commit hands to the adjustment of the size.\<close>

lemma limits_ok_same:
  assumes "limits_ok c" "bc_limits c' = bc_limits c" "bc_batch_wait c' = bc_batch_wait c" "bc_batch c' = bc_batch c"
  shows "limits_ok c'"
  using assms by (simp add: limits_ok_def)

lemma record_commit_eq:
  "\<exists>c1. record_successful_commit filled elapsed t backlog reason c = adjust_batch_wait (adjust_batch_size c1) \<and>
     bc_limits c1 = bc_limits c \<and> bc_batch_wait c1 = bc_batch_wait c \<and> bc_batch c1 = bc_batch c \<and>
     bc_request_rate c1 = bc_request_rate c"
  unfolding record_successful_commit_def Let_def by (rule exI, rule conjI, rule refl) (simp split: option.split)

lemma record_completion_commit_eq:
  "\<exists>c1. record_successful_completion_commit filled elapsed t backlog reason c = adjust_batch_wait (adjust_completion_batch_size c1) \<and>
     bc_limits c1 = bc_limits c \<and> bc_batch_wait c1 = bc_batch_wait c \<and> bc_batch c1 = bc_batch c \<and>
     bc_request_rate c1 = bc_request_rate c"
  unfolding record_successful_completion_commit_def Let_def by (rule exI, rule conjI, rule refl) simp

lemma controller_step_ok:
  assumes ok: "limits_ok c" and st: "controller_step op c = Some c'"
  shows "limits_ok c' \<and> bc_limits c' = bc_limits c"
proof (cases op)
  case (Requested now)
  then show ?thesis using assms limits_ok_same [OF ok, of "observe_request now c"] by auto
next
  case (Committed filled elapsed t backlog reason)
  obtain c1 where c1: "controller_step op c = adjust_batch_wait (adjust_batch_size c1)" "bc_limits c1 = bc_limits c"
    "bc_batch_wait c1 = bc_batch_wait c" "bc_batch c1 = bc_batch c"
    using record_commit_eq [of filled elapsed t backlog reason c] Committed by auto
  have "limits_ok c1" by (rule limits_ok_same [OF ok c1(2-4)])
  from adjust_batch_wait_ok [OF adjust_batch_size_ok(1) [OF this]] adjust_batch_size_ok(2) [OF this] c1(1,2) st
  show ?thesis by simp
next
  case (CompletionsCommitted filled elapsed t backlog reason)
  obtain c1 where c1: "controller_step op c = adjust_batch_wait (adjust_completion_batch_size c1)" "bc_limits c1 = bc_limits c"
    "bc_batch_wait c1 = bc_batch_wait c" "bc_batch c1 = bc_batch c"
    using record_completion_commit_eq [of filled elapsed t backlog reason c] CompletionsCommitted by auto
  have "limits_ok c1" by (rule limits_ok_same [OF ok c1(2-4)])
  from adjust_batch_wait_ok [OF adjust_completion_batch_size_ok(1) [OF this]] adjust_completion_batch_size_ok(2) [OF this] c1(1,2) st
  show ?thesis by simp
qed

lemma controller_run_ok: "limits_ok c \<Longrightarrow> controller_run ops c = Some c' \<Longrightarrow> limits_ok c' \<and> bc_limits c' = bc_limits c"
proof (induction ops arbitrary: c)
  case (Cons op ops)
  from Cons.prems(2) obtain c1 where "controller_step op c = Some c1" "controller_run ops c1 = Some c'" by (auto split: option.splits)
  with controller_step_ok [OF Cons.prems(1)] Cons.IH show ?case by metis
qed simp

lemma BatchOptions_validate_Inr:
  "BatchOptions_validate sec o' = Inr () \<Longrightarrow>
     0 < bo_batch_size_min o' \<and> bo_batch_size_min o' \<le> bo_batch_size_max o' \<and>
     0 < bo_batch_wait_min o' \<and> bo_batch_wait_min o' \<le> bo_batch_wait_max o'"
  by (auto simp: BatchOptions_validate_def split: if_splits)

lemma AdaptiveBatchController_new_ok: "BatchOptions_validate sec o' = Inr () \<Longrightarrow> limits_ok (AdaptiveBatchController_new o')"
  by (drule BatchOptions_validate_Inr)
     (simp add: limits_ok_def AdaptiveBatchController_new_def AdaptiveBatch_new_ok, simp add: AdaptiveBatch_new_def)

lemma enqueue_defaults_valid: "BatchOptions_validate ''persistence.enqueue'' enqueue_defaults = Inr ()"
proof -
  obtain pf where "rnd (11 / 10) = Fin pf" "101 / 100 \<le> pf" using default_factors(1) by blast
  moreover obtain bf where "rnd (8 / 10) = Fin bf" "0 \<le> bf" "bf \<le> 99 / 100" using default_factors(2) by blast
  ultimately show ?thesis by (simp add: BatchOptions_validate_def enqueue_defaults_def from_millis_def f64_le_def)
qed

text \<open>
  C31. Adaptive batching stays within the configured limits. For options that pass validation, no
  sequence of requests and commits, whatever they measure (the rates may be infinite, the arithmetic
  rounds), takes the batch size or the waiting time out of its configured interval; in particular
  the size never becomes zero.
\<close>

theorem adaptive_batching_within_limits:
  assumes "BatchOptions_validate sec o' = Inr ()" and "controller_run ops (AdaptiveBatchController_new o') = Some c"
  shows "0 < batch_size c \<and> bo_batch_size_min o' \<le> batch_size c \<and> batch_size c \<le> bo_batch_size_max o' \<and>
    bo_batch_wait_min o' \<le> bc_batch_wait c \<and> bc_batch_wait c \<le> bo_batch_wait_max o'"
  using controller_run_ok [OF AdaptiveBatchController_new_ok [OF assms(1)] assms(2)] BatchOptions_validate_Inr [OF assms(1)]
  by (auto simp: limits_ok_def batch_ok_def batch_size_def AdaptiveBatchController_new_def)

theorem adaptive_batching_within_limits_witness:
  "\<exists>c. controller_run [Requested 5, Requested 9] (AdaptiveBatchController_new enqueue_defaults) = Some c \<and>
     64 \<le> batch_size c \<and> batch_size c \<le> 8192"
proof -
  from adaptive_batching_within_limits [OF enqueue_defaults_valid, of "[Requested 5, Requested 9]"] show ?thesis by (simp add: enqueue_defaults_def)
qed

section \<open>Commits do not panic\<close>

lemma rnd_bound:
  assumes "0 \<le> x" and "x \<le> B" and "B \<le> 2 ^ 64"
  shows "\<exists>y. rnd x = Fin y \<and> 0 \<le> y \<and> y \<le> 2 * B + 1"
proof -
  have "(2 :: rat) ^ 64 \<le> pow2 1022" using pow2_mono [of 64 1022] by (simp add: pow2_def)
  with assms(2,3) have "x \<le> pow2 1022" by linarith
  from rnd_close [OF assms(1) this] obtain y where y: "rnd x = Fin y" "0 \<le> y" "\<bar>y - x\<bar> \<le> x / 2 ^ 53 + pow2 (- 1075)" by blast
  have "x / 2 ^ 53 \<le> x" "pow2 (- 1075) \<le> 1" using assms(1) tiny by (simp_all add: field_simps)
  then have "y \<le> 2 * B + 1" using y(3) assms(2) by linarith
  with y show ?thesis by blast
qed

lemma of_usize_bound:
  assumes "n \<le> m" and "m \<le> 2 ^ 60"
  shows "\<exists>x. of_usize n = Fin x \<and> 0 \<le> x \<and> x \<le> 2 * of_nat m + 1"
proof -
  have "(of_nat m :: rat) \<le> of_nat (2 ^ 60)" "(of_nat n :: rat) \<le> of_nat m" using assms by (simp_all only: of_nat_le_iff)
  then show ?thesis unfolding of_usize_def using rnd_bound [of "of_nat n" "of_nat m"] by simp
qed

lemma from_secs_f64_ok:
  assumes "0 \<le> x" and "x \<le> 2 ^ 63"
  shows "\<exists>d. from_secs_f64 (Fin x) = Some d"
proof -
  have "of_int (round_half_even (x * 1000000000)) \<le> x * 1000000000 + (1 / 2 :: rat)"
    using round_half_even_close [of "x * 1000000000"] by linarith
  also have "\<dots> \<le> 2 ^ 63 * 1000000000 + 1 / 2" using assms(2) by simp
  also have "\<dots> < of_int duration_limit" by (simp add: duration_limit_def)
  finally have "round_half_even (x * 1000000000) < duration_limit" by (simp only: of_int_less_iff)
  with assms(1) show ?thesis by (simp add: Let_def)
qed

text \<open>Durations up to about a million years are far from overflow.\<close>

lemma as_secs_f64_le:
  assumes "d \<le> 2 ^ 45 * 1000000000"
  shows "\<exists>x. as_secs_f64 d = Fin x \<and> 0 \<le> x \<and> x \<le> 2 ^ 50"
proof -
  have "d div 1000000000 \<le> 2 ^ 45" using div_le_mono [OF assms, of 1000000000] by simp
  from of_usize_bound [OF this] obtain a where a: "of_usize (d div 1000000000) = Fin a" "0 \<le> a" "a \<le> 2 ^ 46 + 1" by auto
  have "d mod 1000000000 \<le> 1000000000" by simp
  from of_usize_bound [OF this] obtain b where b: "of_usize (d mod 1000000000) = Fin b" "0 \<le> b" "b \<le> 2000000001" by auto
  from rnd_bound [of "b / 1000000000" 3] b(2,3) obtain q where q: "rnd (b / 1000000000) = Fin q" "0 \<le> q" "q \<le> 7" by auto
  from rnd_bound [of "a + q" "2 ^ 46 + 8"] a(2,3) q(2,3) obtain x where "rnd (a + q) = Fin x" "0 \<le> x" "x \<le> 2 * (2 ^ 46 + 8) + 1" by auto
  then show ?thesis using a b(1) q by (auto simp: as_secs_f64_def)
qed

lemma f64_max_Fin: "f64_max (Fin x) (Fin y) = Fin (max x y)"
  by (simp add: f64_max_def max_def)

text \<open>The rate of requests, when there is one, is at least one request in \<open>2 ^ 30\<close> seconds (thirty-four years).\<close>

definition rate_ok :: "AdaptiveBatchController \<Rightarrow> bool" where
  "rate_ok c \<longleftrightarrow> (\<forall>r. ew_value (bc_request_rate c) = Some (Fin r) \<and> 0 < r \<longrightarrow> 1 / 2 ^ 30 \<le> r)"

lemma desired_wait_ok:
  assumes n: "n \<le> 2 ^ 24" and rate: "rate = Inf False \<or> (\<exists>r. rate = Fin r \<and> 0 < r \<and> 1 / 2 ^ 30 \<le> r)"
  shows "\<exists>x. f64_div (f64_mul (of_usize n) (rnd (75 / 100))) rate = Fin x \<and> 0 \<le> x \<and> x \<le> 2 ^ 62"
proof -
  from of_usize_bound [OF n] obtain a where a: "of_usize n = Fin a" "0 \<le> a" "a \<le> 2 ^ 25 + 1" by auto
  from rnd_bound [of "75 / 100" 1] obtain k where k: "rnd (75 / 100) = Fin k" "0 \<le> k" "k \<le> 3" by auto
  have "a * k \<le> (2 ^ 25 + 1) * 3" using a k by (intro mult_mono) simp_all
  from rnd_bound [OF _ this] a(2) k(2) obtain p where p: "rnd (a * k) = Fin p" "0 \<le> p" "p \<le> 2 ^ 28" by auto
  from rate show ?thesis
  proof (elim disjE exE conjE)
    fix r assume r: "rate = Fin r" "0 < r" "1 / 2 ^ 30 \<le> r"
    have "p / r \<le> 2 ^ 28 / (1 / 2 ^ 30)" using p(2,3) r(2,3) by (intro frac_le) simp_all
    then have "p / r \<le> 2 ^ 58" by simp
    from rnd_bound [OF _ this] p(2) r(2) obtain x where "rnd (p / r) = Fin x" "0 \<le> x" "x \<le> 2 ^ 62" by auto
    then show ?thesis using a(1) k(1) p(1) r by simp
  qed (use a k p in simp)
qed

lemma adjust_batch_wait_returns:
  assumes ok: "limits_ok c" and max: "bo_batch_size_max (bc_limits c) \<le> 2 ^ 24" "bo_batch_wait_max (bc_limits c) \<le> 2 ^ 45 * 1000000000"
    and rate: "rate_ok c"
  shows "adjust_batch_wait c \<noteq> None"
proof (cases "ew_value (bc_request_rate c)")
  case (Some v)
  have n: "batch_size c \<le> 2 ^ 24" using ok max(1) by (simp add: limits_ok_def batch_ok_def batch_size_def)
  have waits: "bo_batch_wait_min (bc_limits c) \<le> 2 ^ 45 * 1000000000" "bc_batch_wait c \<le> 2 ^ 45 * 1000000000"
    using ok max(2) by (simp_all add: limits_ok_def)
  from as_secs_f64_le [OF waits(1)] obtain lo where lo: "as_secs_f64 (bo_batch_wait_min (bc_limits c)) = Fin lo" "0 \<le> lo" "lo \<le> 2 ^ 50" by blast
  from as_secs_f64_le [OF waits(2)] obtain w where w: "as_secs_f64 (bc_batch_wait c) = Fin w" "0 \<le> w" "w \<le> 2 ^ 50" by blast
  have scaled: "\<exists>d. from_secs_f64 (f64_mul (Fin w) (rnd q)) = Some d" if q: "0 \<le> q" "q \<le> 2" for q
  proof -
    from rnd_bound [OF q] obtain k where k: "rnd q = Fin k" "0 \<le> k" "k \<le> 5" by auto
    have "w * k \<le> 2 ^ 50 * 5" using w k by (intro mult_mono) simp_all
    from rnd_bound [OF _ this] w(2) k(2) obtain y where "rnd (w * k) = Fin y" "0 \<le> y" "y \<le> 2 ^ 63" by auto
    with k(1) from_secs_f64_ok [of y] show ?thesis by (simp del: from_secs_f64.simps)
  qed
  show ?thesis
  proof (cases "f64_lt (Fin 0) v")
    case True
    with rate Some have "v = Inf False \<or> (\<exists>r. v = Fin r \<and> 0 < r \<and> 1 / 2 ^ 30 \<le> r)"
      by (cases v) (auto simp: rate_ok_def)
    from desired_wait_ok [OF n this] obtain x where
      x: "f64_div (f64_mul (of_usize (batch_size c)) (rnd (75 / 100))) v = Fin x" "0 \<le> x" "x \<le> 2 ^ 62" by blast
    have x3: "f64_div (f64_mul (of_usize (batch_size c)) (rnd (3 / 4))) v = Fin x" using x(1) by simp
    have "0 \<le> max x lo" "max x lo \<le> 2 ^ 63" using x(2,3) lo by (simp_all add: max_def)
    from from_secs_f64_ok [OF this] obtain d where d: "from_secs_f64 (Fin (max x lo)) = Some d" by blast
    show ?thesis
      using Some True d scaled [of "125 / 100"] scaled [of "80 / 100"] unfolding adjust_batch_wait_def
      by (auto simp: Let_def x3 lo(1) w(1) f64_max_Fin simp del: from_secs_f64.simps split: prod.split)
  qed (use Some in \<open>simp add: adjust_batch_wait_def\<close>)
qed (simp add: adjust_batch_wait_def)

text \<open>
  The conversions to \<open>Duration\<close> in \<open>adjust_batch_wait\<close> panic on values that are negative, infinite or too
  large; for a controller within its limits, with a maximal batch of at most \<open>2 ^ 24\<close> rows, a maximal wait
  of at most \<open>2 ^ 45\<close> seconds and a measured request rate of at least one request in \<open>2 ^ 30\<close> seconds, every
  commit and every completion commit returns.
\<close>

lemma commits_return:
  assumes ok: "limits_ok c" and max: "bo_batch_size_max (bc_limits c) \<le> 2 ^ 24" "bo_batch_wait_max (bc_limits c) \<le> 2 ^ 45 * 1000000000"
    and rate: "rate_ok c"
  shows "(\<exists>c'. record_successful_commit filled elapsed t backlog reason c = Some c') \<and>
    (\<exists>c'. record_successful_completion_commit filled elapsed t backlog reason c = Some c')"
proof
  obtain c1 where c1: "record_successful_commit filled elapsed t backlog reason c = adjust_batch_wait (adjust_batch_size c1)"
    "bc_limits c1 = bc_limits c" "bc_batch_wait c1 = bc_batch_wait c" "bc_batch c1 = bc_batch c" "bc_request_rate c1 = bc_request_rate c"
    using record_commit_eq by blast
  note a1 = adjust_batch_size_ok [OF limits_ok_same [OF ok c1(2-4)]]
  from adjust_batch_wait_returns [OF a1(1)] a1(2,4) c1 max rate
  show "\<exists>c'. record_successful_commit filled elapsed t backlog reason c = Some c'" by (simp add: rate_ok_def)
  obtain c2 where c2: "record_successful_completion_commit filled elapsed t backlog reason c = adjust_batch_wait (adjust_completion_batch_size c2)"
    "bc_limits c2 = bc_limits c" "bc_batch_wait c2 = bc_batch_wait c" "bc_batch c2 = bc_batch c" "bc_request_rate c2 = bc_request_rate c"
    using record_completion_commit_eq by blast
  note a2 = adjust_completion_batch_size_ok [OF limits_ok_same [OF ok c2(2-4)]]
  from adjust_batch_wait_returns [OF a2(1)] a2(2,4) c2 max rate
  show "\<exists>c'. record_successful_completion_commit filled elapsed t backlog reason c = Some c'" by (simp add: rate_ok_def)
qed

section \<open>Properties of the lanes\<close>

text \<open>
  A turn of the results writer: what waits in the two lanes, the clock, and how many rows the turn
  wrote in which time (none when it failed).
\<close>

record LaneTurn =
  lt_dispatch_rows :: nat
  lt_dispatch_oldest :: "nat option"
  lt_completion_rows :: nat
  lt_completion_oldest :: "nat option"
  lt_now :: nat
  lt_written :: nat
  lt_duration :: duration

definition lane_turn :: "LaneTurn \<Rightarrow> ResultsLaneController \<Rightarrow> ResultsLane option \<times> ResultsLaneController" where
  "lane_turn t c =
     (case select (lt_dispatch_rows t) (lt_dispatch_oldest t) (lt_completion_rows t) (lt_completion_oldest t) (lt_now t) c of
        (None, c1) \<Rightarrow> (None, c1)
      | (Some (lane, _), c1) \<Rightarrow> (Some lane, record_turn lane (observe_success lane (lt_written t) (lt_duration t) c1)))"

fun lane_turns :: "LaneTurn list \<Rightarrow> ResultsLaneController \<Rightarrow> ResultsLane option list \<times> ResultsLaneController" where
  "lane_turns [] c = ([], c)"
| "lane_turns (t # ts) c = (let (l, c1) = lane_turn t c; (ls, c2) = lane_turns ts c1 in (l # ls, c2))"

definition both_waiting :: "LaneTurn \<Rightarrow> bool" where
  "both_waiting t \<longleftrightarrow> 0 < lt_dispatch_rows t \<and> 0 < lt_completion_rows t"

lemma observe_success_sel [simp]:
  "lc_preferred (observe_success l n d c) = lc_preferred c" "lc_preferred_turns (observe_success l n d c) = lc_preferred_turns c"
  "lc_streak (observe_success l n d c) = lc_streak c"
  by (cases l; simp add: observe_success_def Let_def)+

lemma record_turn_sel [simp]: "lc_preferred (record_turn l c) = lc_preferred c"
  by (simp add: record_turn_def)

text \<open>How many more turns in a row a lane can get.\<close>

definition patience :: "ResultsLane \<Rightarrow> ResultsLaneController \<Rightarrow> nat" where
  "patience l c =
     (if lc_preferred c = Some l then 32 - lc_preferred_turns c else if 32 \<le> lc_preferred_turns c then 33 else 32)"

lemma other_lane_neq [simp]: "other_lane l \<noteq> l" "other_lane (other_lane l) = l"
  by (cases l; simp)+

lemma lane_eq_other: "l \<noteq> p \<Longrightarrow> l = other_lane p"
  by (cases l; cases p; simp)

text \<open>The preference changes only to a lane whose count of turns starts again.\<close>

lemma update_preferred_cases:
  "lc_preferred (update_preferred d c) = lc_preferred c \<and> lc_preferred_turns (update_preferred d c) = lc_preferred_turns c \<or>
   (\<exists>l. lc_preferred (update_preferred d c) = Some l \<and> lc_preferred c \<noteq> Some l \<and> lc_preferred_turns (update_preferred d c) = 0)"
  by (auto simp: update_preferred_def Let_def split: prod.splits)

lemma lane_turn_step:
  assumes "both_waiting t" and p: "lc_preferred c \<noteq> None" "lc_preferred_turns c \<le> 32" and turn: "lane_turn t c = (l, c')"
  shows "lc_preferred c' \<noteq> None \<and> lc_preferred_turns c' \<le> 32 \<and> (\<exists>k. l = Some k \<and> patience k c' < patience k c)"
proof -
  let ?d = "lane_direction (pressure Dispatch (lt_dispatch_rows t) (lt_dispatch_oldest t) (lt_now t) c)
     (pressure Completion (lt_completion_rows t) (lt_completion_oldest t) (lt_now t) c)"
  define c1 where "c1 = update_preferred ?d c"
  obtain p1 where p1: "lc_preferred c1 = Some p1" using update_preferred_cases [of ?d c] p(1) by (auto simp: c1_def)
  have t1: "lc_preferred_turns c1 \<le> 32" "lc_preferred c = Some p1 \<Longrightarrow> lc_preferred_turns c1 = lc_preferred_turns c"
    "lc_preferred c \<noteq> Some p1 \<Longrightarrow> lc_preferred_turns c1 = 0"
    using update_preferred_cases [of ?d c] p p1 by (auto simp: c1_def)
  show ?thesis
  proof (cases "32 \<le> lc_preferred_turns c1")
    case True
    then have "l = Some (other_lane p1)" "lc_preferred c' = Some p1" "lc_preferred_turns c' = 0"
      using turn assms(1) p1 other_lane_neq(1) [of p1] unfolding both_waiting_def
      by (auto simp: lane_turn_def select_def Let_def c1_def [symmetric] MAX_RESULTS_PREFERRED_LANE_TURNS_def record_turn_def)
    moreover have "lc_preferred c = Some p1" using True t1(3) by auto
    ultimately show ?thesis using True t1(2) other_lane_neq(1) [of p1] by (auto simp: patience_def dest: sym)
  next
    case False
    then have "l = Some p1" "lc_preferred c' = Some p1" "lc_preferred_turns c' = Suc (lc_preferred_turns c1)"
      using turn assms(1) p1 unfolding both_waiting_def
      by (auto simp: lane_turn_def select_def Let_def c1_def [symmetric] MAX_RESULTS_PREFERRED_LANE_TURNS_def record_turn_def usize_max_def)
    with False t1 show ?thesis by (auto simp: patience_def)
  qed
qed

lemma lane_turns_same:
  assumes "list_all both_waiting ts" and "lc_preferred c \<noteq> None" "lc_preferred_turns c \<le> 32"
    and "lane_turns ts c = (ls, c')" and "set ls \<subseteq> {Some l}"
  shows "length ts \<le> patience l c"
  using assms
proof (induction ts arbitrary: c ls)
  case (Cons t ts)
  obtain l1 c1 where one: "lane_turn t c = (l1, c1)" by fastforce
  obtain ls2 where rest: "lane_turns ts c1 = (ls2, c')" "ls = l1 # ls2" using Cons.prems(4) one by (auto split: prod.splits)
  have t: "both_waiting t" "list_all both_waiting ts" using Cons.prems(1) by simp_all
  from lane_turn_step [OF t(1) Cons.prems(2,3) one] rest(2) Cons.prems(5)
  have c1: "lc_preferred c1 \<noteq> None" "lc_preferred_turns c1 \<le> 32" "patience l c1 < patience l c" by auto
  from Cons.IH [OF t(2) c1(1,2) rest(1)] rest(2) Cons.prems(5) c1(3) show ?case by auto
qed simp

lemma lane_turns_lanes:
  assumes "list_all both_waiting ts" and "lc_preferred c \<noteq> None" "lc_preferred_turns c \<le> 32" and "lane_turns ts c = (ls, c')"
  shows "None \<notin> set ls"
  using assms
proof (induction ts arbitrary: c ls)
  case (Cons t ts)
  obtain l1 c1 where one: "lane_turn t c = (l1, c1)" by fastforce
  obtain ls2 where rest: "lane_turns ts c1 = (ls2, c')" "ls = l1 # ls2" using Cons.prems(4) one by (auto split: prod.splits)
  have t: "both_waiting t" "list_all both_waiting ts" using Cons.prems(1) by simp_all
  from lane_turn_step [OF t(1) Cons.prems(2,3) one] Cons.IH [OF t(2) _ _ rest(1)] rest(2) show ?case by auto
qed simp

text \<open>
  No lane of the results writer starves once a lane is preferred. While dispatches and completions
  both wait, any thirty-four turns in a row serve both lanes, whatever the pressures,
  the clock and the success of the turns: a preferred lane gets at most thirty-two turns before the other
  one must be served, and a change of the preference adds at most one.
\<close>

theorem lanes_take_turns:
  assumes "list_all both_waiting ts" and "34 \<le> length ts"
    and "lc_preferred c \<noteq> None" "lc_preferred_turns c \<le> MAX_RESULTS_PREFERRED_LANE_TURNS"
    and "lane_turns ts c = (ls, c')"
  shows "Some Dispatch \<in> set ls \<and> Some Completion \<in> set ls"
proof (rule ccontr)
  have t: "lc_preferred_turns c \<le> 32" using assms(4) by (simp add: MAX_RESULTS_PREFERRED_LANE_TURNS_def)
  assume "\<not> (Some Dispatch \<in> set ls \<and> Some Completion \<in> set ls)"
  then obtain l where "Some (other_lane l) \<notin> set ls" by (metis other_lane.simps)
  have "set ls \<subseteq> {Some l}"
  proof
    fix x assume x: "x \<in> set ls"
    then have "x \<noteq> None" using lane_turns_lanes [OF assms(1,3) t assms(5)] by metis
    then obtain k where k: "x = Some k" by blast
    with x \<open>Some (other_lane l) \<notin> set ls\<close> show "x \<in> {Some l}" using lane_eq_other [of k l] by auto
  qed
  from lane_turns_same [OF assms(1,3) t assms(5) this] assms(2) show False by (simp add: patience_def split: if_splits)
qed

definition sample_turn :: LaneTurn where
  "sample_turn = \<lparr>lt_dispatch_rows = 5, lt_dispatch_oldest = Some 1, lt_completion_rows = 7, lt_completion_oldest = Some 2,
     lt_now = 9, lt_written = 0, lt_duration = 0\<rparr>"

theorem lanes_take_turns_witness:
  "Some Dispatch \<in> set (fst (lane_turns (replicate 34 sample_turn) ((ResultsLaneController_new 16)\<lparr>lc_preferred := Some Completion\<rparr>)))"
proof -
  let ?c = "(ResultsLaneController_new 16)\<lparr>lc_preferred := Some Completion\<rparr>"
  obtain ls c' where "lane_turns (replicate 34 sample_turn) ?c = (ls, c')" by fastforce
  moreover have "list_all both_waiting (replicate 34 sample_turn)" by (simp add: both_waiting_def sample_turn_def list_all_iff)
  ultimately show ?thesis using lanes_take_turns [of "replicate 34 sample_turn" ?c ls c']
    by (simp add: ResultsLaneController_new_def MAX_RESULTS_PREFERRED_LANE_TURNS_def)
qed

text \<open>
  Before the first success the cap on turns does not apply. A new controller prefers no lane and has
  no estimates, so every comparison is a tie and the tie always goes to completions: while
  completions keep failing and both lanes wait, dispatches are never served, however many turns pass.
\<close>

theorem dispatch_starves_before_first_success:
  assumes "list_all both_waiting ts" and "\<forall>t\<in>set ts. lt_written t = 0"
  shows "lane_turns ts (ResultsLaneController_new w) = (replicate (length ts) (Some Completion), ResultsLaneController_new w)"
proof -
  have "lane_turn t (ResultsLaneController_new w) = (Some Completion, ResultsLaneController_new w)"
    if "both_waiting t" "lt_written t = 0" for t
    using that unfolding both_waiting_def
    by (simp add: lane_turn_def select_def pressure_def or_else_def lane_direction_def update_preferred_def confirm_zero
        ResultsLaneController_new_def Ewma_new_def observe_success_def record_turn_def split: ResultsLane.split)
  then show ?thesis using assms by (induction ts) (simp_all add: Let_def)
qed

theorem dispatch_starves_before_first_success_witness:
  "fst (lane_turns (replicate 1000 sample_turn) (ResultsLaneController_new 16)) = replicate 1000 (Some Completion)"
  using dispatch_starves_before_first_success [of "replicate 1000 sample_turn" 16]
  by (simp add: both_waiting_def sample_turn_def list_all_iff)

end
