(* ===== verification/Maq_Rate.thy ===== *)
theory Maq_Rate
  imports Maq_Adaptive_Runs
begin

text \<open>
  The batch controller never panics: the measured request rate, a moving average computed with
  rounding, stays in a range in which the conversions to \<open>Duration\<close> succeed.
\<close>

section \<open>The request rate stays in range\<close>

text \<open>Small integers are exact, and rounding does not pass one.\<close>

lemma rnd_of_nat: "n < 2 ^ 53 \<Longrightarrow> rnd (of_nat n) = Fin (of_nat n)"
proof (cases "n = 0")
  case False
  assume n: "n < 2 ^ 53"
  define k where "k = log2_floor (of_nat n)"
  have "(of_nat n :: rat) < of_nat (2 ^ 53)" using n by (simp only: of_nat_less_iff)
  moreover have "pow2 k \<le> of_nat n" unfolding k_def by (rule log2_floor_le) (use False in simp)
  ultimately have "pow2 k < pow2 53" by (simp add: pow2_def)
  then have k: "k < 53" using pow2_mono [of 53 k] by linarith
  define e where "e = max (k - 52) (- 1074)"
  have e: "e \<le> 0" "ulp_exp (of_nat n) = e" using k by (simp_all add: e_def ulp_exp_def k_def)
  define m where "m = int n * 2 ^ nat (- e)"
  have m: "of_nat n / pow2 e = of_int m" using e(1) by (simp add: pow2_def m_def)
  then have "of_int (round_half_even (of_nat n / pow2 e)) * pow2 e = of_nat n"
    using pow2_pos [of e] by (simp add: nonzero_divide_eq_eq)
  moreover have "(of_nat n :: rat) < pow2 1024" using \<open>of_nat n < of_nat (2 ^ 53)\<close> pow2_mono [of 53 1024] by (simp add: pow2_def)
  ultimately show ?thesis using False by (simp add: rnd_def e(2) Let_def)
qed (simp add: rnd_def)

lemma round_half_even_le: "x \<le> of_int k \<Longrightarrow> round_half_even x \<le> k"
proof -
  assume x: "x \<le> of_int k"
  then have "\<lfloor>x\<rfloor> \<le> k" by linarith
  moreover have "x = of_int k" if "\<lfloor>x\<rfloor> = k" using that x by linarith
  ultimately show ?thesis by (cases "\<lfloor>x\<rfloor> = k") (auto simp: round_half_even_def Let_def)
qed

lemma rnd_le_1:
  assumes "0 < x" "x \<le> 1" and "rnd x = Fin y"
  shows "y \<le> 1"
proof -
  have "pow2 (log2_floor x) \<le> 1" using log2_floor_le [OF assms(1)] assms(2) by linarith
  moreover have "1 < pow2 k" if "0 < k" for k using that by (simp add: pow2_def)
  ultimately have "log2_floor x \<le> 0" by (meson linorder_not_less)
  then have e: "ulp_exp x \<le> 0" using assms(1) by (simp add: ulp_exp_def)
  define e where "e = ulp_exp x"
  have one: "of_int (2 ^ nat (- e)) * pow2 e = 1" using e by (simp add: e_def pow2_def)
  have "x / pow2 e \<le> of_int (2 ^ nat (- e))"
    using assms(2) one pow2_pos [of e] by (simp add: pos_divide_le_eq del: of_int_power)
  then have "round_half_even (x / pow2 e) \<le> 2 ^ nat (- e)" by (rule round_half_even_le)
  then have "(of_int (round_half_even (x / pow2 e)) :: rat) \<le> of_int (2 ^ nat (- e))" by (simp only: of_int_le_iff)
  then have "of_int (round_half_even (x / pow2 e)) * pow2 e \<le> of_int (2 ^ nat (- e)) * pow2 e"
    by (rule mult_right_mono) (simp add: less_imp_le)
  then have "of_int (round_half_even (x / pow2 e)) * pow2 e \<le> 1" by (simp only: one)
  then show ?thesis using assms(1,3) by (auto simp: rnd_def Let_def e_def split: if_splits)
qed

lemma tinier: "pow2 (- 1075) \<le> 1 / 2 ^ 100"
  using pow2_mono [of "- 1075" "- 100"] by (simp add: pow2_def)

text \<open>The error bound with constants, for the range the rates are in.\<close>

lemma rnd_range:
  assumes "0 \<le> x" and "x \<le> 2 ^ 64"
  shows "\<exists>y. rnd x = Fin y \<and> 0 \<le> y \<and> x - x / 2 ^ 53 - 1 / 2 ^ 100 \<le> y \<and> y \<le> x + x / 2 ^ 53 + 1 / 2 ^ 100"
proof -
  have "(2 :: rat) ^ 64 \<le> pow2 1022" using pow2_mono [of 64 1022] by (simp add: pow2_def)
  with assms(2) have "x \<le> pow2 1022" by linarith
  from rnd_close [OF assms(1) this] obtain y where "rnd x = Fin y" "0 \<le> y" "\<bar>y - x\<bar> \<le> x / 2 ^ 53 + pow2 (- 1075)" by blast
  with tinier show ?thesis by (intro exI [of _ y]) (auto simp only: abs_le_iff)
qed

definition alpha_ok :: "Ewma \<Rightarrow> bool" where
  "alpha_ok w \<longleftrightarrow> (\<exists>a. ew_alpha w = Fin a \<and> 1 / 2 ^ 45 \<le> a \<and> a \<le> 1)"

lemma Ewma_new_alpha:
  assumes "1 \<le> n" "n \<le> 2 ^ 40"
  shows "alpha_ok (Ewma_new n)"
proof -
  have w: "of_usize n = Fin (of_nat n)" using assms(2) by (simp add: of_usize_def rnd_of_nat)
  have "rnd (of_nat (n + 1)) = Fin (of_nat (n + 1))" using assms(2) by (intro rnd_of_nat) simp
  then have s: "f64_add (of_usize n) (Fin 1) = Fin (of_nat n + 1)" by (simp add: w add.commute)
  define q where "q = 2 / (of_nat n + 1 :: rat)"
  have "(1 :: rat) \<le> of_nat n" using assms(1) by simp
  then have q1: "q \<le> 1" "0 < q" by (simp_all add: q_def pos_divide_le_eq)
  have "(of_nat n :: rat) \<le> of_nat (2 ^ 40)" using assms(2) by (simp only: of_nat_le_iff)
  then have n40: "of_nat n + 1 \<le> (2 ^ 41 :: rat)" by simp
  have "2 / 2 ^ 41 \<le> q" unfolding q_def using n40 by (intro divide_left_mono) simp_all
  then have q0: "1 / 2 ^ 40 \<le> q" by simp
  from rnd_range [of q] q1 obtain a where a: "rnd q = Fin a" "q - q / 2 ^ 53 - 1 / 2 ^ 100 \<le> a" by auto
  have "q / 2 ^ 53 \<le> q / 2" using q1(2) by simp
  then have "1 / 2 ^ 45 \<le> a" using a(2) q0 by simp
  moreover have "f64_div (Fin 2) (Fin (of_nat n + 1)) = rnd q" using q1(2) by (auto simp: q_def)
  ultimately show ?thesis using a(1) rnd_le_1 [OF q1(2,1) a(1)] by (simp add: alpha_ok_def Ewma_new_def s)
qed

lemma Ewma_observe_range:
  fixes v s :: rat
  assumes "alpha_ok w" and "ew_value w = Some (Fin v)" "1 / 2 ^ 30 \<le> v" "v \<le> 2 ^ 40" and s: "1 / 2 ^ 29 \<le> s" "s \<le> 2 ^ 32"
  shows "\<exists>r. ew_value (Ewma_observe (Fin s) w) = Some (Fin r) \<and> 1 / 2 ^ 30 \<le> r \<and> r \<le> 2 ^ 40"
proof -
  obtain a where a: "ew_alpha w = Fin a" "1 / 2 ^ 45 \<le> a" "a \<le> 1" using assms(1) by (auto simp: alpha_ok_def)
  from rnd_range [of "1 - a"] a(2,3) obtain b where b: "rnd (1 - a) = Fin b" "0 \<le> b"
    "(1 - a) - (1 - a) / 2 ^ 53 - 1 / 2 ^ 100 \<le> b" "b \<le> (1 - a) + (1 - a) / 2 ^ 53 + 1 / 2 ^ 100" by auto
  have a0: "0 \<le> a" using a(2) by (rule order_trans [rotated]) simp
  note X = mult_left_mono [OF s(1) a0] mult_left_mono [OF s(2) a0]
  note Y = mult_left_mono [OF assms(3) b(2)] mult_left_mono [OF assms(4) b(2)]
  have pos: "0 \<le> a * s" "0 \<le> b * v" using X(1) Y(1) a0 b(2) by (auto intro: order_trans [rotated])
  from rnd_range [OF pos(1)] X a(3) obtain p where p: "rnd (a * s) = Fin p" "0 \<le> p"
    "a * s - a * s / 2 ^ 53 - 1 / 2 ^ 100 \<le> p" "p \<le> a * s + a * s / 2 ^ 53 + 1 / 2 ^ 100" by auto
  have b2: "b \<le> 2" using b(4) a0 by (simp add: field_simps)
  have "b * v \<le> 2 ^ 64" using Y(2) b2 by simp
  from rnd_range [OF pos(2) this] obtain q where q: "rnd (b * v) = Fin q" "0 \<le> q"
    "b * v - b * v / 2 ^ 53 - 1 / 2 ^ 100 \<le> q" "q \<le> b * v + b * v / 2 ^ 53 + 1 / 2 ^ 100" by auto
  have "p + q \<le> 2 ^ 64" using p(4) q(4) X(2) Y(2) b2 a(3) by simp
  from rnd_range [OF _ this] p(2) q(2) obtain r where r: "rnd (p + q) = Fin r"
    "(p + q) - (p + q) / 2 ^ 53 - 1 / 2 ^ 100 \<le> r" "r \<le> (p + q) + (p + q) / 2 ^ 53 + 1 / 2 ^ 100" by auto
  define x y where "x = a * s" and "y = b * v"
  note xy = x_def [symmetric] y_def [symmetric]
  have "1 / 2 ^ 30 \<le> r" using r(2) p(3) q(3) X(1) Y(1) b(3) a(2) unfolding xy by (simp add: field_simps)
  moreover have "r \<le> 2 ^ 40" using r(3) p(4) q(4) X(2) Y(2) b(4) a(2) unfolding xy by (simp add: field_simps)
  moreover have "0 \<le> s" using s(1) by (rule order_trans [rotated]) simp
  ultimately show ?thesis
    using assms(2) a(1) b(1) p(1) q(1) r(1) by (simp add: Ewma_observe_def f64_sub_def)
qed

lemma as_secs_f64_range:
  assumes "0 < d" "d \<le> 2 ^ 28 * 1000000000"
  shows "\<exists>x. as_secs_f64 d = Fin x \<and> 1 / 2 ^ 31 \<le> x \<and> x \<le> 2 ^ 28 + 3"
proof -
  define h l where "h = (of_nat (d div 1000000000) :: rat)" and "l = (of_nat (d mod 1000000000) :: rat)"
  have small: "d div 1000000000 \<le> 2 ^ 28" using div_le_mono [OF assms(2), of 1000000000] by simp
  have exact: "of_usize (d div 1000000000) = Fin h" "of_usize (d mod 1000000000) = Fin l"
    using small mod_less_divisor [of 1000000000 d] by (simp_all add: of_usize_def h_def l_def rnd_of_nat)
  have "d mod 1000000000 \<le> 1000000000" by simp
  then have "l \<le> of_nat 1000000000" "h \<le> of_nat (2 ^ 28)" using small unfolding h_def l_def by (simp_all only: of_nat_le_iff)
  then have hl: "0 \<le> h" "h \<le> 2 ^ 28" "0 \<le> l" "l \<le> 1000000000" by (simp_all add: h_def l_def)
  from rnd_range [of "l / 1000000000"] hl obtain m where m: "rnd (l / 1000000000) = Fin m" "0 \<le> m"
    "l / 1000000000 - l / 1000000000 / 2 ^ 53 - 1 / 2 ^ 100 \<le> m" "m \<le> l / 1000000000 + l / 1000000000 / 2 ^ 53 + 1 / 2 ^ 100" by auto
  have m2: "m \<le> 2" using m(4) hl(4) by simp
  from rnd_range [of "h + m"] hl m(2) m2 obtain x where x: "rnd (h + m) = Fin x"
    "(h + m) - (h + m) / 2 ^ 53 - 1 / 2 ^ 100 \<le> x" "x \<le> (h + m) + (h + m) / 2 ^ 53 + 1 / 2 ^ 100" by auto
  have "1 / 2 ^ 31 \<le> x"
  proof (cases "d div 1000000000 = 0")
    case True
    with assms(1) have "1 \<le> d mod 1000000000" by (simp add: div_eq_0_iff)
    then have "1 \<le> l" unfolding l_def by simp
    with hl x(2) m(2,3) show ?thesis by (simp add: field_simps)
  next
    case False
    then have "1 \<le> h" unfolding h_def by simp
    with m(2) x(2) show ?thesis by (simp add: field_simps)
  qed
  moreover have "x \<le> 2 ^ 28 + 3" using x(3) m2 hl(2) by (simp add: field_simps)
  ultimately show ?thesis using exact m(1) x(1) by (simp add: as_secs_f64_def)
qed

text \<open>
  A rate that is kept by every observation made within \<open>2 ^ 28\<close> seconds (eight years) of the origin
  of the monotonic clock, for windows of at most \<open>2 ^ 40\<close> samples.
\<close>

definition rate_in_range :: "AdaptiveBatchController \<Rightarrow> bool" where
  "rate_in_range c \<longleftrightarrow>
     alpha_ok (bc_request_rate c) \<and>
     (\<forall>v. ew_value (bc_request_rate c) = Some v \<longrightarrow> (\<exists>r. v = Fin r \<and> 1 / 2 ^ 30 \<le> r \<and> r \<le> 2 ^ 40))"

lemma rate_in_range_ok: "rate_in_range c \<Longrightarrow> rate_ok c"
  by (auto simp: rate_in_range_def rate_ok_def)

lemma observe_request_in_range:
  assumes "rate_in_range c" and now: "now \<le> 2 ^ 28 * 1000000000"
  shows "rate_in_range (observe_request now c)"
proof -
  have step: "rate_in_range (c\<lparr>bc_last_request := q, bc_request_rate := Ewma_observe (f64_div (Fin 1) (as_secs_f64 d)) (bc_request_rate c)\<rparr>)"
    if d: "0 < d" "d \<le> 2 ^ 28 * 1000000000" for d q
  proof -
    from as_secs_f64_range [OF d] obtain x where x: "as_secs_f64 d = Fin x" "1 / 2 ^ 31 \<le> x" "x \<le> 2 ^ 28 + 3" by blast
    have x0: "0 < x" using x(2) by (rule less_le_trans [rotated]) simp
    have i: "1 / (2 ^ 28 + 3) \<le> 1 / x" "1 / x \<le> 1 / (1 / 2 ^ 31)" using x(2,3) x0 by (intro divide_left_mono; simp)+
    from rnd_range [of "1 / x"] i x0 obtain s where s: "rnd (1 / x) = Fin s" "0 \<le> s"
      "1 / x - 1 / x / 2 ^ 53 - 1 / 2 ^ 100 \<le> s" "s \<le> 1 / x + 1 / x / 2 ^ 53 + 1 / 2 ^ 100" by auto
    define y where "y = 1 / x"
    have "1 / 2 ^ 29 \<le> s" "s \<le> 2 ^ 32" using s(3,4) i unfolding y_def [symmetric] by simp_all
    moreover have "f64_div (Fin 1) (as_secs_f64 d) = Fin s" using x(1) x0 s(1) by auto
    ultimately show ?thesis
      using assms(1) Ewma_observe_range [of "bc_request_rate c" _ s] s(2)
      by (cases "ew_value (bc_request_rate c)") (auto simp: rate_in_range_def alpha_ok_def Ewma_observe_def)
  qed
  show ?thesis
  proof (cases "bc_last_request c")
    case (Some previous)
    have "as_secs_f64 0 = Fin 0" by (simp add: as_secs_f64_def of_usize_def rnd_def)
    then have "0 < now - previous" if "f64_lt (Fin 0) (as_secs_f64 (now - previous))" using that by (cases "now - previous") auto
    with step [of "now - previous" "Some now"] now Some assms(1) show ?thesis
      by (auto simp: observe_request_def Let_def rate_in_range_def)
  qed (use assms(1) in \<open>simp add: observe_request_def rate_in_range_def\<close>)
qed

section \<open>Runs of the controller return\<close>

definition options_in_range :: "BatchOptions \<Rightarrow> bool" where
  "options_in_range o' \<longleftrightarrow>
     bo_batch_size_max o' \<le> 2 ^ 24 \<and> bo_batch_wait_max o' \<le> 2 ^ 45 * 1000000000 \<and> bo_ewma_window o' \<le> 2 ^ 40"

definition controller_ok :: "AdaptiveBatchController \<Rightarrow> bool" where
  "controller_ok c \<longleftrightarrow> limits_ok c \<and> rate_in_range c \<and> options_in_range (bc_limits c) \<and> 0 < bo_batch_size_min (bc_limits c)"

lemma controller_ok_size: "controller_ok c \<Longrightarrow> 0 < batch_size c"
  by (simp add: controller_ok_def limits_ok_def batch_ok_def batch_size_def)

lemma controller_ok_new:
  assumes "BatchOptions_validate sec o' = Inr ()" and "options_in_range o'"
  shows "controller_ok (AdaptiveBatchController_new o')"
proof -
  have "0 < bo_ewma_window o'" using assms(1) by (auto simp: BatchOptions_validate_def split: if_splits)
  with assms(2) have "alpha_ok (Ewma_new (bo_ewma_window o'))" by (intro Ewma_new_alpha) (simp_all add: options_in_range_def)
  with AdaptiveBatchController_new_ok [OF assms(1)] BatchOptions_validate_Inr [OF assms(1)] assms(2) show ?thesis
    by (simp add: controller_ok_def rate_in_range_def AdaptiveBatchController_new_def Ewma_new_def)
qed

lemma controller_ok_request:
  "controller_ok c \<Longrightarrow> now \<le> 2 ^ 28 * 1000000000 \<Longrightarrow> controller_ok (observe_request now c)"
  using limits_ok_same [of c "observe_request now c"] observe_request_in_range [of c now] by (simp add: controller_ok_def)

lemma adjust_batch_wait_rate: "adjust_batch_wait c = Some c' \<Longrightarrow> bc_request_rate c' = bc_request_rate c"
  by (auto simp: adjust_batch_wait_def Let_def split: option.splits if_splits prod.splits)

lemma rate_in_range_same: "bc_request_rate c' = bc_request_rate c \<Longrightarrow> rate_in_range c' = rate_in_range c"
  by (simp add: rate_in_range_def)

lemma adjust_batch_wait_keeps:
  assumes "controller_ok c" and "limits_ok c1" "bc_limits c1 = bc_limits c" "bc_request_rate c1 = bc_request_rate c"
    and "adjust_batch_wait c1 = Some c'"
  shows "controller_ok c'"
proof -
  have "bc_request_rate c' = bc_request_rate c" using adjust_batch_wait_rate [OF assms(5)] assms(4) by simp
  from rate_in_range_same [OF this] adjust_batch_wait_ok [OF assms(2,5)] assms(1,3) show ?thesis by (simp add: controller_ok_def)
qed

lemma controller_ok_commit:
  assumes "controller_ok c"
  shows "\<exists>c'. record_successful_commit filled elapsed t backlog reason c = Some c' \<and> controller_ok c'"
proof -
  obtain c1 where c1: "record_successful_commit filled elapsed t backlog reason c = adjust_batch_wait (adjust_batch_size c1)"
    "bc_limits c1 = bc_limits c" "bc_batch_wait c1 = bc_batch_wait c" "bc_batch c1 = bc_batch c" "bc_request_rate c1 = bc_request_rate c"
    using record_commit_eq by blast
  from assms have ok: "limits_ok c" "rate_ok c" "bo_batch_size_max (bc_limits c) \<le> 2 ^ 24"
    "bo_batch_wait_max (bc_limits c) \<le> 2 ^ 45 * 1000000000"
    by (simp_all add: controller_ok_def rate_in_range_ok options_in_range_def)
  from commits_return [OF ok(1,3,4,2)] obtain c' where c': "adjust_batch_wait (adjust_batch_size c1) = Some c'" using c1(1) by metis
  note a1 = adjust_batch_size_ok [OF limits_ok_same [OF ok(1) c1(2-4)]]
  have "controller_ok c'" using c1(2,5) by (intro adjust_batch_wait_keeps [OF assms a1(1) _ _ c']) (simp_all only: a1(2,4))
  with c' c1(1) show ?thesis by simp
qed

lemma controller_ok_completion_commit:
  assumes "controller_ok c"
  shows "\<exists>c'. record_successful_completion_commit filled elapsed t backlog reason c = Some c' \<and> controller_ok c'"
proof -
  obtain c1 where c1: "record_successful_completion_commit filled elapsed t backlog reason c = adjust_batch_wait (adjust_completion_batch_size c1)"
    "bc_limits c1 = bc_limits c" "bc_batch_wait c1 = bc_batch_wait c" "bc_batch c1 = bc_batch c" "bc_request_rate c1 = bc_request_rate c"
    using record_completion_commit_eq by blast
  from assms have ok: "limits_ok c" "rate_ok c" "bo_batch_size_max (bc_limits c) \<le> 2 ^ 24"
    "bo_batch_wait_max (bc_limits c) \<le> 2 ^ 45 * 1000000000"
    by (simp_all add: controller_ok_def rate_in_range_ok options_in_range_def)
  from commits_return [OF ok(1,3,4,2)] obtain c' where c': "adjust_batch_wait (adjust_completion_batch_size c1) = Some c'" using c1(1) by metis
  note a1 = adjust_completion_batch_size_ok [OF limits_ok_same [OF ok(1) c1(2-4)]]
  have "controller_ok c'" using c1(2,5) by (intro adjust_batch_wait_keeps [OF assms a1(1) _ _ c']) (simp_all only: a1(2,4))
  with c' c1(1) show ?thesis by simp
qed

fun op_in_time :: "ControllerOp \<Rightarrow> bool" where
  "op_in_time (Requested now) = (now \<le> 2 ^ 28 * 1000000000)"
| "op_in_time _ = True"

lemma controller_run_returns:
  "controller_ok c \<Longrightarrow> list_all op_in_time ops \<Longrightarrow> \<exists>c'. controller_run ops c = Some c' \<and> controller_ok c'"
proof (induction ops arbitrary: c)
  case (Cons op ops)
  have "\<exists>c1. controller_step op c = Some c1 \<and> controller_ok c1"
    using Cons.prems controller_ok_commit controller_ok_completion_commit controller_ok_request by (cases op) auto
  with Cons.IH Cons.prems(2) show ?case by auto
qed simp

text \<open>
  C30. The batch controller never panics. For validated options with a maximal batch of at most \<open>2 ^ 24\<close>
  rows, a maximal wait of at most \<open>2 ^ 45\<close> seconds and an averaging window of at most \<open>2 ^ 40\<close> samples, every
  sequence of requests and commits returns, however the durations, the sizes and the backlog turn out,
  as long as the requests come within \<open>2 ^ 28\<close> seconds (eight years) of the origin of the monotonic
  clock: the averaged request rate, computed in rounding arithmetic, never leaves the range in which
  the conversion of the desired wait to a \<open>Duration\<close> succeeds.
\<close>

theorem batch_controller_never_panics:
  assumes "BatchOptions_validate sec o' = Inr ()" and "options_in_range o'" and "list_all op_in_time ops"
  shows "\<exists>c. controller_run ops (AdaptiveBatchController_new o') = Some c \<and> rate_ok c"
  using controller_run_returns [OF controller_ok_new [OF assms(1,2)] assms(3)] by (auto simp: controller_ok_def rate_in_range_ok)

lemma enqueue_defaults_in_range: "options_in_range enqueue_defaults"
  by (simp add: options_in_range_def enqueue_defaults_def from_millis_def)

theorem batch_controller_never_panics_witness:
  "\<exists>c. controller_run [Requested 5, Requested 900000, Committed 2 70000 990000 0 Timeout]
     (AdaptiveBatchController_new enqueue_defaults) = Some c"
  using batch_controller_never_panics [OF enqueue_defaults_valid enqueue_defaults_in_range,
      of "[Requested 5, Requested 900000, Committed 2 70000 990000 0 Timeout]"] by auto

end
