(* ===== verification/Maq_Writers.thy ===== *)
theory Maq_Writers
  imports Maq_Executions Maq_Rate
begin

text \<open>
  The loops of the two writer threads (\<open>sqlite/ingest.rs\<close>, \<open>sqlite/results.rs\<close>): the request queues,
  the turns that collect a batch, and the shutdown when every handle is gone. What a writer
  receives is a script: the outcomes of its receive attempts one after the other, whether they wait
  (\<open>recv\<close>), poll (\<open>try_recv\<close>) or wait until a deadline. The monotonic clock, the measured durations
  and the length of the channel are arguments of an iteration; a panic of the controller is \<open>None\<close>.
\<close>

section \<open>Channels and clocks\<close>

datatype 'r Recv = Got 'r | RxClosed | RxEmpty

fun requests :: "'r Recv list \<Rightarrow> 'r list" where
  "requests [] = []"
| "requests (Got r # rx) = r # requests rx"
| "requests (RxClosed # rx) = requests rx"
| "requests (RxEmpty # rx) = requests rx"

text \<open>A receive that waits passes over the moments at which nothing has arrived.\<close>

fun recv :: "'r Recv list \<Rightarrow> 'r Recv list" where
  "recv (RxEmpty # rx) = recv rx"
| "recv rx = rx"

text \<open>The readings of the clock and the measurements of one iteration.\<close>

record Tick =
  tk_popped :: "nat \<Rightarrow> nat"
  tk_received :: "nat \<Rightarrow> nat"
  tk_elapsed :: duration
  tk_committed :: nat
  tk_now :: nat
  tk_backlog :: nat

text \<open>\<open>while let Some(request) = queue.pop_front()\<close>: every request is handled, in order.\<close>

fun handle_all :: "('req \<Rightarrow> 's \<Rightarrow> 's \<times> (nat \<times> 'rep) list) \<Rightarrow> 'req list \<Rightarrow> 's \<Rightarrow> 's \<times> (nat \<times> 'rep) list" where
  "handle_all h [] s = (s, [])"
| "handle_all h (r # rs) s = (let (s1, rep1) = h r s; (s2, rep2) = handle_all h rs s1 in (s2, rep1 @ rep2))"

text \<open>\<open>while pending.len() < target { pop_front .. observe_request .. push }\<close>\<close>

fun pop_pending :: "nat \<Rightarrow> (nat \<Rightarrow> nat) \<Rightarrow> 'a list \<Rightarrow> AdaptiveBatchController \<Rightarrow> 'a list \<times> 'a list \<times> AdaptiveBatchController" where
  "pop_pending 0 now q c = ([], q, c)"
| "pop_pending (Suc n) now [] c = ([], [], c)"
| "pop_pending (Suc n) now (x # q) c =
     (let (p, q', c') = pop_pending n (\<lambda>i. now (Suc i)) q (observe_request (now 0) c) in (x # p, q', c'))"

text \<open>A loop whose iterations tell whether it has ended.\<close>

fun writer_loop :: "(Tick \<Rightarrow> 'w \<Rightarrow> (bool \<times> 'w) option) \<Rightarrow> Tick list \<Rightarrow> 'w \<Rightarrow> (bool \<times> 'w) option" where
  "writer_loop iter [] w = Some (False, w)"
| "writer_loop iter (T # Ts) w =
     (case iter T w of
        None \<Rightarrow> None
      | Some (ended, w1) \<Rightarrow> if ended then Some (True, w1) else writer_loop iter Ts w1)"

section \<open>The ingest writer\<close>

text \<open>The connection, with the environments of the calls to come.\<close>

type_synonym IngestConn = "IngestDb \<times> string set \<times> (nat \<Rightarrow> env)"

definition conn_handle :: "IngestRequest \<Rightarrow> IngestConn \<Rightarrow> IngestConn \<times> (nat \<times> IngestReply) list" where
  "conn_handle request conn =
     (case conn of (db, names, Es) \<Rightarrow>
        let (db', names', replies) = ingest_handle (Es 0) request names db
        in ((db', names', \<lambda>n. Es (Suc n)), replies))"

definition conn_enqueue_batch :: "PendingEnqueue list \<Rightarrow> IngestConn \<Rightarrow> IngestConn \<times> (nat \<times> IngestReply) list \<times> nat option" where
  "conn_enqueue_batch batch conn =
     (case conn of (db, names, Es) \<Rightarrow>
        let (db', replies, inserted) = enqueue_batch (env_io (Es 0) 0) batch names db
        in ((db', names, \<lambda>n. Es (Suc n)), map (\<lambda>(k, r). (k, RepAccepted r)) replies, inserted))"

record IngestQueues =
  iq_meta :: "IngestRequest list"
  iq_claim :: "IngestRequest list"
  iq_ingest :: "PendingEnqueue list"

definition iq_is_empty :: "IngestQueues \<Rightarrow> bool" where
  "iq_is_empty qs \<longleftrightarrow> iq_meta qs = [] \<and> iq_claim qs = [] \<and> iq_ingest qs = []"

fun iq_push :: "IngestRequest \<Rightarrow> IngestQueues \<Rightarrow> IngestQueues" where
  "iq_push (ReqEnqueue job reply) qs = qs\<lparr>iq_ingest := iq_ingest qs @ [\<lparr>pe_job = job, pe_reply = reply\<rparr>]\<rparr>"
| "iq_push (ReqClaimBatch queue limit reply) qs = qs\<lparr>iq_claim := iq_claim qs @ [ReqClaimBatch queue limit reply]\<rparr>"
| "iq_push request qs = qs\<lparr>iq_meta := iq_meta qs @ [request]\<rparr>"

fun iq_drain :: "IngestRequest Recv list \<Rightarrow> IngestQueues \<Rightarrow> IngestQueues \<times> IngestRequest Recv list" where
  "iq_drain (Got request # rx) qs = iq_drain rx (iq_push request qs)"
| "iq_drain (_ # rx) qs = (qs, rx)"
| "iq_drain [] qs = (qs, [])"

record IngestWriter =
  iw_conn :: IngestConn
  iw_rx :: "IngestRequest Recv list"
  iw_queues :: IngestQueues
  iw_controller :: AdaptiveBatchController
  iw_replies :: "(nat \<times> IngestReply) list"

definition flush_pending :: "Tick \<Rightarrow> PendingEnqueue list \<Rightarrow> FlushReason \<Rightarrow> nat \<Rightarrow> IngestWriter \<Rightarrow> IngestWriter option" where
  "flush_pending T pending reason backlog w =
     (if pending = [] then Some w
      else
        let (conn, replies, commit) = conn_enqueue_batch pending (iw_conn w);
            w1 = w\<lparr>iw_conn := conn, iw_replies := iw_replies w @ replies\<rparr>
        in case commit of
             None \<Rightarrow> Some w1
           | Some inserted \<Rightarrow>
               (case record_successful_commit (min (length pending) inserted) (tk_elapsed T) (tk_committed T) backlog reason (iw_controller w1) of
                  None \<Rightarrow> None
                | Some c \<Rightarrow> Some (w1\<lparr>iw_controller := c\<rparr>)))"

text \<open>The receive loop of a turn: requests of other kinds are queued, and some of them end the turn.\<close>

fun ingest_preempts :: "IngestRequest \<Rightarrow> bool" where
  "ingest_preempts (ReqClaimBatch _ _ _) = True"
| "ingest_preempts (ReqUpsertQueue _ _) = True"
| "ingest_preempts (ReqRepend _ _ _) = True"
| "ingest_preempts _ = False"

fun ingest_fill :: "nat \<Rightarrow> (nat \<Rightarrow> nat) \<Rightarrow> IngestRequest Recv list \<Rightarrow> PendingEnqueue list \<Rightarrow> IngestQueues \<Rightarrow>
    AdaptiveBatchController \<Rightarrow> PendingEnqueue list \<times> IngestRequest Recv list \<times> IngestQueues \<times> AdaptiveBatchController \<times> bool" where
  "ingest_fill target now [] pending qs c = (pending, [], qs, c, False)"
| "ingest_fill target now (r # rx) pending qs c =
     (if target \<le> length pending then (pending, r # rx, qs, c, False)
      else
        case r of
          Got (ReqEnqueue job reply) \<Rightarrow>
            ingest_fill target (\<lambda>i. now (Suc i)) rx (pending @ [\<lparr>pe_job = job, pe_reply = reply\<rparr>]) qs (observe_request (now 0) c)
        | Got request \<Rightarrow>
            if ingest_preempts request then (pending, rx, iq_push request qs, c, False)
            else ingest_fill target now rx pending (iq_push request qs) c
        | RxClosed \<Rightarrow> (pending, rx, qs, c, True)
        | RxEmpty \<Rightarrow> (pending, rx, qs, c, False))"

definition run_ingest_turn :: "Tick \<Rightarrow> IngestWriter \<Rightarrow> (bool \<times> IngestWriter) option" where
  "run_ingest_turn T w =
     (let target = batch_size (iw_controller w);
          (pending, rest, c) = pop_pending target (tk_popped T) (iq_ingest (iw_queues w)) (iw_controller w);
          qs = (iw_queues w)\<lparr>iq_ingest := rest\<rparr>
      in if pending = [] then Some (False, w\<lparr>iw_queues := qs, iw_controller := c\<rparr>)
         else
           let (pending', rx, qs', c', disconnected) = ingest_fill target (tk_received T) (iw_rx w) pending qs c;
               reason = (if target \<le> length pending' then FullBatch else Timeout)
           in map_option (Pair disconnected)
                (flush_pending T pending' reason (tk_backlog T) (w\<lparr>iw_rx := rx, iw_queues := qs', iw_controller := c'\<rparr>)))"

definition flush_ingest :: "Tick \<Rightarrow> nat \<Rightarrow> IngestWriter \<Rightarrow> IngestWriter option" where
  "flush_ingest T backlog w =
     (if iq_ingest (iw_queues w) = [] then Some w
      else flush_pending T (iq_ingest (iw_queues w)) Timeout backlog (w\<lparr>iw_queues := (iw_queues w)\<lparr>iq_ingest := []\<rparr>\<rparr>))"

definition ingest_shutdown :: "Tick \<Rightarrow> nat \<Rightarrow> IngestWriter \<Rightarrow> IngestWriter option" where
  "ingest_shutdown T backlog w =
     (case flush_ingest T backlog w of
        None \<Rightarrow> None
      | Some w1 \<Rightarrow>
          let qs = iw_queues w1;
              (conn1, rep1) = handle_all conn_handle (iq_meta qs) (iw_conn w1);
              (conn2, rep2) = handle_all conn_handle (iq_claim qs) conn1
          in Some (w1\<lparr>iw_conn := conn2, iw_queues := qs\<lparr>iq_meta := [], iq_claim := []\<rparr>,
                      iw_replies := iw_replies w1 @ rep1 @ rep2\<rparr>))"

definition ingest_answer :: "IngestRequest \<Rightarrow> IngestWriter \<Rightarrow> IngestWriter" where
  "ingest_answer request w =
     (let (conn, replies) = conn_handle request (iw_conn w)
      in w\<lparr>iw_conn := conn, iw_replies := iw_replies w @ replies\<rparr>)"

text \<open>The part of an iteration after the first request: poll the channel, then the oldest request of the first queue that has one.\<close>

definition ingest_serve :: "Tick \<Rightarrow> IngestWriter \<Rightarrow> (bool \<times> IngestWriter) option" where
  "ingest_serve T w0 =
     (let (qs, rx) = iq_drain (iw_rx w0) (iw_queues w0); w = w0\<lparr>iw_queues := qs, iw_rx := rx\<rparr> in
      case iq_meta qs of
        request # ms \<Rightarrow> Some (False, ingest_answer request (w\<lparr>iw_queues := qs\<lparr>iq_meta := ms\<rparr>\<rparr>))
      | [] \<Rightarrow>
          (case iq_claim qs of
             request # cs \<Rightarrow> Some (False, ingest_answer request (w\<lparr>iw_queues := qs\<lparr>iq_claim := cs\<rparr>\<rparr>))
           | [] \<Rightarrow>
               if iq_ingest qs = [] then Some (False, w)
               else
                 (case run_ingest_turn T w of
                    None \<Rightarrow> None
                  | Some (disconnected, w1) \<Rightarrow>
                      if disconnected then map_option (Pair True) (ingest_shutdown T (tk_backlog T) w1) else Some (False, w1))))"

text \<open>One iteration; the flag tells whether the loop has ended. A script that is over is a receive that waits on.\<close>

definition ingest_iteration :: "Tick \<Rightarrow> IngestWriter \<Rightarrow> (bool \<times> IngestWriter) option" where
  "ingest_iteration T w =
     (if iq_is_empty (iw_queues w) then
        case recv (iw_rx w) of
          Got request # rx \<Rightarrow> ingest_serve T (w\<lparr>iw_queues := iq_push request (iw_queues w), iw_rx := rx\<rparr>)
        | RxClosed # rx \<Rightarrow> map_option (Pair True) (ingest_shutdown T 0 (w\<lparr>iw_rx := rx\<rparr>))
        | _ \<Rightarrow> Some (False, w)
      else ingest_serve T w)"

definition ingest_writer_loop :: "Tick list \<Rightarrow> IngestWriter \<Rightarrow> (bool \<times> IngestWriter) option" where
  "ingest_writer_loop = writer_loop ingest_iteration"

definition IngestWriter_new :: "BatchOptions \<Rightarrow> IngestConn \<Rightarrow> IngestRequest Recv list \<Rightarrow> IngestWriter" where
  "IngestWriter_new options conn rx =
     \<lparr>iw_conn = conn, iw_rx = rx, iw_queues = \<lparr>iq_meta = [], iq_claim = [], iq_ingest = []\<rparr>,
      iw_controller = AdaptiveBatchController_new options, iw_replies = []\<rparr>"

section \<open>The results writer\<close>

type_synonym ResultsConn = "ResultsDb \<times> (nat \<Rightarrow> env)"

definition conn_results_handle :: "ResultsRequest \<Rightarrow> ResultsConn \<Rightarrow> ResultsConn \<times> (nat \<times> ResultsReply) list" where
  "conn_results_handle request conn =
     (case conn of (db, Es) \<Rightarrow>
        let (db', replies) = results_handle (Es 0) request db in ((db', \<lambda>n. Es (Suc n)), replies))"

definition conn_complete_batch :: "PendingCompletion list \<Rightarrow> ResultsConn \<Rightarrow> ResultsConn \<times> (nat \<times> ResultsReply) list \<times> nat option" where
  "conn_complete_batch batch conn =
     (case conn of (db, Es) \<Rightarrow>
        let (db', replies, written) = complete_batch (env_io (Es 0) 0) (env_pick (Es 0)) (env_clock (Es 0) 0) batch db
        in ((db', \<lambda>n. Es (Suc n)), map (\<lambda>(k, r). (k, RRepDisposition r)) replies, written))"

record PendingDispatch =
  pd_rows :: "DispatchInsert list"
  pd_reply :: nat
  pd_queued_at :: nat

text \<open>A waiting completion is kept with the instant at which it was queued.\<close>

record ResultsQueues =
  rq_meta :: "ResultsRequest list"
  rq_dispatch :: "PendingDispatch list"
  rq_complete :: "(PendingCompletion \<times> nat) list"

definition rq_is_empty :: "ResultsQueues \<Rightarrow> bool" where
  "rq_is_empty qs \<longleftrightarrow> rq_meta qs = [] \<and> rq_dispatch qs = [] \<and> rq_complete qs = []"

fun rq_push :: "nat \<Rightarrow> ResultsRequest \<Rightarrow> ResultsQueues \<Rightarrow> ResultsQueues" where
  "rq_push now (RReqComplete jid dispatch_id outcome reply) qs =
     qs\<lparr>rq_complete := rq_complete qs @
          [(\<lparr>pc_job_id = jid, pc_dispatch_id = dispatch_id, pc_outcome = outcome, pc_reply = reply\<rparr>, now)]\<rparr>"
| "rq_push now (RReqDispatch rows reply) qs =
     qs\<lparr>rq_dispatch := rq_dispatch qs @ [\<lparr>pd_rows = rows, pd_reply = reply, pd_queued_at = now\<rparr>]\<rparr>"
| "rq_push now request qs = qs\<lparr>rq_meta := rq_meta qs @ [request]\<rparr>"

definition rq_dispatch_rows :: "ResultsQueues \<Rightarrow> nat" where
  "rq_dispatch_rows qs = sum_list (map (\<lambda>p. length (pd_rows p)) (rq_dispatch qs))"

definition rq_dispatch_oldest :: "ResultsQueues \<Rightarrow> nat option" where
  "rq_dispatch_oldest qs = (case rq_dispatch qs of [] \<Rightarrow> None | p # _ \<Rightarrow> Some (pd_queued_at p))"

definition rq_completion_oldest :: "ResultsQueues \<Rightarrow> nat option" where
  "rq_completion_oldest qs = (case rq_complete qs of [] \<Rightarrow> None | p # _ \<Rightarrow> Some (snd p))"

fun rq_drain :: "nat \<Rightarrow> ResultsRequest Recv list \<Rightarrow> ResultsQueues \<Rightarrow> ResultsQueues \<times> ResultsRequest Recv list" where
  "rq_drain now (Got request # rx) qs = rq_drain now rx (rq_push now request qs)"
| "rq_drain now (_ # rx) qs = (qs, rx)"
| "rq_drain now [] qs = (qs, [])"

record ResultsWriter =
  rw_conn :: ResultsConn
  rw_rx :: "ResultsRequest Recv list"
  rw_queues :: ResultsQueues
  rw_controller :: AdaptiveBatchController
  rw_lanes :: ResultsLaneController
  rw_replies :: "(nat \<times> ResultsReply) list"

fun results_preempts :: "ResultsRequest \<Rightarrow> bool" where
  "results_preempts (RReqUpsertQueue _ _) = True"
| "results_preempts (RReqAbandon _ _ _) = True"
| "results_preempts (RReqRecoverStale _ _) = True"
| "results_preempts _ = False"

fun complete_fill :: "nat \<Rightarrow> (nat \<Rightarrow> nat) \<Rightarrow> ResultsRequest Recv list \<Rightarrow> PendingCompletion list \<Rightarrow> ResultsQueues \<Rightarrow>
    AdaptiveBatchController \<Rightarrow> PendingCompletion list \<times> ResultsRequest Recv list \<times> ResultsQueues \<times> AdaptiveBatchController \<times> bool" where
  "complete_fill target now [] pending qs c = (pending, [], qs, c, False)"
| "complete_fill target now (r # rx) pending qs c =
     (if target \<le> length pending then (pending, r # rx, qs, c, False)
      else
        case r of
          Got (RReqComplete jid dispatch_id outcome reply) \<Rightarrow>
            complete_fill target (\<lambda>i. now (Suc i)) rx
              (pending @ [\<lparr>pc_job_id = jid, pc_dispatch_id = dispatch_id, pc_outcome = outcome, pc_reply = reply\<rparr>]) qs
              (observe_request (now 0) c)
        | Got request \<Rightarrow>
            if results_preempts request then (pending, rx, rq_push (now 0) request qs, c, False)
            else complete_fill target (\<lambda>i. now (Suc i)) rx pending (rq_push (now 0) request qs) c
        | RxClosed \<Rightarrow> (pending, rx, qs, c, True)
        | RxEmpty \<Rightarrow> (pending, rx, qs, c, False))"

definition run_complete_turn :: "Tick \<Rightarrow> ResultsWriter \<Rightarrow> (bool \<times> ResultsWriter) option" where
  "run_complete_turn T w =
     (let target = batch_size (rw_controller w);
          (popped, rest, c) = pop_pending target (tk_popped T) (rq_complete (rw_queues w)) (rw_controller w);
          pending = map fst popped; qs = (rw_queues w)\<lparr>rq_complete := rest\<rparr>
      in if pending = [] then Some (False, w\<lparr>rw_queues := qs, rw_controller := c\<rparr>)
         else
           let (pending', rx, qs', c', disconnected) = complete_fill target (tk_received T) (rw_rx w) pending qs c;
               reason = (if target \<le> length pending' then FullBatch else Timeout);
               (conn, replies, commit) = conn_complete_batch pending' (rw_conn w);
               w1 = w\<lparr>rw_conn := conn, rw_rx := rx, rw_queues := qs', rw_controller := c', rw_replies := rw_replies w @ replies\<rparr>
           in case commit of
                None \<Rightarrow> Some (disconnected, w1\<lparr>rw_lanes := record_turn Completion (rw_lanes w1)\<rparr>)
              | Some written \<Rightarrow>
                  let lanes = observe_success Completion written (tk_elapsed T) (rw_lanes w1);
                      backlog = length (rq_complete qs') + tk_backlog T
                  in (case record_successful_completion_commit (min (length pending') written) (tk_elapsed T) (tk_committed T) backlog reason c' of
                        None \<Rightarrow> None
                      | Some c'' \<Rightarrow> Some (disconnected, w1\<lparr>rw_controller := c'', rw_lanes := record_turn Completion lanes\<rparr>)))"

definition run_dispatch_turn :: "Tick \<Rightarrow> ResultsWriter \<Rightarrow> ResultsWriter" where
  "run_dispatch_turn T w =
     (case rq_dispatch (rw_queues w) of
        [] \<Rightarrow> w
      | pending # rest \<Rightarrow>
          let (conn, replies) = conn_results_handle (RReqDispatch (pd_rows pending) (pd_reply pending)) (rw_conn w);
              ok = (case replies of [(_, RRepDispatched (Inr _))] \<Rightarrow> True | _ \<Rightarrow> False);
              lanes = (if ok then observe_success Dispatch (length (pd_rows pending)) (tk_elapsed T) (rw_lanes w) else rw_lanes w)
          in w\<lparr>rw_conn := conn, rw_queues := (rw_queues w)\<lparr>rq_dispatch := rest\<rparr>, rw_lanes := record_turn Dispatch lanes,
               rw_replies := rw_replies w @ replies\<rparr>)"

definition flush_complete :: "Tick \<Rightarrow> nat \<Rightarrow> ResultsWriter \<Rightarrow> ResultsWriter option" where
  "flush_complete T backlog w =
     (if rq_complete (rw_queues w) = [] then Some w
      else
        let batch = map fst (rq_complete (rw_queues w));
            (conn, replies, commit) = conn_complete_batch batch (rw_conn w);
            w1 = w\<lparr>rw_conn := conn, rw_queues := (rw_queues w)\<lparr>rq_complete := []\<rparr>, rw_replies := rw_replies w @ replies\<rparr>
        in case commit of
             None \<Rightarrow> Some w1
           | Some written \<Rightarrow>
               (case record_successful_completion_commit (min (length batch) written) (tk_elapsed T) (tk_committed T) backlog Timeout (rw_controller w1) of
                  None \<Rightarrow> None
                | Some c \<Rightarrow> Some (w1\<lparr>rw_controller := c\<rparr>)))"

text \<open>The shutdown after a turn that saw the channel closed also answers the waiting dispatches.\<close>

definition results_shutdown :: "Tick \<Rightarrow> nat \<Rightarrow> ResultsWriter \<Rightarrow> ResultsWriter option" where
  "results_shutdown T backlog w =
     (case flush_complete T backlog w of
        None \<Rightarrow> None
      | Some w1 \<Rightarrow>
          let qs = rw_queues w1;
              (conn1, rep1) = handle_all conn_results_handle (rq_meta qs) (rw_conn w1);
              (conn2, rep2) = handle_all conn_results_handle (map (\<lambda>p. RReqDispatch (pd_rows p) (pd_reply p)) (rq_dispatch qs)) conn1
          in Some (w1\<lparr>rw_conn := conn2, rw_queues := qs\<lparr>rq_meta := [], rq_dispatch := []\<rparr>, rw_replies := rw_replies w1 @ rep1 @ rep2\<rparr>))"

text \<open>The end of the loop when nothing waits: completions and other requests, not dispatches.\<close>

definition results_break :: "Tick \<Rightarrow> ResultsWriter \<Rightarrow> ResultsWriter option" where
  "results_break T w =
     (case flush_complete T 0 w of
        None \<Rightarrow> None
      | Some w1 \<Rightarrow>
          let (conn1, rep1) = handle_all conn_results_handle (rq_meta (rw_queues w1)) (rw_conn w1)
          in Some (w1\<lparr>rw_conn := conn1, rw_queues := (rw_queues w1)\<lparr>rq_meta := []\<rparr>, rw_replies := rw_replies w1 @ rep1\<rparr>))"

definition results_serve :: "Tick \<Rightarrow> ResultsWriter \<Rightarrow> (bool \<times> ResultsWriter) option" where
  "results_serve T w0 =
     (let (qs, rx) = rq_drain (tk_now T) (rw_rx w0) (rw_queues w0); w = w0\<lparr>rw_queues := qs, rw_rx := rx\<rparr> in
      case rq_meta qs of
        request # ms \<Rightarrow>
          (let (conn, replies) = conn_results_handle request (rw_conn w)
           in Some (False, w\<lparr>rw_conn := conn, rw_queues := qs\<lparr>rq_meta := ms\<rparr>, rw_replies := rw_replies w @ replies\<rparr>))
      | [] \<Rightarrow>
          (case select (rq_dispatch_rows qs) (rq_dispatch_oldest qs) (length (rq_complete qs)) (rq_completion_oldest qs) (tk_now T) (rw_lanes w) of
             (None, lanes) \<Rightarrow> Some (False, w\<lparr>rw_lanes := lanes\<rparr>)
           | (Some (Dispatch, _), lanes) \<Rightarrow> Some (False, run_dispatch_turn T (w\<lparr>rw_lanes := lanes\<rparr>))
           | (Some (Completion, _), lanes) \<Rightarrow>
               (case run_complete_turn T (w\<lparr>rw_lanes := lanes\<rparr>) of
                  None \<Rightarrow> None
                | Some (disconnected, w1) \<Rightarrow>
                    if disconnected then map_option (Pair True) (results_shutdown T (tk_backlog T) w1) else Some (False, w1))))"

definition results_iteration :: "Tick \<Rightarrow> ResultsWriter \<Rightarrow> (bool \<times> ResultsWriter) option" where
  "results_iteration T w =
     (if rq_is_empty (rw_queues w) then
        case recv (rw_rx w) of
          Got request # rx \<Rightarrow> results_serve T (w\<lparr>rw_queues := rq_push (tk_now T) request (rw_queues w), rw_rx := rx\<rparr>)
        | RxClosed # rx \<Rightarrow> map_option (Pair True) (results_break T (w\<lparr>rw_rx := rx\<rparr>))
        | _ \<Rightarrow> Some (False, w)
      else results_serve T w)"

definition results_writer_loop :: "Tick list \<Rightarrow> ResultsWriter \<Rightarrow> (bool \<times> ResultsWriter) option" where
  "results_writer_loop = writer_loop results_iteration"

definition ResultsWriter_new :: "BatchOptions \<Rightarrow> ResultsConn \<Rightarrow> ResultsRequest Recv list \<Rightarrow> ResultsWriter" where
  "ResultsWriter_new options conn rx =
     \<lparr>rw_conn = conn, rw_rx = rx, rw_queues = \<lparr>rq_meta = [], rq_dispatch = [], rq_complete = []\<rparr>,
      rw_controller = AdaptiveBatchController_new options, rw_lanes = ResultsLaneController_new (bo_ewma_window options),
      rw_replies = []\<rparr>"


section \<open>Connections\<close>

lemma mset_single_list: "mset xs = {#x#} \<Longrightarrow> xs = [x]"
  by (cases xs) auto

text \<open>
  What the loops rely on from a connection: every request is answered once, on its own channel, and
  so is every item of a batch.
\<close>

locale writer_conn =
  fixes handle_op :: "'req \<Rightarrow> 's \<Rightarrow> 's \<times> (nat \<times> 'rep) list"
    and reply_to :: "'req \<Rightarrow> nat"
    and cinv :: "'s \<Rightarrow> bool"
  assumes handle_inv: "cinv s \<Longrightarrow> handle_op r s = (s', reps) \<Longrightarrow> cinv s'"
    and handle_replies: "cinv s \<Longrightarrow> handle_op r s = (s', reps) \<Longrightarrow> map fst reps = [reply_to r]"
begin

lemma handle_all_ok:
  "cinv s \<Longrightarrow> handle_all handle_op rs s = (s', reps) \<Longrightarrow> cinv s' \<and> map fst reps = map reply_to rs"
proof (induction rs arbitrary: s reps)
  case (Cons r rs)
  obtain s1 rep1 where one: "handle_op r s = (s1, rep1)" by fastforce
  obtain rep2 where two: "handle_all handle_op rs s1 = (s', rep2)" "reps = rep1 @ rep2"
    using Cons.prems(2) one by (auto split: prod.splits)
  from handle_inv [OF Cons.prems(1) one] Cons.IH two handle_replies [OF Cons.prems(1) one] show ?case by auto
qed simp

end

locale batch_conn = writer_conn +
  fixes batch_op :: "'item list \<Rightarrow> 's \<Rightarrow> 's \<times> (nat \<times> 'rep) list \<times> nat option"
    and item_reply :: "'item \<Rightarrow> nat"
  assumes batch_inv: "cinv s \<Longrightarrow> batch_op items s = (s', reps, n) \<Longrightarrow> cinv s'"
    and batch_replies: "cinv s \<Longrightarrow> batch_op items s = (s', reps, n) \<Longrightarrow> mset (map fst reps) = mset (map item_reply items)"
begin

lemma batch_answers: "cinv s \<Longrightarrow> batch_op items s = (s', reps, n) \<Longrightarrow> length reps = length items"
  using batch_replies by (metis length_map size_mset)

end

fun ingest_reply_to :: "IngestRequest \<Rightarrow> nat" where
  "ingest_reply_to (ReqUpsertQueue _ k) = k"
| "ingest_reply_to (ReqEnqueue _ k) = k"
| "ingest_reply_to (ReqClaimBatch _ _ k) = k"
| "ingest_reply_to (ReqRepend _ _ k) = k"
| "ingest_reply_to (ReqCleanup _ k) = k"
| "ingest_reply_to (ReqVacuum k) = k"

definition ingest_conn_ok :: "IngestConn \<Rightarrow> bool" where
  "ingest_conn_ok conn \<longleftrightarrow> ingest_wf (fst (snd conn)) (fst conn)"

lemma ingest_wf_ids: "ingest_wf names db \<Longrightarrow> list_all (\<lambda>r. 0 < aj_id r) (accepted_jobs db)"
  by (auto simp: ingest_wf_def list_all_iff)

interpretation ingest_conn: batch_conn conn_handle ingest_reply_to ingest_conn_ok conn_enqueue_batch pe_reply
proof unfold_locales
  fix s s' :: IngestConn and r reps
  obtain db names Es where s: "s = (db, names, Es)" by (cases s)
  assume ok: "ingest_conn_ok s" and h: "conn_handle r s = (s', reps)"
  have wf: "ingest_wf names db" using ok by (simp add: ingest_conn_ok_def s)
  show "ingest_conn_ok s'"
    using ingest_handle_keeps_wf [OF wf, of "Es 0" r] h by (auto simp: conn_handle_def s ingest_conn_ok_def split: prod.splits)
  show "map fst reps = [ingest_reply_to r]"
  proof (cases r)
    case (ReqEnqueue job reply)
    obtain db' rp n where e: "enqueue_batch (env_io (Es 0) 0) [\<lparr>pe_job = job, pe_reply = reply\<rparr>] names db = (db', rp, n)" by (metis prod_cases3)
    from enqueue_batch_replies [OF e ingest_wf_ids [OF wf]] have "mset (map fst rp) = {#reply#}" by simp
    then have "map fst rp = [reply]" by (rule mset_single_list)
    then show ?thesis using h ReqEnqueue e by (auto simp: conn_handle_def s comp_def case_prod_beta)
  qed (use h in \<open>auto simp: conn_handle_def s split: prod.splits\<close>)
next
  fix s s' :: IngestConn and items reps n
  obtain db names Es where s: "s = (db, names, Es)" by (cases s)
  assume ok: "ingest_conn_ok s" and b: "conn_enqueue_batch items s = (s', reps, n)"
  have wf: "ingest_wf names db" using ok by (simp add: ingest_conn_ok_def s)
  obtain db' rp where e: "enqueue_batch (env_io (Es 0) 0) items names db = (db', rp, n)" and r: "s' = (db', names, \<lambda>n. Es (Suc n))"
    "reps = map (\<lambda>(k, r). (k, RepAccepted r)) rp" using b by (auto simp: conn_enqueue_batch_def s split: prod.splits)
  show "ingest_conn_ok s'" using enqueue_batch_wf [OF wf e] by (simp add: ingest_conn_ok_def r)
  show "mset (map fst reps) = mset (map pe_reply items)"
    using enqueue_batch_replies [OF e ingest_wf_ids [OF wf]] by (simp add: r comp_def case_prod_beta)
qed

fun results_reply_to :: "ResultsRequest \<Rightarrow> nat" where
  "results_reply_to (RReqUpsertQueue _ k) = k"
| "results_reply_to (RReqDispatch _ k) = k"
| "results_reply_to (RReqComplete _ _ _ k) = k"
| "results_reply_to (RReqAbandon _ _ k) = k"
| "results_reply_to (RReqRecoverStale _ k) = k"
| "results_reply_to (RReqCleanup _ k) = k"
| "results_reply_to (RReqVacuum k) = k"

definition results_conn_ok :: "ResultsConn \<Rightarrow> bool" where
  "results_conn_ok conn \<longleftrightarrow> results_wf (fst conn)"


text \<open>Every position of a batch of completions keeps its disposition, so every completion is answered.\<close>

lemma fold_update_length: "(\<And>i ds. length (g i ds) = length ds) \<Longrightarrow> length (fold g xs ds) = length ds"
  by (induction xs arbitrary: ds) simp_all

lemma success_chunks_length: "length (snd (fold (complete_success_chunk pick now batch) cs st)) = length (snd st)"
proof (induction cs arbitrary: st)
  case (Cons c cs)
  have "length (snd (complete_success_chunk pick now batch c st)) = length (snd st)"
    by (simp add: complete_success_chunk_def Let_def case_prod_beta fold_update_length)
  with Cons.IH show ?case by simp
qed simp

lemma fail_chunks_length:
  "complete_fail_chunks pick now queues batch cs st = Inr (rows, ds) \<Longrightarrow> length ds = length (snd st)"
proof (induction cs arbitrary: st)
  case (Cons c cs)
  then obtain st' where st': "complete_fail_chunk pick now queues batch c st = Inr st'"
    "complete_fail_chunks pick now queues batch cs st' = Inr (rows, ds)" by (auto split: sum.splits)
  then have "length (snd st') = length (snd st)"
    by (auto simp: complete_fail_chunk_def Let_def case_prod_beta fold_update_length split: sum.splits)
  with Cons.IH [OF st'(2)] show ?case by simp
qed simp

lemma map_fst_map2: "length ds = length xs \<Longrightarrow> map fst (map2 (\<lambda>p d. (f p, g d)) xs ds) = map f xs"
  by (rule nth_equalityI) simp_all

lemma complete_batch_replies:
  assumes "complete_batch io pick now batch db = (db', replies, n)"
  shows "map fst replies = map pc_reply batch"
proof -
  let ?st = "fold (complete_success_chunk pick now batch)
      (chunks ROWS_PER_STATEMENT (filter (\<lambda>i. is_success (pc_outcome (batch ! i))) [0..<length batch]))
      (executions db, replicate (length batch) Ignored)"
  have st: "length (snd ?st) = length batch" by (simp add: success_chunks_length)
  have "map fst (map2 (\<lambda>p d. (pc_reply p, Inr d)) batch ds) = map pc_reply batch" if "length ds = length batch" for ds
    using that by (rule map_fst_map2)
  then show ?thesis
    using assms st by (auto simp: complete_batch_def Let_def comp_def split: if_splits option.splits sum.splits dest!: fail_chunks_length)
qed

interpretation results_conn: batch_conn conn_results_handle results_reply_to results_conn_ok conn_complete_batch pc_reply
proof unfold_locales
  fix s s' :: ResultsConn and r reps
  obtain db Es where s: "s = (db, Es)" by (cases s)
  assume ok: "results_conn_ok s" and h: "conn_results_handle r s = (s', reps)"
  have wf: "results_wf db" using ok by (simp add: results_conn_ok_def s)
  show "results_conn_ok s'"
    using results_handle_keeps_wf [OF wf, of "Es 0" r] h by (auto simp: conn_results_handle_def s results_conn_ok_def split: prod.splits)
  show "map fst reps = [results_reply_to r]"
  proof (cases r)
    case (RReqComplete j d oc k)
    obtain db' rp n where e: "complete_batch (env_io (Es 0) 0) (env_pick (Es 0)) (env_clock (Es 0) 0)
        [\<lparr>pc_job_id = j, pc_dispatch_id = d, pc_outcome = oc, pc_reply = k\<rparr>] db = (db', rp, n)" by (rule prod_cases3)
    from complete_batch_replies [OF e] h show ?thesis by (auto simp: RReqComplete e conn_results_handle_def s comp_def case_prod_beta)
  qed (use h in \<open>auto simp: conn_results_handle_def s split: prod.splits\<close>)
next
  fix s s' :: ResultsConn and items reps n
  obtain db Es where s: "s = (db, Es)" by (cases s)
  assume ok: "results_conn_ok s" and b: "conn_complete_batch items s = (s', reps, n)"
  obtain db' rp where e: "complete_batch (env_io (Es 0) 0) (env_pick (Es 0)) (env_clock (Es 0) 0) items db = (db', rp, n)"
    and r: "s' = (db', \<lambda>n. Es (Suc n))" "reps = map (\<lambda>(k, r). (k, RRepDisposition r)) rp"
    using b by (auto simp: conn_complete_batch_def s split: prod.splits)
  show "results_conn_ok s'" using ok ends_wf ends_complete_batch [OF e] by (auto simp: results_conn_ok_def r s)
  show "mset (map fst reps) = mset (map pc_reply items)"
    using complete_batch_replies [OF e] by (simp add: r comp_def case_prod_beta)
qed

end
