(* ===== verification/Maq_Writers_Runs.thy ===== *)
theory Maq_Writers_Runs
  imports Maq_Writers
begin

text \<open>
  The writer loops answer every request exactly once: what an iteration owes for the messages it takes
  from the channel, stated as an interface (\<open>writer_state\<close>, \<open>writer_iterations\<close>) whose loop lemmas are proved
  once, and its interpretation on the two writers.
\<close>

section \<open>Scripts\<close>

fun is_closed :: "'r Recv \<Rightarrow> bool" where
  "is_closed RxClosed = True"
| "is_closed _ = False"

definition closings :: "'r Recv list \<Rightarrow> nat" where
  "closings rx = length (filter is_closed rx)"

lemma closings_simps [simp]:
  "closings [] = 0" "closings (Got r # rx) = closings rx" "closings (RxEmpty # rx) = closings rx"
  "closings (RxClosed # rx) = Suc (closings rx)" "closings (cs @ rx) = closings cs + closings rx"
  by (simp_all add: closings_def)

text \<open>The channel of a script closes after its messages and stays closed for \<open>n\<close> receive attempts.\<close>

definition closes :: "nat \<Rightarrow> 'r Recv list \<Rightarrow> bool" where
  "closes n rx \<longleftrightarrow> dropWhile (\<lambda>r. \<not> is_closed r) rx = replicate n RxClosed"

lemma closes_simps [simp]:
  "closes n (Got r # rx) = closes n rx" "closes n (RxEmpty # rx) = closes n rx"
  "closes n (RxClosed # rx) = (RxClosed # rx = replicate n RxClosed)" "closes n [] = (n = 0)"
  by (auto simp: closes_def)

lemma requests_append [simp]: "requests (cs @ rx) = requests cs @ requests rx"
  by (induction cs rule: requests.induct) simp_all

lemma requests_replicate [simp]: "requests (replicate n RxClosed) = []"
  by (induction n) simp_all

lemma all_closed: "cs @ rx = replicate n RxClosed \<Longrightarrow> closings cs = length cs \<and> rx = replicate (n - length cs) RxClosed"
proof -
  assume "cs @ rx = replicate n RxClosed"
  then have "cs = take (length cs) (replicate n RxClosed)" "rx = drop (length cs) (replicate n RxClosed)" by (metis append_eq_conv_conj)+
  then show ?thesis by (metis closings_def drop_replicate filter_True in_set_replicate is_closed.simps(1) take_replicate)
qed

lemma closes_rest:
  assumes "closes n (cs @ rx)" and "closings cs \<le> 1"
  shows "\<exists>m. n \<le> Suc m \<and> closes m rx"
  using assms
proof (induction cs)
  case (Cons r cs)
  show ?case
  proof (cases r)
    case RxClosed
    with Cons.prems have n: "n = Suc (n - 1)" "cs @ rx = replicate (n - 1) RxClosed" by (cases n; simp)+
    with all_closed [OF n(2)] RxClosed Cons.prems(2) have "rx = replicate (n - 1) RxClosed" by simp
    then show ?thesis using n(1) by (intro exI [of _ "n - 1"]) (simp add: closes_def)
  qed (use Cons in simp_all)
qed (auto intro: exI [of _ n])

lemma closes_over: "closes n (cs @ rx) \<Longrightarrow> 0 < closings cs \<Longrightarrow> requests rx = []"
proof (induction cs)
  case (Cons r cs)
  show ?case
  proof (cases r)
    case RxClosed
    with Cons.prems have "cs @ rx = replicate (n - 1) RxClosed" by (cases n) simp_all
    with all_closed [OF this] show ?thesis by simp
  qed (use Cons in simp_all)
qed simp

lemma recv_skips: "\<exists>cs. rx = cs @ recv rx \<and> requests cs = [] \<and> closings cs = 0"
proof (induction rx rule: recv.induct)
  case (1 rx)
  then obtain cs where "rx = cs @ recv rx" "requests cs = []" "closings cs = 0" by blast
  then show ?case by (intro exI [of _ "RxEmpty # cs"]) simp
qed simp_all

lemma recv_nonempty: "closes n rx \<Longrightarrow> 0 < n \<Longrightarrow> recv rx \<noteq> []"
  by (induction rx rule: recv.induct) (simp_all del: closes_simps(3))

lemma recv_cases: "recv rx = RxEmpty # ys \<Longrightarrow> P"
  by (induction rx rule: recv.induct) simp_all

section \<open>Writers\<close>

text \<open>The readings at which requests are observed are within eight years of the origin of the monotonic clock.\<close>

definition tick_ok :: "Tick \<Rightarrow> bool" where
  "tick_ok T \<longleftrightarrow> (\<forall>i. tk_popped T i \<le> 2 ^ 28 * 1000000000 \<and> tk_received T i \<le> 2 ^ 28 * 1000000000)"

abbreviation rx_ids :: "('r \<Rightarrow> nat) \<Rightarrow> 'r Recv list \<Rightarrow> nat multiset" where
  "rx_ids f rx \<equiv> mset (map f (requests rx))"

text \<open>
  The accounts of a writer: the channels it has answered, those of the requests that wait, and what it
  has still to receive. A part of the loop that consumed the receives \<open>cs\<close> must have answered or queued
  exactly their requests.
\<close>

locale writer_state =
  fixes ok :: "'w \<Rightarrow> bool"
    and answered waiting :: "'w \<Rightarrow> nat multiset"
    and rx_of :: "'w \<Rightarrow> 'r Recv list"
    and reply_of :: "'r \<Rightarrow> nat"
begin

definition takes :: "'w \<Rightarrow> 'r Recv list \<Rightarrow> 'w \<Rightarrow> bool" where
  "takes w cs w' \<longleftrightarrow> rx_of w = cs @ rx_of w' \<and> answered w' + waiting w' = answered w + waiting w + rx_ids reply_of cs"

definition more :: "'w \<Rightarrow> 'w \<Rightarrow> bool" where
  "more w w' \<longleftrightarrow> size (answered w) < size (answered w')"

lemma takes_trans: "takes w ds v \<Longrightarrow> takes v cs w' \<Longrightarrow> takes w (ds @ cs) w'"
  unfolding takes_def by (metis (no_types, lifting) add.assoc append.assoc map_append mset_append requests_append)

text \<open>What an iteration with something to do promises: it answers a request, or it ends the loop.\<close>

definition steps :: "bool \<Rightarrow> 'w \<Rightarrow> 'w \<Rightarrow> bool" where
  "steps ended w w' \<longleftrightarrow> ok w' \<and> (ended \<or> more w w') \<and>
     (\<exists>cs. takes w cs w' \<and> (if ended then 0 < closings cs \<and> waiting w' = {#} else closings cs \<le> 1))"

lemma steps_after:
  assumes "takes w ds v" and "closings ds = 0" and "answered v = answered w" and "steps ended v w'"
  shows "steps ended w w'"
proof -
  obtain cs where "takes v cs w'" "if ended then 0 < closings cs \<and> waiting w' = {#} else closings cs \<le> 1"
    using assms(4) unfolding steps_def by blast
  with takes_trans [OF assms(1)] assms(2)
  have "takes w (ds @ cs) w'" "if ended then 0 < closings (ds @ cs) \<and> waiting w' = {#} else closings (ds @ cs) \<le> 1"
    by (cases ended; simp)+
  with assms(3,4) show ?thesis unfolding steps_def more_def by metis
qed

end

text \<open>
  What the iterations of a writer promise: an iteration that has something to do steps, one that has
  nothing changes nothing.
\<close>

locale writer_iterations = writer_state +
  fixes iter :: "Tick \<Rightarrow> 'a \<Rightarrow> (bool \<times> 'a) option"
  assumes iter_steps: "ok w \<Longrightarrow> tick_ok T \<Longrightarrow> waiting w \<noteq> {#} \<or> recv (rx_of w) \<noteq> [] \<Longrightarrow>
      \<exists>ended w'. iter T w = Some (ended, w') \<and> steps ended w w'"
    and iter_idle: "waiting w = {#} \<Longrightarrow> recv (rx_of w) = [] \<Longrightarrow> iter T w = Some (False, w)"
begin

lemma iter_accounts:
  assumes "ok w" and "tick_ok T"
  shows "\<exists>ended w' cs. iter T w = Some (ended, w') \<and> ok w' \<and> takes w cs w' \<and> (ended \<longrightarrow> waiting w' = {#})"
proof (cases "waiting w = {#} \<and> recv (rx_of w) = []")
  case True
  then have "iter T w = Some (False, w)" "takes w [] w" by (simp_all add: iter_idle takes_def)
  with assms(1) show ?thesis by blast
next
  case False
  then show ?thesis using iter_steps [OF assms] unfolding steps_def by metis
qed

lemma loop_accounts:
  assumes "ok w" and "list_all tick_ok Ts"
  shows "\<exists>ended w' cs. writer_loop iter Ts w = Some (ended, w') \<and> ok w' \<and> takes w cs w' \<and> (ended \<longrightarrow> waiting w' = {#})"
  using assms
proof (induction Ts arbitrary: w)
  case Nil
  then show ?case by (auto simp: takes_def)
next
  case (Cons T Ts)
  have T: "tick_ok T" "list_all tick_ok Ts" using Cons.prems(2) by simp_all
  from iter_accounts [OF Cons.prems(1) T(1)] obtain ended w1 cs where it: "iter T w = Some (ended, w1)" "ok w1" "takes w cs w1"
    "ended \<longrightarrow> waiting w1 = {#}" by blast
  from Cons.IH [OF it(2) T(2)] obtain e w' ds where rest: "writer_loop iter Ts w1 = Some (e, w')" "ok w'" "takes w1 ds w'" "e \<longrightarrow> waiting w' = {#}"
    by blast
  show ?case
  proof (cases ended)
    case False
    with it(1) rest takes_trans [OF it(3) rest(3)] show ?thesis by auto
  qed (use it in auto)
qed

lemma loop_answers:
  assumes "ok w" and "list_all tick_ok Ts" and "closes n (rx_of w)" "length Ts \<le> n"
    and "size (waiting w) + length (requests (rx_of w)) < length Ts"
  shows "\<exists>w'. writer_loop iter Ts w = Some (True, w') \<and> ok w' \<and> answered w' = answered w + waiting w + rx_ids reply_of (rx_of w)"
  using assms
proof (induction Ts arbitrary: w n)
  case (Cons T Ts)
  have T: "tick_ok T" "list_all tick_ok Ts" using Cons.prems(2) by simp_all
  have "recv (rx_of w) \<noteq> []" using recv_nonempty [OF Cons.prems(3)] Cons.prems(4) by simp
  with iter_steps [OF Cons.prems(1) T(1)] obtain ended w1 cs where it: "iter T w = Some (ended, w1)" "ok w1" "ended \<or> more w w1"
    and cs: "rx_of w = cs @ rx_of w1" "answered w1 + waiting w1 = answered w + waiting w + rx_ids reply_of cs"
    "if ended then 0 < closings cs \<and> waiting w1 = {#} else closings cs \<le> 1" unfolding steps_def takes_def by blast
  show ?case
  proof (cases ended)
    case True
    have "requests (rx_of w1) = []" using closes_over [of n cs] Cons.prems(3) cs(1,3) True by simp
    with it True cs show ?thesis by simp
  next
    case False
    obtain m where m: "n \<le> Suc m" "closes m (rx_of w1)" using closes_rest [of n cs] Cons.prems(3) cs(1,3) False by auto
    have "size (answered w1) + size (waiting w1) = size (answered w) + size (waiting w) + length (requests cs)"
      using arg_cong [OF cs(2), of size] by simp
    then have "size (waiting w1) + length (requests (rx_of w1)) < length Ts" using Cons.prems(5) cs(1) it(3) False by (simp add: more_def)
    from Cons.IH [OF it(2) T(2) m(2) _ this] m(1) Cons.prems(4) it(1) False cs(1,2) show ?thesis by (auto simp: ac_simps)
  qed
qed simp

end

section \<open>The ingest writer\<close>

lemma pop_pending_Suc:
  assumes "pop_pending (Suc n) now (x # q) c = (p, q', c')"
  obtains p1 where "p = x # p1" and "pop_pending n (\<lambda>i. now (Suc i)) q (observe_request (now 0) c) = (p1, q', c')"
  using assms by (cases "pop_pending n (\<lambda>i. now (Suc i)) q (observe_request (now 0) c)") simp

lemma pop_pending_append: "pop_pending n now q c = (p, q', c') \<Longrightarrow> q = p @ q'"
proof (induction n now q c arbitrary: p rule: pop_pending.induct)
  case (3 n now x q c)
  from 3(2) obtain p1 where p1: "p = x # p1" "pop_pending n (\<lambda>i. now (Suc i)) q (observe_request (now 0) c) = (p1, q', c')"
    by (rule pop_pending_Suc)
  from 3(1) [OF p1(2)] p1(1) show ?case by simp
qed simp_all

lemma pop_pending_length: "pop_pending n now q c = (p, q', c') \<Longrightarrow> length p = min n (length q)"
proof (induction n now q c arbitrary: p rule: pop_pending.induct)
  case (3 n now x q c)
  from 3(2) obtain p1 where p1: "p = x # p1" "pop_pending n (\<lambda>i. now (Suc i)) q (observe_request (now 0) c) = (p1, q', c')"
    by (rule pop_pending_Suc)
  from 3(1) [OF p1(2)] p1(1) show ?case by simp
qed simp_all

lemma pop_pending_ok:
  "pop_pending n now q c = (p, q', c') \<Longrightarrow> controller_ok c \<Longrightarrow> \<forall>i. now i \<le> 2 ^ 28 * 1000000000 \<Longrightarrow> controller_ok c'"
proof (induction n now q c arbitrary: p rule: pop_pending.induct)
  case (3 n now x q c)
  from 3(2) obtain p1 where p1: "p = x # p1" "pop_pending n (\<lambda>i. now (Suc i)) q (observe_request (now 0) c) = (p1, q', c')"
    by (rule pop_pending_Suc)
  then show ?case by (intro 3(1) [OF p1(2)]) (use 3(3,4) in \<open>simp_all add: controller_ok_request\<close>)
qed simp_all

lemma observe_request_size [simp]: "batch_size (observe_request now c) = batch_size c"
  by (simp add: batch_size_def)

definition iq_ids :: "IngestQueues \<Rightarrow> nat multiset" where
  "iq_ids qs = mset (map ingest_reply_to (iq_meta qs)) + mset (map ingest_reply_to (iq_claim qs)) + mset (map pe_reply (iq_ingest qs))"

lemma iq_push_ids [simp]: "iq_ids (iq_push r qs) = iq_ids qs + {#ingest_reply_to r#}"
  by (cases r) (simp_all add: iq_ids_def)

lemma iq_empty_ids: "iq_is_empty qs \<longleftrightarrow> iq_ids qs = {#}"
  by (auto simp: iq_is_empty_def iq_ids_def)

lemma iq_drain_accounts:
  "iq_drain rx qs = (qs', rx') \<Longrightarrow>
     \<exists>cs. rx = cs @ rx' \<and> iq_ids qs' = iq_ids qs + rx_ids ingest_reply_to cs \<and> closings cs \<le> 1"
proof (induction rx qs rule: iq_drain.induct)
  case (1 r rx qs)
  then obtain cs where "rx = cs @ rx'" "iq_ids qs' = iq_ids (iq_push r qs) + rx_ids ingest_reply_to cs" "closings cs \<le> 1" by auto
  then show ?case by (intro exI [of _ "Got r # cs"]) simp
qed (auto intro: exI [of _ "[RxClosed]"] exI [of _ "[RxEmpty]"])

lemma ingest_fill_accounts:
  "ingest_fill target now rx p qs c = (p', rx', qs', c', d) \<Longrightarrow>
     \<exists>cs. rx = cs @ rx' \<and> closings cs = (if d then 1 else 0) \<and> length p \<le> length p' \<and>
      mset (map pe_reply p') + iq_ids qs' = mset (map pe_reply p) + iq_ids qs + rx_ids ingest_reply_to cs"
  (is "_ \<Longrightarrow> ?concl rx p qs")
proof (induction rx arbitrary: now p qs c)
  case (Cons r rx)
  note fill = Cons.prems
  show ?case
  proof (cases "target \<le> length p")
    case False
    show ?thesis
    proof (cases r)
      case (Got q)
      have stop: "?concl (r # rx) p qs" if "p' = p" "rx' = rx" "qs' = iq_push q qs" "\<not> d"
        using that Got by (intro exI [of _ "[Got q]"]) simp
      have go: "?concl (r # rx) p qs" if "ingest_fill target now1 rx p1 qs1 c1 = (p', rx', qs', c', d)" "length p \<le> length p1"
        "mset (map pe_reply p1) + iq_ids qs1 = mset (map pe_reply p) + iq_ids qs + {#ingest_reply_to q#}" for now1 p1 qs1 c1
      proof -
        from Cons.IH [OF that(1)] obtain cs where "rx = cs @ rx'" "closings cs = (if d then 1 else 0)" "length p1 \<le> length p'"
          "mset (map pe_reply p') + iq_ids qs' = mset (map pe_reply p1) + iq_ids qs1 + rx_ids ingest_reply_to cs" by blast
        with that(2,3) Got show ?thesis by (intro exI [of _ "Got q # cs"]) simp
      qed
      show ?thesis
      proof (cases q)
        case (ReqEnqueue job k)
        with fill False Got have "ingest_fill target (\<lambda>i. now (Suc i)) rx (p @ [\<lparr>pe_job = job, pe_reply = k\<rparr>]) qs (observe_request (now 0) c) =
          (p', rx', qs', c', d)" by simp
        then show ?thesis by (rule go) (simp_all add: ReqEnqueue)
      next
        case (ReqCleanup cutoff k)
        with fill False Got have "ingest_fill target now rx p (iq_push q qs) c = (p', rx', qs', c', d)" by simp
        then show ?thesis by (rule go) simp_all
      next
        case (ReqVacuum k)
        with fill False Got have "ingest_fill target now rx p (iq_push q qs) c = (p', rx', qs', c', d)" by simp
        then show ?thesis by (rule go) simp_all
      qed (use fill False Got in \<open>intro stop; simp\<close>)+
    qed (use False fill in \<open>auto intro: exI [of _ "[RxClosed]"] exI [of _ "[RxEmpty]"]\<close>)
  qed (use fill in \<open>auto intro: exI [of _ "[]"]\<close>)
qed (auto intro: exI [of _ "[]"])

lemma ingest_fill_ok:
  "ingest_fill target now rx p qs c = (p', rx', qs', c', d) \<Longrightarrow> controller_ok c \<Longrightarrow> \<forall>i. now i \<le> 2 ^ 28 * 1000000000 \<Longrightarrow> controller_ok c'"
  by (induction target now rx p qs c rule: ingest_fill.induct)
     (auto simp: controller_ok_request split: if_splits Recv.splits IngestRequest.splits)

definition iw_ok :: "IngestWriter \<Rightarrow> bool" where
  "iw_ok w \<longleftrightarrow> ingest_conn_ok (iw_conn w) \<and> controller_ok (iw_controller w)"

definition iw_answered :: "IngestWriter \<Rightarrow> nat multiset" where
  "iw_answered w = mset (map fst (iw_replies w))"

lemma iw_answered_update [simp]:
  "iw_answered (w\<lparr>iw_conn := conn\<rparr>) = iw_answered w" "iw_answered (w\<lparr>iw_rx := rx\<rparr>) = iw_answered w"
  "iw_answered (w\<lparr>iw_queues := qs\<rparr>) = iw_answered w" "iw_answered (w\<lparr>iw_controller := c\<rparr>) = iw_answered w"
  by (simp_all add: iw_answered_def)


interpretation iw: writer_state iw_ok iw_answered "\<lambda>w. iq_ids (iw_queues w)" iw_rx ingest_reply_to .

text \<open>A step of the writer that takes nothing from the channel and answers \<open>ids\<close>.\<close>

definition iw_answers :: "nat multiset \<Rightarrow> IngestWriter \<Rightarrow> IngestWriter \<Rightarrow> bool" where
  "iw_answers ids w w' \<longleftrightarrow> iw_ok w' \<and> iw_rx w' = iw_rx w \<and> iw_answered w' = iw_answered w + ids"

lemma flush_pending_answers:
  assumes "iw_ok w"
  shows "\<exists>w'. flush_pending T p reason b w = Some w' \<and> iw_answers (mset (map pe_reply p)) w w' \<and> iw_queues w' = iw_queues w"
proof (cases "p = []")
  case False
  obtain conn rep n where e: "conn_enqueue_batch p (iw_conn w) = (conn, rep, n)" by (rule prod_cases3)
  have ok: "ingest_conn_ok (iw_conn w)" "controller_ok (iw_controller w)" using assms by (simp_all add: iw_ok_def)
  note c = ingest_conn.batch_inv [OF ok(1) e] ingest_conn.batch_replies [OF ok(1) e]
  show ?thesis
  proof (cases n)
    case None
    then show ?thesis using False e c ok(2) by (simp add: flush_pending_def iw_answers_def iw_ok_def iw_answered_def)
  next
    case (Some k)
    obtain c' where "record_successful_commit (min (length p) k) (tk_elapsed T) (tk_committed T) b reason (iw_controller w) = Some c'"
      "controller_ok c'" using controller_ok_commit [OF ok(2)] by blast
    then show ?thesis using False e c Some by (simp add: flush_pending_def iw_answers_def iw_ok_def iw_answered_def)
  qed
qed (use assms in \<open>simp add: flush_pending_def iw_answers_def\<close>)

lemma flush_ingest_answers:
  assumes "iw_ok w"
  shows "\<exists>w'. flush_ingest T b w = Some w' \<and> iw_answers (mset (map pe_reply (iq_ingest (iw_queues w)))) w w' \<and>
    iw_queues w' = (iw_queues w)\<lparr>iq_ingest := []\<rparr>"
proof (cases "iq_ingest (iw_queues w) = []")
  case False
  have "iw_ok (w\<lparr>iw_queues := (iw_queues w)\<lparr>iq_ingest := []\<rparr>\<rparr>)" using assms by (simp add: iw_ok_def)
  from flush_pending_answers [OF this] False show ?thesis by (simp add: flush_ingest_def iw_answers_def)
qed (use assms in \<open>simp add: flush_ingest_def iw_answers_def\<close>)

lemma ingest_shutdown_answers:
  assumes "iw_ok w"
  shows "\<exists>w'. ingest_shutdown T b w = Some w' \<and> iw_answers (iq_ids (iw_queues w)) w w' \<and> iq_ids (iw_queues w') = {#}"
proof -
  from flush_ingest_answers [OF assms] obtain w1 where f: "flush_ingest T b w = Some w1"
    and w1: "iw_answers (mset (map pe_reply (iq_ingest (iw_queues w)))) w w1" and q1: "iw_queues w1 = (iw_queues w)\<lparr>iq_ingest := []\<rparr>" by blast
  have ok1: "ingest_conn_ok (iw_conn w1)" "controller_ok (iw_controller w1)" using w1 by (simp_all add: iw_answers_def iw_ok_def)
  obtain conn1 rep1 where h1: "handle_all conn_handle (iq_meta (iw_queues w)) (iw_conn w1) = (conn1, rep1)" by fastforce
  note a1 = ingest_conn.handle_all_ok [OF ok1(1) h1]
  obtain conn2 rep2 where h2: "handle_all conn_handle (iq_claim (iw_queues w)) conn1 = (conn2, rep2)" by fastforce
  note a2 = ingest_conn.handle_all_ok [OF conjunct1 [OF a1] h2]
  define w' where "w' = w1\<lparr>iw_conn := conn2, iw_queues := (iw_queues w1)\<lparr>iq_meta := [], iq_claim := []\<rparr>,
    iw_replies := iw_replies w1 @ rep1 @ rep2\<rparr>"
  have "ingest_shutdown T b w = Some w'" by (simp add: ingest_shutdown_def f q1 h1 h2 w'_def)
  moreover have "iw_answered w' = iw_answered w1 + mset (map ingest_reply_to (iq_meta (iw_queues w))) +
      mset (map ingest_reply_to (iq_claim (iw_queues w)))"
    unfolding w'_def iw_answered_def using a1 a2 by (simp add: ac_simps del: mset_map)
  then have "iw_answers (iq_ids (iw_queues w)) w w'"
    using w1 a2 ok1(2) by (simp add: iw_answers_def iw_ok_def iq_ids_def w'_def ac_simps)
  moreover have "iq_ids (iw_queues w') = {#}" by (simp add: w'_def q1 iq_ids_def)
  ultimately show ?thesis by blast
qed

lemma ingest_answer_answers:
  assumes "iw_ok w"
  shows "iw_answers {#ingest_reply_to r#} w (ingest_answer r w) \<and> iw_queues (ingest_answer r w) = iw_queues w"
proof -
  obtain conn rep where h: "conn_handle r (iw_conn w) = (conn, rep)" by fastforce
  have ok: "ingest_conn_ok (iw_conn w)" "controller_ok (iw_controller w)" using assms by (simp_all add: iw_ok_def)
  have "mset (map fst rep) = {#ingest_reply_to r#}" using ingest_conn.handle_replies [OF ok(1) h] by simp
  then show ?thesis using ingest_conn.handle_inv [OF ok(1) h] ok(2) by (simp add: ingest_answer_def h iw_answers_def iw_ok_def iw_answered_def)
qed

lemma run_ingest_turn_takes:
  assumes "iw_ok w" and "tick_ok T" and "iq_ingest (iw_queues w) \<noteq> []"
  shows "\<exists>d w' cs. run_ingest_turn T w = Some (d, w') \<and> iw_ok w' \<and> iw.more w w' \<and> iw.takes w cs w' \<and> closings cs = (if d then 1 else 0)"
proof -
  let ?target = "batch_size (iw_controller w)"
  have ok: "ingest_conn_ok (iw_conn w)" "controller_ok (iw_controller w)" using assms(1) by (simp_all add: iw_ok_def)
  have now: "\<forall>i. tk_popped T i \<le> 2 ^ 28 * 1000000000" "\<forall>i. tk_received T i \<le> 2 ^ 28 * 1000000000"
    using assms(2) by (simp_all add: tick_ok_def)
  obtain p rest c where pop: "pop_pending ?target (tk_popped T) (iq_ingest (iw_queues w)) (iw_controller w) = (p, rest, c)" by (rule prod_cases3)
  have p: "iq_ingest (iw_queues w) = p @ rest" "controller_ok c"
    using pop_pending_append [OF pop] pop_pending_ok [OF pop ok(2) now(1)] by simp_all
  have p0: "0 < length p" using pop_pending_length [OF pop] assms(3) controller_ok_size [OF ok(2)] by simp
  let ?qs = "(iw_queues w)\<lparr>iq_ingest := rest\<rparr>"
  obtain p' rx qs c' d where fill: "ingest_fill ?target (tk_received T) (iw_rx w) p ?qs c = (p', rx, qs, c', d)" by (rule prod_cases5)
  from ingest_fill_accounts [OF fill] obtain cs where cs: "iw_rx w = cs @ rx" "closings cs = (if d then 1 else 0)" "length p \<le> length p'"
    "mset (map pe_reply p') + iq_ids qs = mset (map pe_reply p) + iq_ids ?qs + rx_ids ingest_reply_to cs" by blast
  let ?u = "w\<lparr>iw_rx := rx, iw_queues := qs, iw_controller := c'\<rparr>" and ?reason = "if ?target \<le> length p' then FullBatch else Timeout"
  have "iw_ok ?u" using ok(1) ingest_fill_ok [OF fill p(2) now(2)] by (simp add: iw_ok_def)
  from flush_pending_answers [OF this, of T p' ?reason "tk_backlog T"] obtain w' where
    f: "flush_pending T p' ?reason (tk_backlog T) ?u = Some w'" and w': "iw_ok w'" "iw_rx w' = rx"
    "iw_answered w' = iw_answered w + mset (map pe_reply p')" "iw_queues w' = qs" by (auto simp: iw_answers_def)
  have "run_ingest_turn T w = Some (d, w')" using pop p0 fill f by (simp add: run_ingest_turn_def Let_def)
  moreover have "iw.takes w cs w'"
  proof -
    have "iq_ids (iw_queues w) = mset (map pe_reply p) + iq_ids ?qs" by (simp add: iq_ids_def p(1))
    then show ?thesis unfolding iw.takes_def w'(2-4) by (simp only: add.assoc cs(1,4) simp_thms)
  qed
  moreover have "iw.more w w'"
  proof -
    have "0 < length p'" using cs(3) p0 by linarith
    then show ?thesis by (simp only: iw.more_def w'(3) size_union size_mset length_map)
  qed
  ultimately show ?thesis using w'(1) cs(2) by blast
qed

lemma ingest_shutdown_steps:
  assumes "iw_ok v" and "iw.takes w cs v" and "0 < closings cs"
  shows "\<exists>w'. ingest_shutdown T b v = Some w' \<and> iw.steps True w w'"
proof -
  from ingest_shutdown_answers [OF assms(1)] obtain w' where sh: "ingest_shutdown T b v = Some w'"
    "iw_answers (iq_ids (iw_queues v)) v w'" "iq_ids (iw_queues w') = {#}" by blast
  then have "iw.takes v [] w'" by (simp add: iw.takes_def iw_answers_def)
  from iw.takes_trans [OF assms(2) this] sh assms(3) show ?thesis unfolding iw.steps_def iw_answers_def by auto
qed

text \<open>The part of an iteration after the first request.\<close>

lemma ingest_serve_steps:
  assumes "iw_ok w" and "tick_ok T" and "iq_ids (iw_queues w) \<noteq> {#}"
  shows "\<exists>e w'. ingest_serve T w = Some (e, w') \<and> iw.steps e w w'"
proof -
  obtain qs rx where dr: "iq_drain (iw_rx w) (iw_queues w) = (qs, rx)" by fastforce
  from iq_drain_accounts [OF dr] obtain ds where ds: "iw_rx w = ds @ rx" "iq_ids qs = iq_ids (iw_queues w) + rx_ids ingest_reply_to ds"
    "closings ds \<le> 1" by blast
  define v where "v = w\<lparr>iw_queues := qs, iw_rx := rx\<rparr>"
  have v: "iw_ok v" "iw_answered v = iw_answered w" "iw.takes w ds v" using assms(1) ds by (simp_all add: v_def iw_ok_def iw.takes_def add.assoc)
  have one: "iw.steps False w (ingest_answer r u)" if u: "iw_ok u" "iw_answered u = iw_answered w" "iw_rx u = rx"
    "iq_ids qs = iq_ids (iw_queues u) + {#ingest_reply_to r#}" for r u
    unfolding iw.steps_def iw.takes_def iw.more_def using ingest_answer_answers [OF u(1), of r] u ds
    by (intro conjI disjI2 exI [of _ ds]) (simp_all add: iw_answers_def)
  show ?thesis
  proof (cases "iq_meta qs")
    case (Cons r ms)
    let ?u = "v\<lparr>iw_queues := qs\<lparr>iq_meta := ms\<rparr>\<rparr>"
    have "iw.steps False w (ingest_answer r ?u)" by (rule one) (use v(1) Cons in \<open>simp_all add: v_def iw_ok_def iq_ids_def\<close>)
    then show ?thesis using dr Cons by (auto simp: ingest_serve_def v_def)
  next
    case meta: Nil
    show ?thesis
    proof (cases "iq_claim qs")
      case (Cons r ms)
      let ?u = "v\<lparr>iw_queues := qs\<lparr>iq_claim := ms\<rparr>\<rparr>"
      have "iw.steps False w (ingest_answer r ?u)" by (rule one) (use v(1) Cons in \<open>simp_all add: v_def iw_ok_def iq_ids_def\<close>)
      then show ?thesis using dr meta Cons by (auto simp: ingest_serve_def v_def)
    next
      case claim: Nil
      have "iq_ids qs \<noteq> {#}" using ds(2) assms(3) by simp
      then have ing: "iq_ingest (iw_queues v) \<noteq> []" using meta claim by (auto simp: iq_ids_def v_def)
      from run_ingest_turn_takes [OF v(1) assms(2) this] obtain d w1 cs where t: "run_ingest_turn T v = Some (d, w1)"
        "iw_ok w1" "iw.more v w1" "iw.takes v cs w1" "closings cs = (if d then 1 else 0)" by blast
      note all = iw.takes_trans [OF v(3) t(4)]
      show ?thesis
      proof (cases d)
        case True
        with ingest_shutdown_steps [OF t(2) all] t(5) obtain w' where "ingest_shutdown T (tk_backlog T) w1 = Some w'" "iw.steps True w w'" by auto
        with dr meta claim ing t(1) True show ?thesis by (auto simp: ingest_serve_def v_def)
      next
        case False
        then have "iw.steps False w w1" using t(2,3,5) ds(3) all v(2) unfolding iw.steps_def iw.more_def by auto
        with dr meta claim ing t(1) False show ?thesis by (auto simp: ingest_serve_def v_def)
      qed
    qed
  qed
qed

lemma ingest_iteration_steps:
  assumes "iw_ok w" and "tick_ok T" and "iq_ids (iw_queues w) \<noteq> {#} \<or> recv (iw_rx w) \<noteq> []"
  shows "\<exists>e w'. ingest_iteration T w = Some (e, w') \<and> iw.steps e w w'"
proof (cases "iq_is_empty (iw_queues w)")
  case False
  then show ?thesis using ingest_serve_steps [OF assms(1,2)] by (auto simp: ingest_iteration_def iq_empty_ids)
next
  case True
  then have none: "iq_ids (iw_queues w) = {#}" by (simp add: iq_empty_ids)
  then obtain r rx where rx: "recv (iw_rx w) = r # rx" using assms(3) by (cases "recv (iw_rx w)") auto
  obtain cs where cs: "iw_rx w = cs @ r # rx" "requests cs = []" "closings cs = 0" using recv_skips [of "iw_rx w"] rx by auto
  show ?thesis
  proof (cases r)
    case (Got q)
    let ?v = "w\<lparr>iw_queues := iq_push q (iw_queues w), iw_rx := rx\<rparr>"
    have "iw_ok ?v" using assms(1) by (simp add: iw_ok_def)
    then obtain e w' where s: "ingest_serve T ?v = Some (e, w')" "iw.steps e ?v w'" using ingest_serve_steps [OF _ assms(2), of ?v] by auto
    have "iw.takes w (cs @ [Got q]) ?v" using cs Got by (simp add: iw.takes_def)
    from iw.steps_after [OF this _ _ s(2)] cs(3) s(1) True rx Got show ?thesis by (auto simp: ingest_iteration_def)
  next
    case RxClosed
    let ?v = "w\<lparr>iw_rx := rx\<rparr>"
    have "iw_ok ?v" using assms(1) by (simp add: iw_ok_def)
    moreover have "iw.takes w (cs @ [RxClosed]) ?v" using cs RxClosed by (simp add: iw.takes_def)
    ultimately obtain w' where "ingest_shutdown T 0 ?v = Some w'" "iw.steps True w w'" using ingest_shutdown_steps [of ?v w "cs @ [RxClosed]" T 0] by auto
    with True rx RxClosed show ?thesis by (auto simp: ingest_iteration_def)
  next
    case RxEmpty
    with rx recv_cases show ?thesis by blast
  qed
qed

interpretation ingest_loop: writer_iterations iw_ok iw_answered "\<lambda>w. iq_ids (iw_queues w)" iw_rx ingest_reply_to ingest_iteration
  by unfold_locales (fact ingest_iteration_steps, simp add: ingest_iteration_def iq_empty_ids)

lemma IngestWriter_new_sel [simp]:
  "iw_replies (IngestWriter_new o' conn rx) = []" "iw_answered (IngestWriter_new o' conn rx) = {#}" "iw_rx (IngestWriter_new o' conn rx) = rx"
  "iq_ids (iw_queues (IngestWriter_new o' conn rx)) = {#}"
  by (simp_all add: IngestWriter_new_def iq_ids_def iw_answered_def)

lemma IngestWriter_new_ok:
  "BatchOptions_validate sec o' = Inr () \<Longrightarrow> options_in_range o' \<Longrightarrow> ingest_conn_ok conn \<Longrightarrow> iw_ok (IngestWriter_new o' conn rx)"
  using controller_ok_new by (simp add: iw_ok_def IngestWriter_new_def)

text \<open>
  C10. The ingest writer answers every request once and then stops. From a well-formed database and
  validated options in range, whatever arrives on the channel and whenever (messages interleaved with
  moments of silence), with any measurements within eight years and any failing calls of the database,
  once the channel has closed the loop ends after at most one more iteration than there were requests,
  without a panic; by then the replies it has sent are, as a multiset of reply channels,
  exactly the requests it was sent, and the database is well formed.
\<close>

theorem ingest_writer_answers_every_request:
  assumes "BatchOptions_validate sec o' = Inr ()" and "options_in_range o'" and "ingest_conn_ok conn"
    and "list_all tick_ok Ts" and "closes n rx" "length Ts \<le> n" "length (requests rx) < length Ts"
  shows "\<exists>w. ingest_writer_loop Ts (IngestWriter_new o' conn rx) = Some (True, w) \<and>
    mset (map fst (iw_replies w)) = mset (map ingest_reply_to (requests rx)) \<and> ingest_conn_ok (iw_conn w)"
  using ingest_loop.loop_answers [OF IngestWriter_new_ok [OF assms(1-3)] assms(4), of n rx] assms(5-7)
  by (auto simp: ingest_writer_loop_def iw_ok_def iw_answered_def)

definition sample_tick :: Tick where
  "sample_tick = \<lparr>tk_popped = \<lambda>i. 1000, tk_received = \<lambda>i. 5000, tk_elapsed = 800, tk_committed = 9000, tk_now = 9500, tk_backlog = 0\<rparr>"

definition sample_calls :: "nat \<Rightarrow> env" where
  "sample_calls n = \<lparr>env_io = \<lambda>_. None, env_clock = \<lambda>_. 7, env_uuid = \<lambda>_. [], env_pick = \<lambda>k. k\<rparr>"

lemma sample_ticks_ok: "list_all tick_ok (replicate n sample_tick)"
  by (simp add: list_all_iff tick_ok_def sample_tick_def)

theorem ingest_writer_answers_every_request_witness:
  "\<exists>w. ingest_writer_loop (replicate 3 sample_tick) (IngestWriter_new enqueue_defaults (IngestDb_empty, {}, sample_calls)
      [Got (ReqVacuum 4), RxEmpty, Got (ReqCleanup 0 5), RxClosed, RxClosed, RxClosed]) = Some (True, w) \<and>
    mset (map fst (iw_replies w)) = {#4, 5#}"
proof -
  have "ingest_conn_ok (IngestDb_empty, {}, sample_calls)" by (simp add: ingest_conn_ok_def ingest_wf_empty)
  from ingest_writer_answers_every_request [OF enqueue_defaults_valid enqueue_defaults_in_range this sample_ticks_ok [of 3],
      of 3 "[Got (ReqVacuum 4), RxEmpty, Got (ReqCleanup 0 5), RxClosed, RxClosed, RxClosed]"]
  show ?thesis by (auto simp: numeral_3_eq_3)
qed

section \<open>The results writer\<close>

definition rq_ids :: "ResultsQueues \<Rightarrow> nat multiset" where
  "rq_ids qs = mset (map results_reply_to (rq_meta qs)) + mset (map pd_reply (rq_dispatch qs)) + mset (map (\<lambda>p. pc_reply (fst p)) (rq_complete qs))"

text \<open>A dispatch that writes no row is never asked for: \<open>claim_batch\<close> returns early when it has claimed nothing.\<close>

fun has_rows :: "ResultsRequest \<Rightarrow> bool" where
  "has_rows (RReqDispatch rows _) = (rows \<noteq> [])"
| "has_rows _ = True"

definition rq_ok :: "ResultsQueues \<Rightarrow> bool" where
  "rq_ok qs \<longleftrightarrow> list_all (\<lambda>p. pd_rows p \<noteq> []) (rq_dispatch qs)"

lemma rq_push_ids [simp]: "rq_ids (rq_push now r qs) = rq_ids qs + {#results_reply_to r#}"
  by (cases r) (simp_all add: rq_ids_def)

lemma rq_push_ok: "rq_ok qs \<Longrightarrow> has_rows r \<Longrightarrow> rq_ok (rq_push now r qs)"
  by (cases r) (simp_all add: rq_ok_def)

lemma rq_empty_ids: "rq_is_empty qs \<longleftrightarrow> rq_ids qs = {#}"
  by (auto simp: rq_is_empty_def rq_ids_def)

lemma rq_drain_accounts:
  "rq_drain now rx qs = (qs', rx') \<Longrightarrow> list_all has_rows (requests rx) \<Longrightarrow> rq_ok qs \<Longrightarrow>
     \<exists>cs. rx = cs @ rx' \<and> rq_ids qs' = rq_ids qs + rx_ids results_reply_to cs \<and> closings cs \<le> 1 \<and> rq_ok qs'"
proof (induction now rx qs rule: rq_drain.induct)
  case (1 now r rx qs)
  then obtain cs where "rx = cs @ rx'" "rq_ids qs' = rq_ids (rq_push now r qs) + rx_ids results_reply_to cs" "closings cs \<le> 1" "rq_ok qs'"
    by (auto simp: rq_push_ok)
  then show ?case by (intro exI [of _ "Got r # cs"]) simp
qed (auto intro: exI [of _ "[RxClosed]"] exI [of _ "[RxEmpty]"])

lemma complete_fill_accounts:
  "complete_fill target now rx p qs c = (p', rx', qs', c', d) \<Longrightarrow> list_all has_rows (requests rx) \<Longrightarrow> rq_ok qs \<Longrightarrow>
     \<exists>cs. rx = cs @ rx' \<and> closings cs = (if d then 1 else 0) \<and> length p \<le> length p' \<and> rq_ok qs' \<and>
      mset (map pc_reply p') + rq_ids qs' = mset (map pc_reply p) + rq_ids qs + rx_ids results_reply_to cs"
  (is "_ \<Longrightarrow> _ \<Longrightarrow> _ \<Longrightarrow> ?concl rx p qs")
proof (induction rx arbitrary: now p qs c)
  case (Cons r rx)
  note fill = Cons.prems(1)
  show ?case
  proof (cases "target \<le> length p")
    case False
    show ?thesis
    proof (cases r)
      case (Got q)
      have q: "has_rows q" "list_all has_rows (requests rx)" using Cons.prems(2) Got by simp_all
      have stop: "?concl (r # rx) p qs" if "p' = p" "rx' = rx" "qs' = rq_push (now 0) q qs" "\<not> d"
        using that Got rq_push_ok [OF Cons.prems(3) q(1)] by (intro exI [of _ "[Got q]"]) simp
      have go: "?concl (r # rx) p qs" if "complete_fill target now1 rx p1 qs1 c1 = (p', rx', qs', c', d)" "length p \<le> length p1" "rq_ok qs1"
        "mset (map pc_reply p1) + rq_ids qs1 = mset (map pc_reply p) + rq_ids qs + {#results_reply_to q#}" for now1 p1 qs1 c1
      proof -
        from Cons.IH [OF that(1) q(2) that(3)] obtain cs where "rx = cs @ rx'" "closings cs = (if d then 1 else 0)" "length p1 \<le> length p'"
          "mset (map pc_reply p') + rq_ids qs' = mset (map pc_reply p1) + rq_ids qs1 + rx_ids results_reply_to cs" "rq_ok qs'" by blast
        with that(2,4) Got show ?thesis by (intro exI [of _ "Got q # cs"]) simp
      qed
      show ?thesis
      proof (cases "\<exists>j d oc k. q = RReqComplete j d oc k")
        case True
        then obtain j i oc k where "q = RReqComplete j i oc k" by blast
        with fill False Got Cons.prems(3) show ?thesis
          by (intro go [of "\<lambda>i. now (Suc i)" "p @ [\<lparr>pc_job_id = j, pc_dispatch_id = i, pc_outcome = oc, pc_reply = k\<rparr>]" qs "observe_request (now 0) c"])
             simp_all
      next
        case other: False
        then have eq: "(if results_preempts q then (p, rx, rq_push (now 0) q qs, c, False)
            else complete_fill target (\<lambda>i. now (Suc i)) rx p (rq_push (now 0) q qs) c) = (p', rx', qs', c', d)"
          using fill False Got by (cases q) simp_all
        show ?thesis
        proof (cases "results_preempts q")
          case True
          with eq show ?thesis by (intro stop) simp_all
        next
          case False
          with eq rq_push_ok [OF Cons.prems(3) q(1)] show ?thesis
            by (intro go [of "\<lambda>i. now (Suc i)" p "rq_push (now 0) q qs" c]) simp_all
        qed
      qed
    qed (use False fill Cons.prems(3) in \<open>auto intro: exI [of _ "[RxClosed]"] exI [of _ "[RxEmpty]"]\<close>)
  qed (use fill Cons.prems(3) in \<open>auto intro: exI [of _ "[]"]\<close>)
qed (auto intro: exI [of _ "[]"])

lemma complete_fill_ok:
  "complete_fill target now rx p qs c = (p', rx', qs', c', d) \<Longrightarrow> controller_ok c \<Longrightarrow> \<forall>i. now i \<le> 2 ^ 28 * 1000000000 \<Longrightarrow> controller_ok c'"
  by (induction target now rx p qs c rule: complete_fill.induct)
     (auto simp: controller_ok_request split: if_splits Recv.splits ResultsRequest.splits)

definition rw_ok :: "ResultsWriter \<Rightarrow> bool" where
  "rw_ok w \<longleftrightarrow> results_conn_ok (rw_conn w) \<and> controller_ok (rw_controller w) \<and> rq_ok (rw_queues w) \<and> list_all has_rows (requests (rw_rx w))"

definition rw_answered :: "ResultsWriter \<Rightarrow> nat multiset" where
  "rw_answered w = mset (map fst (rw_replies w))"

interpretation rw: writer_state rw_ok rw_answered "\<lambda>w. rq_ids (rw_queues w)" rw_rx results_reply_to .

definition rw_answers :: "nat multiset \<Rightarrow> ResultsWriter \<Rightarrow> ResultsWriter \<Rightarrow> bool" where
  "rw_answers ids w w' \<longleftrightarrow> rw_ok w' \<and> rw_rx w' = rw_rx w \<and> rw_answered w' = rw_answered w + ids"

text \<open>A lane is selected as soon as rows wait, and it is a lane with rows.\<close>

lemma select_lane:
  assumes "select dr dold cr cold now c = (sel, c')"
  shows "if dr = 0 \<and> cr = 0 then sel = None else \<exists>reason. sel = Some (Dispatch, reason) \<and> 0 < dr \<or> sel = Some (Completion, reason) \<and> 0 < cr"
  using assms by (auto simp: select_def Let_def split: if_splits option.splits ResultsLane.splits)
    (metis ResultsLane.exhaust)+


lemma rw_ok_lanes [simp]: "rw_ok (w\<lparr>rw_lanes := l\<rparr>) = rw_ok w" "rw_answered (w\<lparr>rw_lanes := l\<rparr>) = rw_answered w"
  by (simp_all add: rw_ok_def rw_answered_def)

text \<open>What a turn of completions writes back: the batch is answered, and the controllers learn from a commit.\<close>

lemma run_complete_turn_eq:
  assumes "pop_pending (batch_size (rw_controller w)) (tk_popped T) (rq_complete (rw_queues w)) (rw_controller w) = (p, rest, c)" and "p \<noteq> []"
    and "complete_fill (batch_size (rw_controller w)) (tk_received T) (rw_rx w) (map fst p) ((rw_queues w)\<lparr>rq_complete := rest\<rparr>) c = (p', rx, qs, c', d)"
    and "conn_complete_batch p' (rw_conn w) = (conn, rep, n)" and "controller_ok c'"
  shows "\<exists>lanes c2. run_complete_turn T w = Some (d, w\<lparr>rw_conn := conn, rw_rx := rx, rw_queues := qs, rw_controller := c2,
      rw_lanes := lanes, rw_replies := rw_replies w @ rep\<rparr>) \<and> controller_ok c2"
proof (cases n)
  case None
  then show ?thesis using assms
    by (intro exI [of _ "record_turn Completion (rw_lanes w)"] exI [of _ c']) (simp add: run_complete_turn_def Let_def)
next
  case (Some k)
  obtain c2 where "record_successful_completion_commit (min (length p') k) (tk_elapsed T) (tk_committed T) (length (rq_complete qs) + tk_backlog T)
    (if batch_size (rw_controller w) \<le> length p' then FullBatch else Timeout) c' = Some c2" "controller_ok c2"
    using controller_ok_completion_commit [OF assms(5)] by blast
  then show ?thesis using assms(1-4) Some
    by (intro exI [of _ "record_turn Completion (observe_success Completion k (tk_elapsed T) (rw_lanes w))"] exI [of _ c2])
       (simp add: run_complete_turn_def Let_def)
qed

lemma run_complete_turn_takes:
  assumes "rw_ok w" and "tick_ok T" and "rq_complete (rw_queues w) \<noteq> []"
  shows "\<exists>d w' cs. run_complete_turn T w = Some (d, w') \<and> rw_ok w' \<and> rw.more w w' \<and> rw.takes w cs w' \<and> closings cs = (if d then 1 else 0)"
proof -
  let ?target = "batch_size (rw_controller w)"
  have ok: "results_conn_ok (rw_conn w)" "controller_ok (rw_controller w)" "rq_ok (rw_queues w)" "list_all has_rows (requests (rw_rx w))"
    using assms(1) by (simp_all add: rw_ok_def)
  have now: "\<forall>i. tk_popped T i \<le> 2 ^ 28 * 1000000000" "\<forall>i. tk_received T i \<le> 2 ^ 28 * 1000000000"
    using assms(2) by (simp_all add: tick_ok_def)
  obtain p rest c where pop: "pop_pending ?target (tk_popped T) (rq_complete (rw_queues w)) (rw_controller w) = (p, rest, c)" by (rule prod_cases3)
  have p: "rq_complete (rw_queues w) = p @ rest" "controller_ok c"
    using pop_pending_append [OF pop] pop_pending_ok [OF pop ok(2) now(1)] by simp_all
  have p0: "0 < length p" using pop_pending_length [OF pop] assms(3) controller_ok_size [OF ok(2)] by simp
  let ?qs = "(rw_queues w)\<lparr>rq_complete := rest\<rparr>"
  obtain p' rx qs c' d where fill: "complete_fill ?target (tk_received T) (rw_rx w) (map fst p) ?qs c = (p', rx, qs, c', d)" by (rule prod_cases5)
  have "rq_ok ?qs" using ok(3) by (simp add: rq_ok_def)
  from complete_fill_accounts [OF fill ok(4) this] obtain cs where cs: "rw_rx w = cs @ rx" "closings cs = (if d then 1 else 0)"
    "length (map fst p) \<le> length p'" "rq_ok qs"
    "mset (map pc_reply p') + rq_ids qs = mset (map pc_reply (map fst p)) + rq_ids ?qs + rx_ids results_reply_to cs" by blast
  obtain conn rep n where e: "conn_complete_batch p' (rw_conn w) = (conn, rep, n)" by (rule prod_cases3)
  note b = results_conn.batch_inv [OF ok(1) e] results_conn.batch_replies [OF ok(1) e]
  have c': "controller_ok c'" by (rule complete_fill_ok [OF fill p(2) now(2)])
  obtain lanes c2 where t: "run_complete_turn T w = Some (d, w\<lparr>rw_conn := conn, rw_rx := rx, rw_queues := qs, rw_controller := c2,
      rw_lanes := lanes, rw_replies := rw_replies w @ rep\<rparr>)" and c2: "controller_ok c2"
    using run_complete_turn_eq [OF pop _ fill e c'] p0 by auto
  let ?w = "w\<lparr>rw_conn := conn, rw_rx := rx, rw_queues := qs, rw_controller := c2, rw_lanes := lanes, rw_replies := rw_replies w @ rep\<rparr>"
  have ans: "rw_answered ?w = rw_answered w + mset (map pc_reply p')" using b(2) by (simp add: rw_answered_def)
  have "rw_ok ?w" using b(1) c2 cs(1,4) ok(4) by (simp add: rw_ok_def)
  moreover have "rw.takes w cs ?w"
  proof -
    have "rq_ids (rw_queues w) = mset (map pc_reply (map fst p)) + rq_ids ?qs" by (simp add: rq_ids_def p(1) comp_def ac_simps)
    then show ?thesis unfolding rw.takes_def ans by (simp add: add.assoc cs(1,5) del: mset_map)
  qed
  moreover have "rw.more w ?w"
  proof -
    have "0 < length p'" using cs(3) p0 by (simp only: length_map)
    then show ?thesis by (simp only: rw.more_def ans size_union size_mset length_map)
  qed
  ultimately show ?thesis using t cs(2) by blast
qed


lemma run_dispatch_turn_answers:
  assumes "rw_ok w" and "rq_dispatch (rw_queues w) = p # rest"
  shows "rw_answers {#pd_reply p#} w (run_dispatch_turn T w) \<and> rq_ids (rw_queues w) = rq_ids (rw_queues (run_dispatch_turn T w)) + {#pd_reply p#}"
proof -
  obtain conn rep where h: "conn_results_handle (RReqDispatch (pd_rows p) (pd_reply p)) (rw_conn w) = (conn, rep)" by fastforce
  have ok: "results_conn_ok (rw_conn w)" using assms(1) by (simp add: rw_ok_def)
  have "mset (map fst rep) = {#pd_reply p#}" using results_conn.handle_replies [OF ok h] by simp
  then show ?thesis using results_conn.handle_inv [OF ok h] assms
    by (simp add: run_dispatch_turn_def h Let_def rw_answers_def rw_answered_def rw_ok_def rq_ok_def rq_ids_def)
qed

lemma flush_complete_answers:
  assumes "rw_ok w"
  shows "\<exists>w'. flush_complete T b w = Some w' \<and> rw_answers (mset (map (\<lambda>p. pc_reply (fst p)) (rq_complete (rw_queues w)))) w w' \<and>
    rw_queues w' = (rw_queues w)\<lparr>rq_complete := []\<rparr>"
proof (cases "rq_complete (rw_queues w) = []")
  case False
  let ?batch = "map fst (rq_complete (rw_queues w))"
  obtain conn rep n where e: "conn_complete_batch ?batch (rw_conn w) = (conn, rep, n)" by (rule prod_cases3)
  have ok: "results_conn_ok (rw_conn w)" "controller_ok (rw_controller w)" "rq_ok (rw_queues w)" "list_all has_rows (requests (rw_rx w))"
    using assms(1) by (simp_all add: rw_ok_def)
  note b = results_conn.batch_inv [OF ok(1) e] results_conn.batch_replies [OF ok(1) e]
  have ans: "mset (map fst rep) = mset (map (\<lambda>p. pc_reply (fst p)) (rq_complete (rw_queues w)))" using b(2) by (simp add: comp_def)
  show ?thesis
  proof (cases n)
    case None
    then show ?thesis using False e b(1) ans ok(2-4) by (simp add: flush_complete_def Let_def rw_answers_def rw_ok_def rw_answered_def rq_ok_def)
  next
    case (Some k)
    obtain c' where "record_successful_completion_commit (min (length ?batch) k) (tk_elapsed T) (tk_committed T) b Timeout (rw_controller w) = Some c'"
      "controller_ok c'" using controller_ok_completion_commit [OF ok(2)] by blast
    then show ?thesis using False e b(1) ans Some ok(3,4) by (simp add: flush_complete_def Let_def rw_answers_def rw_ok_def rw_answered_def rq_ok_def)
  qed
qed (use assms in \<open>simp add: flush_complete_def rw_answers_def\<close>)

lemma results_shutdown_answers:
  assumes "rw_ok w"
  shows "\<exists>w'. results_shutdown T b w = Some w' \<and> rw_answers (rq_ids (rw_queues w)) w w' \<and> rq_ids (rw_queues w') = {#}"
proof -
  let ?ds = "map (\<lambda>p. RReqDispatch (pd_rows p) (pd_reply p)) (rq_dispatch (rw_queues w))"
  from flush_complete_answers [OF assms] obtain w1 where f: "flush_complete T b w = Some w1"
    and w1: "rw_answers (mset (map (\<lambda>p. pc_reply (fst p)) (rq_complete (rw_queues w)))) w w1" and q1: "rw_queues w1 = (rw_queues w)\<lparr>rq_complete := []\<rparr>" by blast
  have ok1: "results_conn_ok (rw_conn w1)" "controller_ok (rw_controller w1)" "list_all has_rows (requests (rw_rx w1))"
    using w1 unfolding rw_answers_def rw_ok_def by blast+
  obtain conn1 rep1 where h1: "handle_all conn_results_handle (rq_meta (rw_queues w)) (rw_conn w1) = (conn1, rep1)" by fastforce
  note a1 = results_conn.handle_all_ok [OF ok1(1) h1]
  obtain conn2 rep2 where h2: "handle_all conn_results_handle ?ds conn1 = (conn2, rep2)" by fastforce
  note a2 = results_conn.handle_all_ok [OF conjunct1 [OF a1] h2]
  have r2: "map fst rep2 = map pd_reply (rq_dispatch (rw_queues w))" using a2 by simp
  define w' where "w' = w1\<lparr>rw_conn := conn2, rw_queues := (rw_queues w1)\<lparr>rq_meta := [], rq_dispatch := []\<rparr>,
    rw_replies := rw_replies w1 @ rep1 @ rep2\<rparr>"
  have "results_shutdown T b w = Some w'" by (simp add: results_shutdown_def f q1 h1 h2 w'_def)
  moreover have "rw_answered w' = rw_answered w1 + mset (map results_reply_to (rq_meta (rw_queues w))) + mset (map pd_reply (rq_dispatch (rw_queues w)))"
    unfolding w'_def rw_answered_def using a1 r2 by (simp add: ac_simps del: mset_map)
  then have "rw_answers (rq_ids (rw_queues w)) w w'"
    using w1 a2 ok1(2,3) by (simp add: rw_answers_def rw_ok_def rq_ok_def rq_ids_def w'_def ac_simps)
  moreover have "rq_ids (rw_queues w') = {#}" by (simp add: w'_def q1 rq_ids_def)
  ultimately show ?thesis by blast
qed

lemma results_shutdown_steps:
  assumes "rw_ok v" and "rw.takes w cs v" and "0 < closings cs"
  shows "\<exists>w'. results_shutdown T b v = Some w' \<and> rw.steps True w w'"
proof -
  from results_shutdown_answers [OF assms(1)] obtain w' where sh: "results_shutdown T b v = Some w'"
    "rw_answers (rq_ids (rw_queues v)) v w'" "rq_ids (rw_queues w') = {#}" by blast
  then have "rw.takes v [] w'" by (simp add: rw.takes_def rw_answers_def)
  from rw.takes_trans [OF assms(2) this] sh assms(3) show ?thesis unfolding rw.steps_def rw_answers_def by auto
qed


text \<open>The loop breaks with empty queues, so that nothing is left to answer.\<close>

lemma results_break_steps:
  assumes "rw_ok v" and "rq_ids (rw_queues v) = {#}" and "rw.takes w cs v" and "0 < closings cs"
  shows "\<exists>w'. results_break T v = Some w' \<and> rw.steps True w w'"
proof -
  have "rq_complete (rw_queues v) = []" "rq_meta (rw_queues v) = []" using assms(2) by (simp_all add: rq_ids_def)
  then have "results_break T v = Some (v\<lparr>rw_queues := (rw_queues v)\<lparr>rq_meta := []\<rparr>\<rparr>)" (is "_ = Some ?w'")
    by (simp add: results_break_def flush_complete_def)
  moreover have "?w' = v" using \<open>rq_meta (rw_queues v) = []\<close> by simp
  ultimately show ?thesis using assms unfolding rw.steps_def by auto
qed

lemma complete_turn_steps:
  assumes "rw_ok v" and "tick_ok T" and "rq_complete (rw_queues v) \<noteq> []" and "rw_answered v = rw_answered w" "rw.takes w ds v" "closings ds \<le> 1"
  shows "\<exists>e w'. (case run_complete_turn T v of None \<Rightarrow> None
      | Some (disconnected, w1) \<Rightarrow> if disconnected then map_option (Pair True) (results_shutdown T (tk_backlog T) w1) else Some (False, w1)) = Some (e, w') \<and>
    rw.steps e w w'"
proof -
  from run_complete_turn_takes [OF assms(1-3)] obtain d w1 cs where t: "run_complete_turn T v = Some (d, w1)"
    "rw_ok w1" "rw.more v w1" "rw.takes v cs w1" "closings cs = (if d then 1 else 0)" by blast
  note all = rw.takes_trans [OF assms(5) t(4)]
  show ?thesis
  proof (cases d)
    case True
    with results_shutdown_steps [OF t(2) all] t(5) obtain w' where "results_shutdown T (tk_backlog T) w1 = Some w'" "rw.steps True w w'" by auto
    with t(1) True show ?thesis by auto
  next
    case False
    then have "rw.steps False w w1" using t(2,3,5) assms(4,6) all unfolding rw.steps_def rw.more_def by auto
    with t(1) False show ?thesis by auto
  qed
qed

lemma results_serve_steps:
  assumes "rw_ok w" and "tick_ok T" and "rq_ids (rw_queues w) \<noteq> {#}"
  shows "\<exists>e w'. results_serve T w = Some (e, w') \<and> rw.steps e w w'"
proof -
  obtain qs rx where dr: "rq_drain (tk_now T) (rw_rx w) (rw_queues w) = (qs, rx)" by fastforce
  from rq_drain_accounts [OF dr] assms(1) obtain ds where ds: "rw_rx w = ds @ rx" "rq_ids qs = rq_ids (rw_queues w) + rx_ids results_reply_to ds"
    "closings ds \<le> 1" "rq_ok qs" unfolding rw_ok_def by blast
  define v where "v = w\<lparr>rw_queues := qs, rw_rx := rx\<rparr>"
  have v: "rw_ok v" "rw_answered v = rw_answered w" "rw.takes w ds v"
    using assms(1) ds by (simp_all add: v_def rw_ok_def rw_answered_def rw.takes_def add.assoc)
  have one: "rw.steps False w w'" if "rw_ok w'" "rw_answered w' = rw_answered w + {#k#}" "rw_rx w' = rx" "rq_ids qs = rq_ids (rw_queues w') + {#k#}" for k w'
    unfolding rw.steps_def rw.takes_def rw.more_def using that ds by (intro conjI disjI2 exI [of _ ds]) simp_all
  show ?thesis
  proof (cases "rq_meta qs")
    case (Cons r ms)
    obtain conn rep where h: "conn_results_handle r (rw_conn v) = (conn, rep)" by fastforce
    have ok: "results_conn_ok (rw_conn v)" using v(1) by (simp add: rw_ok_def)
    have "mset (map fst rep) = {#results_reply_to r#}" using results_conn.handle_replies [OF ok h] by simp
    then have "rw.steps False w (v\<lparr>rw_conn := conn, rw_queues := qs\<lparr>rq_meta := ms\<rparr>, rw_replies := rw_replies v @ rep\<rparr>)"
      using v(1,2) results_conn.handle_inv [OF ok h] Cons
      by (intro one [of _ "results_reply_to r"]) (simp_all add: v_def rw_ok_def rq_ok_def rw_answered_def rq_ids_def)
    then show ?thesis using dr Cons h by (auto simp: results_serve_def v_def)
  next
    case meta: Nil
    obtain sel lanes where sel: "select (rq_dispatch_rows qs) (rq_dispatch_oldest qs) (length (rq_complete qs)) (rq_completion_oldest qs) (tk_now T) (rw_lanes v) = (sel, lanes)"
      by fastforce
    let ?v = "v\<lparr>rw_lanes := lanes\<rparr>"
    have "rq_ids qs \<noteq> {#}" using ds(2) assms(3) by simp
    with meta ds(4) have "\<not> (rq_dispatch_rows qs = 0 \<and> length (rq_complete qs) = 0)"
      by (cases "rq_dispatch qs") (auto simp: rq_ids_def rq_dispatch_rows_def rq_ok_def)
    with select_lane [OF sel] consider
      (D) reason where "sel = Some (Dispatch, reason)" "0 < rq_dispatch_rows qs" | (C) reason where "sel = Some (Completion, reason)" "rq_complete qs \<noteq> []" by auto
    then show ?thesis
    proof cases
      case D
      then obtain p rest where p: "rq_dispatch qs = p # rest" by (cases "rq_dispatch qs") (auto simp: rq_dispatch_rows_def)
      have "rw.steps False w (run_dispatch_turn T ?v)"
        using run_dispatch_turn_answers [of ?v p rest T] v(1,2) p by (intro one [of _ "pd_reply p"]) (simp_all add: v_def rw_answers_def)
      then show ?thesis using dr meta sel D by (auto simp: results_serve_def v_def)
    next
      case C
      have "rw_ok ?v" "rq_complete (rw_queues ?v) \<noteq> []" "rw_answered ?v = rw_answered w" "rw.takes w ds ?v"
        using v C(2) by (simp_all add: v_def rw.takes_def)
      from complete_turn_steps [OF this(1) assms(2) this(2-4) ds(3)] dr meta sel C show ?thesis by (auto simp: results_serve_def v_def)
    qed
  qed
qed


lemma results_iteration_steps:
  assumes "rw_ok w" and "tick_ok T" and "rq_ids (rw_queues w) \<noteq> {#} \<or> recv (rw_rx w) \<noteq> []"
  shows "\<exists>e w'. results_iteration T w = Some (e, w') \<and> rw.steps e w w'"
proof (cases "rq_is_empty (rw_queues w)")
  case False
  then show ?thesis using results_serve_steps [OF assms(1,2)] by (auto simp: results_iteration_def rq_empty_ids)
next
  case True
  then have none: "rq_ids (rw_queues w) = {#}" by (simp add: rq_empty_ids)
  then obtain r rx where rx: "recv (rw_rx w) = r # rx" using assms(3) by (cases "recv (rw_rx w)") auto
  obtain cs where cs: "rw_rx w = cs @ r # rx" "requests cs = []" "closings cs = 0" using recv_skips [of "rw_rx w"] rx by auto
  show ?thesis
  proof (cases r)
    case (Got q)
    let ?v = "w\<lparr>rw_queues := rq_push (tk_now T) q (rw_queues w), rw_rx := rx\<rparr>"
    have "rw_ok ?v" using assms(1) cs Got by (simp add: rw_ok_def rq_push_ok)
    then obtain e w' where s: "results_serve T ?v = Some (e, w')" "rw.steps e ?v w'" using results_serve_steps [OF _ assms(2), of ?v] by auto
    have "rw.takes w (cs @ [Got q]) ?v" "rw_answered ?v = rw_answered w" using cs Got by (simp_all add: rw.takes_def rw_answered_def)
    from rw.steps_after [OF this(1) _ this(2) s(2)] cs(3) s(1) True rx Got show ?thesis by (auto simp: results_iteration_def)
  next
    case RxClosed
    let ?v = "w\<lparr>rw_rx := rx\<rparr>"
    have "rw_ok ?v" "rq_ids (rw_queues ?v) = {#}" using assms(1) cs RxClosed none by (simp_all add: rw_ok_def)
    moreover have "rw.takes w (cs @ [RxClosed]) ?v" using cs RxClosed by (simp add: rw.takes_def rw_answered_def)
    ultimately obtain w' where "results_break T ?v = Some w'" "rw.steps True w w'" using results_break_steps [of ?v w "cs @ [RxClosed]" T] by auto
    with True rx RxClosed show ?thesis by (auto simp: results_iteration_def)
  next
    case RxEmpty
    with rx recv_cases show ?thesis by blast
  qed
qed

interpretation results_loop: writer_iterations rw_ok rw_answered "\<lambda>w. rq_ids (rw_queues w)" rw_rx results_reply_to results_iteration
  by unfold_locales (fact results_iteration_steps, simp add: results_iteration_def rq_empty_ids)

lemma ResultsWriter_new_sel [simp]:
  "rw_answered (ResultsWriter_new o' conn rx) = {#}" "rw_rx (ResultsWriter_new o' conn rx) = rx"
  "rq_ids (rw_queues (ResultsWriter_new o' conn rx)) = {#}"
  by (simp_all add: ResultsWriter_new_def rq_ids_def rw_answered_def)

lemma ResultsWriter_new_ok:
  "BatchOptions_validate sec o' = Inr () \<Longrightarrow> options_in_range o' \<Longrightarrow> results_conn_ok conn \<Longrightarrow> list_all has_rows (requests rx) \<Longrightarrow>
     rw_ok (ResultsWriter_new o' conn rx)"
  using controller_ok_new by (simp add: rw_ok_def rq_ok_def ResultsWriter_new_def)

lemma results_writer_loop_answers:
  assumes "BatchOptions_validate sec o' = Inr ()" and "options_in_range o'" and "results_conn_ok conn" and "list_all has_rows (requests rx)"
    and "list_all tick_ok Ts" and "closes n rx" "length Ts \<le> n" "length (requests rx) < length Ts"
  shows "\<exists>w. results_writer_loop Ts (ResultsWriter_new o' conn rx) = Some (True, w) \<and> rw_ok w \<and>
    rw_answered w = mset (map results_reply_to (requests rx))"
  using results_loop.loop_answers [OF ResultsWriter_new_ok [OF assms(1-4)] assms(5), of n] assms(6-8) by (simp add: results_writer_loop_def)

text \<open>
  C11. The results writer answers every request once and then stops. From a well-formed database and
  validated options in range, with dispatches that insert at least one row, whatever arrives on the channel
  and whenever, with any measurements within eight years, any failing calls of the database and any
  order of rows the store picks, once the channel has closed the loop ends after at most one more iteration
  than there were requests, without a panic, whichever lanes were selected; by then the replies it has
  sent are exactly the requests it was sent, and the database is well formed.
\<close>

theorem results_writer_answers_every_request:
  assumes "BatchOptions_validate sec o' = Inr ()" and "options_in_range o'" and "results_conn_ok conn" and "list_all has_rows (requests rx)"
    and "list_all tick_ok Ts" and "closes n rx" "length Ts \<le> n" "length (requests rx) < length Ts"
  shows "\<exists>w. results_writer_loop Ts (ResultsWriter_new o' conn rx) = Some (True, w) \<and>
    mset (map fst (rw_replies w)) = mset (map results_reply_to (requests rx)) \<and> results_conn_ok (rw_conn w)"
  using results_writer_loop_answers [OF assms] unfolding rw_answered_def rw_ok_def by blast

theorem results_writer_answers_every_request_witness:
  "\<exists>w. results_writer_loop (replicate 3 sample_tick) (ResultsWriter_new enqueue_defaults (ResultsDb_empty, sample_calls)
      [Got (RReqComplete 3 ''d'' (Succeeded []) 4), RxEmpty, Got (RReqVacuum 5), RxClosed, RxClosed, RxClosed]) = Some (True, w) \<and>
    mset (map fst (rw_replies w)) = {#4, 5#}"
proof -
  have "results_conn_ok (ResultsDb_empty, sample_calls)" by (simp add: results_conn_ok_def results_wf_empty)
  from results_writer_answers_every_request [OF enqueue_defaults_valid enqueue_defaults_in_range this _ sample_ticks_ok [of 3],
      of "[Got (RReqComplete 3 ''d'' (Succeeded []) 4), RxEmpty, Got (RReqVacuum 5), RxClosed, RxClosed, RxClosed]" 3]
  show ?thesis by (auto simp: numeral_3_eq_3)
qed

end
