(* ===== verification/Maq_Config.thy ===== *)
theory Maq_Config
  imports Maq_Adaptive_Runs
begin

text \<open>
  The configuration of the server (\<open>crates/maqistor/src/config.rs\<close>): the sections of the file with
  their defaults, the options derived from them and the validation at load. What the source takes from other
  crates and from the machine is a parameter (\<open>Host\<close>): the TOML parser, humantime durations,
  chrono timestamps and the file system. Errors keep the check that failed and its arguments, not
  the rendered message.
\<close>

section \<open>Strings and paths\<close>

text \<open>\<open>str::contains\<close>, the part after the last occurrence of a character (\<open>rsplit(..).next()\<close>) and \<open>rsplit_once\<close>.\<close>

fun contains :: "string \<Rightarrow> string \<Rightarrow> bool" where
  "contains [] p = (p = [])"
| "contains (c # s) p = (starts_with (c # s) p \<or> contains s p)"

definition after_last :: "char \<Rightarrow> string \<Rightarrow> string" where
  "after_last c s = rev (takeWhile (\<lambda>x. x \<noteq> c) (rev s))"

definition rsplit_once :: "char \<Rightarrow> string \<Rightarrow> (string \<times> string) option" where
  "rsplit_once c s = (if c \<in> set s then Some (take (length s - length (after_last c s) - 1) s, after_last c s) else None)"

definition strip_suffix :: "string \<Rightarrow> string \<Rightarrow> string option" where
  "strip_suffix p s = (if ends_with s p then Some (take (length s - length p) s) else None)"

text \<open>\<open>str::replacen(c, "", 1)\<close> and the position found by \<open>rfind\<close>.\<close>

fun remove_first :: "char \<Rightarrow> string \<Rightarrow> string" where
  "remove_first c [] = []"
| "remove_first c (x # s) = (if x = c then s else x # remove_first c s)"

definition rfind :: "char \<Rightarrow> string \<Rightarrow> nat option" where
  "rfind c s = map_option (\<lambda>(before, _). length before) (rsplit_once c s)"

text \<open>
  \<open>Path::file_name\<close> and \<open>Path::parent\<close> on Unix: trailing separators and \<open>.\<close> components are skipped; there is no
  file name when the path ends in \<open>..\<close>, in the root or in a leading \<open>.\<close>.
\<close>

definition dir_part :: "string \<Rightarrow> string" where
  "dir_part s = rev (dropWhile (\<lambda>x. x \<noteq> CHR ''/'') (rev s))"

lemma dir_part_shorter [simp]:
  assumes "dir_part s \<noteq> []"
  shows "length (dir_part s) - Suc 0 < length s"
proof -
  have "length (dir_part s) \<le> length s" unfolding dir_part_def by (metis length_dropWhile_le length_rev)
  moreover have "0 < length (dir_part s)" using assms by simp
  ultimately show ?thesis by linarith
qed

function file_name :: "string \<Rightarrow> string option" where
  "file_name s =
     (let name = after_last (CHR ''/'') s; dir = dir_part s in
      if name = [] \<or> name = ''.'' then if dir = [] then None else file_name (butlast dir)
      else if name = ''..'' then None else Some name)"
  by auto

termination
  by (relation "measure length") auto

declare file_name.simps [simp del]

text \<open>The directory a file name is relative to, without its trailing separators and \<open>.\<close> components.\<close>

function trim_dir :: "string \<Rightarrow> string" where
  "trim_dir s =
     (let name = after_last (CHR ''/'') s; dir = dir_part s in
      if (name = [] \<or> name = ''.'') \<and> dir \<noteq> [] \<and> dir \<noteq> ''/'' then trim_dir (butlast dir)
      else if name = ''.'' \<and> dir = ''/'' then dir else s)"
  by auto

termination
  by (relation "measure length") auto

declare trim_dir.simps [simp del]

function parent_dir :: "string \<Rightarrow> string" where
  "parent_dir s =
     (let name = after_last (CHR ''/'') s; dir = dir_part s in
      if name = [] \<or> name = ''.'' then if dir = [] then [] else parent_dir (butlast dir)
      else trim_dir dir)"
  by auto

termination
  by (relation "measure length") auto

declare parent_dir.simps [simp del]

text \<open>\<open>Path::file_stem\<close>: the file name without its last extension; a leading dot does not start one.\<close>

definition stem_of :: "string \<Rightarrow> string" where
  "stem_of name = (case rsplit_once (CHR ''.'') name of Some (before, _) \<Rightarrow> if before = [] then name else before | None \<Rightarrow> name)"

text \<open>\<open>Path::with_file_name\<close> for a name that is not absolute.\<close>

definition push_path :: "string \<Rightarrow> string \<Rightarrow> string" where
  "push_path dir name = (if dir = [] \<or> last dir = CHR ''/'' then dir @ name else dir @ ''/'' @ name)"

definition with_file_name :: "string \<Rightarrow> string \<Rightarrow> string" where
  "with_file_name path name = push_path (if file_name path = None then path else parent_dir path) name"

definition default_results_path :: "string \<Rightarrow> string" where
  "default_results_path ingest =
     (let stem = (case file_name ingest of Some name \<Rightarrow> stem_of name | None \<Rightarrow> ''maqistor'');
          results_stem = (case strip_suffix ''-ingest'' stem of Some base \<Rightarrow> base @ ''-results'' | None \<Rightarrow> stem @ ''-results'')
      in with_file_name ingest (results_stem @ ''.db''))"

section \<open>The sections of the file\<close>

definition DEFAULT_LISTEN :: string where
  "DEFAULT_LISTEN = ''0.0.0.0:7828''"

definition DEFAULT_WORKER_LISTEN :: string where
  "DEFAULT_WORKER_LISTEN = ''0.0.0.0:7829''"

definition DEFAULT_INGEST_DATABASE :: string where
  "DEFAULT_INGEST_DATABASE = ''./data/maqistor-ingest.db''"

definition DEFAULT_RESULTS_DATABASE :: string where
  "DEFAULT_RESULTS_DATABASE = ''./data/maqistor-results.db''"

record DockerConfig =
  dc_endpoint :: "string option"
  dc_ca_cert_path :: "string option"
  dc_cert_path :: "string option"
  dc_key_path :: "string option"

record VacuumConfig =
  vc_every :: string
  vc_at :: string

record CleanupConfig =
  cc_interval :: string
  cc_retention :: string
  cc_vacuum :: "VacuumConfig option"

record BatchConfig =
  bg_batch_size_min :: "nat option"
  bg_batch_size_max :: "nat option"
  bg_batch_wait_min_ms :: "nat option"
  bg_batch_wait_max_ms :: "nat option"
  bg_ewma_window :: "nat option"
  bg_batch_probe_factor :: "f64 option"
  bg_batch_backoff_factor :: "f64 option"

datatype StartupPolicy = Recover | Preserve

record PersistenceConfig =
  ps_ingest_database :: "string option"
  ps_results_database :: "string option"
  ps_durability :: DurabilityMode
  ps_cleanup :: "CleanupConfig option"
  ps_startup :: StartupPolicy
  ps_enqueue :: BatchConfig
  ps_completion :: BatchConfig

record DispatchConfig =
  dg_batch_size_max :: "nat option"
  dg_max_delivery_in_flight :: "nat option"
  dg_idle_probe_interval_ms :: "nat option"
  dg_idle_probe_batch_size :: "nat option"

record WorkerTlsConfig =
  wt_ca_cert_path :: string
  wt_cert_path :: string
  wt_key_path :: string

record ContainerMountConfig =
  mc_source :: string
  mc_target :: string
  mc_read_only :: bool

text \<open>The variables of a managed queue, in the order in which the map is iterated.\<close>

record ManagedConfig =
  mg_image :: string
  mg_replicas :: nat
  mg_env_file :: "string option"
  mg_env_vars :: "(string \<times> string) list option"
  mg_mounts :: "ContainerMountConfig list option"

record QueueConfig =
  qc_name :: string
  qc_max_retries :: nat
  qc_timeout_secs :: nat
  qc_managed_config :: "ManagedConfig option"

record AppConfig =
  ac_listen :: "string option"
  ac_worker_listen :: "string option"
  ac_worker_tls :: WorkerTlsConfig
  ac_docker :: DockerConfig
  ac_persistence :: PersistenceConfig
  ac_dispatch :: DispatchConfig
  ac_queues :: "QueueConfig list"

text \<open>
  The machine and the libraries: \<open>humantime::parse_duration\<close>, the parser of \<open>DateTime<FixedOffset>\<close> (the UTC
  time of day in nanoseconds), \<open>toml::from_str\<close> and the file system.
\<close>

record Host =
  parse_duration :: "string \<Rightarrow> string + duration"
  parse_time :: "string \<Rightarrow> string + nat"
  toml_from_str :: "string \<Rightarrow> string + AppConfig"
  read_to_string :: "string \<Rightarrow> string + string"
  is_file :: "string \<Rightarrow> bool"
  path_exists :: "string \<Rightarrow> bool"
  canonicalize :: "string \<Rightarrow> string + string"

datatype ConfigError =
    CannotRead string string | CannotParse string string
  | BadOptions string
  | TlsPathsIncomplete | HttpsWithoutTls | TlsWithoutEndpoint | TlsWrongScheme | UnknownScheme | EmptyEndpoint
  | Unset string | BadDuration string string string | ZeroDuration string | TooLarge string | BadTime string
  | SameListeners
  | BadQueueName | ZeroTimeout string | IncompleteManaged string
  | UntaggedImage string | FloatingTag string
  | NoEnvFile string | EmptyEnvVar | UnreadableEnvFile string string
  | EmptyMount | RelativeTarget string | NoMountSource string | DuplicateTarget string | BadMountSource string string

section \<open>Derived options\<close>

definition apply_batch :: "BatchConfig \<Rightarrow> BatchOptions \<Rightarrow> BatchOptions" where
  "apply_batch cfg o' =
     \<lparr>bo_batch_size_min = case_option (bo_batch_size_min o') id (bg_batch_size_min cfg),
      bo_batch_size_max = case_option (bo_batch_size_max o') id (bg_batch_size_max cfg),
      bo_batch_wait_min = from_millis (case_option (as_millis (bo_batch_wait_min o') mod 2 ^ 64) id (bg_batch_wait_min_ms cfg)),
      bo_batch_wait_max = from_millis (case_option (as_millis (bo_batch_wait_max o') mod 2 ^ 64) id (bg_batch_wait_max_ms cfg)),
      bo_ewma_window = case_option (bo_ewma_window o') id (bg_ewma_window cfg),
      bo_batch_probe_factor = case_option (bo_batch_probe_factor o') id (bg_batch_probe_factor cfg),
      bo_batch_backoff_factor = case_option (bo_batch_backoff_factor o') id (bg_batch_backoff_factor cfg)\<rparr>"

definition ingest_database_path :: "PersistenceConfig \<Rightarrow> string" where
  "ingest_database_path p = case_option DEFAULT_INGEST_DATABASE id (ps_ingest_database p)"

definition results_database_path :: "PersistenceConfig \<Rightarrow> string" where
  "results_database_path p =
     (case ps_results_database p of
        Some path \<Rightarrow> path
      | None \<Rightarrow>
          if ps_ingest_database p = None then DEFAULT_RESULTS_DATABASE
          else default_results_path (ingest_database_path p))"

definition write_options :: "PersistenceConfig \<Rightarrow> ConfigError + SqliteWriteOptions" where
  "write_options p =
     (let d = SqliteWriteOptions_default\<lparr>swo_durability := ps_durability p\<rparr>;
          options = d\<lparr>swo_enqueue := apply_batch (ps_enqueue p) (swo_enqueue d),
                      swo_completion := apply_batch (ps_completion p) (swo_completion d)\<rparr>
      in case SqliteWriteOptions_validate options of Inl e \<Rightarrow> Inl (BadOptions e) | Inr _ \<Rightarrow> Inr options)"

definition dispatch_options :: "DispatchConfig \<Rightarrow> ConfigError + DispatchOptions" where
  "dispatch_options cfg =
     (let d = DispatchOptions_default;
          options = \<lparr>do_batch_size_max = case_option (do_batch_size_max d) id (dg_batch_size_max cfg),
                     do_max_delivery_in_flight = case_option (do_max_delivery_in_flight d) id (dg_max_delivery_in_flight cfg),
                     do_idle_probe_interval =
                       from_millis (case_option (as_millis (do_idle_probe_interval d) mod 2 ^ 64) id (dg_idle_probe_interval_ms cfg)),
                     do_idle_probe_batch_size = case_option (do_idle_probe_batch_size d) id (dg_idle_probe_batch_size cfg)\<rparr>
      in case DispatchOptions_validate options of Inl e \<Rightarrow> Inl (BadOptions e) | Inr _ \<Rightarrow> Inr options)"

definition listen :: "AppConfig \<Rightarrow> string" where
  "listen c = case_option DEFAULT_LISTEN id (ac_listen c)"

definition worker_listen :: "AppConfig \<Rightarrow> string" where
  "worker_listen c = case_option DEFAULT_WORKER_LISTEN id (ac_worker_listen c)"

definition has_managed_queues :: "AppConfig \<Rightarrow> bool" where
  "has_managed_queues c \<longleftrightarrow> (\<exists>q\<in>set (ac_queues c). qc_managed_config q \<noteq> None)"

definition replicas :: "QueueConfig \<Rightarrow> nat" where
  "replicas q = (case qc_managed_config q of Some c \<Rightarrow> mg_replicas c | None \<Rightarrow> 1)"

section \<open>Validation\<close>

definition cleanup_interval :: "Host \<Rightarrow> CleanupConfig \<Rightarrow> ConfigError + duration" where
  "cleanup_interval H c = map_sum (BadDuration ''cleanup.interval'' (cc_interval c)) id (parse_duration H (cc_interval c))"

definition cleanup_retention :: "Host \<Rightarrow> CleanupConfig \<Rightarrow> ConfigError + duration" where
  "cleanup_retention H c = map_sum (BadDuration ''cleanup.retention'' (cc_retention c)) id (parse_duration H (cc_retention c))"

definition validate_docker_config :: "DockerConfig \<Rightarrow> ConfigError + unit" where
  "validate_docker_config d =
     (let tls_set = length (filter (\<lambda>p. p \<noteq> None) [dc_ca_cert_path d, dc_cert_path d, dc_key_path d]) in
      if tls_set \<noteq> 0 \<and> tls_set \<noteq> 3 then Inl TlsPathsIncomplete
      else if case_option False (\<lambda>e. starts_with e ''https://'') (dc_endpoint d) \<and> tls_set \<noteq> 3 then Inl HttpsWithoutTls
      else
        case dc_endpoint d of
          None \<Rightarrow> if tls_set = 3 then Inl TlsWithoutEndpoint else Inr ()
        | Some endpoint \<Rightarrow>
            if tls_set = 3 \<and> \<not> (starts_with endpoint ''tcp://'' \<or> starts_with endpoint ''https://'') then Inl TlsWrongScheme
            else if \<not> (starts_with endpoint ''unix://'' \<or> starts_with endpoint ''npipe://'' \<or> starts_with endpoint ''tcp://'' \<or>
                starts_with endpoint ''http://'' \<or> starts_with endpoint ''https://'') then Inl UnknownScheme
            else if ends_with (trim_end_matches (CHR ''/'') endpoint) ''://'' \<or> endpoint = ''unix://'' \<or> endpoint = ''npipe://'' then
              Inl EmptyEndpoint
            else Inr ())"

definition validate_cleanup_config :: "Host \<Rightarrow> CleanupConfig \<Rightarrow> ConfigError + unit" where
  "validate_cleanup_config H c =
     (if trim (cc_interval c) = [] then Inl (Unset ''cleanup.interval'')
      else if trim (cc_retention c) = [] then Inl (Unset ''cleanup.retention'')
      else
        case cleanup_interval H c of
          Inl e \<Rightarrow> Inl e
        | Inr interval \<Rightarrow>
            (case cleanup_retention H c of
               Inl e \<Rightarrow> Inl e
             | Inr retention \<Rightarrow>
                 if interval = 0 then Inl (ZeroDuration ''cleanup.interval'')
                 else if retention = 0 then Inl (ZeroDuration ''cleanup.retention'')
                 else if i64_max < int (as_millis retention) then Inl (TooLarge ''cleanup.retention'')
                 else Inr ()))"

definition validate_managed_image :: "string \<Rightarrow> ConfigError + unit" where
  "validate_managed_image img =
     (let reference = after_last (CHR ''/'') img; tag = map_option snd (rsplit_once (CHR '':'') reference) in
      if \<not> contains img ''@sha256:'' \<and> tag = None then Inl (UntaggedImage img)
      else if tag = Some ''latest'' \<or> tag = Some ''stable'' then Inl (FloatingTag img)
      else Inr ())"

definition validate_managed_env_file :: "Host \<Rightarrow> string option \<Rightarrow> ConfigError + unit" where
  "validate_managed_env_file H env_file =
     (case env_file of None \<Rightarrow> Inr () | Some path \<Rightarrow> if is_file H path then Inr () else Inl (NoEnvFile path))"

definition validate_managed_env_vars :: "(string \<times> string) list option \<Rightarrow> ConfigError + unit" where
  "validate_managed_env_vars env_vars =
     (case env_vars of
        None \<Rightarrow> Inr ()
      | Some vars \<Rightarrow> if list_ex (\<lambda>(key, value). key = [] \<or> value = []) vars then Inl EmptyEnvVar else Inr ())"

fun validate_mount_list :: "Host \<Rightarrow> string set \<Rightarrow> ContainerMountConfig list \<Rightarrow> ConfigError + unit" where
  "validate_mount_list H targets [] = Inr ()"
| "validate_mount_list H targets (m # ms) =
     (if trim (mc_source m) = [] \<or> trim (mc_target m) = [] then Inl EmptyMount
      else if \<not> starts_with (mc_target m) ''/'' then Inl (RelativeTarget (mc_target m))
      else if \<not> path_exists H (mc_source m) then Inl (NoMountSource (mc_source m))
      else if mc_target m \<in> targets then Inl (DuplicateTarget (mc_target m))
      else validate_mount_list H (insert (mc_target m) targets) ms)"

definition validate_managed_mounts :: "Host \<Rightarrow> ContainerMountConfig list option \<Rightarrow> ConfigError + unit" where
  "validate_managed_mounts H mounts = (case mounts of None \<Rightarrow> Inr () | Some ms \<Rightarrow> validate_mount_list H {} ms)"

definition and_then :: "'e + unit \<Rightarrow> 'e + 'a \<Rightarrow> 'e + 'a" where
  "and_then r next_result = (case r of Inl e \<Rightarrow> Inl e | Inr _ \<Rightarrow> next_result)"

definition validate_managed :: "Host \<Rightarrow> QueueConfig \<Rightarrow> ManagedConfig \<Rightarrow> ConfigError + unit" where
  "validate_managed H q c =
     (if mg_image c = [] \<or> mg_replicas c = 0 then Inl (IncompleteManaged (qc_name q))
      else and_then (validate_managed_image (mg_image c))
             (and_then (validate_managed_env_file H (mg_env_file c))
                (and_then (validate_managed_env_vars (mg_env_vars c)) (validate_managed_mounts H (mg_mounts c)))))"

fun validate_queues :: "Host \<Rightarrow> string set \<Rightarrow> QueueConfig list \<Rightarrow> ConfigError + unit" where
  "validate_queues H names [] = Inr ()"
| "validate_queues H names (q # qs) =
     (if trim (qc_name q) = [] \<or> qc_name q \<in> names then Inl BadQueueName
      else if qc_timeout_secs q = 0 then Inl (ZeroTimeout (qc_name q))
      else and_then (case qc_managed_config q of None \<Rightarrow> Inr () | Some c \<Rightarrow> validate_managed H q c)
             (validate_queues H (insert (qc_name q) names) qs))"

definition validate_config :: "Host \<Rightarrow> AppConfig \<Rightarrow> ConfigError + unit" where
  "validate_config H c =
     and_then (map_sum id (\<lambda>_. ()) (write_options (ac_persistence c)))
       (and_then (map_sum id (\<lambda>_. ()) (dispatch_options (ac_dispatch c)))
         (and_then (validate_docker_config (ac_docker c))
           (and_then (case ps_cleanup (ac_persistence c) of None \<Rightarrow> Inr () | Some cleanup \<Rightarrow> validate_cleanup_config H cleanup)
             (if listen c = worker_listen c then Inl SameListeners else validate_queues H {} (ac_queues c)))))"

definition load_config :: "Host \<Rightarrow> string \<Rightarrow> ConfigError + AppConfig" where
  "load_config H path =
     (case read_to_string H path of
        Inl err \<Rightarrow> Inl (CannotRead path err)
      | Inr contents \<Rightarrow>
          (case toml_from_str H contents of
             Inl err \<Rightarrow> Inl (CannotParse path err)
           | Inr config \<Rightarrow> and_then (validate_config H config) (Inr config)))"

section \<open>Uses of the configuration\<close>

definition vacuum_stamp :: "string \<Rightarrow> string" where
  "vacuum_stamp s =
     (if CHR ''+'' \<in> set s \<or> case_option False (\<lambda>i. 0 < i) (rfind (CHR ''-'') s)
      then ''1970-01-01T'' @ remove_first (CHR '' '') (trim s) @ '':00''
      else ''1970-01-01T'' @ trim s @ '':00+00:00'')"

text \<open>Whether a vacuum is due: \<open>now_ms\<close> is the time in milliseconds, \<open>now_time\<close> the time of day of the same instant.\<close>

definition is_due :: "Host \<Rightarrow> i64 \<Rightarrow> nat \<Rightarrow> VacuumConfig \<Rightarrow> i64 option \<Rightarrow> ConfigError + bool" where
  "is_due H now_ms now_time v last_run =
     (case parse_time H (vacuum_stamp (vc_at v)) of
        Inl e \<Rightarrow> Inl (BadTime e)
      | Inr time \<Rightarrow>
          (case parse_duration H (vc_every v) of
             Inl e \<Rightarrow> Inl (BadDuration ''vacuum.every'' (vc_every v) e)
           | Inr every \<Rightarrow>
               (case last_run of
                  None \<Rightarrow> Inr (time \<le> now_time)
                | Some previous \<Rightarrow>
                    if i64_max < int (as_millis every) then Inl (TooLarge ''vacuum.every'')
                    else Inr (i64_saturating_add previous (int (as_millis every)) \<le> now_ms \<and> time \<le> now_time))))"

text \<open>\<open>str::lines\<close>: split at line feeds, without the last empty piece and without carriage returns before a line feed.\<close>

fun split_lines :: "string \<Rightarrow> string \<Rightarrow> string list" where
  "split_lines cur [] = (if cur = [] then [] else [rev cur])"
| "split_lines cur (c # s) =
     (if c = CHR 0x0A then rev (case cur of d # cur' \<Rightarrow> if d = CHR 0x0D then cur' else cur | [] \<Rightarrow> []) # split_lines [] s
      else split_lines (c # cur) s)"

definition managed_env :: "Host \<Rightarrow> ManagedConfig \<Rightarrow> ConfigError + string list" where
  "managed_env H c =
     (let res = (case mg_env_vars c of None \<Rightarrow> [] | Some vars \<Rightarrow> map (\<lambda>(k, v). k @ ''='' @ v) vars) in
      case mg_env_file c of
        None \<Rightarrow> Inr res
      | Some env_file \<Rightarrow>
          (case read_to_string H env_file of
             Inl e \<Rightarrow> Inl (UnreadableEnvFile env_file e)
           | Inr contents \<Rightarrow> Inr (res @ map trim (split_lines [] contents))))"

section \<open>What validation accepts\<close>

named_theorems accepts "when a check succeeds"

lemma and_then_Inr [simp, accepts]: "and_then r x = Inr y \<longleftrightarrow> (\<exists>u. r = Inr u) \<and> x = Inr y"
  by (simp add: and_then_def split: sum.splits)

text \<open>A string without its trailing slashes does not end in one.\<close>

lemma trimmed_not_slash: "\<not> ends_with (trim_end_matches (CHR ''/'') s) ''://''"
proof
  let ?t = "trim_end_matches (CHR ''/'') s"
  assume "ends_with ?t ''://''"
  then obtain u where "rev ?t = rev ''://'' @ u" by (auto simp: ends_with_def starts_with_iff)
  then have "?t = rev u @ ''://''" by (metis rev_append rev_rev_ident)
  then have "?t \<noteq> []" "last ?t = CHR ''/''" by simp_all
  then show False using trim_end_matches_last by blast
qed

definition has_scheme :: "string \<Rightarrow> bool" where
  "has_scheme e \<longleftrightarrow> list_ex (starts_with e) [''unix://'', ''npipe://'', ''tcp://'', ''http://'', ''https://'']"

definition tls_complete :: "DockerConfig \<Rightarrow> bool" where
  "tls_complete d \<longleftrightarrow> dc_ca_cert_path d \<noteq> None \<and> dc_cert_path d \<noteq> None \<and> dc_key_path d \<noteq> None"

definition docker_ok :: "DockerConfig \<Rightarrow> bool" where
  "docker_ok d \<longleftrightarrow>
     (tls_complete d \<or> dc_ca_cert_path d = None \<and> dc_cert_path d = None \<and> dc_key_path d = None) \<and>
     (case dc_endpoint d of
        None \<Rightarrow> \<not> tls_complete d
      | Some e \<Rightarrow> has_scheme e \<and> e \<noteq> ''unix://'' \<and> e \<noteq> ''npipe://'' \<and>
          (starts_with e ''https://'' \<longrightarrow> tls_complete d) \<and>
          (tls_complete d \<longrightarrow> starts_with e ''tcp://'' \<or> starts_with e ''https://''))"

lemma validate_docker_config_Inr [accepts]: "validate_docker_config d = Inr () \<longleftrightarrow> docker_ok d"
  unfolding validate_docker_config_def docker_ok_def has_scheme_def tls_complete_def
  by (cases "dc_ca_cert_path d"; cases "dc_cert_path d"; cases "dc_key_path d"; cases "dc_endpoint d")
     (auto simp: Let_def trimmed_not_slash)

definition cleanup_ok :: "Host \<Rightarrow> CleanupConfig \<Rightarrow> bool" where
  "cleanup_ok H c \<longleftrightarrow> trim (cc_interval c) \<noteq> [] \<and> trim (cc_retention c) \<noteq> [] \<and>
     (\<exists>i r. parse_duration H (cc_interval c) = Inr i \<and> parse_duration H (cc_retention c) = Inr r \<and>
        0 < i \<and> 0 < r \<and> int (as_millis r) \<le> i64_max)"

lemma validate_cleanup_config_Inr [accepts]: "validate_cleanup_config H c = Inr () \<longleftrightarrow> cleanup_ok H c"
  unfolding validate_cleanup_config_def cleanup_ok_def cleanup_interval_def cleanup_retention_def
  by (cases "parse_duration H (cc_interval c)"; cases "parse_duration H (cc_retention c)") auto

definition image_ok :: "string \<Rightarrow> bool" where
  "image_ok img \<longleftrightarrow>
     (let tag = map_option snd (rsplit_once (CHR '':'') (after_last (CHR ''/'') img))
      in (contains img ''@sha256:'' \<or> tag \<noteq> None) \<and> tag \<noteq> Some ''latest'' \<and> tag \<noteq> Some ''stable'')"

definition mounts_ok :: "Host \<Rightarrow> ContainerMountConfig list \<Rightarrow> bool" where
  "mounts_ok H ms \<longleftrightarrow> distinct (map mc_target ms) \<and>
     list_all (\<lambda>m. trim (mc_source m) \<noteq> [] \<and> trim (mc_target m) \<noteq> [] \<and> starts_with (mc_target m) ''/'' \<and> path_exists H (mc_source m)) ms"

lemma validate_mount_list_Inr [accepts]:
  "validate_mount_list H ts ms = Inr () \<longleftrightarrow> mounts_ok H ms \<and> set (map mc_target ms) \<inter> ts = {}"
  by (induction ms arbitrary: ts) (auto simp: mounts_ok_def)

definition managed_ok :: "Host \<Rightarrow> ManagedConfig \<Rightarrow> bool" where
  "managed_ok H c \<longleftrightarrow> mg_image c \<noteq> [] \<and> 0 < mg_replicas c \<and> image_ok (mg_image c) \<and>
     (case mg_env_file c of None \<Rightarrow> True | Some f \<Rightarrow> is_file H f) \<and>
     (case mg_env_vars c of None \<Rightarrow> True | Some vs \<Rightarrow> list_all (\<lambda>(k, v). k \<noteq> [] \<and> v \<noteq> []) vs) \<and>
     (case mg_mounts c of None \<Rightarrow> True | Some ms \<Rightarrow> mounts_ok H ms)"

lemma validate_managed_Inr [accepts]: "validate_managed H q c = Inr () \<longleftrightarrow> managed_ok H c"
  unfolding validate_managed_def managed_ok_def validate_managed_image_def validate_managed_env_file_def
    validate_managed_env_vars_def validate_managed_mounts_def image_ok_def Let_def
  by (auto simp: accepts list_ex_iff list_all_iff case_prod_beta split: option.splits if_splits)

definition queue_ok :: "Host \<Rightarrow> QueueConfig \<Rightarrow> bool" where
  "queue_ok H q \<longleftrightarrow> trim (qc_name q) \<noteq> [] \<and> 0 < qc_timeout_secs q \<and>
     (case qc_managed_config q of None \<Rightarrow> True | Some c \<Rightarrow> managed_ok H c)"

lemma validate_queues_Inr [accepts]:
  "validate_queues H ns qs = Inr () \<longleftrightarrow>
     distinct (map qc_name qs) \<and> list_all (queue_ok H) qs \<and> set (map qc_name qs) \<inter> ns = {}"
  by (induction qs arbitrary: ns) (auto simp: queue_ok_def accepts split: option.splits)

lemma write_options_Inr: "write_options p = Inr o' \<Longrightarrow> SqliteWriteOptions_validate o' = Inr ()"
  by (auto simp: write_options_def Let_def split: sum.splits)

lemma dispatch_options_Inr: "dispatch_options c = Inr o' \<Longrightarrow> DispatchOptions_validate o' = Inr ()"
  by (auto simp: dispatch_options_def Let_def split: sum.splits)

lemma map_sum_unit [accepts]: "map_sum id (\<lambda>_. ()) r = Inr () \<longleftrightarrow> (\<exists>x. r = Inr x)"
  by (cases r) simp_all

text \<open>
  C17. Loading accepts exactly the configurations that pass every check, in whatever order the checks are made: the file can be read
  and parsed; the options of both writers and of the dispatch pass their own validation; the Docker
  section has no endpoint or one with a known scheme that is not just \<open>unix://\<close> or \<open>npipe://\<close>, and all three certificate paths or none (all three for \<open>https\<close>,
  and only with a \<open>tcp\<close> or \<open>https\<close> endpoint); the cleanup periods, if any, are set, parse, are positive, and the retention fits in 64 bits; the
  two listen addresses differ as text; the queue names are not blank and distinct; every timeout is positive; managed workers have a
  versioned image, at least one replica, an environment file that exists (if named), environment variables with
  nonempty names and values, and mounts with existing sources and absolute, distinct targets.
\<close>

theorem load_config_accepts_exactly:
  "load_config H path = Inr c \<longleftrightarrow>
     (\<exists>text. read_to_string H path = Inr text \<and> toml_from_str H text = Inr c) \<and>
     (\<exists>wo. write_options (ac_persistence c) = Inr wo \<and> SqliteWriteOptions_validate wo = Inr ()) \<and>
     (\<exists>do. dispatch_options (ac_dispatch c) = Inr do \<and> DispatchOptions_validate do = Inr ()) \<and>
     docker_ok (ac_docker c) \<and>
     (case ps_cleanup (ac_persistence c) of None \<Rightarrow> True | Some cleanup \<Rightarrow> cleanup_ok H cleanup) \<and>
     listen c \<noteq> worker_listen c \<and>
     distinct (map qc_name (ac_queues c)) \<and> list_all (queue_ok H) (ac_queues c)"
proof -
  have "validate_config H c = Inr () \<longleftrightarrow>
     (\<exists>wo. write_options (ac_persistence c) = Inr wo) \<and> (\<exists>do. dispatch_options (ac_dispatch c) = Inr do) \<and>
     docker_ok (ac_docker c) \<and> (case ps_cleanup (ac_persistence c) of None \<Rightarrow> True | Some cleanup \<Rightarrow> cleanup_ok H cleanup) \<and>
     listen c \<noteq> worker_listen c \<and> distinct (map qc_name (ac_queues c)) \<and> list_all (queue_ok H) (ac_queues c)"
    unfolding validate_config_def
    by (simp add: accepts split: option.split)
  then show ?thesis
    using write_options_Inr dispatch_options_Inr unfolding load_config_def by (auto split: sum.splits)
qed


section \<open>Database paths\<close>

lemma after_last_append: "c \<notin> set t \<Longrightarrow> after_last c (s @ c # t) = t"
  by (simp add: after_last_def takeWhile_append)

lemma rsplit_once_append: "c \<notin> set t \<Longrightarrow> rsplit_once c (s @ c # t) = Some (s, t)"
  by (simp add: rsplit_once_def after_last_append)

lemma stem_of_db: "s \<noteq> [] \<Longrightarrow> stem_of (s @ ''.db'') = s"
  using rsplit_once_append [of "CHR ''.''" "''db''" s] by (simp add: stem_of_def)

lemma file_name_no_slash: "file_name s = Some n \<Longrightarrow> CHR ''/'' \<notin> set n \<and> n \<noteq> []"
proof (induction s rule: file_name.induct)
  case (1 s)
  have "CHR ''/'' \<notin> set (after_last (CHR ''/'') s)" by (auto simp: after_last_def dest: set_takeWhileD)
  then show ?case using 1 by (auto simp: file_name.simps [of s] Let_def split: if_splits)
qed

lemma after_last_none: "c \<notin> set s \<Longrightarrow> after_last c s = s"
proof -
  assume "c \<notin> set s"
  then have "\<forall>x\<in>set (rev s). x \<noteq> c" by auto
  then have "takeWhile (\<lambda>x. x \<noteq> c) (rev s) = rev s" by (simp only: takeWhile_eq_all_conv)
  then show ?thesis unfolding after_last_def by (simp only: rev_rev_ident)
qed

lemma file_name_push:
  assumes "CHR ''/'' \<notin> set n" and "n \<noteq> []" "n \<noteq> ''.''" "n \<noteq> ''..''"
  shows "file_name (push_path dir n) = Some n"
proof -
  have "after_last (CHR ''/'') (push_path dir n) = n"
  proof (cases "dir = [] \<or> last dir = CHR ''/''")
    case True
    then show ?thesis
    proof (cases dir rule: rev_cases)
      case Nil
      then show ?thesis using after_last_none [OF assms(1)] by (simp add: push_path_def)
    next
      case (snoc d c)
      with True assms(1) after_last_append [of "CHR ''/''" n d] show ?thesis by (simp add: push_path_def)
    qed
  next
    case False
    with assms(1) after_last_append [of "CHR ''/''" n dir] show ?thesis by (simp add: push_path_def)
  qed
  with assms(2-4) show ?thesis by (simp add: file_name.simps [of "push_path dir n"])
qed

text \<open>The derived name: never the name of the ingest database, whatever its extension.\<close>

lemma default_results_path_differs: "default_results_path ingest \<noteq> ingest"
proof
  assume eq: "default_results_path ingest = ingest"
  define stem where "stem = (case file_name ingest of Some name \<Rightarrow> stem_of name | None \<Rightarrow> ''maqistor'')"
  define rs where "rs = (case strip_suffix ''-ingest'' stem of Some base \<Rightarrow> base @ ''-results'' | None \<Rightarrow> stem @ ''-results'')"
  have path: "default_results_path ingest = push_path (if file_name ingest = None then ingest else parent_dir ingest) (rs @ ''.db'')"
    unfolding default_results_path_def with_file_name_def rs_def stem_def Let_def ..
  have stem: "CHR ''/'' \<notin> set stem"
    using file_name_no_slash [of ingest]
    by (auto simp: stem_def stem_of_def rsplit_once_def split: option.splits if_splits dest: in_set_takeD)
  then have "CHR ''/'' \<notin> set rs" by (auto simp: rs_def strip_suffix_def split: option.splits if_splits dest: in_set_takeD)
  moreover have ne: "rs \<noteq> []" by (auto simp: rs_def split: option.splits)
  ultimately have "file_name (default_results_path ingest) = Some (rs @ ''.db'')"
    unfolding path by (intro file_name_push) (auto simp: Cons_eq_append_conv append_eq_Cons_conv)
  then have "stem = rs" using stem_of_db [OF ne] by (simp add: eq stem_def)
  then show False
  proof (cases "strip_suffix ''-ingest'' stem")
    case None
    with \<open>stem = rs\<close> show ?thesis by (simp add: rs_def)
  next
    case (Some base)
    then have "ends_with stem ''-ingest''" by (simp add: strip_suffix_def split: if_splits)
    moreover have "ends_with stem ''-results''" using \<open>stem = rs\<close> Some by (simp add: rs_def ends_with_def starts_with_def)
    ultimately show ?thesis by (auto simp: ends_with_def starts_with_iff)
  qed
qed

lemma results_path_differs: "ps_results_database p = None \<Longrightarrow> results_database_path p \<noteq> ingest_database_path p"
  using default_results_path_differs [of "ingest_database_path p"]
  by (auto simp: results_database_path_def ingest_database_path_def DEFAULT_INGEST_DATABASE_def DEFAULT_RESULTS_DATABASE_def split: option.splits)


text \<open>The options the server runs with pass the validation of the writers.\<close>

lemma accepted_batch_options:
  "write_options p = Inr wo \<Longrightarrow>
     BatchOptions_validate ''persistence.enqueue'' (swo_enqueue wo) = Inr () \<and> BatchOptions_validate ''persistence.completion'' (swo_completion wo) = Inr ()"
  using write_options_Inr [of p wo] by (simp add: SqliteWriteOptions_validate_def split: sum.splits)

section \<open>Endpoints without a host\<close>

text \<open>
  A Docker endpoint without a host is accepted. The validation means to reject endpoints that end
  right after the scheme, but it strips the trailing slashes before it looks for \<open>://\<close> at the
  end, so that this check can never succeed; \<open>tcp://\<close> and \<open>http://\<close> alone pass, and so does \<open>unix:///\<close>.
\<close>

theorem hostless_endpoint_accepted:
  "(\<forall>endpoint. \<not> ends_with (trim_end_matches (CHR ''/'') endpoint) ''://'') \<and>
   validate_docker_config \<lparr>dc_endpoint = Some ''tcp://'', dc_ca_cert_path = None, dc_cert_path = None, dc_key_path = None\<rparr> = Inr () \<and>
   validate_docker_config \<lparr>dc_endpoint = Some ''http://'', dc_ca_cert_path = None, dc_cert_path = None, dc_key_path = None\<rparr> = Inr () \<and>
   validate_docker_config \<lparr>dc_endpoint = Some ''unix:///'', dc_ca_cert_path = None, dc_cert_path = None, dc_key_path = None\<rparr> = Inr ()"
  by (simp add: trimmed_not_slash validate_docker_config_Inr docker_ok_def has_scheme_def tls_complete_def starts_with_def)

text \<open>An offset in \<open>vacuum.at\<close> ends up between the minutes and the appended seconds.\<close>

lemma vacuum_stamp_offset: "vacuum_stamp ''03:00+02:00'' = ''1970-01-01T03:00+02:00:00''"
  by (simp add: vacuum_stamp_def trim_def is_whitespace_def)

end
