(* ===== verification/Maq_Docker.thy ===== *)
theory Maq_Docker
  imports Maq_Config
begin

text \<open>
  The supervisor of managed workers (\<open>crates/dispatcher/src/lib.rs\<close>): choosing a connection, resolving
  images and reconciling the containers of every replica. The Docker client is a parameter (\<open>Docker\<close>):
  every call takes the state of the daemon and returns an answer, which may be an error, and the state
  after it.
\<close>

section \<open>Connections\<close>

record DockerConnectOptions =
  co_endpoint :: "string option"
  co_ca_cert_path :: "string option"
  co_cert_path :: "string option"
  co_key_path :: "string option"

definition connect_options :: "DockerConfig \<Rightarrow> DockerConnectOptions" where
  "connect_options d =
     \<lparr>co_endpoint = dc_endpoint d, co_ca_cert_path = dc_ca_cert_path d, co_cert_path = dc_cert_path d, co_key_path = dc_key_path d\<rparr>"

text \<open>Which constructor of the client is called, with its arguments, on a Unix host.\<close>

datatype DockerTransport =
    LocalDefaults
  | UnixSocket string
  | SslTransport string string string string
  | HttpTransport string

definition connect_docker :: "DockerConnectOptions \<Rightarrow> string + DockerTransport" where
  "connect_docker o' =
     (case co_endpoint o' of
        None \<Rightarrow> Inr LocalDefaults
      | Some endpoint \<Rightarrow>
          if starts_with endpoint ''unix://'' then Inr (UnixSocket endpoint)
          else if starts_with endpoint ''npipe://'' then Inl ''npipe:// Docker endpoints are only supported on Windows hosts''
          else if starts_with endpoint ''tcp://'' \<or> starts_with endpoint ''http://'' \<or> starts_with endpoint ''https://'' then
            (case (co_ca_cert_path o', co_cert_path o', co_key_path o') of
               (Some ca, Some cert, Some key) \<Rightarrow> Inr (SslTransport endpoint key cert ca)
             | (None, None, None) \<Rightarrow> Inr (HttpTransport endpoint)
             | _ \<Rightarrow> Inl ''docker TLS requires ca_cert_path, cert_path, and key_path together'')
          else Inl (''unsupported docker endpoint scheme: '' @ endpoint))"

section \<open>Containers\<close>

record ContainerMount =
  cm_source :: string
  cm_target :: string
  cm_read_only :: bool

text \<open>What the daemon reports of a mount, and what it is asked to mount.\<close>

record MountPoint =
  mp_source :: "string option"
  mp_destination :: "string option"
  mp_rw :: "bool option"

record Mount =
  mt_target :: string
  mt_source :: string
  mt_read_only :: bool

definition from_inspect :: "MountPoint \<Rightarrow> ContainerMount" where
  "from_inspect m =
     \<lparr>cm_source = case_option [] id (mp_source m), cm_target = case_option [] id (mp_destination m),
      cm_read_only = (\<not> case_option True id (mp_rw m))\<rparr>"

definition to_docker_mount :: "ContainerMount \<Rightarrow> Mount" where
  "to_docker_mount m = \<lparr>mt_target = cm_target m, mt_source = cm_source m, mt_read_only = cm_read_only m\<rparr>"

definition to_dispatcher_type :: "Host \<Rightarrow> ContainerMountConfig \<Rightarrow> ConfigError + ContainerMount" where
  "to_dispatcher_type H m =
     (case canonicalize H (mc_source m) of
        Inl err \<Rightarrow> Inl (BadMountSource (mc_source m) err)
      | Inr source \<Rightarrow> Inr \<lparr>cm_source = source, cm_target = mc_target m, cm_read_only = mc_read_only m\<rparr>)"

record ManagedQueue =
  mq_name :: string
  mq_image :: string
  mq_replicas :: nat
  mq_env :: "string list"
  mq_mounts :: "ContainerMount list"

text \<open>The answer to an inspection, as far as it is read.\<close>

record ContainerConfig =
  cf_env :: "string list option"
  cf_labels :: "(string \<rightharpoonup> string) option"

record Container =
  ct_image :: "string option"
  ct_config :: "ContainerConfig option"
  ct_mounts :: "MountPoint list option"

text \<open>What a container is created from; the restart policy is always \<open>unless-stopped\<close>.\<close>

record CreateConfig =
  cr_image :: string
  cr_env :: "string list"
  cr_labels :: "string \<rightharpoonup> string"
  cr_mounts :: "Mount list"

text \<open>The client: a pull is the list of the events of its stream.\<close>

record 'd Docker =
  inspect_container :: "string \<Rightarrow> 'd \<Rightarrow> (string + Container) \<times> 'd"
  remove_container :: "string \<Rightarrow> 'd \<Rightarrow> (string + unit) \<times> 'd"
  create_container :: "string \<Rightarrow> CreateConfig \<Rightarrow> 'd \<Rightarrow> (string + unit) \<times> 'd"
  start_container :: "string \<Rightarrow> 'd \<Rightarrow> (string + unit) \<times> 'd"
  inspect_image :: "string \<Rightarrow> 'd \<Rightarrow> (string + string option) \<times> 'd"
  pull_image :: "string \<Rightarrow> 'd \<Rightarrow> (string + unit) list \<times> 'd"

record 'd Supervisor =
  sv_images :: "string \<rightharpoonup> string"
  sv_daemon :: 'd

definition is_ascii_alphanumeric :: "char \<Rightarrow> bool" where
  "is_ascii_alphanumeric c \<longleftrightarrow>
     (let k = (of_char c :: nat) in 48 \<le> k \<and> k \<le> 57 \<or> 65 \<le> k \<and> k \<le> 90 \<or> 97 \<le> k \<and> k \<le> 122)"

definition sanitize :: "string \<Rightarrow> string" where
  "sanitize queue = map (\<lambda>c. if is_ascii_alphanumeric c then c else CHR ''-'') queue"

definition container_name :: "string \<Rightarrow> nat \<Rightarrow> string" where
  "container_name queue ordinal = ''maqistor-'' @ sanitize queue @ ''-'' @ show_nat ordinal"

section \<open>Reconciliation\<close>

text \<open>\<open>while let Some(event) = pull.next() { event? }\<close>\<close>

fun pull_events :: "(string + unit) list \<Rightarrow> string + unit" where
  "pull_events [] = Inr ()"
| "pull_events (Inl e # es) = Inl (''pull managed worker image: '' @ e)"
| "pull_events (Inr _ # es) = pull_events es"

definition with_daemon :: "(string + 'a) \<times> 'd \<Rightarrow> 'd Supervisor \<Rightarrow> (string + 'a) \<times> 'd Supervisor" where
  "with_daemon r s = (fst r, s\<lparr>sv_daemon := snd r\<rparr>)"

definition inspected_image :: "'d Docker \<Rightarrow> string \<Rightarrow> 'd Supervisor \<Rightarrow> (string + string option) \<times> 'd Supervisor" where
  "inspected_image D img s =
     (let (local, s1) = with_daemon (inspect_image D img (sv_daemon s)) s in
      case local of
        Inr found \<Rightarrow> (Inr found, s1)
      | Inl _ \<Rightarrow>
          let (events, d2) = pull_image D img (sv_daemon s1); s2 = s1\<lparr>sv_daemon := d2\<rparr> in
          (case pull_events events of
             Inl e \<Rightarrow> (Inl e, s2)
           | Inr _ \<Rightarrow>
               (let (again, s3) = with_daemon (inspect_image D img (sv_daemon s2)) s2
                in (map_sum (\<lambda>e. ''inspect managed worker image after pull: '' @ e) id again, s3))))"

definition resolve_image_id :: "'d Docker \<Rightarrow> string \<Rightarrow> 'd Supervisor \<Rightarrow> (string + string) \<times> 'd Supervisor" where
  "resolve_image_id D img s =
     (case sv_images s img of
        Some ident \<Rightarrow> (Inr ident, s)
      | None \<Rightarrow>
          let (inspected, s1) = inspected_image D img s in
          (case inspected of
             Inl e \<Rightarrow> (Inl e, s1)
           | Inr None \<Rightarrow> (Inl ''Docker returned an image without an ID'', s1)
           | Inr (Some ident) \<Rightarrow> (Inr ident, s1\<lparr>sv_images := (sv_images s1)(img \<mapsto> ident)\<rparr>)))"

definition current_env :: "Container \<Rightarrow> string list" where
  "current_env c = (case ct_config c of Some cfg \<Rightarrow> case_option [] id (cf_env cfg) | None \<Rightarrow> [])"

definition current_mounts :: "Container \<Rightarrow> ContainerMount list" where
  "current_mounts c = map from_inspect (case_option [] id (ct_mounts c))"

definition need_update :: "string \<Rightarrow> ManagedQueue \<Rightarrow> Container \<Rightarrow> bool" where
  "need_update desired_image queue c \<longleftrightarrow>
     ct_image c \<noteq> Some desired_image \<or>
     \<not> list_all (\<lambda>wanted. wanted \<in> set (current_env c)) (mq_env queue) \<or>
     \<not> list_all (\<lambda>wanted. wanted \<in> set (current_mounts c)) (mq_mounts queue)"

definition is_managed :: "Container \<Rightarrow> bool" where
  "is_managed c \<longleftrightarrow>
     (case ct_config c of
        None \<Rightarrow> False
      | Some cfg \<Rightarrow> (case cf_labels cfg of None \<Rightarrow> False | Some labels \<Rightarrow> labels ''io.maqistor.managed'' = Some ''true''))"

definition create_config :: "ManagedQueue \<Rightarrow> nat \<Rightarrow> CreateConfig" where
  "create_config queue ordinal =
     \<lparr>cr_image = mq_image queue, cr_env = mq_env queue,
      cr_labels = [''io.maqistor.managed'' \<mapsto> ''true'', ''io.maqistor.queue'' \<mapsto> mq_name queue, ''io.maqistor.replica'' \<mapsto> show_nat ordinal],
      cr_mounts = map to_docker_mount (mq_mounts queue)\<rparr>"

definition create_and_start :: "'d Docker \<Rightarrow> ManagedQueue \<Rightarrow> nat \<Rightarrow> 'd Supervisor \<Rightarrow> (string + unit) \<times> 'd Supervisor" where
  "create_and_start D queue ordinal s =
     (let name = container_name (mq_name queue) ordinal;
          (created, s1) = with_daemon (create_container D name (create_config queue ordinal) (sv_daemon s)) s in
      case created of
        Inl e \<Rightarrow> (Inl (''create managed worker: '' @ e), s1)
      | Inr _ \<Rightarrow>
          let (started, s2) = with_daemon (start_container D name (sv_daemon s1)) s1
          in (map_sum (\<lambda>e. ''start managed worker: '' @ e) id started, s2))"

definition ensure :: "'d Docker \<Rightarrow> ManagedQueue \<Rightarrow> nat \<Rightarrow> 'd Supervisor \<Rightarrow> (string + unit) \<times> 'd Supervisor" where
  "ensure D queue ordinal s0 =
     (let name = container_name (mq_name queue) ordinal; (resolved, s) = resolve_image_id D (mq_image queue) s0 in
      case resolved of
        Inl e \<Rightarrow> (Inl e, s)
      | Inr desired_image \<Rightarrow>
          let (inspected, s1) = with_daemon (inspect_container D name (sv_daemon s)) s in
          (case inspected of
             Inl _ \<Rightarrow> create_and_start D queue ordinal s1
           | Inr c \<Rightarrow>
               if need_update desired_image queue c then
                 if \<not> is_managed c then (Inl (''refusing to replace non-Maqistor container '' @ name), s1)
                 else
                   (let (removed, s2) = with_daemon (remove_container D name (sv_daemon s1)) s1 in
                    case removed of
                      Inl e \<Rightarrow> (Inl (''remove outdated managed worker: '' @ e), s2)
                    | Inr _ \<Rightarrow> create_and_start D queue ordinal s2)
               else
                 let (_, s2) = with_daemon (start_container D name (sv_daemon s1)) s1 in (Inr (), s2)))"

text \<open>The replicas of all queues, in the order in which they are visited; the first error ends the pass.\<close>

fun ensure_all :: "'d Docker \<Rightarrow> (ManagedQueue \<times> nat) list \<Rightarrow> 'd Supervisor \<Rightarrow> (string + unit) \<times> 'd Supervisor" where
  "ensure_all D [] s = (Inr (), s)"
| "ensure_all D ((queue, ordinal) # rest) s =
     (let (r, s1) = ensure D queue ordinal s in case r of Inl e \<Rightarrow> (Inl e, s1) | Inr _ \<Rightarrow> ensure_all D rest s1)"

definition all_replicas :: "ManagedQueue list \<Rightarrow> (ManagedQueue \<times> nat) list" where
  "all_replicas queues = concat (map (\<lambda>queue. map (Pair queue) [0..<mq_replicas queue]) queues)"

definition reconcile :: "'d Docker \<Rightarrow> ManagedQueue list \<Rightarrow> 'd Supervisor \<Rightarrow> (string + unit) \<times> 'd Supervisor" where
  "reconcile D queues s = ensure_all D (all_replicas queues) s"

end
