(* ===== verification/Maq_Docker_Runs.thy ===== *)
theory Maq_Docker_Runs
  imports Maq_Docker
begin

text \<open>
  What the reconciliation of managed workers achieves with a daemon that works, what it never does with any
  daemon, and what happens to queues whose names collide.
\<close>

section \<open>Container names\<close>

text \<open>Two replicas share a container name only when their queues have the same name up to the replaced characters.\<close>

lemma container_name_inj: "container_name q i = container_name r j \<longleftrightarrow> sanitize q = sanitize r \<and> i = j"
proof
  assume eq: "container_name q i = container_name r j"
  have split: "rsplit_once (CHR ''-'') (container_name q i) = Some (''maqistor-'' @ sanitize q, show_nat i)" for q i
    using rsplit_once_append [OF show_nat_no_dash [of i], of "''maqistor-'' @ sanitize q"] by (simp add: container_name_def)
  from split [of q i] split [of r j] show "sanitize q = sanitize r \<and> i = j" by (simp add: eq show_nat_inj)
qed (simp add: container_name_def)

section \<open>A daemon that works\<close>

text \<open>
  What the supervisor relies on, in terms of the containers the daemon knows (\<open>view\<close>) and the identifiers of
  images: inspecting and starting do not change the containers, removing and creating do what they say, a
  new container has the image, the labels, at least the variables and the mounts it was created with, and an image
  that is not there can be pulled.
\<close>

definition created_from :: "(string \<Rightarrow> string) \<Rightarrow> CreateConfig \<Rightarrow> Container \<Rightarrow> bool" where
  "created_from ids cfg c \<longleftrightarrow>
     ct_image c = Some (ids (cr_image cfg)) \<and> set (cr_env cfg) \<subseteq> set (current_env c) \<and>
     (\<forall>m\<in>set (cr_mounts cfg). \<lparr>cm_source = mt_source m, cm_target = mt_target m, cm_read_only = mt_read_only m\<rparr> \<in> set (current_mounts c)) \<and>
     (\<exists>cf labels. ct_config c = Some cf \<and> cf_labels cf = Some labels \<and> cr_labels cfg \<subseteq>\<^sub>m labels)"

definition daemon_works :: "'d Docker \<Rightarrow> ('d \<Rightarrow> string \<rightharpoonup> Container) \<Rightarrow> (string \<Rightarrow> string) \<Rightarrow> bool" where
  "daemon_works D view ids \<longleftrightarrow>
     (\<forall>n d. view (snd (inspect_container D n d)) = view d \<and>
        (case view d n of Some c \<Rightarrow> fst (inspect_container D n d) = Inr c | None \<Rightarrow> \<exists>e. fst (inspect_container D n d) = Inl e)) \<and>
     (\<forall>n d. view d n \<noteq> None \<longrightarrow> fst (remove_container D n d) = Inr () \<and> view (snd (remove_container D n d)) = (view d)(n := None)) \<and>
     (\<forall>n cfg d. view d n = None \<longrightarrow> fst (create_container D n cfg d) = Inr () \<and>
        (\<exists>c. created_from ids cfg c \<and> view (snd (create_container D n cfg d)) = (view d)(n \<mapsto> c))) \<and>
     (\<forall>n d. view d n \<noteq> None \<longrightarrow> fst (start_container D n d) = Inr () \<and> view (snd (start_container D n d)) = view d) \<and>
     (\<forall>img d. view (snd (inspect_image D img d)) = view d \<and>
        (fst (inspect_image D img d) = Inr (Some (ids img)) \<or> (\<exists>e. fst (inspect_image D img d) = Inl e))) \<and>
     (\<forall>img d. list_all (\<lambda>e. \<not> isl e) (fst (pull_image D img d)) \<and> view (snd (pull_image D img d)) = view d \<and>
        fst (inspect_image D img (snd (pull_image D img d))) = Inr (Some (ids img)))"

lemma pull_events_ok: "list_all (\<lambda>e. \<not> isl e) es \<Longrightarrow> pull_events es = Inr ()"
  by (induction es rule: pull_events.induct) simp_all

definition images_known :: "(string \<Rightarrow> string) \<Rightarrow> 'd Supervisor \<Rightarrow> bool" where
  "images_known ids s \<longleftrightarrow> (\<forall>img i. sv_images s img = Some i \<longrightarrow> i = ids img)"

lemma resolve_image_works:
  assumes W: "daemon_works D view ids" and known: "images_known ids s" and r: "resolve_image_id D img s = (res, s')"
  shows "res = Inr (ids img) \<and> images_known ids s' \<and> view (sv_daemon s') = view (sv_daemon s)"
proof (cases "sv_images s img")
  case (Some i)
  then have "i = ids img" using known by (simp add: images_known_def)
  with Some r known show ?thesis by (simp add: resolve_image_id_def)
next
  case None
  obtain found s1 where i: "inspected_image D img s = (found, s1)" by fastforce
  have img: "view (snd (inspect_image D i d)) = view d" "fst (inspect_image D i d) = Inr (Some (ids i)) \<or> (\<exists>e. fst (inspect_image D i d) = Inl e)"
    "list_all (\<lambda>e. \<not> isl e) (fst (pull_image D i d))" "view (snd (pull_image D i d)) = view d"
    "fst (inspect_image D i (snd (pull_image D i d))) = Inr (Some (ids i))" for i d
    using W unfolding daemon_works_def by blast+
  obtain r1 d1 where one: "inspect_image D img (sv_daemon s) = (r1, d1)" by fastforce
  obtain es d2 where two: "pull_image D img d1 = (es, d2)" by fastforce
  obtain r3 d3 where three: "inspect_image D img d2 = (r3, d3)" by fastforce
  have found: "found = Inr (Some (ids img)) \<and> view (sv_daemon s1) = view (sv_daemon s) \<and> sv_images s1 = sv_images s"
    using img(1,2) [of img "sv_daemon s"] img(3-5) [of img d1] img(1) [of img d2] i
    by (auto simp: inspected_image_def with_daemon_def one two three pull_events_ok)
  with i None r known show ?thesis by (auto simp: resolve_image_id_def images_known_def split: if_splits)
qed

definition up_to_date :: "(string \<Rightarrow> string) \<Rightarrow> ManagedQueue \<Rightarrow> Container \<Rightarrow> bool" where
  "up_to_date ids q c \<longleftrightarrow> \<not> need_update (ids (mq_image q)) q c"

lemma mount_eta [simp]: "\<lparr>cm_source = cm_source m, cm_target = cm_target m, cm_read_only = cm_read_only m\<rparr> = m"
  by simp

lemma created_up_to_date: "created_from ids (create_config q k) c \<Longrightarrow> up_to_date ids q c"
  by (auto simp: created_from_def create_config_def up_to_date_def need_update_def list_all_iff to_docker_mount_def)

lemma create_and_start_works:
  assumes W: "daemon_works D view ids" and none: "view (sv_daemon s) (container_name (mq_name q) k) = None"
    and r: "create_and_start D q k s = (res, s')"
  shows "res = Inr () \<and> sv_images s' = sv_images s \<and>
    (\<exists>c. created_from ids (create_config q k) c \<and> view (sv_daemon s') = (view (sv_daemon s))(container_name (mq_name q) k \<mapsto> c))"
proof -
  let ?n = "container_name (mq_name q) k"
  obtain c where c: "created_from ids (create_config q k) c" "fst (create_container D ?n (create_config q k) (sv_daemon s)) = Inr ()"
    "view (snd (create_container D ?n (create_config q k) (sv_daemon s))) = (view (sv_daemon s))(?n \<mapsto> c)"
    using W none unfolding daemon_works_def by blast
  let ?d = "snd (create_container D ?n (create_config q k) (sv_daemon s))"
  have "view ?d ?n \<noteq> None" by (simp add: c(3))
  then have "fst (start_container D ?n ?d) = Inr ()" "view (snd (start_container D ?n ?d)) = view ?d"
    using W unfolding daemon_works_def by blast+
  with c r show ?thesis by (auto simp: create_and_start_def with_daemon_def Let_def)
qed


lemma replaced_up_to_date:
  assumes "daemon_works D view ids" and "images_known ids u" and "create_and_start D q k u = (res, s')"
    and "view (sv_daemon u) = V(container_name (mq_name q) k := None)"
    and "\<And>c. V (container_name (mq_name q) k) = Some c \<Longrightarrow> \<not> up_to_date ids q c"
  shows "res = Inr () \<and> images_known ids s' \<and>
    (\<exists>c. up_to_date ids q c \<and> view (sv_daemon s') = V(container_name (mq_name q) k \<mapsto> c) \<and>
      (\<forall>c0. V (container_name (mq_name q) k) = Some c0 \<longrightarrow> up_to_date ids q c0 \<longrightarrow> c = c0))"
proof -
  from create_and_start_works [OF assms(1) _ assms(3)] assms(4) obtain c where c: "res = Inr ()" "sv_images s' = sv_images u"
    "created_from ids (create_config q k) c" "view (sv_daemon s') = V(container_name (mq_name q) k \<mapsto> c)" by auto
  with created_up_to_date [OF c(3)] assms(2,5) show ?thesis by (auto simp: images_known_def)
qed

text \<open>One replica: its container is up to date afterwards, an up-to-date one is kept, and no other container changes.\<close>

lemma ensure_works:
  assumes W: "daemon_works D view ids" and known: "images_known ids s"
    and ours: "\<And>c. view (sv_daemon s) (container_name (mq_name q) k) = Some c \<Longrightarrow> up_to_date ids q c \<or> is_managed c"
    and r: "ensure D q k s = (res, s')"
  shows "res = Inr () \<and> images_known ids s' \<and>
    (\<exists>c. up_to_date ids q c \<and> view (sv_daemon s') = (view (sv_daemon s))(container_name (mq_name q) k \<mapsto> c) \<and>
      (\<forall>c0. view (sv_daemon s) (container_name (mq_name q) k) = Some c0 \<longrightarrow> up_to_date ids q c0 \<longrightarrow> c = c0))"
proof -
  let ?n = "container_name (mq_name q) k"
  obtain i s1 where ri: "resolve_image_id D (mq_image q) s = (i, s1)" by fastforce
  note s1 = resolve_image_works [OF W known ri]
  obtain insp d2 where insp: "inspect_container D ?n (sv_daemon s1) = (insp, d2)" by fastforce
  define s2 where "s2 = s1\<lparr>sv_daemon := d2\<rparr>"
  have v2: "view (sv_daemon s2) = view (sv_daemon s)" "images_known ids s2"
    using W insp s1 unfolding daemon_works_def s2_def images_known_def by (metis Supervisor.select_convs Supervisor.surjective Supervisor.update_convs(2) snd_conv)+
  have in2: "case view (sv_daemon s) ?n of Some c \<Rightarrow> insp = Inr c | None \<Rightarrow> \<exists>e. insp = Inl e"
    using W insp s1 unfolding daemon_works_def by (metis fst_conv)
  show ?thesis
  proof (cases "view (sv_daemon s) ?n")
    case None
    with in2 obtain e where "insp = Inl e" by auto
    with r ri insp s1 have "create_and_start D q k s2 = (res, s')" by (simp add: ensure_def with_daemon_def s2_def)
    with None v2 show ?thesis by (intro replaced_up_to_date [OF W v2(2)]) auto
  next
    case (Some c)
    with in2 have c: "insp = Inr c" by simp
    show ?thesis
    proof (cases "up_to_date ids q c")
      case True
      have "view (snd (start_container D ?n d2)) = view d2" using W Some v2(1) unfolding daemon_works_def s2_def by simp
      then have "res = Inr () \<and> images_known ids s' \<and> view (sv_daemon s') = view (sv_daemon s)"
        using r ri insp s1 c True v2 by (auto simp: ensure_def with_daemon_def up_to_date_def images_known_def s2_def)
      with True Some show ?thesis by (auto simp: fun_upd_idem)
    next
      case False
      with ours [OF Some] have "is_managed c" by simp
      obtain rm d3 where rm: "remove_container D ?n d2 = (rm, d3)" by fastforce
      have "rm = Inr ()" "view d3 = (view (sv_daemon s))(?n := None)"
        using W rm Some v2(1) unfolding daemon_works_def s2_def by (metis Supervisor.select_convs(2) Supervisor.surjective Supervisor.update_convs(2) fst_conv option.discI snd_conv)+
      then have "create_and_start D q k (s2\<lparr>sv_daemon := d3\<rparr>) = (res, s')"
        using r ri insp s1 c False \<open>is_managed c\<close> rm by (simp add: ensure_def with_daemon_def up_to_date_def s2_def)
      with False Some v2(2) \<open>view d3 = _\<close> show ?thesis
        by (intro replaced_up_to_date [OF W, of "s2\<lparr>sv_daemon := d3\<rparr>"]) (auto simp: images_known_def)
    qed
  qed
qed


definition replica_name :: "ManagedQueue \<times> nat \<Rightarrow> string" where
  "replica_name r = container_name (mq_name (fst r)) (snd r)"

lemma ensure_all_works:
  assumes W: "daemon_works D view ids" and "images_known ids s" and "distinct (map replica_name rs)"
    and "\<And>r c. r \<in> set rs \<Longrightarrow> view (sv_daemon s) (replica_name r) = Some c \<Longrightarrow> up_to_date ids (fst r) c \<or> is_managed c"
    and "ensure_all D rs s = (res, s')"
  shows "res = Inr () \<and> images_known ids s' \<and>
    (\<forall>r\<in>set rs. \<exists>c. view (sv_daemon s') (replica_name r) = Some c \<and> up_to_date ids (fst r) c \<and>
      (\<forall>c0. view (sv_daemon s) (replica_name r) = Some c0 \<longrightarrow> up_to_date ids (fst r) c0 \<longrightarrow> c = c0)) \<and>
    (\<forall>n. n \<notin> replica_name ` set rs \<longrightarrow> view (sv_daemon s') n = view (sv_daemon s) n)"
  using assms(2-)
proof (induction rs arbitrary: s)
  case (Cons r rs)
  obtain q k where rq: "r = (q, k)" by fastforce
  obtain e s1 where one: "ensure D q k s = (e, s1)" by fastforce
  have n: "container_name (mq_name q) k = replica_name r" by (simp add: replica_name_def rq)
  from ensure_works [OF W Cons.prems(1) _ one] Cons.prems(3) [of r] rq n obtain c where e: "e = Inr ()" "images_known ids s1"
    and c: "up_to_date ids q c" "view (sv_daemon s1) = (view (sv_daemon s))(replica_name r \<mapsto> c)"
    "\<forall>c0. view (sv_daemon s) (replica_name r) = Some c0 \<longrightarrow> up_to_date ids q c0 \<longrightarrow> c = c0" by auto
  have rest: "ensure_all D rs s1 = (res, s')" using Cons.prems(4) one e(1) rq by simp
  have fresh: "replica_name r \<notin> replica_name ` set rs" and dist: "distinct (map replica_name rs)" using Cons.prems(2) by auto
  have other: "view (sv_daemon s1) (replica_name x) = view (sv_daemon s) (replica_name x)" if "x \<in> set rs" for x
  proof -
    have "replica_name x \<noteq> replica_name r"
    proof
      assume "replica_name x = replica_name r"
      then have "replica_name r \<in> replica_name ` set rs" using that by (intro image_eqI [where x = x]) auto
      with fresh show False by contradiction
    qed
    then show ?thesis by (simp add: c(2))
  qed
  have "up_to_date ids (fst x) c' \<or> is_managed c'" if "x \<in> set rs" "view (sv_daemon s1) (replica_name x) = Some c'" for x c'
    using Cons.prems(3) [of x c'] that other by simp
  note IH = Cons.IH [OF e(2) dist this rest]
  have outside: "\<forall>n. n \<notin> replica_name ` set rs \<longrightarrow> view (sv_daemon s') n = view (sv_daemon s1) n" using IH by blast
  with fresh have head: "view (sv_daemon s') (replica_name r) = Some c" by (simp add: c(2))
  show ?case
  proof (intro conjI ballI allI impI)
    fix x assume "x \<in> set (r # rs)"
    then consider "x = r" | "x \<in> set rs" by auto
    then show "\<exists>c. view (sv_daemon s') (replica_name x) = Some c \<and> up_to_date ids (fst x) c \<and>
      (\<forall>c0. view (sv_daemon s) (replica_name x) = Some c0 \<longrightarrow> up_to_date ids (fst x) c0 \<longrightarrow> c = c0)"
    proof cases
      case 1
      with head c(1,3) rq show ?thesis by simp
    next
      case 2
      with IH other show ?thesis by metis
    qed
  next
    fix n assume "n \<notin> replica_name ` set (r # rs)"
    then show "view (sv_daemon s') n = view (sv_daemon s) n" using outside c(2) by simp
  qed (use IH in blast)+
qed auto

lemma all_replicas_names:
  assumes "distinct (map (\<lambda>q. sanitize (mq_name q)) qs)"
  shows "distinct (map replica_name (all_replicas qs))"
  using assms
proof (induction qs)
  case (Cons q qs)
  have "distinct (map (\<lambda>k. container_name (mq_name q) k) [0..<mq_replicas q])" by (simp add: distinct_map inj_on_def container_name_inj)
  moreover have "container_name (mq_name q) k \<noteq> container_name (mq_name x) j" if "x \<in> set qs" for k x j
    using that Cons.prems by (auto simp: container_name_inj)
  ultimately show ?case using Cons by (auto simp: all_replicas_def comp_def replica_name_def)
qed (simp add: all_replicas_def)

text \<open>
  C15. Reconciliation brings every managed worker up to date and then leaves it alone. With a daemon that
  does what it is asked, when the names of the queues stay different after the replacement of special
  characters and no container of another owner occupies a name with different contents, a pass succeeds;
  afterwards every replica of every queue has a container with the image, the variables and the
  mounts it should have, every container that was up to date before is the same one, and no other container
  has changed. A second pass then changes no container at all.
\<close>

theorem reconcile_converges:
  assumes W: "daemon_works D view ids" and known: "images_known ids s"
    and names: "distinct (map (\<lambda>q. sanitize (mq_name q)) queues)"
    and ours: "\<And>r c. r \<in> set (all_replicas queues) \<Longrightarrow> view (sv_daemon s) (replica_name r) = Some c \<Longrightarrow> up_to_date ids (fst r) c \<or> is_managed c"
    and one: "reconcile D queues s = (res, s1)" and two: "reconcile D queues s1 = (res2, s2)"
  shows "res = Inr () \<and> res2 = Inr () \<and> view (sv_daemon s2) = view (sv_daemon s1) \<and>
    (\<forall>r\<in>set (all_replicas queues). \<exists>c. view (sv_daemon s1) (replica_name r) = Some c \<and> up_to_date ids (fst r) c \<and>
      (\<forall>c0. view (sv_daemon s) (replica_name r) = Some c0 \<longrightarrow> up_to_date ids (fst r) c0 \<longrightarrow> c = c0)) \<and>
    (\<forall>n. n \<notin> replica_name ` set (all_replicas queues) \<longrightarrow> view (sv_daemon s1) n = view (sv_daemon s) n)"
proof -
  note dist = all_replicas_names [OF names]
  note first = ensure_all_works [OF W known dist ours one [unfolded reconcile_def]]
  have "up_to_date ids (fst r) c \<or> is_managed c" if "r \<in> set (all_replicas queues)" "view (sv_daemon s1) (replica_name r) = Some c" for r c
    using first that by force
  note second = ensure_all_works [OF W conjunct1 [OF conjunct2 [OF first]] dist this two [unfolded reconcile_def]]
  have keep: "view (sv_daemon s2) (replica_name r) = view (sv_daemon s1) (replica_name r)" if r: "r \<in> set (all_replicas queues)" for r
  proof -
    obtain c where "view (sv_daemon s1) (replica_name r) = Some c" "up_to_date ids (fst r) c" using first r by blast
    moreover obtain c' where "view (sv_daemon s2) (replica_name r) = Some c'"
      "\<forall>c0. view (sv_daemon s1) (replica_name r) = Some c0 \<longrightarrow> up_to_date ids (fst r) c0 \<longrightarrow> c' = c0" using second r by blast
    ultimately show ?thesis by simp
  qed
  have others: "view (sv_daemon s2) n = view (sv_daemon s1) n" if "n \<notin> replica_name ` set (all_replicas queues)" for n
    using second that by blast
  have "view (sv_daemon s2) n = view (sv_daemon s1) n" for n
    using keep others by (cases "n \<in> replica_name ` set (all_replicas queues)") auto
  then have "view (sv_daemon s2) = view (sv_daemon s1)" ..
  then show ?thesis using first second by blast
qed

text \<open>A daemon in memory: the containers by name, with images identified by their reference.\<close>

definition container_of :: "CreateConfig \<Rightarrow> Container" where
  "container_of cfg =
     \<lparr>ct_image = Some (cr_image cfg), ct_config = Some \<lparr>cf_env = Some (cr_env cfg), cf_labels = Some (cr_labels cfg)\<rparr>,
      ct_mounts = Some (map (\<lambda>m. \<lparr>mp_source = Some (mt_source m), mp_destination = Some (mt_target m), mp_rw = Some (\<not> mt_read_only m)\<rparr>) (cr_mounts cfg))\<rparr>"

definition map_daemon :: "(string \<rightharpoonup> Container) Docker" where
  "map_daemon =
     \<lparr>inspect_container = \<lambda>n d. (case d n of Some c \<Rightarrow> Inr c | None \<Rightarrow> Inl ''no such container'', d),
      remove_container = \<lambda>n d. (Inr (), d(n := None)),
      create_container = \<lambda>n cfg d. (Inr (), d(n \<mapsto> container_of cfg)),
      start_container = \<lambda>n d. (Inr (), d),
      inspect_image = \<lambda>img d. (Inr (Some img), d),
      pull_image = \<lambda>img d. ([], d)\<rparr>"

lemma container_of_created: "created_from (\<lambda>img. img) cfg (container_of cfg)"
  by (auto simp: created_from_def container_of_def current_env_def current_mounts_def from_inspect_def image_image)

lemma map_daemon_works: "daemon_works map_daemon (\<lambda>d. d) (\<lambda>img. img)"
  using container_of_created by (auto simp: daemon_works_def map_daemon_def split: option.split)

definition email_queue :: ManagedQueue where
  "email_queue = \<lparr>mq_name = ''email'', mq_image = ''email:1.2'', mq_replicas = 2, mq_env = [''A=1''], mq_mounts = []\<rparr>"

theorem reconcile_converges_witness:
  "\<exists>s1. reconcile map_daemon [email_queue] \<lparr>sv_images = Map.empty, sv_daemon = Map.empty\<rparr> = (Inr (), s1) \<and>
     (\<exists>c. sv_daemon s1 (container_name ''email'' 1) = Some c \<and> up_to_date (\<lambda>img. img) email_queue c)"
proof -
  let ?s = "\<lparr>sv_images = Map.empty, sv_daemon = Map.empty\<rparr> :: (string \<rightharpoonup> Container) Supervisor"
  obtain res s1 where one: "reconcile map_daemon [email_queue] ?s = (res, s1)" by fastforce
  obtain res2 s2 where two: "reconcile map_daemon [email_queue] s1 = (res2, s2)" by fastforce
  have "(email_queue, 1) \<in> set (all_replicas [email_queue])" by (simp add: all_replicas_def email_queue_def)
  with reconcile_converges [OF map_daemon_works _ _ _ one two] one show ?thesis by (fastforce simp: images_known_def email_queue_def replica_name_def)
qed

section \<open>Removals\<close>

text \<open>The calls that concern containers, and a client that records them with the answers, the latest first.\<close>

datatype DockerCall =
    InspectedCall string "string + Container"
  | RemovedCall string
  | CreatedCall string CreateConfig
  | StartedCall string

definition recording :: "'d Docker \<Rightarrow> ('d \<times> DockerCall list) Docker" where
  "recording D =
     \<lparr>inspect_container = \<lambda>n (d, cs). (let (r, d') = inspect_container D n d in (r, d', InspectedCall n r # cs)),
      remove_container = \<lambda>n (d, cs). (let (r, d') = remove_container D n d in (r, d', RemovedCall n # cs)),
      create_container = \<lambda>n cfg (d, cs). (let (r, d') = create_container D n cfg d in (r, d', CreatedCall n cfg # cs)),
      start_container = \<lambda>n (d, cs). (let (r, d') = start_container D n d in (r, d', StartedCall n # cs)),
      inspect_image = \<lambda>img (d, cs). (let (r, d') = inspect_image D img d in (r, d', cs)),
      pull_image = \<lambda>img (d, cs). (let (r, d') = pull_image D img d in (r, d', cs))\<rparr>"

text \<open>Every removal comes right after an inspection of the same container that found the label of a managed one.\<close>

fun removals_checked :: "DockerCall list \<Rightarrow> bool" where
  "removals_checked [] = True"
| "removals_checked (RemovedCall n # InspectedCall m r # cs) = (m = n \<and> (\<exists>c. r = Inr c \<and> is_managed c) \<and> removals_checked cs)"
| "removals_checked (RemovedCall n # cs) = False"
| "removals_checked (_ # cs) = removals_checked cs"

abbreviation calls :: "('d \<times> DockerCall list) Supervisor \<Rightarrow> DockerCall list" where
  "calls s \<equiv> snd (sv_daemon s)"

lemma recording_sel [simp]:
  "inspect_container (recording D) n s = (let (r, d') = inspect_container D n (fst s) in (r, d', InspectedCall n r # snd s))"
  "remove_container (recording D) n s = (let (r, d') = remove_container D n (fst s) in (r, d', RemovedCall n # snd s))"
  "create_container (recording D) n cfg s = (let (r, d') = create_container D n cfg (fst s) in (r, d', CreatedCall n cfg # snd s))"
  "start_container (recording D) n s = (let (r, d') = start_container D n (fst s) in (r, d', StartedCall n # snd s))"
  "inspect_image (recording D) img s = (let (r, d') = inspect_image D img (fst s) in (r, d', snd s))"
  "pull_image (recording D) img s = (let (r, d') = pull_image D img (fst s) in (r, d', snd s))"
  by (simp_all add: recording_def case_prod_beta)

lemma resolve_image_calls: "resolve_image_id (recording D) img s = (r, s') \<Longrightarrow> calls s' = calls s"
  by (auto simp: resolve_image_id_def inspected_image_def with_daemon_def Let_def case_prod_beta
      split: option.splits sum.splits)

lemma create_and_start_calls:
  "create_and_start (recording D) q k s = (r, s') \<Longrightarrow>
     calls s' = CreatedCall (container_name (mq_name q) k) (create_config q k) # calls s \<or>
     calls s' = StartedCall (container_name (mq_name q) k) # CreatedCall (container_name (mq_name q) k) (create_config q k) # calls s"
  by (auto simp: create_and_start_def with_daemon_def Let_def case_prod_beta split: sum.splits)

lemma ensure_checked:
  assumes "ensure (recording D) q k s = (r, s')" and "removals_checked (calls s)"
  shows "removals_checked (calls s')"
proof -
  obtain i s1 where ri: "resolve_image_id (recording D) (mq_image q) s = (i, s1)" by fastforce
  have c1: "removals_checked (calls s1)" using resolve_image_calls [OF ri] assms(2) by simp
  have create: "removals_checked (calls s')" if "create_and_start (recording D) q k u = (r, s')" "removals_checked (calls u)" for u
    using create_and_start_calls [OF that(1)] that(2) by auto
  show ?thesis
    using assms(1) c1 ri
    by (auto simp: ensure_def with_daemon_def Let_def case_prod_beta split: sum.splits if_splits intro: create)
qed

lemma ensure_all_checked:
  "ensure_all (recording D) rs s = (r, s') \<Longrightarrow> removals_checked (calls s) \<Longrightarrow> removals_checked (calls s')"
proof (induction rs arbitrary: s)
  case (Cons x rs)
  obtain q k where x: "x = (q, k)" by fastforce
  obtain e s1 where one: "ensure (recording D) q k s = (e, s1)" by fastforce
  note c1 = ensure_checked [OF one Cons.prems(2)]
  then show ?case using Cons.prems(1) Cons.IH [of s1] one x by (cases e) auto
qed simp

text \<open>
  C29. The supervisor only removes containers that it manages. Whatever the daemon answers, failures and
  changes behind the supervisor's back included, every removal in a pass follows directly on an inspection
  of that very container whose answer carried the label of a managed worker.
\<close>

theorem reconcile_removes_only_managed:
  "removals_checked (calls (snd (reconcile (recording D) queues \<lparr>sv_images = images, sv_daemon = (d, [])\<rparr>)))"
  using ensure_all_checked [of D "all_replicas queues" "\<lparr>sv_images = images, sv_daemon = (d, [])\<rparr>"]
  by (cases "ensure_all (recording D) (all_replicas queues) \<lparr>sv_images = images, sv_daemon = (d, [])\<rparr>") (simp add: reconcile_def)

section \<open>Queues with the same container name\<close>

definition dotted_queue :: ManagedQueue where
  "dotted_queue = \<lparr>mq_name = ''a.b'', mq_image = ''x:1'', mq_replicas = 1, mq_env = [], mq_mounts = []\<rparr>"

definition dashed_queue :: ManagedQueue where
  "dashed_queue = \<lparr>mq_name = ''a-b'', mq_image = ''y:1'', mq_replicas = 1, mq_env = [], mq_mounts = []\<rparr>"

text \<open>
  Queues whose names differ only in special characters take each other's workers away. The
  queues \<open>a.b\<close> and \<open>a-b\<close>, which validation accepts together, share the container name of each replica; a pass
  that succeeds ends with a container for the second queue and none for the first, and every
  further pass starts by removing that container again: the supervisor never settles.
\<close>

theorem colliding_queues_never_settle:
  "\<exists>c s1. reconcile map_daemon [dotted_queue, dashed_queue] \<lparr>sv_images = Map.empty, sv_daemon = Map.empty\<rparr> = (Inr (), s1) \<and>
     sv_daemon s1 = [container_name ''a.b'' 0 \<mapsto> c] \<and> up_to_date (\<lambda>img. img) dashed_queue c \<and> \<not> up_to_date (\<lambda>img. img) dotted_queue c \<and>
     reconcile map_daemon [dotted_queue, dashed_queue] s1 = (Inr (), s1) \<and>
     (\<exists>s2. ensure map_daemon dotted_queue 0 s1 = (Inr (), s2) \<and> sv_daemon s2 (container_name ''a.b'' 0) \<noteq> Some c)"
proof -
  have n: "container_name ''a-b'' 0 = container_name ''a.b'' 0" by (simp add: container_name_inj sanitize_def is_ascii_alphanumeric_def)
  show ?thesis
    by (intro exI [of _ "container_of (create_config dashed_queue 0)"])
       (simp add: reconcile_def all_replicas_def dotted_queue_def dashed_queue_def ensure_def resolve_image_id_def inspected_image_def
        with_daemon_def map_daemon_def create_and_start_def container_of_def create_config_def need_update_def up_to_date_def is_managed_def
        current_env_def current_mounts_def n)
qed

end
