(* ===== verification/Maq_Http.thy ===== *)
theory Maq_Http
  imports Maq_Engine
begin

text \<open>
  The HTTP interface: the bodies of \<open>crates/types/src/http.rs\<close>, the routes and handlers of
  \<open>crates/api/src/lib.rs\<close> and the client of \<open>crates/client-sdk/src/http.rs\<close>. The JSON library (\<open>Serde\<close>), the
  extractors of the web framework (\<open>Axum\<close>) and the transport of the client are parameters. A request is
  its method, its path and its body; a response is its status and its body. Headers are left out: the
  client always sends its JSON with the content type that the extractor asks for.
\<close>

section \<open>Bodies\<close>

record 'json JobRequest =
  jr_name :: string
  jr_payload :: 'json

record JobResponse =
  jp_id :: i64
  jp_name :: string
  jp_status :: string

record ErrorBody =
  eb_error :: string

record 'json Serde =
  enc_request :: "'json JobRequest \<Rightarrow> string"
  dec_request :: "string \<Rightarrow> string + 'json JobRequest"
  enc_response :: "JobResponse \<Rightarrow> string"
  dec_response :: "string \<Rightarrow> string + JobResponse"
  enc_error :: "ErrorBody \<Rightarrow> string"
  dec_error :: "string \<Rightarrow> string + ErrorBody"

datatype Method = GET | HEAD | POST | OtherMethod string

record HttpRequest =
  hq_method :: Method
  hq_path :: string
  hq_body :: string

record HttpResponse =
  hr_status :: nat
  hr_body :: string

text \<open>
  The extractors: the largest body in bytes that the \<open>Json\<close> extractor buffers (the framework's default, 2 MB,
  which the routes do not change) and the rejection of a longer one, its rejection of a body given the error of the parser, and the
  \<open>Path<i64>\<close> extractor on a segment; a rejection answers in place of the handler.
\<close>

record Axum =
  body_limit :: nat
  too_large :: HttpResponse
  json_rejection :: "string \<Rightarrow> HttpResponse"
  path_i64 :: "string \<Rightarrow> HttpResponse + i64"

section \<open>The server\<close>

definition NO_CONTENT :: nat where "NO_CONTENT = 204"
definition CREATED :: nat where "CREATED = 201"
definition OK :: nat where "OK = 200"

record ApiError =
  ae_status :: nat
  ae_message :: string

definition into_response :: "'json Serde \<Rightarrow> ApiError \<Rightarrow> HttpResponse" where
  "into_response S err = \<lparr>hr_status = ae_status err, hr_body = enc_error S \<lparr>eb_error = ae_message err\<rparr>\<rparr>"

fun error_status :: "EngineError \<Rightarrow> nat" where
  "error_status (UnknownQueue _) = 400"
| "error_status (PayloadError _) = 400"
| "error_status (JobNotFound _) = 404"
| "error_status (Storage _) = 500"

definition ApiError_from :: "EngineError \<Rightarrow> ApiError" where
  "ApiError_from err = \<lparr>ae_status = error_status err, ae_message = show_EngineError err\<rparr>"

definition to_response :: "JobView \<Rightarrow> JobResponse" where
  "to_response job = \<lparr>jp_id = jv_id job, jp_name = jv_name job, jp_status = as_str (jv_status job)\<rparr>"

definition submit_job :: "('d, 's) Ports \<Rightarrow> ('json \<Rightarrow> string + bytes) \<Rightarrow> 'json Serde \<Rightarrow> i64 \<Rightarrow> 'json JobRequest \<Rightarrow> ('d, 's) Engine \<Rightarrow>
    HttpResponse \<times> ('d, 's) Engine" where
  "submit_job P ser S now request e =
     (let (r, e1) = submit P ser now \<lparr>sj_name = jr_name request, sj_payload = jr_payload request\<rparr> e
      in (case r of
            Inl err \<Rightarrow> into_response S (ApiError_from err)
          | Inr response \<Rightarrow> \<lparr>hr_status = CREATED, hr_body = enc_response S (to_response response)\<rparr>, e1))"

definition api_get_job :: "('d, 's) Ports \<Rightarrow> 'json Serde \<Rightarrow> i64 \<Rightarrow> ('d, 's) Engine \<Rightarrow> HttpResponse \<times> ('d, 's) Engine" where
  "api_get_job P S i e =
     (let (r, e1) = engine_get_job P i e
      in (case r of
            Inl err \<Rightarrow> into_response S (ApiError_from err)
          | Inr job \<Rightarrow> \<lparr>hr_status = OK, hr_body = enc_response S (to_response job)\<rparr>, e1))"

text \<open>
  The routes: a path that matches no route is answered with 404, a route with another method with
  405; a \<open>get\<close> route also answers \<open>HEAD\<close>, without the body; \<open>{id}\<close> matches one segment that is not empty.
\<close>

definition get_route :: "Method \<Rightarrow> HttpResponse \<times> 'e \<Rightarrow> HttpResponse \<times> 'e \<Rightarrow> HttpResponse \<times> 'e" where
  "get_route method answer not_allowed =
     (case method of
        GET \<Rightarrow> answer
      | HEAD \<Rightarrow> ((fst answer)\<lparr>hr_body := []\<rparr>, snd answer)
      | _ \<Rightarrow> not_allowed)"

lemma get_route_GET [simp]: "get_route GET answer not_allowed = answer"
  by (simp add: get_route_def)

definition job_segment :: "string \<Rightarrow> string option" where
  "job_segment path =
     (if starts_with path ''/jobs/'' \<and> drop 6 path \<noteq> [] \<and> CHR ''/'' \<notin> set (drop 6 path) then Some (drop 6 path) else None)"

definition router :: "('d, 's) Ports \<Rightarrow> ('json \<Rightarrow> string + bytes) \<Rightarrow> 'json Serde \<Rightarrow> Axum \<Rightarrow> i64 \<Rightarrow> HttpRequest \<Rightarrow> ('d, 's) Engine \<Rightarrow>
    HttpResponse \<times> ('d, 's) Engine" where
  "router P ser S A now request e =
     (let not_allowed = (\<lparr>hr_status = 405, hr_body = []\<rparr>, e) in
      if hq_path request = ''/health'' then
        get_route (hq_method request) (\<lparr>hr_status = NO_CONTENT, hr_body = []\<rparr>, e) not_allowed
      else if hq_path request = ''/jobs'' then
        if hq_method request = POST then
          if body_limit A < length (hq_body request) then (too_large A, e)
          else
            (case dec_request S (hq_body request) of
               Inl err \<Rightarrow> (json_rejection A err, e)
             | Inr body \<Rightarrow> submit_job P ser S now body e)
        else not_allowed
      else
        case job_segment (hq_path request) of
          Some segment \<Rightarrow>
            get_route (hq_method request)
              (case path_i64 A segment of Inl rejection \<Rightarrow> (rejection, e) | Inr i \<Rightarrow> api_get_job P S i e) not_allowed
        | None \<Rightarrow> (\<lparr>hr_status = 404, hr_body = []\<rparr>, e))"

section \<open>The client\<close>

datatype HttpError = Transport string | Api nat string

record MaqistorHttpClient =
  cl_base_url :: string

definition with_client :: "string \<Rightarrow> MaqistorHttpClient" where
  "with_client base_url = \<lparr>cl_base_url = trim_end_matches (CHR ''/'') base_url\<rparr>"

definition url :: "MaqistorHttpClient \<Rightarrow> string \<Rightarrow> string" where
  "url c path = cl_base_url c @ path"

text \<open>The transport: a request with its full address is answered, or fails.\<close>

type_synonym 'w Send = "HttpRequest \<Rightarrow> 'w \<Rightarrow> (string + HttpResponse) \<times> 'w"

definition from_response :: "'json Serde \<Rightarrow> HttpResponse \<Rightarrow> HttpError" where
  "from_response S response =
     (case dec_error S (hr_body response) of
        Inr body \<Rightarrow> Api (hr_status response) (eb_error body)
      | Inl err \<Rightarrow> Api (hr_status response) err)"

definition client_health :: "'json Serde \<Rightarrow> 'w Send \<Rightarrow> MaqistorHttpClient \<Rightarrow> 'w \<Rightarrow> (HttpError + unit) \<times> 'w" where
  "client_health S send c w =
     (let (r, w1) = send \<lparr>hq_method = GET, hq_path = url c ''/health'', hq_body = []\<rparr> w
      in (case r of
            Inl err \<Rightarrow> Inl (Transport err)
          | Inr response \<Rightarrow> if hr_status response = NO_CONTENT then Inr () else Inl (from_response S response), w1))"

definition client_enqueue :: "'json Serde \<Rightarrow> 'w Send \<Rightarrow> MaqistorHttpClient \<Rightarrow> 'json JobRequest \<Rightarrow> 'w \<Rightarrow> (HttpError + JobResponse) \<times> 'w" where
  "client_enqueue S send c request w =
     (let (r, w1) = send \<lparr>hq_method = POST, hq_path = url c ''/jobs'', hq_body = enc_request S request\<rparr> w
      in (case r of
            Inl err \<Rightarrow> Inl (Transport err)
          | Inr response \<Rightarrow>
              if hr_status response = CREATED then map_sum Transport id (dec_response S (hr_body response))
              else Inl (from_response S response), w1))"

definition client_get_job :: "'json Serde \<Rightarrow> 'w Send \<Rightarrow> MaqistorHttpClient \<Rightarrow> i64 \<Rightarrow> 'w \<Rightarrow> (HttpError + JobResponse) \<times> 'w" where
  "client_get_job S send c i w =
     (let (r, w1) = send \<lparr>hq_method = GET, hq_path = url c (''/jobs/'' @ show_int i), hq_body = []\<rparr> w
      in (case r of
            Inl err \<Rightarrow> Inl (Transport err)
          | Inr response \<Rightarrow>
              if hr_status response = OK then map_sum Transport id (dec_response S (hr_body response))
              else Inl (from_response S response), w1))"

section \<open>The client and the server together\<close>

definition serde_roundtrips :: "'json Serde \<Rightarrow> bool" where
  "serde_roundtrips S \<longleftrightarrow>
     (\<forall>x. dec_request S (enc_request S x) = Inr x) \<and> (\<forall>x. dec_response S (enc_response S x) = Inr x) \<and>
     (\<forall>x. dec_error S (enc_error S x) = Inr x)"

definition reads_decimal_ids :: "Axum \<Rightarrow> bool" where
  "reads_decimal_ids A \<longleftrightarrow> (\<forall>i. i64_min \<le> i \<and> i \<le> i64_max \<longrightarrow> path_i64 A (show_int i) = Inr i)"

text \<open>A transport that brings a request for the server's address to its router, and loses every other one.\<close>

definition wire :: "string \<Rightarrow> (HttpRequest \<Rightarrow> 'w \<Rightarrow> HttpResponse \<times> 'w) \<Rightarrow> 'w Send" where
  "wire address serve request w =
     (if starts_with (hq_path request) address then
        let (response, w1) = serve (request\<lparr>hq_path := drop (length address) (hq_path request)\<rparr>) w in (Inr response, w1)
      else (Inl ''unknown host'', w))"

abbreviation served :: "string \<Rightarrow> ('d, 's) Ports \<Rightarrow> ('json \<Rightarrow> string + bytes) \<Rightarrow> 'json Serde \<Rightarrow> Axum \<Rightarrow> i64 \<Rightarrow> ('d, 's) Engine Send" where
  "served base P ser S A now \<equiv> wire (trim_end_matches (CHR ''/'') base) (router P ser S A now)"

text \<open>What the caller of the client should see of the result of an engine operation.\<close>

definition engine_result :: "(EngineError + JobView) \<times> 'e \<Rightarrow> (HttpError + JobResponse) \<times> 'e" where
  "engine_result r = (map_sum (\<lambda>err. Api (error_status err) (show_EngineError err)) to_response (fst r), snd r)"

lemma wire_url:
  "wire (trim_end_matches (CHR ''/'') base) serve \<lparr>hq_method = m, hq_path = url (with_client base) path, hq_body = b\<rparr> w =
     (let (response, w1) = serve \<lparr>hq_method = m, hq_path = path, hq_body = b\<rparr> w in (Inr response, w1))"
  by (simp add: wire_def url_def with_client_def starts_with_def)

lemma show_int_segment: "job_segment (''/jobs/'' @ show_int i) = Some (show_int i)"
  using show_int_no_slash [of i] by (auto simp: job_segment_def starts_with_def show_int_def)

lemma job_path_routes [simp]: "''/jobs/'' @ s \<noteq> ''/health''" "''/jobs/'' @ s \<noteq> ''/jobs''"
  by simp_all

lemma error_status_other [simp]: "error_status err \<noteq> CREATED" "error_status err \<noteq> OK"
  by (cases err; simp add: CREATED_def OK_def)+

lemma error_response_status [simp]: "hr_status (into_response S (ApiError_from err)) = error_status err"
  by (simp add: into_response_def ApiError_from_def)

lemma error_response:
  "serde_roundtrips S \<Longrightarrow> from_response S (into_response S (ApiError_from err)) = Api (error_status err) (show_EngineError err)"
  by (simp add: from_response_def into_response_def ApiError_from_def serde_roundtrips_def)

text \<open>
  C16. A remote call is the call of the engine. With a JSON library that reads back what it writes and a
  framework that reads decimal numbers and answers a body over its limit with 413, a client whose base address is written with or without
  trailing slashes gets from the server exactly what the engine returns, provided that the body of a submission is within the framework's
  limit: the job with its id, its name and the
  name of its status, or the status code and the message of the engine's error; the engine is left in
  the state that the direct call leaves it in. A submission over the limit fails with status 413 and never reaches the
  engine; the health check succeeds without touching it.
\<close>

theorem remote_calls_are_engine_calls:
  assumes S: "serde_roundtrips S" and A: "reads_decimal_ids A" "hr_status (too_large A) = 413" and i: "i64_min \<le> i" "i \<le> i64_max"
  shows "(length (enc_request S request) \<le> body_limit A \<longrightarrow>
      client_enqueue S (served base P ser S A now) (with_client base) request e =
        engine_result (submit P ser now \<lparr>sj_name = jr_name request, sj_payload = jr_payload request\<rparr> e)) \<and>
    (body_limit A < length (enc_request S request) \<longrightarrow>
      (\<exists>m. client_enqueue S (served base P ser S A now) (with_client base) request e = (Inl (Api 413 m), e))) \<and>
    client_get_job S (served base P ser S A now) (with_client base) i e = engine_result (engine_get_job P i e) \<and>
    client_health S (served base P ser S A now) (with_client base) e = (Inr (), e)"
proof (intro conjI impI)
  have rt: "dec_request S (enc_request S x) = Inr x" "dec_response S (enc_response S y) = Inr y" for x y
    using S by (simp_all add: serde_roundtrips_def)
  obtain r e1 where sub: "submit P ser now \<lparr>sj_name = jr_name request, sj_payload = jr_payload request\<rparr> e = (r, e1)" by fastforce
  show "client_enqueue S (served base P ser S A now) (with_client base) request e =
      engine_result (submit P ser now \<lparr>sj_name = jr_name request, sj_payload = jr_payload request\<rparr> e)"
    if "length (enc_request S request) \<le> body_limit A"
    using that
    by (cases r) (simp_all add: client_enqueue_def wire_url router_def submit_job_def sub rt error_response [OF S] engine_result_def)
  have "\<exists>m. from_response S (too_large A) = Api 413 m" using A(2) by (simp add: from_response_def split: sum.split)
  then show "\<exists>m. client_enqueue S (served base P ser S A now) (with_client base) request e = (Inl (Api 413 m), e)"
    if "body_limit A < length (enc_request S request)"
    using that A(2) by (auto simp: client_enqueue_def wire_url router_def CREATED_def)
  obtain g e2 where get: "engine_get_job P i e = (g, e2)" by fastforce
  have seg: "path_i64 A (show_int i) = Inr i" using A i by (simp add: reads_decimal_ids_def)
  show "client_get_job S (served base P ser S A now) (with_client base) i e = engine_result (engine_get_job P i e)"
    using show_int_segment [of i]
    by (cases g) (simp_all add: client_get_job_def wire_url router_def api_get_job_def get seg rt error_response [OF S] engine_result_def)
  show "client_health S (served base P ser S A now) (with_client base) e = (Inr (), e)"
    by (simp add: client_health_def wire_url router_def)
qed

text \<open>A small codec: two strings as one, the first with a mark before every character.\<close>

fun pack :: "string \<Rightarrow> string \<Rightarrow> string" where
  "pack [] t = CHR ''.'' # t"
| "pack (c # s) t = CHR ''!'' # c # pack s t"

fun unpack :: "string \<Rightarrow> string \<times> string" where
  "unpack (m # c # s) = (if m = CHR ''!'' then (let (a, b) = unpack s in (c # a, b)) else ([], c # s))"
| "unpack s = ([], [])"

lemma unpack_pack [simp]: "unpack (pack s t) = (s, t)"
proof (induction s)
  case Nil
  show ?case by (cases t) simp_all
qed simp

definition unary :: "i64 \<Rightarrow> string" where
  "unary i = (if i < 0 then ''-'' else ''+'') @ replicate (nat \<bar>i\<bar>) (CHR ''1'')"

definition read_unary :: "string \<Rightarrow> i64" where
  "read_unary s = (if hd s = CHR ''-'' then - int (length (tl s)) else int (length (tl s)))"

lemma read_unary [simp]: "read_unary (unary i) = i"
  by (simp add: read_unary_def unary_def)

definition tiny_serde :: "string Serde" where
  "tiny_serde =
     \<lparr>enc_request = \<lambda>r. pack (jr_name r) (jr_payload r),
      dec_request = \<lambda>s. (let (a, b) = unpack s in Inr \<lparr>jr_name = a, jr_payload = b\<rparr>),
      enc_response = \<lambda>r. pack (unary (jp_id r)) (pack (jp_name r) (jp_status r)),
      dec_response = \<lambda>s. (let (a, b) = unpack s; (c, d) = unpack b in Inr \<lparr>jp_id = read_unary a, jp_name = c, jp_status = d\<rparr>),
      enc_error = eb_error, dec_error = \<lambda>s. Inr \<lparr>eb_error = s\<rparr>\<rparr>"

definition tiny_axum :: Axum where
  "tiny_axum =
     \<lparr>body_limit = 2097152, too_large = \<lparr>hr_status = 413, hr_body = ''length limit exceeded''\<rparr>,
      json_rejection = \<lambda>err. \<lparr>hr_status = 400, hr_body = err\<rparr>,
      path_i64 = \<lambda>s. (case parse_i64 s of None \<Rightarrow> Inl \<lparr>hr_status = 400, hr_body = []\<rparr> | Some i \<Rightarrow> Inr i)\<rparr>"

theorem remote_calls_are_engine_calls_witness:
  "\<forall>(P :: (nat, nat) Ports) now e.
     client_enqueue tiny_serde (served ''http://host:7828/'' P (\<lambda>_. Inr []) tiny_serde tiny_axum now) (with_client ''http://host:7828/'')
       \<lparr>jr_name = ''mail'', jr_payload = ''{}''\<rparr> e = engine_result (submit P (\<lambda>_. Inr []) now \<lparr>sj_name = ''mail'', sj_payload = ''{}''\<rparr> e) \<and>
     (\<exists>m. client_enqueue tiny_serde (served ''http://host:7828/'' P (\<lambda>_. Inr []) tiny_serde (tiny_axum\<lparr>body_limit := 4\<rparr>) now)
       (with_client ''http://host:7828/'') \<lparr>jr_name = ''mail'', jr_payload = ''{}''\<rparr> e = (Inl (Api 413 m), e)) \<and>
     client_get_job tiny_serde (served ''http://host:7828/'' P (\<lambda>_. Inr []) tiny_serde tiny_axum now)
       (with_client ''http://host:7828/'') 7 e = engine_result (engine_get_job P 7 e)"
proof (intro allI)
  fix P :: "(nat, nat) Ports" and now e
  let ?r = "\<lparr>jr_name = ''mail'', jr_payload = ''{}''\<rparr>" and ?small = "tiny_axum\<lparr>body_limit := 4\<rparr>"
  have S: "serde_roundtrips tiny_serde" by (simp add: serde_roundtrips_def tiny_serde_def)
  have A: "reads_decimal_ids tiny_axum" "reads_decimal_ids ?small" by (simp_all add: reads_decimal_ids_def tiny_axum_def parse_i64_show_int)
  have t: "hr_status (too_large tiny_axum) = 413" "hr_status (too_large ?small) = 413" by (simp_all add: tiny_axum_def)
  have i: "i64_min \<le> 7" "7 \<le> i64_max" by (simp_all add: i64_min_def i64_max_def)
  have l: "length (enc_request tiny_serde ?r) \<le> body_limit tiny_axum" "body_limit ?small < length (enc_request tiny_serde ?r)"
    by (simp_all add: tiny_serde_def tiny_axum_def)
  note calls = remote_calls_are_engine_calls [OF S _ _ i, where P = P and now = now and e = e and ser = "\<lambda>_. Inr []" and
      base = "''http://host:7828/''" and request = ?r]
  from calls [OF A(1) t(1)] calls [OF A(2) t(2)] l show
    "client_enqueue tiny_serde (served ''http://host:7828/'' P (\<lambda>_. Inr []) tiny_serde tiny_axum now) (with_client ''http://host:7828/'') ?r e =
       engine_result (submit P (\<lambda>_. Inr []) now \<lparr>sj_name = ''mail'', sj_payload = ''{}''\<rparr> e) \<and>
     (\<exists>m. client_enqueue tiny_serde (served ''http://host:7828/'' P (\<lambda>_. Inr []) tiny_serde ?small now)
       (with_client ''http://host:7828/'') ?r e = (Inl (Api 413 m), e)) \<and>
     client_get_job tiny_serde (served ''http://host:7828/'' P (\<lambda>_. Inr []) tiny_serde tiny_axum now)
       (with_client ''http://host:7828/'') 7 e = engine_result (engine_get_job P 7 e)" by simp
qed

end
