(* ===== verification/Maq_Main.thy ===== *)
theory Maq_Main
  imports Maq_Store_Life Maq_Docker
begin

text \<open>
  The server process (\<open>crates/maqistor/src/main.rs\<close>): startup from a configuration file to a running server, and the
  cleanup task. What the machine does (files, sockets, certificates, the Docker daemon) is a parameter (\<open>Machine\<close>). It is shown
  that an accepted configuration starts, that the purge keeps the retention period, that the cleanup task dies only when the clock is before 1970, and that
  a purged job can block the recovery of others.
\<close>

section \<open>Startup\<close>

text \<open>
  What startup asks of the machine: opening the two database files, parsing socket addresses, binding the worker
  listener with its certificates, reaching the Docker daemon and binding the HTTP listener.
\<close>

record 'addr Machine =
  open_databases :: "string \<Rightarrow> string \<Rightarrow> string + IngestDb \<times> ResultsDb"
  parse_addr :: "string \<Rightarrow> string + 'addr"
  bind_workers :: "'addr \<Rightarrow> WorkerTlsConfig \<Rightarrow> string + unit"
  ping_docker :: "DockerTransport \<Rightarrow> string + unit"
  bind_http :: "'addr \<Rightarrow> string + unit"

datatype StartError =
    StartConfig ConfigError | StartStore StoreError
  | BadWorkerListen string string | WorkerListener string
  | SupervisorFailed string
  | BadListen string string | BindFailed string

record 'addr ServerProcess =
  srv_store :: Store
  srv_worker_addr :: 'addr
  srv_allowed_queues :: "string set"
  srv_managed :: "ManagedQueue list option"
  srv_dispatch :: DispatchOptions
  srv_addr :: 'addr
  srv_cleanup :: "(duration \<times> duration \<times> VacuumConfig option) option"

definition open_with_options_pair ::
  "'addr Machine \<Rightarrow> (nat \<Rightarrow> env) \<Rightarrow> string \<Rightarrow> string \<Rightarrow> SqliteWriteOptions \<Rightarrow> StoreError + Store" where
  "open_with_options_pair M Es ingest_path results_path options =
     (case SqliteWriteOptions_validate options of
        Inl e \<Rightarrow> Inl (Internal e)
      | Inr _ \<Rightarrow>
          (case open_databases M ingest_path results_path of
             Inl e \<Rightarrow> Inl (Internal e)
           | Inr (idb, rdb) \<Rightarrow> open_store Es idb rdb))"

definition configured_queue :: "i64 \<Rightarrow> QueueConfig \<Rightarrow> JobQueue" where
  "configured_queue now q =
     (JobQueue_new now (qc_name q))\<lparr>jq_max_retries := of_nat (qc_max_retries q), jq_timeout_secs := of_nat (qc_timeout_secs q)\<rparr>"

text \<open>Every configured queue is stored, in the order of the file; the \<open>n\<close>-th call runs under \<open>Es n\<close> at time \<open>now n\<close>.\<close>

fun upsert_queues ::
  "(nat \<Rightarrow> nat \<Rightarrow> env) \<Rightarrow> (nat \<Rightarrow> i64) \<Rightarrow> QueueConfig list \<Rightarrow> Store \<Rightarrow> (StoreError + unit) \<times> Store" where
  "upsert_queues Es now [] st = (Inr (), st)"
| "upsert_queues Es now (q # qs) st =
     (let (r, st') = upsert_queue (Es 0) (configured_queue (now 0) q) st in
      case r of Inl e \<Rightarrow> (Inl e, st') | Inr _ \<Rightarrow> upsert_queues (\<lambda>n. Es (Suc n)) (\<lambda>n. now (Suc n)) qs st')"

definition recover_on_start ::
  "(nat \<Rightarrow> env) \<Rightarrow> i64 \<Rightarrow> StartupPolicy \<Rightarrow> Store \<Rightarrow> (StoreError + unit) \<times> Store" where
  "recover_on_start Es now policy st =
     (if policy = Recover then
        let (r, st') = recover_stale_leases Es now st in (case r of Inl e \<Rightarrow> Inl e | Inr _ \<Rightarrow> Inr (), st')
      else (Inr (), st))"

text \<open>
  The store that the server starts with: the opening under \<open>Es 0\<close>, the queues under \<open>Es 1\<close> and on, the
  recovery after them. On a failure the process ends, and only the error is kept here.
\<close>

definition prepare_store ::
  "'addr Machine \<Rightarrow> (nat \<Rightarrow> nat \<Rightarrow> env) \<Rightarrow> (nat \<Rightarrow> i64) \<Rightarrow> AppConfig \<Rightarrow> StartError + Store" where
  "prepare_store M Es now c =
     (case write_options (ac_persistence c) of
        Inl e \<Rightarrow> Inl (StartConfig e)
      | Inr options \<Rightarrow>
          (case open_with_options_pair M (Es 0) (ingest_database_path (ac_persistence c)) (results_database_path (ac_persistence c)) options of
             Inl e \<Rightarrow> Inl (StartStore e)
           | Inr st \<Rightarrow>
               let (r1, st1) = upsert_queues (\<lambda>n. Es (Suc n)) now (ac_queues c) st in
               (case r1 of
                  Inl e \<Rightarrow> Inl (StartStore e)
                | Inr _ \<Rightarrow>
                    let n = length (ac_queues c);
                        (r2, st2) = recover_on_start (Es (Suc n)) (now n) (ps_startup (ac_persistence c)) st1
                    in (case r2 of Inl e \<Rightarrow> Inl (StartStore e) | Inr _ \<Rightarrow> Inr st2))))"

text \<open>
  The managed workers of one queue. \<open>None\<close> is a panic: the environment file and the mount sources are
  read again here, after validation, and a failure of either is an \<open>expect\<close>.
\<close>

fun expect_mounts :: "Host \<Rightarrow> ContainerMountConfig list \<Rightarrow> ContainerMount list option" where
  "expect_mounts H [] = Some []"
| "expect_mounts H (m # ms) =
     (case to_dispatcher_type H m of
        Inl _ \<Rightarrow> None
      | Inr mount \<Rightarrow> (case expect_mounts H ms of None \<Rightarrow> None | Some rest \<Rightarrow> Some (mount # rest)))"

definition managed_queue :: "Host \<Rightarrow> QueueConfig \<Rightarrow> ManagedConfig \<Rightarrow> ManagedQueue option" where
  "managed_queue H q cfg =
     (case managed_env H cfg of
        Inl _ \<Rightarrow> None
      | Inr env \<Rightarrow>
          (case (case mg_mounts cfg of None \<Rightarrow> Some [] | Some ms \<Rightarrow> expect_mounts H ms) of
             None \<Rightarrow> None
           | Some mounts \<Rightarrow>
               Some \<lparr>mq_name = qc_name q, mq_image = mg_image cfg, mq_replicas = replicas q, mq_env = env, mq_mounts = mounts\<rparr>))"

fun managed_queues :: "Host \<Rightarrow> QueueConfig list \<Rightarrow> ManagedQueue list option" where
  "managed_queues H [] = Some []"
| "managed_queues H (q # qs) =
     (case qc_managed_config q of
        None \<Rightarrow> managed_queues H qs
      | Some cfg \<Rightarrow>
          (case managed_queue H q cfg of
             None \<Rightarrow> None
           | Some mq \<Rightarrow> (case managed_queues H qs of None \<Rightarrow> None | Some rest \<Rightarrow> Some (mq # rest))))"

definition supervisor_connect :: "'addr Machine \<Rightarrow> DockerConnectOptions \<Rightarrow> string + unit" where
  "supervisor_connect M options =
     (case connect_docker options of Inl e \<Rightarrow> Inl e | Inr transport \<Rightarrow> ping_docker M transport)"

text \<open>\<open>None\<close> is a panic, \<open>Some None\<close> a server without managed workers.\<close>

definition start_supervisor :: "Host \<Rightarrow> 'addr Machine \<Rightarrow> AppConfig \<Rightarrow> (StartError + ManagedQueue list option) option" where
  "start_supervisor H M c =
     (if has_managed_queues c then
        (case managed_queues H (ac_queues c) of
           None \<Rightarrow> None
         | Some managed \<Rightarrow>
             (case supervisor_connect M (connect_options (ac_docker c)) of
                Inl e \<Rightarrow> Some (Inl (SupervisorFailed e))
              | Inr _ \<Rightarrow> Some (Inr (Some managed))))
      else Some (Inr None))"

definition cleanup_schedule :: "Host \<Rightarrow> CleanupConfig option \<Rightarrow> StartError + (duration \<times> duration \<times> VacuumConfig option) option" where
  "cleanup_schedule H cleanup =
     (case cleanup of
        None \<Rightarrow> Inr None
      | Some cfg \<Rightarrow>
          (case cleanup_interval H cfg of
             Inl e \<Rightarrow> Inl (StartConfig e)
           | Inr interval \<Rightarrow>
               (case cleanup_retention H cfg of
                  Inl e \<Rightarrow> Inl (StartConfig e)
                | Inr retention \<Rightarrow> Inr (Some (interval, retention, cc_vacuum cfg)))))"

definition start_server ::
  "Host \<Rightarrow> 'addr Machine \<Rightarrow> (nat \<Rightarrow> nat \<Rightarrow> env) \<Rightarrow> (nat \<Rightarrow> i64) \<Rightarrow> string \<Rightarrow> (StartError + 'addr ServerProcess) option" where
  "start_server H M Es now path =
     (case load_config H path of
        Inl e \<Rightarrow> Some (Inl (StartConfig e))
      | Inr c \<Rightarrow>
     (case prepare_store M Es now c of
        Inl e \<Rightarrow> Some (Inl e)
      | Inr st \<Rightarrow>
     (case parse_addr M (worker_listen c) of
        Inl e \<Rightarrow> Some (Inl (BadWorkerListen (worker_listen c) e))
      | Inr worker_addr \<Rightarrow>
     (case bind_workers M worker_addr (ac_worker_tls c) of
        Inl e \<Rightarrow> Some (Inl (WorkerListener e))
      | Inr _ \<Rightarrow>
     (case start_supervisor H M c of
        None \<Rightarrow> None
      | Some (Inl e) \<Rightarrow> Some (Inl e)
      | Some (Inr managed) \<Rightarrow>
     (case dispatch_options (ac_dispatch c) of
        Inl e \<Rightarrow> Some (Inl (StartConfig e))
      | Inr options \<Rightarrow>
     (case parse_addr M (listen c) of
        Inl e \<Rightarrow> Some (Inl (BadListen (listen c) e))
      | Inr addr \<Rightarrow>
     (case bind_http M addr of
        Inl e \<Rightarrow> Some (Inl (BindFailed e))
      | Inr _ \<Rightarrow>
     (case cleanup_schedule H (ps_cleanup (ac_persistence c)) of
        Inl e \<Rightarrow> Some (Inl e)
      | Inr schedule \<Rightarrow>
          Some (Inr \<lparr>srv_store = st, srv_worker_addr = worker_addr, srv_allowed_queues = set (map qc_name (ac_queues c)),
                     srv_managed = managed, srv_dispatch = options, srv_addr = addr, srv_cleanup = schedule\<rparr>))))))))))"

section \<open>Cleanup\<close>

text \<open>\<open>u128 as i64\<close>: the low 64 bits, read as a signed number.\<close>

definition u128_as_i64 :: "nat \<Rightarrow> i64" where
  "u128_as_i64 n = u64_as_i64 (of_nat n)"

text \<open>
  The purge at \<open>now_ms\<close> milliseconds after 1970; an error of the store is logged and the loop goes on. A system clock before
  1970 is a panic (\<open>None\<close>): \<open>duration_since(UNIX_EPOCH)\<close> fails and its result is taken with \<open>expect\<close>. Natural subtraction saturates, like the
  source's.
\<close>

definition cleanup_task :: "(nat \<Rightarrow> env) \<Rightarrow> int \<Rightarrow> duration \<Rightarrow> Store \<Rightarrow> Store option" where
  "cleanup_task Es now_ms retention st =
     (if now_ms < 0 then None
      else let cutoff = nat now_ms - as_millis retention in Some (snd (store_cleanup Es (u128_as_i64 cutoff) st)))"

text \<open>
  One turn of the loop after its sleep: the purge at \<open>now_ms\<close> and, when a vacuum is due at \<open>due_ms\<close> with the time of day
  \<open>now_time\<close>, the vacuum; \<open>None\<close> is a panic, which ends the task.
\<close>

definition cleanup_turn ::
  "Host \<Rightarrow> (nat \<Rightarrow> env) \<Rightarrow> int \<Rightarrow> i64 \<Rightarrow> nat \<Rightarrow> duration \<Rightarrow> VacuumConfig option \<Rightarrow> Store \<Rightarrow> Store option" where
  "cleanup_turn H Es now_ms due_ms now_time retention vacuum st =
     (case cleanup_task Es now_ms retention st of
        None \<Rightarrow> None
      | Some st1 \<Rightarrow>
          (case vacuum of
             None \<Rightarrow> Some st1
           | Some v \<Rightarrow>
               (case last_vacuum_run (Es 2) st1 of
                  None \<Rightarrow> None
                | Some (Inl _) \<Rightarrow> Some st1
                | Some (Inr last_run) \<Rightarrow>
                    (case is_due H due_ms now_time v last_run of
                       Inr due \<Rightarrow> if due then Some (snd (store_vacuum (\<lambda>n. Es (3 + n)) st1)) else Some st1
                     | Inl _ \<Rightarrow> Some st1))))"

section \<open>What startup stores\<close>

text \<open>A queue is stored with a retry limit and a timeout.\<close>

definition holds_queue :: "string \<Rightarrow> int \<Rightarrow> int \<Rightarrow> QueueRow list \<Rightarrow> bool" where
  "holds_queue name m t rows \<longleftrightarrow>
     map_option (\<lambda>r. (qr_max_retries r, qr_timeout_secs r)) (row_by qr_name name rows) = Some (m, t)"

lemma upsert_queue_rows_lookup:
  "row_by qr_name n (upsert_queue_rows q rows) =
     (if n = qr_name q then Some (case row_by qr_name n rows of None \<Rightarrow> q
        | Some r \<Rightarrow> r\<lparr>qr_max_retries := qr_max_retries q, qr_timeout_secs := qr_timeout_secs q, qr_updated_at := qr_updated_at q\<rparr>)
      else row_by qr_name n rows)"
  using row_by_Some [of qr_name n rows]
  by (cases "row_by qr_name n rows") (auto simp: upsert_queue_rows_def row_by_append row_by_update_where)

lemma upsert_sql_stores:
  assumes "upsert_queue_sql None None now q rows = (Inr q', rows')"
  shows "holds_queue (jq_name q) (uint (jq_max_retries q)) (uint (jq_timeout_secs q)) rows'"
    "jq_name q' = jq_name q" "jq_max_retries q' = jq_max_retries q" "jq_timeout_secs q' = jq_timeout_secs q"
    "\<And>n. n \<noteq> jq_name q \<Longrightarrow> row_by qr_name n rows' = row_by qr_name n rows"
proof -
  let ?row = "\<lparr>qr_name = jq_name q, qr_max_retries = uint (jq_max_retries q), qr_timeout_secs = uint (jq_timeout_secs q),
      qr_created_at = jq_created_at q, qr_updated_at = now\<rparr>"
  have rows': "rows' = upsert_queue_rows ?row rows"
    and q': "row_to_queue (the (row_by qr_name (jq_name q) (upsert_queue_rows ?row rows))) = Inr q'"
    using assms by (auto simp: upsert_queue_sql_def Let_def u64_to_sql_def split: option.splits sum.splits if_splits)
  show "holds_queue (jq_name q) (uint (jq_max_retries q)) (uint (jq_timeout_secs q)) rows'"
    by (simp add: holds_queue_def rows' upsert_queue_rows_lookup split: option.split)
  show "jq_name q' = jq_name q"
    using upsert_queue_sql_result [OF assms] ..
  show "jq_max_retries q' = jq_max_retries q" "jq_timeout_secs q' = jq_timeout_secs q"
    using q' unsigned_less [of "jq_max_retries q", where 'a = int] unsigned_less [of "jq_timeout_secs q", where 'a = int]
    by (auto simp: upsert_queue_rows_lookup row_to_queue_def row_to_queue_at_def u32_try_from_def u64_try_from_def split: option.splits if_splits)
  show "row_by qr_name n rows' = row_by qr_name n rows" if "n \<noteq> jq_name q" for n
    using that by (simp add: rows' upsert_queue_rows_lookup)
qed

definition stored_queue :: "Store \<Rightarrow> string \<Rightarrow> int \<Rightarrow> int \<Rightarrow> bool" where
  "stored_queue st name m t \<longleftrightarrow> name \<in> st_names st \<and>
     holds_queue name m t (job_queues (st_ingest st)) \<and> holds_queue name m t (execution_queues (st_results st))"

lemma upsert_queue_stores:
  assumes wf: "store_wf st" and ff: "fault_free Es" and t: "uint (jq_timeout_secs q) \<le> i64_max"
  shows "\<exists>q' st'. upsert_queue Es q st = (Inr q', st') \<and>
    stored_queue st' (jq_name q) (uint (jq_max_retries q)) (uint (jq_timeout_secs q)) \<and>
    (\<forall>n m k. n \<noteq> jq_name q \<longrightarrow> stored_queue st' n m k = stored_queue st n m k)"
proof -
  have "queue_rows_wf (job_queues (st_ingest st))" "queue_rows_wf (execution_queues (st_results st))"
    using wf by (simp_all add: store_wf_def ingest_wf_def results_wf_def)
  note sql = this [THEN upsert_queue_sql_ok]
  from sql(1) [OF t, of "env_clock (Es 0) 0"] obtain q1 rows1 where
    up1: "upsert_queue_sql None None (env_clock (Es 0) 0) q (job_queues (st_ingest st)) = (Inr q1, rows1)" by blast
  note s1 = upsert_sql_stores [OF up1]
  from sql(2) [of q1 "env_clock (Es 1) 0"] t s1(4) obtain q2 rows2 where
    up2: "upsert_queue_sql None None (env_clock (Es 1) 0) q1 (execution_queues (st_results st)) = (Inr q2, rows2)" by auto
  note s2 = upsert_sql_stores [OF up2]
  let ?st = "st\<lparr>st_ingest := (st_ingest st)\<lparr>job_queues := rows1\<rparr>, st_names := insert (jq_name q) (st_names st),
        st_results := (st_results st)\<lparr>execution_queues := rows2\<rparr>\<rparr>"
  have "upsert_queue Es q st = (Inr q1, ?st)"
    using ff up1 up2 by (simp add: upsert_queue_def ingest_h_upsert_queue_def results_h_upsert_queue_def ingest_call_def
        results_call_def ingest_upsert_queue_def results_upsert_queue_def)
  moreover have "stored_queue ?st (jq_name q) (uint (jq_max_retries q)) (uint (jq_timeout_secs q))"
    using s1 s2(1) by (simp add: stored_queue_def)
  moreover have "stored_queue ?st n m k = stored_queue st n m k" if "n \<noteq> jq_name q" for n m k
    using s1(2,5) s2(5) that by (simp add: stored_queue_def holds_queue_def)
  ultimately show ?thesis by blast
qed

text \<open>The limits of a queue as a file can hold them: 32 bits of retries and TOML's 64-bit signed numbers.\<close>

definition storable :: "QueueConfig \<Rightarrow> bool" where
  "storable q \<longleftrightarrow> qc_max_retries q < 2 ^ 32 \<and> int (qc_timeout_secs q) \<le> i64_max"

lemma configured_queue_simps [simp]:
  "jq_name (configured_queue now q) = qc_name q"
  "storable q \<Longrightarrow> uint (jq_max_retries (configured_queue now q)) = int (qc_max_retries q)"
  "storable q \<Longrightarrow> uint (jq_timeout_secs (configured_queue now q)) = int (qc_timeout_secs q)"
  by (simp_all add: configured_queue_def JobQueue_new_def storable_def i64_max_def uint_nat unat_of_nat)

text \<open>The retry limit and the timeout that the configuration gives a queue.\<close>

definition as_configured :: "QueueConfig \<Rightarrow> Store \<Rightarrow> bool" where
  "as_configured q st \<longleftrightarrow> stored_queue st (qc_name q) (int (qc_max_retries q)) (int (qc_timeout_secs q))"

lemma upsert_queues_ok:
  assumes "store_wf st" and "linked st" and "\<And>n. fault_free (Es n)"
    and "distinct (map qc_name qs)" and "list_all storable qs"
  shows "\<exists>st'. upsert_queues Es now qs st = (Inr (), st') \<and> store_wf st' \<and> linked st' \<and>
    list_all (\<lambda>q. as_configured q st') qs \<and> (\<forall>q. qc_name q \<notin> set (map qc_name qs) \<longrightarrow> as_configured q st' = as_configured q st)"
  using assms
proof (induction qs arbitrary: Es now st)
  case (Cons q qs)
  have st: "storable q" using Cons.prems(5) by simp
  then have "uint (jq_timeout_secs (configured_queue (now 0) q)) \<le> i64_max" by (simp add: storable_def)
  from upsert_queue_stores [OF Cons.prems(1) Cons.prems(3) this, of 0] obtain q' st1 where
    up: "upsert_queue (Es 0) (configured_queue (now 0) q) st = (Inr q', st1)"
    and here: "as_configured q st1"
    and other: "\<And>n m k. n \<noteq> qc_name q \<Longrightarrow> stored_queue st1 n m k = stored_queue st n m k"
    using st by (auto simp: as_configured_def)
  have wf1: "store_wf st1" using upsert_queue_wf [OF Cons.prems(1), of "Es 0" "configured_queue (now 0) q"] up by simp
  have ln1: "linked st1" using upsert_queue_refines [OF Cons.prems(1-3) up] ..
  from Cons.IH [OF wf1 ln1, of "\<lambda>n. Es (Suc n)" "\<lambda>n. now (Suc n)"] Cons.prems(3-5) obtain st' where
    rest: "upsert_queues (\<lambda>n. Es (Suc n)) (\<lambda>n. now (Suc n)) qs st1 = (Inr (), st')" "store_wf st'" "linked st'"
      "list_all (\<lambda>q. as_configured q st') qs"
    and keep: "\<And>x. qc_name x \<notin> set (map qc_name qs) \<Longrightarrow> as_configured x st' = as_configured x st1" by auto
  have "as_configured q st'" using keep [of q] here Cons.prems(4) by simp
  moreover have "as_configured x st' = as_configured x st" if "qc_name x \<notin> set (map qc_name (q # qs))" for x
    using that keep [of x] other by (simp add: as_configured_def)
  ultimately show ?case using rest up by auto
qed simp

text \<open>Opening the databases of a store that was shut down between operations changes nothing.\<close>

lemma heal_orphans_none:
  "fault_free Es \<Longrightarrow> (\<And>p. p \<in> set ps \<Longrightarrow> snd p \<in> dispatch_ids rdb) \<Longrightarrow> heal_orphans Es ps rdb idb = (Inr (), idb)"
proof (induction ps arbitrary: Es)
  case (Cons p ps)
  obtain j d where p: "p = (j, d)" by force
  have "filter (\<lambda>r. xr_dispatch_id r = d) (executions rdb) \<noteq> []"
    using Cons.prems(2) [of p] by (auto simp: p dispatch_ids_def filter_empty_conv)
  then show ?case using Cons.IH [of "\<lambda>n. Es (Suc n)"] Cons.prems by (simp add: p)
qed simp

lemma open_clean_store:
  assumes wf: "store_wf st" and ln: "linked st" and ff: "fault_free Es"
  shows "open_store Es (st_ingest st) (st_results st) = Inr (st\<lparr>st_names := queue_names (st_ingest st)\<rparr>)"
proof -
  let ?rows = "accepted_jobs (st_ingest st)"
  have dist: "distinct (map aj_id ?rows)" using wf by (simp add: store_wf_def ingest_wf_def)
  have "d \<in> dispatch_ids (st_results st)" if "r \<in> set ?rows" "aj_dispatch_id r = Some d" for r d
    using linked_not_orphan [OF ln _ that(2)] row_by_distinct [OF dist, of "aj_id r" r] that(1) by (simp add: acc_def)
  then have "snd p \<in> dispatch_ids (st_results st)"
    if "p \<in> set (List.map_filter (\<lambda>r. map_option (\<lambda>d. (aj_id r, d)) (aj_dispatch_id r)) ?rows)" for p
    using that by (auto simp: List.map_filter_def)
  then show ?thesis
    using heal_orphans_none [OF fault_free_shift [OF ff]] ff by (simp add: open_store_def heal_orphan_claims_def)
qed

lemma open_clean_store_ok:
  assumes "store_wf st" and "linked st"
  shows "store_wf (st\<lparr>st_names := queue_names (st_ingest st)\<rparr>)" "linked (st\<lparr>st_names := queue_names (st_ingest st)\<rparr>)"
  using assms by (simp_all add: store_wf_def ingest_wf_def linked_def acc_def exe_def)

text \<open>Recovery touches neither the queues nor the cached names.\<close>

definition same_queues :: "Store \<Rightarrow> Store \<Rightarrow> bool" where
  "same_queues st st' \<longleftrightarrow> st_names st' = st_names st \<and> job_queues (st_ingest st') = job_queues (st_ingest st) \<and>
     execution_queues (st_results st') = execution_queues (st_results st)"

lemma ingest_h_repend_queues: "same_queues st (snd (ingest_h_repend E j d st))"
  by (simp add: same_queues_def ingest_h_repend_def ingest_call_def ingest_repend_def case_prod_unfold Let_def)

lemma recover_items_queues: "same_queues st (snd (recover_items Es items st))"
proof (induction items arbitrary: Es st)
  case (Cons i items)
  have one: "same_queues st (snd (if rs_should_repend i then ingest_h_repend (Es 0) (rs_job_id i) (rs_dispatch_id i) st else (Inr (), st)))"
    using ingest_h_repend_queues by (simp add: same_queues_def)
  show ?case
    using one Cons.IH by (auto simp: same_queues_def case_prod_unfold Let_def split: sum.split)
qed (simp add: same_queues_def)

lemma recover_stale_leases_queues:
  assumes "store_wf st" and "fault_free Es"
  shows "same_queues st (snd (recover_stale_leases Es now st))"
  using recover_call [OF fault_free_io [OF assms(2)] fault_free_io [OF assms(2)], of st 0 now]
    recover_items_queues [of "snd (results_h_recover_stale (Es 0) now st)"] assms(1)
  by (simp add: recover_stale_leases_def store_wf_def same_queues_def)

lemma same_queues_configured: "same_queues st st' \<Longrightarrow> as_configured q st' = as_configured q st"
  by (simp add: same_queues_def as_configured_def stored_queue_def)

text \<open>After a recovery no lease has expired.\<close>

definition no_stale :: "i64 \<Rightarrow> Store \<Rightarrow> bool" where
  "no_stale now st \<longleftrightarrow> (\<forall>k. case exe st k of None \<Rightarrow> True | Some e \<Rightarrow> \<not> is_stale now e)"

lemma recover_on_start_ok:
  assumes wf: "store_wf st" and ln: "linked st" and ff: "fault_free Es"
  shows "\<exists>st'. recover_on_start Es now policy st = (Inr (), st') \<and> store_wf st' \<and> linked st' \<and> same_queues st st' \<and>
    refines st st' \<and> (policy = Recover \<longrightarrow> no_stale now st')"
proof (cases "policy = Recover")
  case True
  from recover_stale_leases_ok [OF wf ln ff, of now] obtain jobs st' where
    r: "recover_stale_leases Es now st = (Inr jobs, st')" and x: "\<And>k. exe st' k = map_option (expire now) (exe st k)" by blast
  have "\<not> is_stale now (expire now e)" for e by (simp add: expire_def is_stale_def set_failed_def)
  then have "no_stale now st'" by (auto simp: no_stale_def x split: option.split)
  moreover have "store_wf st'" "same_queues st st'"
    using recover_stale_leases_wf [OF wf, of Es now] recover_stale_leases_queues [OF wf ff, of now] r by simp_all
  ultimately show ?thesis
    using True r recover_stale_leases_refines [OF wf ln ff r] by (simp add: recover_on_start_def)
qed (use assms in \<open>simp add: recover_on_start_def same_queues_def refines_def\<close>)

lemma prepare_store_ok:
  assumes wf: "store_wf st" and ln: "linked st" and ff: "\<And>n. fault_free (Es n)"
    and wo: "write_options (ac_persistence c) = Inr wo"
    and disk: "open_databases M (ingest_database_path (ac_persistence c)) (results_database_path (ac_persistence c)) =
      Inr (st_ingest st, st_results st)"
    and qs: "distinct (map qc_name (ac_queues c))" "list_all storable (ac_queues c)"
  shows "\<exists>st'. prepare_store M Es now c = Inr st' \<and> store_wf st' \<and> linked st' \<and> list_all (\<lambda>q. as_configured q st') (ac_queues c) \<and>
    (ps_startup (ac_persistence c) = Recover \<longrightarrow> no_stale (now (length (ac_queues c))) st')"
proof -
  let ?st = "st\<lparr>st_names := queue_names (st_ingest st)\<rparr>"
  have opened: "open_with_options_pair M (Es 0) (ingest_database_path (ac_persistence c)) (results_database_path (ac_persistence c)) wo = Inr ?st"
    using write_options_Inr [OF wo] disk open_clean_store [OF wf ln ff] by (simp add: open_with_options_pair_def)
  from upsert_queues_ok [OF open_clean_store_ok [OF wf ln], of "\<lambda>n. Es (Suc n)", OF ff qs, of now] obtain st1 where
    up: "upsert_queues (\<lambda>n. Es (Suc n)) now (ac_queues c) ?st = (Inr (), st1)" "store_wf st1" "linked st1"
      "list_all (\<lambda>q. as_configured q st1) (ac_queues c)" by blast
  from recover_on_start_ok [OF up(2,3) ff, of "Suc (length (ac_queues c))"] obtain st2 where
    rec: "recover_on_start (Es (Suc (length (ac_queues c)))) (now (length (ac_queues c))) (ps_startup (ac_persistence c)) st1 = (Inr (), st2)"
      "store_wf st2" "linked st2" "same_queues st1 st2"
      "ps_startup (ac_persistence c) = Recover \<longrightarrow> no_stale (now (length (ac_queues c))) st2" by blast
  have "prepare_store M Es now c = Inr st2"
    using wo opened up(1) rec(1) by (simp add: prepare_store_def)
  then show ?thesis using rec up(4) same_queues_configured [OF rec(4)] by simp
qed

section \<open>Starting the server\<close>

text \<open>What validation cannot promise: the files it saw are still readable when the managed workers are set up.\<close>

definition files_readable :: "Host \<Rightarrow> AppConfig \<Rightarrow> bool" where
  "files_readable H c \<longleftrightarrow>
     (\<forall>q\<in>set (ac_queues c). case qc_managed_config q of
        None \<Rightarrow> True
      | Some cfg \<Rightarrow>
          (case mg_env_file cfg of None \<Rightarrow> True | Some f \<Rightarrow> \<exists>t. read_to_string H f = Inr t) \<and>
          (case mg_mounts cfg of None \<Rightarrow> True | Some ms \<Rightarrow> \<forall>m\<in>set ms. \<exists>s. canonicalize H (mc_source m) = Inr s))"

text \<open>
  The addresses can be parsed and bound. Only when a queue has managed workers: the Docker endpoint, if one is configured, is
  not a named pipe (which is refused on Unix), and the daemon answers on the transport that the configuration selects.
\<close>

definition machine_ready :: "'addr Machine \<Rightarrow> AppConfig \<Rightarrow> bool" where
  "machine_ready M c \<longleftrightarrow>
     (\<exists>a. parse_addr M (worker_listen c) = Inr a \<and> bind_workers M a (ac_worker_tls c) = Inr ()) \<and>
     (\<exists>a. parse_addr M (listen c) = Inr a \<and> bind_http M a = Inr ()) \<and>
     (has_managed_queues c \<longrightarrow>
        (case dc_endpoint (ac_docker c) of None \<Rightarrow> True | Some e \<Rightarrow> \<not> starts_with e ''npipe://'') \<and>
        (\<forall>t. connect_docker (connect_options (ac_docker c)) = Inr t \<longrightarrow> ping_docker M t = Inr ()))"

lemma expect_mounts_ok: "(\<And>m. m \<in> set ms \<Longrightarrow> \<exists>s. canonicalize H (mc_source m) = Inr s) \<Longrightarrow> \<exists>xs. expect_mounts H ms = Some xs"
proof (induction ms)
  case (Cons m ms)
  then obtain xs s where "expect_mounts H ms = Some xs" "canonicalize H (mc_source m) = Inr s" by fastforce
  then show ?case by (simp add: to_dispatcher_type_def)
qed simp

definition managed_names :: "QueueConfig list \<Rightarrow> string list" where
  "managed_names qs = map qc_name (filter (\<lambda>q. qc_managed_config q \<noteq> None) qs)"

lemma managed_queues_ok:
  assumes "files_readable H c"
  shows "\<exists>ms. managed_queues H (ac_queues c) = Some ms \<and> map mq_name ms = managed_names (ac_queues c)"
proof -
  have one: "\<exists>mq. managed_queue H q cfg = Some mq \<and> mq_name mq = qc_name q"
    if "q \<in> set (ac_queues c)" "qc_managed_config q = Some cfg" for q cfg
  proof -
    have f: "case mg_env_file cfg of None \<Rightarrow> True | Some f \<Rightarrow> \<exists>t. read_to_string H f = Inr t"
      and m: "case mg_mounts cfg of None \<Rightarrow> True | Some ms \<Rightarrow> \<forall>m\<in>set ms. \<exists>s. canonicalize H (mc_source m) = Inr s"
      using assms that by (force simp: files_readable_def)+
    from f obtain env where "managed_env H cfg = Inr env" by (cases "mg_env_file cfg") (auto simp: managed_env_def)
    moreover from m obtain xs where "(case mg_mounts cfg of None \<Rightarrow> Some [] | Some ms \<Rightarrow> expect_mounts H ms) = Some xs"
      by (cases "mg_mounts cfg") (auto dest: bspec intro: expect_mounts_ok [THEN exE])
    ultimately show ?thesis by (simp add: managed_queue_def)
  qed
  have "\<exists>ms. managed_queues H qs = Some ms \<and> map mq_name ms = managed_names qs" if "set qs \<subseteq> set (ac_queues c)" for qs
    using that
  proof (induction qs)
    case (Cons q qs)
    then show ?case using one [of q] by (cases "qc_managed_config q") (fastforce simp: managed_names_def)+
  qed (simp add: managed_names_def)
  then show ?thesis by blast
qed

lemma docker_ok_connects:
  assumes "docker_ok d" and "case dc_endpoint d of None \<Rightarrow> True | Some e \<Rightarrow> \<not> starts_with e ''npipe://''"
  shows "\<exists>t. connect_docker (connect_options d) = Inr t"
proof (cases "dc_endpoint d")
  case (Some e)
  with assms(2) have "\<not> starts_with e ''npipe://''" by simp
  moreover have "has_scheme e" and "tls_complete d \<or> dc_ca_cert_path d = None \<and> dc_cert_path d = None \<and> dc_key_path d = None"
    using assms(1) Some by (simp_all add: docker_ok_def)
  ultimately show ?thesis
    using Some by (auto simp: connect_docker_def connect_options_def has_scheme_def tls_complete_def)
qed (simp add: connect_docker_def connect_options_def)

lemma start_supervisor_ok:
  assumes "docker_ok (ac_docker c)" and "files_readable H c" and "machine_ready M c"
  shows "\<exists>ms. start_supervisor H M c = Some (Inr ms) \<and>
    map_option (map mq_name) ms = (if has_managed_queues c then Some (managed_names (ac_queues c)) else None)"
proof (cases "has_managed_queues c")
  case True
  then obtain t where "connect_docker (connect_options (ac_docker c)) = Inr t"
    using docker_ok_connects assms(1,3) unfolding machine_ready_def by blast
  then have "supervisor_connect M (connect_options (ac_docker c)) = Inr ()"
    using assms(3) True by (simp add: supervisor_connect_def machine_ready_def)
  then show ?thesis using managed_queues_ok [OF assms(2)] by (auto simp: start_supervisor_def)
qed (simp add: start_supervisor_def)

lemma cleanup_schedule_ok:
  assumes "case cleanup of None \<Rightarrow> True | Some cfg \<Rightarrow> cleanup_ok H cfg"
  shows "\<exists>sch. cleanup_schedule H cleanup = Inr sch \<and>
    (case sch of None \<Rightarrow> cleanup = None | Some (i, r, v) \<Rightarrow> 0 < i \<and> 0 < r \<and> int (as_millis r) \<le> i64_max)"
  using assms by (cases cleanup) (auto simp: cleanup_schedule_def cleanup_ok_def cleanup_interval_def cleanup_retention_def)

text \<open>Loading gives a valid configuration: the parts that startup relies on.\<close>

lemma load_config_ok:
  assumes "load_config H path = Inr c"
  shows "(\<exists>wo. write_options (ac_persistence c) = Inr wo) \<and> (\<exists>do. dispatch_options (ac_dispatch c) = Inr do \<and> DispatchOptions_validate do = Inr ()) \<and>
    docker_ok (ac_docker c) \<and> (case ps_cleanup (ac_persistence c) of None \<Rightarrow> True | Some cfg \<Rightarrow> cleanup_ok H cfg) \<and>
    distinct (map qc_name (ac_queues c))"
proof -
  have "validate_config H c = Inr ()"
    using assms by (auto simp: load_config_def split: sum.splits)
  then show ?thesis
    unfolding validate_config_def using dispatch_options_Inr
    by (auto simp: accepts split: option.splits if_splits)
qed

lemma start_server_ok:
  assumes load: "load_config H path = Inr c"
    and disk: "open_databases M (ingest_database_path (ac_persistence c)) (results_database_path (ac_persistence c)) =
      Inr (st_ingest st, st_results st)"
    and st: "store_wf st" "linked st" and ff: "\<And>n. fault_free (Es n)"
    and qs: "list_all storable (ac_queues c)" and files: "files_readable H c" and ready: "machine_ready M c"
  shows "\<exists>srv. start_server H M Es now path = Some (Inr srv) \<and> store_wf (srv_store srv) \<and> linked (srv_store srv) \<and>
    list_all (\<lambda>q. as_configured q (srv_store srv)) (ac_queues c) \<and>
    (ps_startup (ac_persistence c) = Recover \<longrightarrow> no_stale (now (length (ac_queues c))) (srv_store srv)) \<and>
    DispatchOptions_validate (srv_dispatch srv) = Inr () \<and> srv_allowed_queues srv = set (map qc_name (ac_queues c)) \<and>
    map_option (map mq_name) (srv_managed srv) = (if has_managed_queues c then Some (managed_names (ac_queues c)) else None) \<and>
    (case srv_cleanup srv of None \<Rightarrow> ps_cleanup (ac_persistence c) = None | Some (i, r, v) \<Rightarrow> 0 < i \<and> 0 < r \<and> int (as_millis r) \<le> i64_max)"
proof -
  note ok = load_config_ok [OF load]
  from ok obtain wo where wo: "write_options (ac_persistence c) = Inr wo" by blast
  from ok obtain opts where opts: "dispatch_options (ac_dispatch c) = Inr opts" "DispatchOptions_validate opts = Inr ()" by blast
  from prepare_store_ok [OF st, of Es c wo M now, OF ff wo disk _ qs] ok obtain st' where
    prep: "prepare_store M Es now c = Inr st'" "store_wf st'" "linked st'" "list_all (\<lambda>q. as_configured q st') (ac_queues c)"
      "ps_startup (ac_persistence c) = Recover \<longrightarrow> no_stale (now (length (ac_queues c))) st'" by blast
  from start_supervisor_ok [OF _ files ready] ok obtain ms where
    sup: "start_supervisor H M c = Some (Inr ms)"
      "map_option (map mq_name) ms = (if has_managed_queues c then Some (managed_names (ac_queues c)) else None)" by blast
  from cleanup_schedule_ok [of H "ps_cleanup (ac_persistence c)"] ok obtain sch where
    sch: "cleanup_schedule H (ps_cleanup (ac_persistence c)) = Inr sch"
      "case sch of None \<Rightarrow> ps_cleanup (ac_persistence c) = None | Some (i, r, v) \<Rightarrow> 0 < i \<and> 0 < r \<and> int (as_millis r) \<le> i64_max" by blast
  from ready obtain a b where "parse_addr M (worker_listen c) = Inr a" "bind_workers M a (ac_worker_tls c) = Inr ()"
    "parse_addr M (listen c) = Inr b" "bind_http M b = Inr ()" unfolding machine_ready_def by blast
  with load prep(1) sup(1) opts(1) sch(1) have
    "start_server H M Es now path = Some (Inr \<lparr>srv_store = st', srv_worker_addr = a, srv_allowed_queues = set (map qc_name (ac_queues c)),
       srv_managed = ms, srv_dispatch = opts, srv_addr = b, srv_cleanup = sch\<rparr>)"
    by (simp add: start_server_def)
  with prep opts(2) sup(2) sch(2) show ?thesis by simp
qed


text \<open>A configuration with a managed queue, on a host where every file can be read.\<close>

definition no_batch :: BatchConfig where
  "no_batch = \<lparr>bg_batch_size_min = None, bg_batch_size_max = None, bg_batch_wait_min_ms = None, bg_batch_wait_max_ms = None,
     bg_ewma_window = None, bg_batch_probe_factor = None, bg_batch_backoff_factor = None\<rparr>"

definition mail_config :: AppConfig where
  "mail_config =
     \<lparr>ac_listen = None, ac_worker_listen = None,
      ac_worker_tls = \<lparr>wt_ca_cert_path = ''ca.pem'', wt_cert_path = ''cert.pem'', wt_key_path = ''key.pem''\<rparr>,
      ac_docker = \<lparr>dc_endpoint = None, dc_ca_cert_path = None, dc_cert_path = None, dc_key_path = None\<rparr>,
      ac_persistence = \<lparr>ps_ingest_database = None, ps_results_database = None, ps_durability = DurabilityNone,
        ps_cleanup = None, ps_startup = Recover, ps_enqueue = no_batch, ps_completion = no_batch\<rparr>,
      ac_dispatch = \<lparr>dg_batch_size_max = None, dg_max_delivery_in_flight = None, dg_idle_probe_interval_ms = None, dg_idle_probe_batch_size = None\<rparr>,
      ac_queues = [\<lparr>qc_name = ''mail'', qc_max_retries = 5, qc_timeout_secs = 30,
        qc_managed_config = Some \<lparr>mg_image = ''mail:1.0'', mg_replicas = 2, mg_env_file = None, mg_env_vars = None, mg_mounts = None\<rparr>\<rparr>]\<rparr>"

definition mail_host :: Host where
  "mail_host =
     \<lparr>parse_duration = \<lambda>_. Inr 1, parse_time = \<lambda>_. Inr 0, toml_from_str = \<lambda>_. Inr mail_config, read_to_string = \<lambda>_. Inr [],
      is_file = \<lambda>_. True, path_exists = \<lambda>_. True, canonicalize = Inr\<rparr>"

definition mail_machine :: "string Machine" where
  "mail_machine =
     \<lparr>open_databases = \<lambda>_ _. Inr (st_ingest sample_store, st_results sample_store), parse_addr = Inr,
      bind_workers = \<lambda>_ _. Inr (), ping_docker = \<lambda>_. Inr (), bind_http = \<lambda>_. Inr ()\<rparr>"

lemma completion_defaults_valid: "BatchOptions_validate ''persistence.completion'' completion_defaults = Inr ()"
proof -
  have "5 / 4 \<le> pow2 1022" using pow2_mono [of 1 1022] by (simp add: pow2_def)
  moreover have "(5 / 4) / 2 ^ 53 + pow2 (- 1075) \<le> 1 / 100" using tiny by (simp add: field_simps)
  ultimately obtain pf where "rnd (5 / 4) = Fin pf" "101 / 100 \<le> pf" using rnd_close [of "5 / 4"] by auto
  moreover obtain bf where "rnd (8 / 10) = Fin bf" "0 \<le> bf" "bf \<le> 99 / 100" using default_factors(2) by blast
  ultimately show ?thesis by (simp add: BatchOptions_validate_def completion_defaults_def from_millis_def f64_le_def)
qed

lemma no_batch_defaults: "apply_batch no_batch enqueue_defaults = enqueue_defaults" "apply_batch no_batch completion_defaults = completion_defaults"
  by (simp_all add: apply_batch_def no_batch_def enqueue_defaults_def completion_defaults_def from_millis_def as_millis_def)

lemma mail_config_loads: "load_config mail_host ''maqistor.toml'' = Inr mail_config"
proof -
  have "write_options (ac_persistence mail_config) =
      Inr \<lparr>swo_durability = DurabilityNone, swo_enqueue = enqueue_defaults, swo_completion = completion_defaults\<rparr>"
    by (simp add: write_options_def mail_config_def SqliteWriteOptions_default_def SqliteWriteOptions_validate_def
        enqueue_defaults_valid completion_defaults_valid no_batch_defaults)
  moreover have "\<exists>do. dispatch_options (ac_dispatch mail_config) = Inr do"
    by (simp add: dispatch_options_def mail_config_def DispatchOptions_default_def DispatchOptions_validate_def
        MAX_CLAIM_BATCH_SIZE_def from_millis_def from_secs_def as_millis_def)
  moreover have "docker_ok (ac_docker mail_config)" by (simp add: docker_ok_def mail_config_def tls_complete_def)
  moreover have "list_all (queue_ok mail_host) (ac_queues mail_config)"
    by (simp add: mail_config_def queue_ok_def managed_ok_def image_ok_def contains.simps after_last_def rsplit_once_def trim_def is_whitespace_def)
  ultimately have "validate_config mail_host mail_config = Inr ()"
    unfolding validate_config_def
    by (simp add: accepts) (simp add: mail_config_def listen_def worker_listen_def DEFAULT_LISTEN_def DEFAULT_WORKER_LISTEN_def)
  then show ?thesis by (simp add: load_config_def mail_host_def)
qed

lemma mail_config_ready:
  "list_all storable (ac_queues mail_config)" "files_readable mail_host mail_config" "machine_ready mail_machine mail_config"
  by (simp_all add: mail_config_def storable_def i64_max_def files_readable_def machine_ready_def mail_machine_def)


section \<open>Retention\<close>

lemma u128_as_i64_small: "int n \<le> i64_max \<Longrightarrow> u128_as_i64 n = int n"
  by (simp add: u128_as_i64_def u64_as_i64_def i64_max_def signed_of_nat signed_take_bit_int_eq_self)

lemma store_cleanup_ok:
  assumes "fault_free Es"
  shows "snd (store_cleanup Es cutoff st) =
    st\<lparr>st_ingest := (st_ingest st)\<lparr>accepted_jobs := filter (\<lambda>r. cutoff \<le> aj_created_at r) (accepted_jobs (st_ingest st))\<rparr>,
       st_results := (st_results st)\<lparr>executions := filter (\<lambda>r. cutoff \<le> xr_updated_at r) (executions (st_results st))\<rparr>\<rparr>"
  using assms by (simp add: store_cleanup_def ingest_h_cleanup_def results_h_cleanup_def ingest_call_def results_call_def
      ingest_cleanup_def results_cleanup_def not_less)

text \<open>
  The purge keeps the retention period. With database calls that succeed and a clock between 1970 and the end of 64 bits, a
  turn of the cleanup task without a vacuum removes exactly the accepted jobs that were created more than the retention period ago
  and the executions that were last updated more than the retention period ago, and changes nothing else; a
  retention longer than the time since 1970 removes no row with a time stamp of the clock.
\<close>

theorem cleanup_keeps_retention:
  assumes "fault_free Es" and "0 \<le> now_ms" and "now_ms \<le> i64_max"
  shows "cleanup_turn H Es now_ms due_ms now_time retention None st =
    (let cutoff = max 0 (now_ms - int (as_millis retention)) in
     Some (st\<lparr>st_ingest := (st_ingest st)\<lparr>accepted_jobs := filter (\<lambda>r. cutoff \<le> aj_created_at r) (accepted_jobs (st_ingest st))\<rparr>,
              st_results := (st_results st)\<lparr>executions := filter (\<lambda>r. cutoff \<le> xr_updated_at r) (executions (st_results st))\<rparr>\<rparr>))"
proof -
  have "u128_as_i64 (nat now_ms - as_millis retention) = max 0 (now_ms - int (as_millis retention))"
    using assms(2,3) by (subst u128_as_i64_small) auto
  then show ?thesis using store_cleanup_ok [OF assms(1)] assms(2) by (simp add: cleanup_turn_def cleanup_task_def Let_def)
qed

theorem cleanup_keeps_retention_witness:
  "map_option (\<lambda>st. map aj_id (accepted_jobs (st_ingest st))) (cleanup_turn mail_host quiet 10 0 0 3000000 None sample_store) = Some [2, 3]"
  using cleanup_keeps_retention [OF fault_free_quiet, of 10 mail_host 0 0 3000000 sample_store]
  by (simp add: i64_max_def as_millis_def sample_store_def Let_def)

section \<open>When the cleanup task panics\<close>

lemma ingest_handle_meta: "(\<And>k. req \<noteq> ReqVacuum k) \<Longrightarrow> ing_meta (fst (ingest_handle E req names db)) = ing_meta db"
  by (cases req) (auto simp: Let_def case_prod_unfold ingest_upsert_queue_def enqueue_batch_def ingest_claim_batch_def ingest_repend_def ingest_cleanup_def
      split: option.splits sum.splits)

definition meta_of :: "Store \<Rightarrow> string \<rightharpoonup> string" where
  "meta_of st = ing_meta (st_ingest st)"

lemma ingest_h_meta [simp]:
  "meta_of (snd (ingest_h_upsert_queue E q st)) = meta_of st" "meta_of (snd (ingest_h_enqueue E job st)) = meta_of st"
  "meta_of (snd (ingest_h_claim_batch E queue limit st)) = meta_of st" "meta_of (snd (ingest_h_repend E j d st)) = meta_of st"
  "meta_of (snd (ingest_h_cleanup E cutoff st)) = meta_of st"
  unfolding meta_of_def ingest_h_upsert_queue_def ingest_h_enqueue_def ingest_h_claim_batch_def ingest_h_repend_def ingest_h_cleanup_def
    ingest_call_def by (simp_all add: case_prod_unfold Let_def ingest_handle_meta del: ingest_handle.simps)

lemma results_h_meta [simp]:
  "meta_of (snd (results_h_upsert_queue E q st)) = meta_of st" "meta_of (snd (results_h_dispatch E rows st)) = meta_of st"
  "meta_of (snd (results_h_complete E j d oc st)) = meta_of st" "meta_of (snd (results_h_abandon E j d st)) = meta_of st"
  "meta_of (snd (results_h_recover_stale E now st)) = meta_of st" "meta_of (snd (results_h_cleanup E cutoff st)) = meta_of st"
  "meta_of (snd (results_h_vacuum E st)) = meta_of st"
  unfolding meta_of_def results_h_upsert_queue_def results_h_dispatch_def results_h_complete_def results_h_abandon_def
    results_h_recover_stale_def results_h_cleanup_def results_h_vacuum_def results_call_def
  by (simp_all add: case_prod_unfold Let_def del: results_handle.simps)

lemma repend_claimed_meta [simp]: "meta_of (repend_claimed Es rows st) = meta_of st"
  by (induction rows arbitrary: Es st) simp_all

lemma recover_items_meta [simp]: "meta_of (snd (recover_items Es items st)) = meta_of st"
  by (induction items arbitrary: Es st) (auto simp: case_prod_unfold Let_def split: sum.split)

lemma run_op_meta [simp]: "meta_of (run_op Es op st) = meta_of st"
  by (cases op)
     (simp_all add: upsert_queue_def store_enqueue_def claim_batch_def claim_batch_inner_def complete_same_state complete_worker_result_def
       release_claim_def recover_stale_leases_def case_prod_unfold Let_def split: sum.split)

lemma store_cleanup_meta [simp]: "meta_of (snd (store_cleanup Es cutoff st)) = meta_of st"
  by (simp add: store_cleanup_def case_prod_unfold Let_def split: sum.split)

text \<open>The time of the last vacuum, if there is one, is a number.\<close>

definition vacuum_meta_ok :: "Store \<Rightarrow> bool" where
  "vacuum_meta_ok st \<longleftrightarrow> (case meta_of st ''last_vacuum_run'' of None \<Rightarrow> True | Some v \<Rightarrow> parse_i64 v \<noteq> None)"

lemma last_vacuum_run_total: "vacuum_meta_ok st \<Longrightarrow> last_vacuum_run E st \<noteq> None"
  by (auto simp: vacuum_meta_ok_def meta_of_def last_vacuum_run_def read_meta_def split: option.splits)

definition clocks_in_range :: "(nat \<Rightarrow> env) \<Rightarrow> bool" where
  "clocks_in_range Es \<longleftrightarrow> (\<forall>n k. i64_min \<le> env_clock (Es n) k \<and> env_clock (Es n) k \<le> i64_max)"

lemma store_vacuum_meta:
  assumes "clocks_in_range Es" and "vacuum_meta_ok st"
  shows "vacuum_meta_ok (snd (store_vacuum Es st))"
  using assms
  by (auto simp: store_vacuum_def results_h_vacuum_def results_call_def results_vacuum_def ingest_h_vacuum_def ingest_call_def ingest_vacuum_def
      vacuum_meta_ok_def meta_of_def clocks_in_range_def parse_i64_show_int split: option.splits)

text \<open>
  The store while the server runs: operations of the engine, which may fail anywhere, interleaved with turns of the cleanup task.
\<close>

inductive serving :: "Host \<Rightarrow> duration \<Rightarrow> VacuumConfig option \<Rightarrow> Store \<Rightarrow> Store \<Rightarrow> bool"
  for H retention vacuum st0 where
  served_start: "serving H retention vacuum st0 st0"
| served_op: "serving H retention vacuum st0 st \<Longrightarrow> serving H retention vacuum st0 (run_op Es op st)"
| served_turn: "serving H retention vacuum st0 st \<Longrightarrow> clocks_in_range Es \<Longrightarrow>
    cleanup_turn H Es now_ms due_ms now_time retention vacuum st = Some st' \<Longrightarrow> serving H retention vacuum st0 st'"

lemma cleanup_turn_ok:
  assumes "vacuum_meta_ok st" and "clocks_in_range Es" and "store_wf st" and "0 \<le> now_ms"
  shows "\<exists>st'. cleanup_turn H Es now_ms due_ms now_time retention vacuum st = Some st' \<and> vacuum_meta_ok st' \<and> store_wf st'"
proof -
  obtain st1 where st1: "cleanup_task Es now_ms retention st = Some st1" "vacuum_meta_ok st1" "store_wf st1"
    using assms store_cleanup_wf [OF assms(3)] by (simp add: cleanup_task_def vacuum_meta_ok_def)
  have shifted: "clocks_in_range (\<lambda>n. Es (3 + n))" using assms(2) by (simp add: clocks_in_range_def)
  note vac = store_vacuum_meta [OF shifted st1(2)] store_vacuum_wf [OF st1(3), of "\<lambda>n. Es (3 + n)"]
  from last_vacuum_run_total [OF st1(2)] obtain r where "last_vacuum_run (Es 2) st1 = Some r" by blast
  then show ?thesis using st1 vac by (auto simp: cleanup_turn_def split: option.split sum.split)
qed

lemma cleanup_turn_before_1970: "now_ms < 0 \<Longrightarrow> cleanup_turn H Es now_ms due_ms now_time retention vacuum st = None"
  by (simp add: cleanup_turn_def cleanup_task_def)

lemma serving_ok:
  assumes "serving H retention vacuum st0 st" and "vacuum_meta_ok st0" and "store_wf st0"
  shows "vacuum_meta_ok st \<and> store_wf st"
  using assms(1)
proof induction
  case (served_turn st Es now_ms due_ms now_time st')
  moreover have "0 \<le> now_ms" using served_turn.hyps(3) cleanup_turn_before_1970 by (metis not_less option.distinct(1))
  ultimately show ?case using cleanup_turn_ok [of st Es now_ms H due_ms now_time retention vacuum] by auto
qed (use assms(2,3) in \<open>simp_all add: vacuum_meta_ok_def run_op_wf\<close>)

text \<open>
  C18. The cleanup task dies only when the system clock is before 1970. It reads the time of the last vacuum with an \<open>unwrap\<close>, but only the vacuum writes
  that entry, and writes a number: from a well-formed store without a recorded vacuum on, whatever the engine's
  operations do in between, whichever database calls fail, however the vacuum schedule is written, and with time stamps that fit
  in 64 bits, a turn of the task panics exactly when the clock it reads is before 1970 (an \<open>expect\<close>); otherwise it returns, and leaves a
  well-formed store.
\<close>

theorem cleanup_task_dies_only_before_1970:
  assumes "serving H retention vacuum st0 st" and "store_wf st0" and "ing_meta (st_ingest st0) ''last_vacuum_run'' = None"
    and "clocks_in_range Es"
  shows "case cleanup_turn H Es now_ms due_ms now_time retention vacuum st of
      None \<Rightarrow> now_ms < 0
    | Some st' \<Rightarrow> 0 \<le> now_ms \<and> store_wf st'"
proof -
  have "vacuum_meta_ok st0" using assms(3) by (simp add: vacuum_meta_ok_def meta_of_def)
  with serving_ok [OF assms(1)] assms(2) have ok: "vacuum_meta_ok st" "store_wf st" by auto
  show ?thesis
  proof (cases "0 \<le> now_ms")
    case True
    from cleanup_turn_ok [OF ok(1) assms(4) ok(2) this, of H due_ms now_time retention vacuum] True show ?thesis by auto
  qed (simp add: cleanup_turn_before_1970)
qed

definition full_disk :: "nat \<Rightarrow> env" where
  "full_disk n = (if n = 0 then quiet_env\<lparr>env_io := (\<lambda>_. Some ''disk full'')\<rparr> else quiet_env)"

theorem cleanup_task_dies_only_before_1970_witness:
  "(\<exists>st'. cleanup_turn mail_host full_disk 5000 5000 10 1000000 (Some \<lparr>vc_every = ''7d'', vc_at = ''03:00''\<rparr>) sample_store = Some st' \<and>
     store_wf st') \<and>
   cleanup_turn mail_host full_disk (-1) 5000 10 1000000 (Some \<lparr>vc_every = ''7d'', vc_at = ''03:00''\<rparr>) sample_store = None"
proof -
  have meta: "ing_meta (st_ingest sample_store) ''last_vacuum_run'' = None" by (simp add: sample_store_def)
  have clocks: "clocks_in_range full_disk" by (simp add: full_disk_def clocks_in_range_def quiet_env_def i64_min_def i64_max_def)
  note turn = cleanup_task_dies_only_before_1970 [OF served_start sample_store_wf meta clocks]
  from turn [of 5000 mail_host 5000 10 1000000 "Some \<lparr>vc_every = ''7d'', vc_at = ''03:00''\<rparr>"]
    turn [of "-1" mail_host 5000 10 1000000 "Some \<lparr>vc_every = ''7d'', vc_at = ''03:00''\<rparr>"]
  show ?thesis by (simp split: option.splits)
qed

section \<open>Recovery after a purge\<close>

lemma recover_items_stops:
  assumes "(if rs_should_repend i then ingest_h_repend (Es 0) (rs_job_id i) (rs_dispatch_id i) st else (Inr (), st)) = (Inr (), st1)"
    and "composed_job (\<lambda>n. Es (1 + n)) (rs_job_id i) st1 = Inl e"
  shows "recover_items Es (i # items) st = (Inl e, st1)"
  by (simp only: recover_items.simps assms Let_def prod.case sum.case)

text \<open>
  C35. A purged job blocks the recovery of the others. The purge deletes an accepted job by its creation time even while it runs, and
  its execution stays until it has not been updated for as long. If the first execution whose lease has expired belongs to such a job, the
  recovery, with database calls that succeed, marks all expired
  executions as failed in one transaction, but then stops at this first one: it returns an error, which also ends
  startup. Every other expired job that is still claimed keeps its claim: it reads as failed, whatever its retries are, a
  claim on the resulting state does not offer it, and no later recovery looks at its execution.
\<close>

theorem recovery_stops_at_purged_job:
  assumes wf: "store_wf st" and ff: "fault_free Es"
    and stale: "filter (is_stale now) (executions (st_results st)) = e # es"
    and purged: "acc st (xr_job_id e) = None" and f: "f \<in> set es" and claim: "acc st (xr_job_id f) = Some r" "aj_dispatch_id r = Some d"
  shows "\<exists>st'. recover_stale_leases Es now st = (Inl (NotFound (xr_job_id e)), st') \<and>
    fst (recover_on_start Es now Recover st) = Inl (NotFound (xr_job_id e)) \<and>
    acc st' (xr_job_id f) = Some r \<and> exe st' (xr_job_id f) = Some (set_failed (''lease expired'', now) f) \<and>
    view st' (xr_job_id f) = Some (Failed, xr_execution_count f) \<and>
    (\<forall>queue limit. r \<notin> set (claim_sel queue limit st')) \<and>
    (\<forall>now'. \<not> is_stale now' (set_failed (''lease expired'', now) f))"
proof -
  let ?st1 = "st\<lparr>st_results := (st_results st)\<lparr>executions := map (expire now) (executions (st_results st))\<rparr>\<rparr>"
  have rwf: "results_wf (st_results st)" using wf by (simp add: store_wf_def)
  note call = recover_call [OF fault_free_io [OF ff] fault_free_io [OF ff] rwf, of 0 now, unfolded stale]
  let ?item = "recovered_row (st_results st) e"
  have jid: "rs_job_id ?item = xr_job_id e" by (simp add: recovered_row_def)
  define st2 where "st2 = snd (if rs_should_repend ?item then ingest_h_repend (Es 1) (rs_job_id ?item) (rs_dispatch_id ?item) ?st1 else (Inr (), ?st1))"
  have a2: "acc st2 k = acc st k" for k
    using ff purged by (auto simp: st2_def repend_call row_by_repend acc_def jid)
  have x2: "exe st2 k = map_option (expire now) (exe st k)" for k
    using ff by (auto simp: st2_def repend_call exe_def row_by_map)
  have "composed_job (\<lambda>n. Es (2 + n)) (xr_job_id e) st2 = Inl (NotFound (xr_job_id e))"
    using purged a2 ff by (simp add: composed_job_def accepted_row_def read_accepted_job_def acc_def)
  moreover have "(if rs_should_repend ?item then ingest_h_repend (Es 1) (rs_job_id ?item) (rs_dispatch_id ?item) ?st1 else (Inr (), ?st1)) = (Inr (), st2)"
    using ff by (simp add: st2_def repend_call)
  ultimately have "recover_items (\<lambda>n. Es (1 + n)) (?item # map (recovered_row (st_results st)) es) ?st1 = (Inl (NotFound (xr_job_id e)), st2)"
    by (intro recover_items_stops) (simp_all only: jid add_0_right add_2_eq_Suc add_2_eq_Suc' One_nat_def plus_1_eq_Suc add_Suc add_0_left)
  then have rec: "recover_stale_leases Es now st = (Inl (NotFound (xr_job_id e)), st2)"
    by (simp add: recover_stale_leases_def call del: recover_items.simps)
  have fin: "f \<in> set (filter (is_stale now) (executions (st_results st)))" using f by (simp add: stale)
  have "distinct (map xr_job_id (executions (st_results st)))" using rwf by (simp add: results_wf_def exec_rows_wf_def)
  from row_by_distinct [OF this, of "xr_job_id f" f] fin have "exe st (xr_job_id f) = Some f" by (simp add: exe_def)
  with x2 fin have xf: "exe st2 (xr_job_id f) = Some (set_failed (''lease expired'', now) f)" by (simp add: expire_def)
  have "r \<notin> set (claim_sel queue limit st2)" for queue limit
    using claim(2) by (auto simp: claim_sel_def pending_rows_props(1) dest!: in_set_takeD)
  moreover have "view st2 (xr_job_id f) = Some (Failed, xr_execution_count f)"
    using a2 claim xf by (simp add: view_def job_view_def set_failed_def parse_status_def)
  moreover have "\<not> is_stale now' (set_failed (''lease expired'', now) f)" for now' by (simp add: is_stale_def set_failed_def)
  ultimately show ?thesis using rec a2 claim(1) xf by (simp add: recover_on_start_def)
qed

text \<open>Two running jobs, the older of which has been purged while it ran.\<close>

definition purged_store :: Store where
  "purged_store =
     sample_store\<lparr>
       st_ingest := (st_ingest sample_store)\<lparr>accepted_jobs :=
         [\<lparr>aj_id = 2, aj_queue_name = ''mail'', aj_payload = [2], aj_dispatch_id = Some ''b'', aj_created_at = 7, aj_updated_at = 8\<rparr>]\<rparr>,
       st_results := sample_results\<lparr>executions :=
         [sample_exec 1 ''running'' 1 (Some 100) ''a'' None None, sample_exec 2 ''running'' 1 (Some 100) ''b'' None None]\<rparr>\<rparr>"

lemma purged_store_wf: "store_wf purged_store"
  using sample_store_wf
  by (simp add: purged_store_def store_wf_def ingest_wf_def results_wf_def exec_rows_wf_def sample_store_def sample_results_defs queue_names_def
      execution_queue_names_def sample_ingest_def exec_row_ok_def)

theorem recovery_stops_at_purged_job_witness:
  "\<exists>st'. recover_stale_leases quiet 150 purged_store = (Inl (NotFound 1), st') \<and> map_option aj_dispatch_id (acc st' 2) = Some (Some ''b'') \<and>
     map_option xr_status (exe st' 2) = Some ''failed''"
proof -
  let ?r = "\<lparr>aj_id = 2, aj_queue_name = ''mail'', aj_payload = [2], aj_dispatch_id = Some ''b'', aj_created_at = 7, aj_updated_at = 8\<rparr>"
  have stale: "filter (is_stale 150) (executions (st_results purged_store)) =
      sample_exec 1 ''running'' 1 (Some 100) ''a'' None None # [sample_exec 2 ''running'' 1 (Some 100) ''b'' None None]"
    by (simp add: purged_store_def is_stale_def sample_exec_def)
  have "acc purged_store 1 = None" "acc purged_store 2 = Some ?r" by (simp_all add: acc_def purged_store_def row_by_def)
  with recovery_stops_at_purged_job [OF purged_store_wf fault_free_quiet stale, of "sample_exec 2 ''running'' 1 (Some 100) ''b'' None None" ?r "''b''"]
  show ?thesis by (auto simp: sample_exec_def set_failed_def)
qed

end
