(* ===== verification/Maq_Open.thy ===== *)
theory Maq_Open
  imports Maq_Main
begin

text \<open>
  Opening the store (\<open>common.rs\<close>, \<open>IngestHandle::open\<close>, \<open>ResultsHandle::open\<close> and \<open>SqliteStore::open\<close>): database files with
  their tables and indexes, the two schemas and their migration statement by statement, connections with their pragmas, the
  writer threads, the pool of read connections and the healing on open. The operating system and SQLite's own failures
  are a parameter (\<open>Sys\<close>). It is shown that a working machine gives the store that startup relies on, that a file never records a
  version without its whole schema, that read connections take turns, and that an interrupted migration makes a file unusable.
\<close>

section \<open>Database files\<close>

text \<open>
  A database file: the tables and indexes it has, in the order of their creation, the rows of \<open>schema_version\<close>, and the rows of
  the tables of either schema. A file that was just created has nothing.
\<close>

datatype DbObject = Table string | Index string

record DbFile =
  df_objects :: "DbObject list"
  df_versions :: "int list"
  df_ingest :: IngestDb
  df_results :: ResultsDb

definition DbFile_new :: DbFile where
  "DbFile_new = \<lparr>df_objects = [], df_versions = [], df_ingest = IngestDb_empty, df_results = ResultsDb_empty\<rparr>"

type_synonym Disk = "string \<rightharpoonup> DbFile"

text \<open>
  The statements of the schemas: \<open>CREATE TABLE\<close> with or without \<open>IF NOT EXISTS\<close> and \<open>CREATE INDEX\<close> on a table. Creating what is
  there is an error unless the statement says otherwise, and so is an index on a missing table. Columns are those of the rows.
\<close>

datatype Ddl = CreateTable bool string | CreateIndex string string

fun run_ddl :: "Ddl \<Rightarrow> DbObject list \<Rightarrow> string + DbObject list" where
  "run_ddl (CreateTable if_not_exists name) objects =
     (if Table name \<in> set objects then if if_not_exists then Inr objects else Inl (''table '' @ name @ '' already exists'')
      else if Index name \<in> set objects then Inl (''there is already an index named '' @ name)
      else Inr (objects @ [Table name]))"
| "run_ddl (CreateIndex name table) objects =
     (if Table table \<notin> set objects then Inl (''no such table: main.'' @ table)
      else if Table name \<in> set objects then Inl (''there is already a table named '' @ name)
      else if Index name \<in> set objects then Inl (''index '' @ name @ '' already exists'')
      else Inr (objects @ [Index name]))"

text \<open>
  A batch runs outside a transaction: every statement commits by itself, and the first failure ends the batch. \<open>io n\<close> is the
  failure of the \<open>n\<close>-th statement for reasons of its own (the disk is full, another process holds the lock, the process ends).
\<close>

fun execute_batch :: "(nat \<Rightarrow> string option) \<Rightarrow> Ddl list \<Rightarrow> DbObject list \<Rightarrow> (StoreError + unit) \<times> DbObject list" where
  "execute_batch io [] objects = (Inr (), objects)"
| "execute_batch io (s # ss) objects =
     (case io 0 of
        Some e \<Rightarrow> (Inl (Internal e), objects)
      | None \<Rightarrow>
          (case run_ddl s objects of
             Inl e \<Rightarrow> (Inl (Internal e), objects)
           | Inr objects' \<Rightarrow> execute_batch (\<lambda>n. io (Suc n)) ss objects'))"

section \<open>The schemas\<close>

definition SCHEMA_VERSION :: int where
  "SCHEMA_VERSION = 1"

definition acceptance_schema :: "Ddl list" where
  "acceptance_schema =
     [CreateTable True ''meta'', CreateIndex ''idx_meta_key'' ''meta'', CreateTable False ''job_queues'',
      CreateTable False ''accepted_jobs'', CreateIndex ''idx_accepted_jobs_queue_available'' ''accepted_jobs'']"

definition executions_schema :: "Ddl list" where
  "executions_schema =
     [CreateTable False ''execution_queues'', CreateTable False ''executions'',
      CreateIndex ''idx_executions_job_id'' ''executions'', CreateIndex ''idx_executions_stale_leases'' ''executions'']"

definition apply_acceptance_schema :: "(nat \<Rightarrow> string option) \<Rightarrow> DbObject list \<Rightarrow> (StoreError + unit) \<times> DbObject list" where
  "apply_acceptance_schema io objects = execute_batch io acceptance_schema objects"

definition apply_executions_schema :: "(nat \<Rightarrow> string option) \<Rightarrow> DbObject list \<Rightarrow> (StoreError + unit) \<times> DbObject list" where
  "apply_executions_schema io objects = execute_batch io executions_schema objects"

text \<open>
  The first row of \<open>schema_version\<close>, -1 when there is none; a number that is no \<open>i32\<close> is a conversion error. The advice at the
  end of the message about another version is left out.
\<close>

definition stored_version :: "string option \<Rightarrow> DbFile \<Rightarrow> StoreError + int" where
  "stored_version io f =
     (case io of
        Some e \<Rightarrow> Inl (Internal e)
      | None \<Rightarrow>
          (case df_versions f of
             [] \<Rightarrow> Inr (-1)
           | v # _ \<Rightarrow>
               if - (2 ^ 31) \<le> v \<and> v < 2 ^ 31 then Inr v
               else Inl (Internal (''Integer '' @ show_int v @ '' out of range at index 0''))))"

definition migrate_schema ::
  "(nat \<Rightarrow> string option) \<Rightarrow> ((nat \<Rightarrow> string option) \<Rightarrow> DbObject list \<Rightarrow> (StoreError + unit) \<times> DbObject list)
     \<Rightarrow> DbFile \<Rightarrow> (StoreError + unit) \<times> DbFile" where
  "migrate_schema io apply_schema f =
     (let (r0, objects0) = execute_batch io [CreateTable True ''schema_version''] (df_objects f); f0 = f\<lparr>df_objects := objects0\<rparr> in
      case r0 of Inl e \<Rightarrow> (Inl e, f0) | Inr _ \<Rightarrow>
      (case stored_version (io 1) f0 of Inl e \<Rightarrow> (Inl e, f0) | Inr version \<Rightarrow>
       if version = -1 then
         let (r1, objects1) = apply_schema (\<lambda>n. io (4 + n)) objects0; f1 = f0\<lparr>df_objects := objects1\<rparr> in
         case r1 of Inl e \<Rightarrow> (Inl e, f1) | Inr _ \<Rightarrow>
         (case io 2 of Some e \<Rightarrow> (Inl (Internal e), f1) | None \<Rightarrow>
          let f2 = f1\<lparr>df_versions := []\<rparr> in
          (case io 3 of Some e \<Rightarrow> (Inl (Internal e), f2) | None \<Rightarrow> (Inr (), f2\<lparr>df_versions := [SCHEMA_VERSION]\<rparr>)))
       else if version \<noteq> SCHEMA_VERSION then
         (Inl (Internal (''unsupported database schema version '' @ show_int version @ ''; expected '' @ show_int SCHEMA_VERSION)), f0)
       else (Inr (), f0)))"

section \<open>Connections\<close>

text \<open>
  What opening asks of the operating system and of SQLite, with the failure of every call: directories, files, busy timeouts,
  pragmas, the statements on a file (by number) and the start of the writer threads. Paths are equal when their texts are.
\<close>

datatype ThreadStart = SpawnError string | StartPanicked | RuntimeError string | ThreadStarted

record Sys =
  sys_create_dir_all :: "string \<Rightarrow> string option"
  sys_open :: "string \<Rightarrow> string option"
  sys_open_read_only :: "string \<Rightarrow> nat \<Rightarrow> string option"
  sys_busy_timeout :: "string \<Rightarrow> string option"
  sys_pragma :: "string \<Rightarrow> string \<Rightarrow> string \<Rightarrow> string option"
  sys_statement :: "string \<Rightarrow> nat \<Rightarrow> string option"
  sys_thread :: "string \<Rightarrow> ThreadStart"

record Connection =
  cn_path :: string
  cn_busy_timeout_secs :: nat
  cn_pragmas :: "(string \<times> string) list"

fun pragma_updates :: "Sys \<Rightarrow> (string \<times> string) list \<Rightarrow> Connection \<Rightarrow> StoreError + Connection" where
  "pragma_updates Y [] conn = Inr conn"
| "pragma_updates Y ((name, value) # rest) conn =
     (case sys_pragma Y (cn_path conn) name value of
        Some e \<Rightarrow> Inl (Internal e)
      | None \<Rightarrow> pragma_updates Y rest (conn\<lparr>cn_pragmas := cn_pragmas conn @ [(name, value)]\<rparr>))"

text \<open>A connection on which only the path is set, with its busy timeout and pragmas.\<close>

definition configure :: "Sys \<Rightarrow> string \<Rightarrow> (string \<times> string) list \<Rightarrow> StoreError + Connection" where
  "configure Y path pragmas =
     (case sys_busy_timeout Y path of
        Some e \<Rightarrow> Inl (Internal e)
      | None \<Rightarrow> pragma_updates Y pragmas \<lparr>cn_path = path, cn_busy_timeout_secs = 5, cn_pragmas = []\<rparr>)"

fun synchronous :: "DurabilityMode \<Rightarrow> string" where
  "synchronous Balanced = ''NORMAL''"
| "synchronous Strict = ''FULL''"
| "synchronous DurabilityNone = ''OFF''"

definition rw_pragmas :: "DurabilityMode \<Rightarrow> (string \<times> string) list" where
  "rw_pragmas durability = [(''journal_mode'', ''WAL''), (''foreign_keys'', ''ON''), (''synchronous'', synchronous durability)]"

text \<open>\<open>RwConnection::open\<close>; opening a file that is not there creates it.\<close>

definition rw_open :: "Sys \<Rightarrow> string \<Rightarrow> DurabilityMode \<Rightarrow> Disk \<Rightarrow> (StoreError + Connection) \<times> Disk" where
  "rw_open Y path durability disk =
     (case (if parent_dir path = [] then None else sys_create_dir_all Y (parent_dir path)) of
        Some e \<Rightarrow> (Inl (Internal e), disk)
      | None \<Rightarrow>
          (case sys_open Y path of
             Some e \<Rightarrow> (Inl (Internal e), disk)
           | None \<Rightarrow>
               (configure Y path (rw_pragmas durability),
                case disk path of None \<Rightarrow> disk(path \<mapsto> DbFile_new) | Some _ \<Rightarrow> disk)))"

text \<open>The file of an open connection.\<close>

definition file_of :: "Disk \<Rightarrow> string \<Rightarrow> DbFile" where
  "file_of disk path = (case disk path of None \<Rightarrow> DbFile_new | Some f \<Rightarrow> f)"

text \<open>\<open>IngestConn::open\<close> and \<open>ResultsConn::open\<close>, for the schema of either.\<close>

definition conn_open ::
  "((nat \<Rightarrow> string option) \<Rightarrow> DbObject list \<Rightarrow> (StoreError + unit) \<times> DbObject list)
     \<Rightarrow> Sys \<Rightarrow> string \<Rightarrow> DurabilityMode \<Rightarrow> Disk \<Rightarrow> (StoreError + Connection) \<times> Disk" where
  "conn_open apply_schema Y path durability disk =
     (let (r, disk1) = rw_open Y path durability disk in
      case r of
        Inl e \<Rightarrow> (Inl e, disk1)
      | Inr conn \<Rightarrow>
          (let (m, f) = migrate_schema (sys_statement Y path) apply_schema (file_of disk1 path); disk2 = disk1(path \<mapsto> f) in
           case m of Inl e \<Rightarrow> (Inl e, disk2) | Inr _ \<Rightarrow> (Inr conn, disk2)))"

definition ingest_conn_open :: "Sys \<Rightarrow> string \<Rightarrow> DurabilityMode \<Rightarrow> Disk \<Rightarrow> (StoreError + Connection) \<times> Disk" where
  "ingest_conn_open Y path durability disk = conn_open apply_acceptance_schema Y path durability disk"

definition results_conn_open :: "Sys \<Rightarrow> string \<Rightarrow> DurabilityMode \<Rightarrow> Disk \<Rightarrow> (StoreError + Connection) \<times> Disk" where
  "results_conn_open Y path durability disk = conn_open apply_executions_schema Y path durability disk"

text \<open>A statement on a table that the file does not have fails.\<close>

definition on_table :: "string \<Rightarrow> DbFile \<Rightarrow> string option" where
  "on_table name f = (if Table name \<in> set (df_objects f) then None else Some (''no such table: '' @ name))"

definition conn_queue_names :: "Sys \<Rightarrow> string \<Rightarrow> Disk \<Rightarrow> StoreError + string set" where
  "conn_queue_names Y path disk =
     (case on_table ''job_queues'' (file_of disk path) of
        Some e \<Rightarrow> Inl (Internal e)
      | None \<Rightarrow>
          (case sys_statement Y path 9 of
             Some e \<Rightarrow> Inl (Internal e)
           | None \<Rightarrow> Inr (queue_names (df_ingest (file_of disk path)))))"

section \<open>The pool of read connections\<close>

text \<open>
  \<open>ReadPool\<close>: four connections used in turn, by a counter that wraps at the width of \<open>usize\<close>; the statements of the other
  schema are empty. A lock is poisoned when a task panicked while it held it.
\<close>

record ReadPool =
  rp_connections :: "Connection list"
  rp_poisoned :: "nat set"
  rp_next :: u64
  rp_accepted_job_sql :: string
  rp_execution_sql :: string
  rp_queue_sql :: string
  rp_queues_sql :: string

fun open_read_connections :: "Sys \<Rightarrow> string \<Rightarrow> nat \<Rightarrow> StoreError + Connection list" where
  "open_read_connections Y path 0 = Inr []"
| "open_read_connections Y path (Suc n) =
     (case sys_open_read_only Y path n of
        Some e \<Rightarrow> Inl (Internal e)
      | None \<Rightarrow>
          (case configure Y path [(''query_only'', ''ON'')] of
             Inl e \<Rightarrow> Inl e
           | Inr conn \<Rightarrow> (case open_read_connections Y path n of Inl e \<Rightarrow> Inl e | Inr rest \<Rightarrow> Inr (conn # rest))))"

definition open_with_sql :: "Sys \<Rightarrow> string \<Rightarrow> string \<Rightarrow> string \<Rightarrow> string \<Rightarrow> string \<Rightarrow> StoreError + ReadPool" where
  "open_with_sql Y path accepted_job_sql execution_sql queue_sql queues_sql =
     (case open_read_connections Y path 4 of
        Inl e \<Rightarrow> Inl e
      | Inr connections \<Rightarrow>
          Inr \<lparr>rp_connections = connections, rp_poisoned = {}, rp_next = 0, rp_accepted_job_sql = accepted_job_sql,
               rp_execution_sql = execution_sql, rp_queue_sql = queue_sql, rp_queues_sql = queues_sql\<rparr>)"

definition ACCEPTED_JOB_SELECT :: string where
  "ACCEPTED_JOB_SELECT = ''SELECT id, queue_name, payload, dispatch_id, created_at, updated_at FROM accepted_jobs''"

definition EXECUTION_SELECT :: string where
  "EXECUTION_SELECT = ''SELECT id, job_id, queue_name, status, execution_count, '' @
     ''lease_expires_at, dispatch_id, result_payload, result_error, created_at, updated_at '' @ ''FROM executions''"

definition open_ingest :: "Sys \<Rightarrow> string \<Rightarrow> StoreError + ReadPool" where
  "open_ingest Y path =
     open_with_sql Y path (ACCEPTED_JOB_SELECT @ '' WHERE id = ?1'') ''''
       ''SELECT name, max_retries, timeout_secs, created_at, updated_at FROM job_queues WHERE name = ?1''
       ''SELECT name, max_retries, timeout_secs, created_at, updated_at FROM job_queues ORDER BY name ASC''"

definition open_results :: "Sys \<Rightarrow> string \<Rightarrow> StoreError + ReadPool" where
  "open_results Y path = open_with_sql Y path '''' (EXECUTION_SELECT @ '' WHERE job_id = ?1'') '''' ''''"

text \<open>The next connection; \<open>joined\<close> is the failure of the blocking task, \<open>query\<close> what the statement returns on the committed rows.\<close>

definition pool_connection :: "ReadPool \<Rightarrow> nat \<times> ReadPool" where
  "pool_connection p = (unat (rp_next p) mod length (rp_connections p), p\<lparr>rp_next := rp_next p + 1\<rparr>)"

definition pool_run :: "string option \<Rightarrow> (StoreError + 'a) \<Rightarrow> ReadPool \<Rightarrow> (StoreError + 'a) \<times> ReadPool" where
  "pool_run joined query p =
     (let (index, p') = pool_connection p in
      (case joined of
         Some e \<Rightarrow> Inl (Internal e)
       | None \<Rightarrow> if index \<in> rp_poisoned p then Inl (Internal ''read connection poisoned'') else query, p'))"

definition pool_accepted_job ::
  "string option \<Rightarrow> string option \<Rightarrow> i64 \<Rightarrow> DbFile \<Rightarrow> ReadPool \<Rightarrow> (StoreError + AcceptedJob) \<times> ReadPool" where
  "pool_accepted_job joined io jid f p = pool_run joined (read_accepted_job io jid (df_ingest f)) p"

definition pool_execution ::
  "string option \<Rightarrow> string option \<Rightarrow> i64 \<Rightarrow> DbFile \<Rightarrow> ReadPool \<Rightarrow> (StoreError + Execution option) \<times> ReadPool" where
  "pool_execution joined io jid f p =
     (if rp_execution_sql p = [] then (Inr None, p) else pool_run joined (read_execution io jid (df_results f)) p)"

definition pool_queue ::
  "string option \<Rightarrow> string option \<Rightarrow> string \<Rightarrow> DbFile \<Rightarrow> ReadPool \<Rightarrow> (StoreError + JobQueue option) \<times> ReadPool" where
  "pool_queue joined io name f p =
     (if rp_queue_sql p = [] then (Inr None, p) else pool_run joined (read_queue io name (df_ingest f)) p)"

definition pool_queues ::
  "string option \<Rightarrow> string option \<Rightarrow> DbFile \<Rightarrow> ReadPool \<Rightarrow> (StoreError + JobQueue list) \<times> ReadPool" where
  "pool_queues joined io f p =
     (if rp_queues_sql p = [] then (Inr [], p) else pool_run joined (read_queues io (df_ingest f)) p)"

definition pool_meta ::
  "string option \<Rightarrow> string option \<Rightarrow> string \<Rightarrow> DbFile \<Rightarrow> ReadPool \<Rightarrow> (StoreError + string option) \<times> ReadPool" where
  "pool_meta joined io key f p = pool_run joined (read_meta io key (df_ingest f)) p"

section \<open>Handles and the store\<close>

text \<open>
  The start of a writer thread: the caller waits for its first message. A thread that panics before it sends one is reported
  as \<open>failed\<close>; the error of the runtime and of \<open>run\<close>, what the thread does first, are passed on.
\<close>

definition start_writer ::
  "Sys \<Rightarrow> string \<Rightarrow> string \<Rightarrow> (Disk \<Rightarrow> (StoreError + 'a) \<times> Disk) \<Rightarrow> Disk \<Rightarrow> (StoreError + 'a) \<times> Disk" where
  "start_writer Y name failed run disk =
     (case sys_thread Y name of
        SpawnError e \<Rightarrow> (Inl (Internal e), disk)
      | StartPanicked \<Rightarrow> (Inl (Internal failed), disk)
      | RuntimeError e \<Rightarrow> (Inl (Internal e), disk)
      | ThreadStarted \<Rightarrow> run disk)"

text \<open>A handle: the connection of the writer, the queue names it caches (of the ingest writer) and the read pool.\<close>

record Handle =
  hd_writer :: Connection
  hd_names :: "string set"
  hd_reads :: ReadPool

definition ingest_handle_open :: "Sys \<Rightarrow> string \<Rightarrow> SqliteWriteOptions \<Rightarrow> Disk \<Rightarrow> (StoreError + Handle) \<times> Disk" where
  "ingest_handle_open Y path options disk =
     (let (r, disk1) = start_writer Y ''maqistor-sqlite-ingest'' ''ingest writer failed to start''
            (\<lambda>d. let (r, d1) = ingest_conn_open Y path (swo_durability options) d in
                 (case r of
                    Inl e \<Rightarrow> Inl e
                  | Inr conn \<Rightarrow> (case conn_queue_names Y path d1 of Inl e \<Rightarrow> Inl e | Inr names \<Rightarrow> Inr (conn, names)), d1)) disk
      in case r of
           Inl e \<Rightarrow> (Inl e, disk1)
         | Inr (conn, names) \<Rightarrow>
             (case open_ingest Y path of
                Inl e \<Rightarrow> Inl e
              | Inr reads \<Rightarrow> Inr \<lparr>hd_writer = conn, hd_names = names, hd_reads = reads\<rparr>, disk1))"

definition results_handle_open :: "Sys \<Rightarrow> string \<Rightarrow> SqliteWriteOptions \<Rightarrow> Disk \<Rightarrow> (StoreError + Handle) \<times> Disk" where
  "results_handle_open Y path options disk =
     (let (r, disk1) = start_writer Y ''maqistor-sqlite-results'' ''results writer failed to start''
            (results_conn_open Y path (swo_durability options)) disk
      in case r of
           Inl e \<Rightarrow> (Inl e, disk1)
         | Inr conn \<Rightarrow>
             (case open_results Y path of
                Inl e \<Rightarrow> Inl e
              | Inr reads \<Rightarrow> Inr \<lparr>hd_writer = conn, hd_names = {}, hd_reads = reads\<rparr>, disk1))"

text \<open>\<open>heal_on_open\<close>: the healing of orphan claims, on two connections of its own.\<close>

definition heal_files :: "(nat \<Rightarrow> env) \<Rightarrow> string \<Rightarrow> string \<Rightarrow> Disk \<Rightarrow> (StoreError + unit) \<times> Disk" where
  "heal_files Es ingest_path results_path disk =
     (let f = file_of disk ingest_path; g = file_of disk results_path in
      case on_table ''accepted_jobs'' f of
        Some e \<Rightarrow> (Inl (Internal e), disk)
      | None \<Rightarrow>
          (case on_table ''executions'' g of
             Some e \<Rightarrow>
               (if env_io (Es 0) 0 = None \<and> list_all (\<lambda>r. aj_dispatch_id r = None) (accepted_jobs (df_ingest f)) then Inr ()
                else Inl (Internal (case env_io (Es 0) 0 of Some e0 \<Rightarrow> e0 | None \<Rightarrow> e)), disk)
           | None \<Rightarrow>
               (let (r, idb) = heal_orphan_claims Es (df_ingest f) (df_results g)
                in (r, disk(ingest_path \<mapsto> f\<lparr>df_ingest := idb\<rparr>)))))"

definition heal_on_open :: "Sys \<Rightarrow> (nat \<Rightarrow> env) \<Rightarrow> string \<Rightarrow> string \<Rightarrow> Disk \<Rightarrow> (StoreError + unit) \<times> Disk" where
  "heal_on_open Y Es ingest_path results_path disk =
     (let (r1, disk1) = rw_open Y ingest_path Balanced disk in
      case r1 of
        Inl e \<Rightarrow> (Inl e, disk1)
      | Inr _ \<Rightarrow>
          (let (r2, disk2) = rw_open Y results_path Balanced disk1 in
           case r2 of Inl e \<Rightarrow> (Inl e, disk2) | Inr _ \<Rightarrow> heal_files Es ingest_path results_path disk2))"

definition sqlite_open_pair ::
  "Sys \<Rightarrow> (nat \<Rightarrow> env) \<Rightarrow> string \<Rightarrow> string \<Rightarrow> SqliteWriteOptions \<Rightarrow> Disk \<Rightarrow> (StoreError + Handle \<times> Handle) \<times> Disk" where
  "sqlite_open_pair Y Es ingest_path results_path options disk =
     (case SqliteWriteOptions_validate options of
        Inl e \<Rightarrow> (Inl (Internal e), disk)
      | Inr _ \<Rightarrow>
          (let (r1, disk1) = ingest_handle_open Y ingest_path options disk in
           case r1 of
             Inl e \<Rightarrow> (Inl e, disk1)
           | Inr ingest \<Rightarrow>
               (let (r2, disk2) = results_handle_open Y results_path options disk1 in
                case r2 of
                  Inl e \<Rightarrow> (Inl e, disk2)
                | Inr results \<Rightarrow>
                    (let (r3, disk3) = heal_on_open Y Es ingest_path results_path disk2 in
                     case r3 of Inl e \<Rightarrow> (Inl e, disk3) | Inr _ \<Rightarrow> (Inr (ingest, results), disk3)))))"

text \<open>\<open>SqliteStore::open_with_options\<close> and \<open>SqliteStore::open\<close>.\<close>

definition sqlite_open_with_options ::
  "Sys \<Rightarrow> (nat \<Rightarrow> env) \<Rightarrow> string \<Rightarrow> SqliteWriteOptions \<Rightarrow> Disk \<Rightarrow> (StoreError + Handle \<times> Handle) \<times> Disk" where
  "sqlite_open_with_options Y Es ingest_path options disk =
     sqlite_open_pair Y Es ingest_path (default_results_path ingest_path) options disk"

definition sqlite_open :: "Sys \<Rightarrow> (nat \<Rightarrow> env) \<Rightarrow> string \<Rightarrow> Disk \<Rightarrow> (StoreError + Handle \<times> Handle) \<times> Disk" where
  "sqlite_open Y Es ingest_path disk = sqlite_open_with_options Y Es ingest_path SqliteWriteOptions_default disk"

text \<open>The store behind two handles.\<close>

definition store_on :: "string \<Rightarrow> string \<Rightarrow> Handle \<Rightarrow> Disk \<Rightarrow> Store" where
  "store_on ingest_path results_path ingest disk =
     \<lparr>st_ingest = df_ingest (file_of disk ingest_path), st_names = hd_names ingest,
      st_results = df_results (file_of disk results_path)\<rparr>"

section \<open>Batches and migrations\<close>

fun ddl_object :: "Ddl \<Rightarrow> DbObject" where
  "ddl_object (CreateTable _ name) = Table name"
| "ddl_object (CreateIndex name _) = Index name"

text \<open>Statements that fail when their object is there.\<close>

fun strict :: "Ddl \<Rightarrow> bool" where
  "strict (CreateTable if_not_exists _) = (\<not> if_not_exists)"
| "strict (CreateIndex _ _) = True"

lemma run_ddl_ok:
  assumes "run_ddl s objects = Inr objects'"
  shows "set objects' = insert (ddl_object s) (set objects)"
  using assms by (cases s) (auto split: if_splits)

lemma run_ddl_strict: "strict s \<Longrightarrow> ddl_object s \<in> set objects \<Longrightarrow> run_ddl s objects \<noteq> Inr objects'"
  by (cases s) auto

lemma execute_batch_grows: "set objects \<subseteq> set (snd (execute_batch io ss objects))"
proof (induction ss arbitrary: io objects)
  case (Cons s ss)
  show ?case
  proof (cases "run_ddl s objects")
    case (Inr objects')
    with Cons.IH [of objects' "\<lambda>n. io (Suc n)"] run_ddl_ok [OF Inr] show ?thesis by (auto split: option.split)
  qed (simp split: option.split)
qed simp

lemma execute_batch_only: "set (snd (execute_batch io ss objects)) \<subseteq> set objects \<union> ddl_object ` set ss"
proof (induction ss arbitrary: io objects)
  case (Cons s ss)
  show ?case
  proof (cases "run_ddl s objects")
    case (Inr objects')
    with Cons.IH [of "\<lambda>n. io (Suc n)" objects'] run_ddl_ok [OF Inr] show ?thesis by (auto split: option.split)
  qed (auto split: option.split)
qed simp

lemma execute_batch_complete:
  "execute_batch io ss objects = (Inr (), objects') \<Longrightarrow> ddl_object ` set ss \<subseteq> set objects'"
proof (induction ss arbitrary: io objects)
  case (Cons s ss)
  from Cons.prems obtain o1 where o1: "run_ddl s objects = Inr o1" "execute_batch (\<lambda>n. io (Suc n)) ss o1 = (Inr (), objects')"
    by (auto split: option.splits sum.splits)
  then show ?case
    using Cons.IH [OF o1(2)] run_ddl_ok [OF o1(1)] execute_batch_grows [of o1 "\<lambda>n. io (Suc n)" ss] by auto
qed simp

lemmas execute_batch_creates = execute_batch_complete [THEN subsetD, OF _ imageI]

text \<open>A batch cannot pass a statement whose object is there already.\<close>

lemma execute_batch_stuck:
  "s \<in> set ss \<Longrightarrow> strict s \<Longrightarrow> ddl_object s \<in> set objects \<Longrightarrow> \<exists>e. fst (execute_batch io ss objects) = Inl e"
proof (induction ss arbitrary: io objects)
  case (Cons x ss)
  show ?case
  proof (cases "run_ddl x objects")
    case (Inr o1)
    with Cons.prems run_ddl_strict have "s \<in> set ss" by force
    with Cons.IH [of o1 "\<lambda>n. io (Suc n)"] Cons.prems(2,3) run_ddl_ok [OF Inr] show ?thesis
      by (auto simp: Inr split: option.split)
  qed (auto split: option.split)
qed simp

text \<open>
  A file is sound for a schema when a version is recorded only if everything the schema creates is there; \<open>ready\<close> is a sound
  file of the current version.
\<close>

definition unset :: "DbFile \<Rightarrow> bool" where
  "unset f \<longleftrightarrow> (case df_versions f of [] \<Rightarrow> True | v # _ \<Rightarrow> v = -1)"

definition has_schema :: "Ddl list \<Rightarrow> DbFile \<Rightarrow> bool" where
  "has_schema schema f \<longleftrightarrow> ddl_object ` set schema \<subseteq> set (df_objects f)"

definition sound_file :: "Ddl list \<Rightarrow> DbFile \<Rightarrow> bool" where
  "sound_file schema f \<longleftrightarrow> unset f \<or> has_schema schema f"

definition ready :: "Ddl list \<Rightarrow> DbFile \<Rightarrow> bool" where
  "ready schema f \<longleftrightarrow> (\<exists>rest. df_versions f = SCHEMA_VERSION # rest) \<and> has_schema schema f"

lemma ready_sound: "ready schema f \<Longrightarrow> sound_file schema f"
  by (simp add: ready_def sound_file_def)

lemma new_file_sound [simp]: "sound_file schema DbFile_new" "unset DbFile_new"
  by (simp_all add: sound_file_def DbFile_new_def unset_def)

lemma stored_version_unset: "stored_version None f = Inr (-1) \<longleftrightarrow> unset f"
  by (auto simp: stored_version_def unset_def split: list.split)

lemma stored_version_current: "stored_version None f = Inr SCHEMA_VERSION \<longleftrightarrow> (\<exists>rest. df_versions f = SCHEMA_VERSION # rest)"
  by (auto simp: stored_version_def SCHEMA_VERSION_def split: list.split)

text \<open>What a migration can do: stop before the schema, stop within or after it, finish, or find a current file.\<close>

lemma migrate_schema_cases:
  assumes "migrate_schema io (\<lambda>io. execute_batch io schema) f = (r, f')"
  obtains (stopped) e objects where "r = Inl e" "f' = f\<lparr>df_objects := objects\<rparr>" "set (df_objects f) \<subseteq> set objects"
      "set objects \<subseteq> insert (Table ''schema_version'') (set (df_objects f))"
    | (partly) e objects where "r = Inl e" "unset f" "unset f'" "set (df_objects f) \<subseteq> set objects"
      "set objects \<subseteq> insert (Table ''schema_version'') (set (df_objects f))"
      "df_objects f' = snd (execute_batch (\<lambda>n. io (4 + n)) schema objects)" "df_ingest f' = df_ingest f" "df_results f' = df_results f"
    | (migrated) objects where "r = Inr ()" "unset f" "df_versions f' = [SCHEMA_VERSION]" "set (df_objects f) \<subseteq> set objects"
      "set objects \<subseteq> insert (Table ''schema_version'') (set (df_objects f))"
      "execute_batch (\<lambda>n. io (4 + n)) schema objects = (Inr (), df_objects f')" "df_ingest f' = df_ingest f" "df_results f' = df_results f"
    | (current) objects where "r = Inr ()" "f' = f\<lparr>df_objects := objects\<rparr>" "set (df_objects f) \<subseteq> set objects"
      "set objects \<subseteq> insert (Table ''schema_version'') (set (df_objects f))"
      "\<exists>rest. df_versions f = SCHEMA_VERSION # rest"
proof -
  obtain r0 o0 where b0: "execute_batch io [CreateTable True ''schema_version''] (df_objects f) = (r0, o0)" by force
  obtain r1 o1 where b1: "execute_batch (\<lambda>n. io (4 + n)) schema o0 = (r1, o1)" by force
  have sub: "set (df_objects f) \<subseteq> set o0" using execute_batch_grows [of "df_objects f" io] b0 by (metis snd_conv)
  have only: "set o0 \<subseteq> insert (Table ''schema_version'') (set (df_objects f))"
    using execute_batch_only [of io "[CreateTable True ''schema_version'']" "df_objects f"] b0 by simp
  let ?f0 = "f\<lparr>df_objects := o0\<rparr>"
  note m = assms [unfolded migrate_schema_def, simplified b0 b1 Let_def prod.case]
  have u: "unset ?f0 = unset f" "unset (f\<lparr>df_objects := o1\<rparr>) = unset f" "unset (f\<lparr>df_objects := o1, df_versions := []\<rparr>)"
    by (simp_all add: unset_def)
  show thesis
  proof (cases "r0 = Inr () \<and> stored_version (io 1) ?f0 = Inr (-1)")
    case True
    then have "unset f" using stored_version_unset [of ?f0] u(1) by (auto simp: stored_version_def split: option.splits)
    with True m sub only b1 u show thesis
      by (cases r1; cases "io 2"; cases "io 3") (auto intro: partly migrated)
  next
    case False
    then show thesis
      using m sub only stored_version_current [of ?f0]
      by (auto simp: stored_version_def split: sum.splits if_splits option.splits intro: stopped current)
  qed
qed

lemma migrate_schema_keeps:
  assumes m: "migrate_schema io (\<lambda>io. execute_batch io schema) f = (r, f')"
  shows "sound_file schema f \<Longrightarrow> sound_file schema f'" "r = Inr () \<Longrightarrow> sound_file schema f \<Longrightarrow> ready schema f'"
    "df_ingest f' = df_ingest f" "df_results f' = df_results f" "set (df_objects f) \<subseteq> set (df_objects f')"
proof -
  show "set (df_objects f) \<subseteq> set (df_objects f')"
    using m
  proof (cases rule: migrate_schema_cases)
    case (partly e objects)
    then show ?thesis using execute_batch_grows [of objects "\<lambda>n. io (4 + n)" schema] by simp
  next
    case (migrated objects)
    then show ?thesis using execute_batch_grows [of objects "\<lambda>n. io (4 + n)" schema] by simp
  qed simp_all
  note grow = this
  show "sound_file schema f'" if "sound_file schema f"
    using m that grow by (cases rule: migrate_schema_cases)
      (auto simp: sound_file_def has_schema_def unset_def dest: execute_batch_creates)
  show "ready schema f'" if "r = Inr ()" "sound_file schema f"
    using m that grow by (cases rule: migrate_schema_cases)
      (auto simp: sound_file_def ready_def has_schema_def unset_def SCHEMA_VERSION_def dest: execute_batch_creates)
  show "df_ingest f' = df_ingest f" using m by (cases rule: migrate_schema_cases) auto
  show "df_results f' = df_results f" using m by (cases rule: migrate_schema_cases) auto
qed

text \<open>A file without failures: a new one gets the schema, a current one is left alone.\<close>

lemma migrate_current:
  assumes "ready schema f" and "\<And>n. io n = None" and "Index ''schema_version'' \<notin> set (df_objects f)"
  shows "fst (migrate_schema io apply_schema f) = Inr ()"
  using assms stored_version_current [of "f\<lparr>df_objects := df_objects f @ [Table ''schema_version'']\<rparr>"] stored_version_current [of f]
  by (auto simp: migrate_schema_def ready_def SCHEMA_VERSION_def)

lemma bare_objects:
  assumes "set objects \<subseteq> {Table ''schema_version''}"
  shows "Index i \<notin> set objects" "n \<noteq> ''schema_version'' \<Longrightarrow> Table n \<notin> set objects"
  using assms by auto

lemma acceptance_schema_new:
  assumes "\<And>n. io n = None" and "set objects \<subseteq> {Table ''schema_version''}"
  shows "execute_batch io acceptance_schema objects = (Inr (), objects @ map ddl_object acceptance_schema)"
  using assms(1) bare_objects [OF assms(2)] by (simp add: acceptance_schema_def)

lemma executions_schema_new:
  assumes "\<And>n. io n = None" and "set objects \<subseteq> {Table ''schema_version''}"
  shows "execute_batch io executions_schema objects = (Inr (), objects @ map ddl_object executions_schema)"
  using assms(1) bare_objects [OF assms(2)] by (simp add: executions_schema_def)

lemma migrate_new:
  assumes "\<And>n. io n = None" and "unset f" and "set (df_objects f) \<subseteq> {Table ''schema_version''}"
    and "\<And>objects. set objects \<subseteq> {Table ''schema_version''} \<Longrightarrow> fst (execute_batch (\<lambda>n. io (4 + n)) schema objects) = Inr ()"
  shows "fst (migrate_schema io (\<lambda>io. execute_batch io schema) f) = Inr ()"
proof -
  obtain o0 where b0: "execute_batch io [CreateTable True ''schema_version''] (df_objects f) = (Inr (), o0)"
      "set o0 \<subseteq> {Table ''schema_version''}"
    using assms(1,3) bare_objects [OF assms(3)] by (cases "Table ''schema_version'' \<in> set (df_objects f)") auto
  obtain o1 where b1: "execute_batch (\<lambda>n. io (4 + n)) schema o0 = (Inr (), o1)" using assms(4) [OF b0(2)] by (metis prod.collapse)
  have "stored_version None (f\<lparr>df_objects := o0\<rparr>) = Inr (-1)"
    unfolding stored_version_unset using assms(2) by (simp add: unset_def)
  then show ?thesis using b0(1) b1 assms(1) by (simp add: migrate_schema_def del: execute_batch.simps)
qed

section \<open>An interrupted migration\<close>

text \<open>A file in which a part of the schema was created and no version recorded.\<close>

definition half_migrated :: "Ddl list \<Rightarrow> DbFile \<Rightarrow> bool" where
  "half_migrated schema f \<longleftrightarrow> unset f \<and> (\<exists>s \<in> set schema. strict s \<and> ddl_object s \<in> set (df_objects f))"

lemma half_migrated_stays:
  assumes "half_migrated schema f" and m: "migrate_schema io (\<lambda>io. execute_batch io schema) f = (r, f')"
  shows "\<exists>e. r = Inl e" "half_migrated schema f'"
proof -
  from assms(1) obtain s where s: "s \<in> set schema" "strict s" "ddl_object s \<in> set (df_objects f)" and u: "unset f"
    by (auto simp: half_migrated_def)
  note grow = migrate_schema_keeps(5) [OF m]
  show "\<exists>e. r = Inl e"
    using m
  proof (cases rule: migrate_schema_cases)
    case (migrated objects)
    then show ?thesis using execute_batch_stuck [OF s(1,2), of objects "\<lambda>n. io (4 + n)"] s(3) by auto
  next
    case (current objects)
    then show ?thesis using u by (auto simp: unset_def SCHEMA_VERSION_def)
  qed auto
  with m have "unset f'" using u by (cases rule: migrate_schema_cases) (auto simp: unset_def)
  then show "half_migrated schema f'" using s grow by (auto simp: half_migrated_def)
qed

lemma half_migrated_open:
  assumes "half_migrated schema (file_of disk path)" and "disk path \<noteq> None"
    and c: "conn_open (\<lambda>io. execute_batch io schema) Y path durability disk = (r, disk')"
  shows "\<exists>e. r = Inl e" "half_migrated schema (file_of disk' path)" "disk' path \<noteq> None"
proof -
  obtain r0 d0 where o: "rw_open Y path durability disk = (r0, d0)" by force
  have d0: "d0 = disk" using o assms(2) by (auto simp: rw_open_def split: option.splits if_splits)
  obtain m f where m: "migrate_schema (sys_statement Y path) (\<lambda>io. execute_batch io schema) (file_of disk path) = (m, f)" by force
  note stuck = half_migrated_stays [OF assms(1) m]
  have "(\<exists>e. r = Inl e) \<and> half_migrated schema (file_of disk' path) \<and> disk' path \<noteq> None"
    using c stuck assms(1,2) by (cases r0) (auto simp: conn_open_def o d0 m file_of_def [of "disk(_ \<mapsto> _)"])
  then show "\<exists>e. r = Inl e" "half_migrated schema (file_of disk' path)" "disk' path \<noteq> None" by auto
qed

text \<open>The results of opening a file again and again, each time under another environment.\<close>

fun reopen ::
  "((nat \<Rightarrow> string option) \<Rightarrow> DbObject list \<Rightarrow> (StoreError + unit) \<times> DbObject list)
     \<Rightarrow> string \<Rightarrow> (Sys \<times> DurabilityMode) list \<Rightarrow> Disk \<Rightarrow> (StoreError + Connection) list" where
  "reopen apply_schema path [] disk = []"
| "reopen apply_schema path ((Y, durability) # rest) disk =
     (let (r, disk') = conn_open apply_schema Y path durability disk in r # reopen apply_schema path rest disk')"

lemma half_migrated_reopen:
  "half_migrated schema (file_of disk path) \<Longrightarrow> disk path \<noteq> None \<Longrightarrow>
     list_all (\<lambda>r. \<exists>e. r = Inl e) (reopen (\<lambda>io. execute_batch io schema) path runs disk)"
proof (induction runs arbitrary: disk)
  case (Cons run runs)
  obtain Y durability where run: "run = (Y, durability)" by (rule prod.exhaust)
  obtain r disk' where c: "conn_open (\<lambda>io. execute_batch io schema) Y path durability disk = (r, disk')" by force
  from half_migrated_open [OF Cons.prems c] Cons.IH [of disk'] show ?case by (simp add: run c)
qed simp

text \<open>No call of the machine fails.\<close>

definition working :: "Sys \<Rightarrow> bool" where
  "working Y \<longleftrightarrow>
     (\<forall>p. sys_create_dir_all Y p = None \<and> sys_open Y p = None \<and> sys_busy_timeout Y p = None \<and>
          (\<forall>n. sys_open_read_only Y p n = None) \<and> (\<forall>n v. sys_pragma Y p n v = None) \<and> (\<forall>n. sys_statement Y p n = None)) \<and>
     (\<forall>t. sys_thread Y t = ThreadStarted)"

lemma workingD [simp]:
  assumes "working Y"
  shows "sys_create_dir_all Y p = None" "sys_open Y p = None" "sys_busy_timeout Y p = None" "sys_open_read_only Y p n = None"
    "sys_pragma Y p k v = None" "sys_statement Y p n = None" "sys_thread Y t = ThreadStarted"
  using assms by (simp_all add: working_def)

text \<open>A file that this program can open: new, or migrated to the schema.\<close>

definition openable :: "Ddl list \<Rightarrow> DbFile \<Rightarrow> bool" where
  "openable schema f \<longleftrightarrow> (unset f \<and> set (df_objects f) \<subseteq> {Table ''schema_version''}) \<or>
     (ready schema f \<and> Index ''schema_version'' \<notin> set (df_objects f))"

lemma rw_open_working:
  assumes "working Y"
  shows "rw_open Y path durability disk =
    (Inr \<lparr>cn_path = path, cn_busy_timeout_secs = 5, cn_pragmas = rw_pragmas durability\<rparr>, disk(path \<mapsto> file_of disk path))"
  using assms by (auto simp: rw_open_def configure_def rw_pragmas_def file_of_def split: option.split)

text \<open>
  What opening needs to know about a schema: on a file without objects of its own it can be applied, after two statements there
  is an object that cannot be created again, and it leaves the name of the version table alone.
\<close>

locale db_schema =
  fixes schema :: "Ddl list"
  assumes applies: "(\<And>n. io n = None) \<Longrightarrow> set objects \<subseteq> {Table ''schema_version''} \<Longrightarrow> fst (execute_batch io schema objects) = Inr ()"
    and starts: "io 0 = None \<Longrightarrow> io (Suc 0) = None \<Longrightarrow> set objects \<subseteq> {Table ''schema_version''} \<Longrightarrow>
      \<exists>s \<in> set schema. strict s \<and> ddl_object s \<in> set (snd (execute_batch io schema objects))"
    and names: "Index ''schema_version'' \<notin> ddl_object ` set schema"
begin

lemma new_file_half_migrated:
  assumes io: "io 0 = None" "io 1 = None" "io 4 = None" "io 5 = None"
    and m: "migrate_schema io (\<lambda>io. execute_batch io schema) DbFile_new = (Inl e, f')"
  shows "half_migrated schema f'"
proof -
  obtain r o1 where b: "execute_batch (\<lambda>n. io (4 + n)) schema [Table ''schema_version''] = (r, o1)" by force
  have s: "\<exists>s \<in> set schema. strict s \<and> ddl_object s \<in> set o1"
    using starts [of "\<lambda>n. io (4 + n)" "[Table ''schema_version'']"] io b by simp
  have "migrate_schema io (\<lambda>io. execute_batch io schema) DbFile_new =
      (let f1 = DbFile_new\<lparr>df_objects := o1\<rparr> in
       case r of Inl e \<Rightarrow> (Inl e, f1) | Inr _ \<Rightarrow>
       (case io 2 of Some e \<Rightarrow> (Inl (Internal e), f1) | None \<Rightarrow>
        let f2 = f1\<lparr>df_versions := []\<rparr> in
        (case io 3 of Some e \<Rightarrow> (Inl (Internal e), f2) | None \<Rightarrow> (Inr (), f2\<lparr>df_versions := [SCHEMA_VERSION]\<rparr>))))"
    using io b by (simp add: migrate_schema_def DbFile_new_def stored_version_def Let_def)
  with m have "df_objects f' = o1 \<and> df_versions f' = []"
    by (auto simp: Let_def DbFile_new_def split: sum.splits option.splits)
  then show ?thesis using s by (simp add: half_migrated_def unset_def)
qed

lemma interrupted_open:
  assumes new: "disk path = None" and connected: "fst (rw_open Y path durability disk) = Inr conn"
    and started: "list_all (\<lambda>n. sys_statement Y path n = None) [0, 1, 4, 5]"
    and failed: "conn_open (\<lambda>io. execute_batch io schema) Y path durability disk = (Inl e, disk')"
  shows "list_all (\<lambda>r. \<exists>e. r = Inl e) (reopen (\<lambda>io. execute_batch io schema) path runs disk')"
proof -
  have op: "rw_open Y path durability disk = (Inr conn, disk(path \<mapsto> DbFile_new))"
    using connected new by (auto simp: rw_open_def split: option.splits if_splits)
  obtain m f where m: "migrate_schema (sys_statement Y path) (\<lambda>io. execute_batch io schema) DbFile_new = (m, f)" by force
  have "m = Inl e \<and> disk' = disk(path \<mapsto> f)"
    using failed by (cases m) (auto simp: conn_open_def op m file_of_def Let_def)
  with m new_file_half_migrated [of "sys_statement Y path" e f] started
  have "half_migrated schema (file_of disk' path)" "disk' path \<noteq> None" by (simp_all add: file_of_def)
  then show ?thesis by (rule half_migrated_reopen)
qed

lemma migrate_openable:
  assumes io: "\<And>n. io n = None" and f: "openable schema f"
  obtains f' where "migrate_schema io (\<lambda>io. execute_batch io schema) f = (Inr (), f')" "ready schema f'" "openable schema f'"
    "df_ingest f' = df_ingest f" "df_results f' = df_results f"
proof -
  obtain r f' where m: "migrate_schema io (\<lambda>io. execute_batch io schema) f = (r, f')" by force
  have "fst (migrate_schema io (\<lambda>io. execute_batch io schema) f) = Inr ()"
  proof (cases "ready schema f \<and> Index ''schema_version'' \<notin> set (df_objects f)")
    case True
    then show ?thesis using migrate_current [where io = io, OF _ io] by blast
  next
    case False
    then have "unset f" "set (df_objects f) \<subseteq> {Table ''schema_version''}" using f by (auto simp: openable_def)
    then show ?thesis by (intro migrate_new applies io)
  qed
  then have r: "r = Inr ()" using m by simp
  have s: "sound_file schema f" using f by (auto simp: openable_def sound_file_def ready_def)
  note ready = migrate_schema_keeps(2) [OF m r s]
  have nx: "Index ''schema_version'' \<notin> set (df_objects f)" using f by (auto simp: openable_def)
  have "Index ''schema_version'' \<notin> set (df_objects f')"
    using m
  proof (cases rule: migrate_schema_cases)
    case (migrated objects)
    then show ?thesis
      using nx names execute_batch_only [of "\<lambda>n. io (4 + n)" schema objects] by auto
  qed (use nx r in auto)
  then show thesis using that m r ready migrate_schema_keeps(3,4) [OF m] by (simp add: openable_def)
qed

lemma conn_open_working:
  assumes w: "working Y" and f: "openable schema (file_of disk path)"
  obtains f conn where "conn_open (\<lambda>io. execute_batch io schema) Y path durability disk = (Inr conn, disk(path \<mapsto> f))"
    "ready schema f" "openable schema f" "df_ingest f = df_ingest (file_of disk path)" "df_results f = df_results (file_of disk path)"
    "conn = \<lparr>cn_path = path, cn_busy_timeout_secs = 5, cn_pragmas = rw_pragmas durability\<rparr>"
proof -
  from migrate_openable [OF _ f, of "sys_statement Y path"] w obtain f where
    m: "migrate_schema (sys_statement Y path) (\<lambda>io. execute_batch io schema) (file_of disk path) = (Inr (), f)"
      "ready schema f" "openable schema f" "df_ingest f = df_ingest (file_of disk path)" "df_results f = df_results (file_of disk path)"
    by auto
  have "file_of (disk(path \<mapsto> file_of disk path)) path = file_of disk path" by (simp add: file_of_def)
  with m(1) rw_open_working [OF w] that [OF _ m(2-5) refl] show thesis by (simp add: conn_open_def)
qed

end

interpretation acceptance_db: db_schema acceptance_schema
proof
  fix io :: "nat \<Rightarrow> string option" and objects
  assume bare: "set objects \<subseteq> {Table ''schema_version''}"
  show "fst (execute_batch io acceptance_schema objects) = Inr ()" if "\<And>n. io n = None"
    using acceptance_schema_new [OF that bare] by simp
  assume io: "io 0 = None" "io (Suc 0) = None"
  have "Index ''idx_meta_key'' \<in> set (snd (execute_batch io acceptance_schema objects))"
    using io bare_objects [OF bare]
      execute_batch_grows [of "objects @ [Table ''meta'', Index ''idx_meta_key'']" "\<lambda>n. io (Suc (Suc n))" "drop 2 acceptance_schema"]
    by (simp add: acceptance_schema_def del: execute_batch.simps(2)) (simp add: execute_batch.simps(2) [of io] execute_batch.simps(2) [of "\<lambda>n. io (Suc n)"])
  then show "\<exists>s \<in> set acceptance_schema. strict s \<and> ddl_object s \<in> set (snd (execute_batch io acceptance_schema objects))"
    by (intro bexI [of _ "CreateIndex ''idx_meta_key'' ''meta''"]) (simp_all add: acceptance_schema_def)
qed (auto simp: acceptance_schema_def)

interpretation executions_db: db_schema executions_schema
proof
  fix io :: "nat \<Rightarrow> string option" and objects
  assume bare: "set objects \<subseteq> {Table ''schema_version''}"
  show "fst (execute_batch io executions_schema objects) = Inr ()" if "\<And>n. io n = None"
    using executions_schema_new [OF that bare] by simp
  assume io: "io 0 = None"
  have "Table ''execution_queues'' \<in> set (snd (execute_batch io executions_schema objects))"
    using io bare_objects [OF bare]
      execute_batch_grows [of "objects @ [Table ''execution_queues'']" "\<lambda>n. io (Suc n)" "drop 1 executions_schema"]
    by (simp add: executions_schema_def del: execute_batch.simps(2)) (simp add: execute_batch.simps(2) [of io])
  then show "\<exists>s \<in> set executions_schema. strict s \<and> ddl_object s \<in> set (snd (execute_batch io executions_schema objects))"
    by (intro bexI [of _ "CreateTable False ''execution_queues''"]) (simp_all add: executions_schema_def)
qed (auto simp: executions_schema_def)

text \<open>
  C23. A migration that is interrupted makes the database file unusable. The statements of a schema run one by one outside a
  transaction and most of them fail when their object exists; the version is recorded last. When opening a new file fails
  after its first two statements of the schema (the disk is full, the process is killed), every later attempt to open the file
  fails too, however often and under whatever conditions the server is started again, for either database.
\<close>

theorem interrupted_migration_bricks_database:
  assumes "apply_schema \<in> {apply_acceptance_schema, apply_executions_schema}" and new: "disk path = None"
    and connected: "fst (rw_open Y path durability disk) = Inr conn"
    and started: "list_all (\<lambda>n. sys_statement Y path n = None) [0, 1, 4, 5]"
    and failed: "conn_open apply_schema Y path durability disk = (Inl e, disk')"
  shows "list_all (\<lambda>r. \<exists>e. r = Inl e) (reopen apply_schema path runs disk')"
  using assms(1) acceptance_db.interrupted_open [OF new connected started] executions_db.interrupted_open [OF new connected started] failed
  by (auto simp: apply_acceptance_schema_def [abs_def] apply_executions_schema_def [abs_def])

definition working_sys :: Sys where
  "working_sys = \<lparr>sys_create_dir_all = (\<lambda>_. None), sys_open = (\<lambda>_. None), sys_open_read_only = (\<lambda>_ _. None),
     sys_busy_timeout = (\<lambda>_. None), sys_pragma = (\<lambda>_ _ _. None), sys_statement = (\<lambda>_ _. None), sys_thread = (\<lambda>_. ThreadStarted)\<rparr>"

definition full_sys :: Sys where
  "full_sys = working_sys\<lparr>sys_statement := (\<lambda>_ n. if n = 7 then Some ''database or disk is full'' else None)\<rparr>"

theorem interrupted_migration_bricks_database_witness:
  "list_all (\<lambda>r. \<exists>e. r = Inl e) (reopen apply_acceptance_schema ''jobs.db'' [(working_sys, Balanced), (working_sys, Strict)]
     (snd (conn_open apply_acceptance_schema full_sys ''jobs.db'' Balanced Map.empty)))"
proof -
  have p: "parent_dir ''jobs.db'' = []" by code_simp
  have "fst (conn_open apply_acceptance_schema full_sys ''jobs.db'' Balanced Map.empty) = Inl (Internal ''database or disk is full'')"
    by (simp add: conn_open_def rw_open_def p full_sys_def working_sys_def configure_def rw_pragmas_def file_of_def DbFile_new_def
        migrate_schema_def stored_version_def apply_acceptance_schema_def acceptance_schema_def)
  then have failed: "conn_open apply_acceptance_schema full_sys ''jobs.db'' Balanced Map.empty = (Inl (Internal ''database or disk is full''),
      snd (conn_open apply_acceptance_schema full_sys ''jobs.db'' Balanced Map.empty))" by (metis prod.collapse)
  show ?thesis
    by (rule interrupted_migration_bricks_database [OF _ _ _ _ failed])
      (simp_all add: rw_open_def p full_sys_def working_sys_def configure_def rw_pragmas_def)
qed

section \<open>Opening the store\<close>

lemma open_read_connections_working:
  "working Y \<Longrightarrow> open_read_connections Y path n = Inr (replicate n \<lparr>cn_path = path, cn_busy_timeout_secs = 5, cn_pragmas = [(''query_only'', ''ON'')]\<rparr>)"
  by (induction n) (simp_all add: configure_def)

lemma ready_tables:
  "ready acceptance_schema f \<Longrightarrow> on_table ''job_queues'' f = None \<and> on_table ''accepted_jobs'' f = None"
  "ready executions_schema f \<Longrightarrow> on_table ''execution_queues'' f = None \<and> on_table ''executions'' f = None"
  by (simp_all add: ready_def has_schema_def on_table_def acceptance_schema_def executions_schema_def)

lemma ingest_handle_open_working:
  assumes w: "working Y" and "openable acceptance_schema (file_of disk path)"
  obtains f h where "ingest_handle_open Y path options disk = (Inr h, disk(path \<mapsto> f))" "ready acceptance_schema f"
    "openable acceptance_schema f" "df_ingest f = df_ingest (file_of disk path)" "hd_names h = queue_names (df_ingest f)"
    "cn_pragmas (hd_writer h) = rw_pragmas (swo_durability options)" "length (rp_connections (hd_reads h)) = 4"
proof -
  from acceptance_db.conn_open_working [OF w assms(2), of "swo_durability options"] obtain f conn where
    c: "conn_open (\<lambda>io. execute_batch io acceptance_schema) Y path (swo_durability options) disk = (Inr conn, disk(path \<mapsto> f))"
    and f: "ready acceptance_schema f" "openable acceptance_schema f" "df_ingest f = df_ingest (file_of disk path)"
    and s: "cn_pragmas conn = rw_pragmas (swo_durability options)"
    by (metis Connection.select_convs(3))
  have q: "conn_queue_names Y path (disk(path \<mapsto> f)) = Inr (queue_names (df_ingest f))"
    using w ready_tables(1) [OF f(1)] by (simp add: conn_queue_names_def file_of_def)
  obtain reads where reads: "open_ingest Y path = Inr reads" "length (rp_connections reads) = 4"
    using open_read_connections_working [OF w] by (simp add: open_ingest_def open_with_sql_def)
  have "ingest_handle_open Y path options disk =
      (Inr \<lparr>hd_writer = conn, hd_names = queue_names (df_ingest f), hd_reads = reads\<rparr>, disk(path \<mapsto> f))"
    using w c q reads by (simp add: ingest_handle_open_def start_writer_def ingest_conn_open_def apply_acceptance_schema_def [abs_def])
  then show thesis using that f s reads(2) by simp
qed

lemma results_handle_open_working:
  assumes w: "working Y" and "openable executions_schema (file_of disk path)"
  obtains f h where "results_handle_open Y path options disk = (Inr h, disk(path \<mapsto> f))" "ready executions_schema f"
    "openable executions_schema f" "df_results f = df_results (file_of disk path)"
    "cn_pragmas (hd_writer h) = rw_pragmas (swo_durability options)" "length (rp_connections (hd_reads h)) = 4"
proof -
  from executions_db.conn_open_working [OF w assms(2), of "swo_durability options"] obtain f conn where
    c: "conn_open (\<lambda>io. execute_batch io executions_schema) Y path (swo_durability options) disk = (Inr conn, disk(path \<mapsto> f))"
    and f: "ready executions_schema f" "openable executions_schema f" "df_results f = df_results (file_of disk path)"
    and s: "cn_pragmas conn = rw_pragmas (swo_durability options)"
    by (metis Connection.select_convs(3))
  obtain reads where reads: "open_results Y path = Inr reads" "length (rp_connections reads) = 4"
    using open_read_connections_working [OF w] by (simp add: open_results_def open_with_sql_def)
  have "results_handle_open Y path options disk = (Inr \<lparr>hd_writer = conn, hd_names = {}, hd_reads = reads\<rparr>, disk(path \<mapsto> f))"
    using w c reads by (simp add: results_handle_open_def start_writer_def results_conn_open_def apply_executions_schema_def [abs_def])
  then show thesis using that f s reads(2) by simp
qed

text \<open>
  C14. On a working machine, opening the two database files is the opening that startup relies on. When each file is new or
  was migrated by this program and the paths differ, \<open>open_with_options_pair\<close> on the files (migration, writer threads, read pools,
  healing) gives exactly the store, or the error, of the opening on the stored tables, and a file that was opened can be opened again.
\<close>

theorem opening_files_refines_startup:
  assumes w: "working Y" and paths: "ip \<noteq> rp"
    and files: "openable acceptance_schema (file_of disk ip)" "openable executions_schema (file_of disk rp)"
    and tables: "open_databases M ip rp = Inr (df_ingest (file_of disk ip), df_results (file_of disk rp))"
  shows "(case sqlite_open_pair Y Es ip rp options disk of
       (Inl e, _) \<Rightarrow> open_with_options_pair M Es ip rp options = Inl e
     | (Inr (ingest, results), disk') \<Rightarrow>
         open_with_options_pair M Es ip rp options = Inr (store_on ip rp ingest disk') \<and>
         openable acceptance_schema (file_of disk' ip) \<and> openable executions_schema (file_of disk' rp))"
proof (cases "SqliteWriteOptions_validate options")
  case (Inl e)
  then show ?thesis by (simp add: sqlite_open_pair_def open_with_options_pair_def)
next
  case (Inr u)
  from ingest_handle_open_working [OF w files(1)] obtain f h where
    h: "ingest_handle_open Y ip options disk = (Inr h, disk(ip \<mapsto> f))" and f: "ready acceptance_schema f" "openable acceptance_schema f"
      "df_ingest f = df_ingest (file_of disk ip)" and names: "hd_names h = queue_names (df_ingest f)" by metis
  have rp: "file_of (disk(ip \<mapsto> f)) rp = file_of disk rp" using paths by (simp add: file_of_def)
  from results_handle_open_working [OF w files(2) [folded rp]] obtain g k where
    k: "results_handle_open Y rp options (disk(ip \<mapsto> f)) = (Inr k, disk(ip \<mapsto> f, rp \<mapsto> g))"
    and g: "ready executions_schema g" "openable executions_schema g" "df_results g = df_results (file_of disk rp)"
    unfolding rp by metis
  let ?disk = "disk(ip \<mapsto> f, rp \<mapsto> g)"
  have at: "file_of ?disk ip = f" "file_of ?disk rp = g" using paths by (simp_all add: file_of_def)
  have same: "?disk(ip \<mapsto> f, rp \<mapsto> g) = ?disk" using paths by (simp add: fun_upd_twist)
  obtain r idb where hl: "heal_orphan_claims Es (df_ingest f) (df_results g) = (r, idb)" by force
  have heal: "heal_on_open Y Es ip rp ?disk = (r, ?disk(ip \<mapsto> f\<lparr>df_ingest := idb\<rparr>))"
    using rw_open_working [OF w] at same ready_tables(1) [OF f(1)] ready_tables(2) [OF g(1)] hl paths
    by (simp add: heal_on_open_def heal_files_def file_of_def fun_upd_twist)
  have files': "file_of (?disk(ip \<mapsto> f\<lparr>df_ingest := idb\<rparr>)) ip = f\<lparr>df_ingest := idb\<rparr>"
    "file_of (?disk(ip \<mapsto> f\<lparr>df_ingest := idb\<rparr>)) rp = g" using paths by (simp_all add: file_of_def)
  have "openable acceptance_schema (f\<lparr>df_ingest := idb\<rparr>)"
    using f(2) by (simp add: openable_def ready_def has_schema_def unset_def)
  then show ?thesis
    using Inr h k heal hl f(3) g tables names files'
    by (cases r) (simp_all add: sqlite_open_pair_def open_with_options_pair_def open_store_def store_on_def)
qed

definition quiet_machine :: "string Machine" where
  "quiet_machine = \<lparr>open_databases = (\<lambda>_ _. Inr (IngestDb_empty, ResultsDb_empty)), parse_addr = Inr, bind_workers = (\<lambda>_ _. Inr ()),
     ping_docker = (\<lambda>_. Inr ()), bind_http = (\<lambda>_. Inr ())\<rparr>"

lemma default_options_valid: "SqliteWriteOptions_validate SqliteWriteOptions_default = Inr ()"
  by (simp add: SqliteWriteOptions_validate_def SqliteWriteOptions_default_def enqueue_defaults_valid completion_defaults_valid)

theorem opening_files_refines_startup_witness:
  "\<exists>handles disk'. sqlite_open_pair working_sys quiet ''jobs.db'' ''results.db'' SqliteWriteOptions_default Map.empty = (Inr handles, disk') \<and>
     openable acceptance_schema (file_of disk' ''jobs.db'') \<and>
     open_with_options_pair quiet_machine quiet ''jobs.db'' ''results.db'' SqliteWriteOptions_default =
       Inr (store_on ''jobs.db'' ''results.db'' (fst handles) disk')"
proof -
  have w: "working working_sys" by (simp add: working_def working_sys_def)
  have o: "openable schema (file_of Map.empty path)" for schema path
    by (simp add: openable_def file_of_def unset_def DbFile_new_def)
  have m: "open_databases quiet_machine ''jobs.db'' ''results.db'' =
      Inr (df_ingest (file_of Map.empty ''jobs.db''), df_results (file_of Map.empty ''results.db''))"
    by (simp add: quiet_machine_def file_of_def DbFile_new_def)
  have "heal_orphan_claims quiet IngestDb_empty ResultsDb_empty = (Inr (), IngestDb_empty)"
    using fault_free_quiet by (simp add: heal_orphan_claims_def IngestDb_empty_def)
  then have s: "\<exists>st. open_with_options_pair quiet_machine quiet ''jobs.db'' ''results.db'' SqliteWriteOptions_default = Inr st"
    by (simp add: open_with_options_pair_def default_options_valid quiet_machine_def open_store_def)
  show ?thesis
    using opening_files_refines_startup [OF w _ o o m, of quiet SqliteWriteOptions_default] s
    by (auto split: prod.splits sum.splits)
qed

section \<open>Settings and turns\<close>

lemma pragma_updates_ok:
  "pragma_updates Y ps conn = Inr conn' \<Longrightarrow> conn' = conn\<lparr>cn_pragmas := cn_pragmas conn @ ps\<rparr>"
proof (induction ps arbitrary: conn)
  case (Cons p ps)
  obtain k v where p: "p = (k, v)" by (rule prod.exhaust)
  from Cons.prems have "pragma_updates Y ps (conn\<lparr>cn_pragmas := cn_pragmas conn @ [p]\<rparr>) = Inr conn'"
    by (auto simp: p split: option.splits)
  from Cons.IH [OF this] show ?case by simp
qed simp

text \<open>
  Whatever fails on the way, a writer connection that was opened waits five seconds for locks, logs ahead, checks foreign
  keys and synchronises as the options say.
\<close>

lemma writer_settings:
  assumes "conn_open apply_schema Y path durability disk = (Inr conn, disk')"
  shows "conn = \<lparr>cn_path = path, cn_busy_timeout_secs = 5,
    cn_pragmas = [(''journal_mode'', ''WAL''), (''foreign_keys'', ''ON''), (''synchronous'', synchronous durability)]\<rparr>"
proof -
  obtain r0 d0 where o: "rw_open Y path durability disk = (r0, d0)" by force
  have "r0 = Inr conn"
    using assms by (auto simp: conn_open_def o Let_def split: sum.splits prod.splits)
  then have "configure Y path (rw_pragmas durability) = Inr conn" using o by (auto simp: rw_open_def split: option.splits if_splits)
  then show ?thesis by (auto simp: configure_def rw_pragmas_def dest: pragma_updates_ok split: option.splits)
qed

text \<open>
  The invariant of the files: whatever fails and whenever, a file records a version only when it has the whole schema, and an
  open file is ready.
\<close>

lemma conn_open_sound:
  assumes s: "sound_file schema (file_of disk path)"
    and c: "conn_open (\<lambda>io. execute_batch io schema) Y path durability disk = (r, disk')"
  shows "sound_file schema (file_of disk' path)" "r = Inr conn \<Longrightarrow> ready schema (file_of disk' path)"
proof -
  obtain r0 d0 where o: "rw_open Y path durability disk = (r0, d0)" by force
  have d0: "file_of d0 path = file_of disk path" using o by (auto simp: rw_open_def file_of_def split: option.splits if_splits)
  obtain m f where m: "migrate_schema (sys_statement Y path) (\<lambda>io. execute_batch io schema) (file_of disk path) = (m, f)" by force
  note k = migrate_schema_keeps(1,2) [OF m] and m' = m [folded d0] and s' = s [folded d0]
  have at: "file_of (d0(path \<mapsto> f)) path = f" by (simp add: file_of_def)
  show "sound_file schema (file_of disk' path)"
    using c s' k(1) [OF s] at by (cases r0; cases m) (auto simp: conn_open_def o m' Let_def)
  show "ready schema (file_of disk' path)" if "r = Inr conn"
    using c k(2) [OF _ s] at that by (cases r0; cases m) (auto simp: conn_open_def o m' Let_def)
qed

text \<open>The read connections take turns, also when the counter wraps.\<close>

fun pool_indices :: "nat \<Rightarrow> ReadPool \<Rightarrow> nat list" where
  "pool_indices 0 p = []"
| "pool_indices (Suc n) p = (let (index, p') = pool_connection p in index # pool_indices n p')"

lemma unat_Suc_mod4: "unat (n + 1 :: u64) mod 4 = Suc (unat n) mod 4"
proof -
  have "unat (n + 1) = Suc (unat n) mod 2 ^ 64" by (simp add: unat_word_ariths)
  moreover have "(4 :: nat) dvd 2 ^ 64" by simp
  ultimately show ?thesis by (metis mod_mod_cancel)
qed

lemma pool_takes_turns:
  assumes "length (rp_connections p) = 4"
  shows "pool_indices n p = map (\<lambda>i. (unat (rp_next p) + i) mod 4) [0..<n]"
  using assms
proof (induction n arbitrary: p)
  case (Suc n)
  have "(unat (rp_next p + 1) + i) mod 4 = Suc (unat (rp_next p) + i) mod 4" for i
    using unat_Suc_mod4 [of "rp_next p"] by (metis add_Suc mod_add_left_eq)
  then show ?case
    using Suc.IH [of "p\<lparr>rp_next := rp_next p + 1\<rparr>"] Suc.prems
    by (simp add: pool_connection_def upt_conv_Cons map_Suc_upt [symmetric] del: upt_Suc)
qed simp

text \<open>
  One file for both databases: the file has the version of the first schema, so the second one is never applied. The store
  opens and lacks the tables of the executions; nothing in the configuration rules it out.
\<close>

lemma same_file_lacks_executions:
  "\<exists>h k disk'. sqlite_open_pair working_sys quiet ''jobs.db'' ''jobs.db'' SqliteWriteOptions_default Map.empty = (Inr (h, k), disk') \<and>
     on_table ''execution_queues'' (file_of disk' ''jobs.db'') = Some ''no such table: execution_queues''"
proof -
  have p: "parent_dir ''jobs.db'' = []" by code_simp
  show ?thesis
    using fault_free_quiet
    by (simp add: sqlite_open_pair_def default_options_valid ingest_handle_open_def results_handle_open_def start_writer_def ingest_conn_open_def
        results_conn_open_def conn_open_def rw_open_def p working_sys_def configure_def rw_pragmas_def file_of_def DbFile_new_def
        migrate_schema_def stored_version_def apply_acceptance_schema_def acceptance_schema_def SCHEMA_VERSION_def on_table_def
        conn_queue_names_def open_ingest_def open_results_def open_with_sql_def heal_on_open_def heal_files_def IngestDb_empty_def
        eval_nat_numeral)
qed

end
