(* ===== verification/Maq_Bulk.thy ===== *)
theory Maq_Bulk
  imports Maq_Types
begin

text \<open>
  The text of the bulk statements (\<open>crates/persistence/src/sqlite/bulk.rs\<close>). The statements bind the values of all rows as one
  flat list; it is shown that the numbered placeholders give every row its own values back.
\<close>

section \<open>Bulk statements\<close>

definition placeholder_row :: "nat \<Rightarrow> nat \<Rightarrow> string" where
  "placeholder_row start cols = ''('' @ join '', '' (map (\<lambda>col. ''?'' @ show_nat (start + col)) [1..<Suc cols]) @ '')''"

definition values_placeholders :: "nat \<Rightarrow> nat \<Rightarrow> string" where
  "values_placeholders rows cols = join '', '' (map (\<lambda>row. placeholder_row (row * cols) cols) [0..<rows])"

definition insert_sql :: "string \<Rightarrow> string list \<Rightarrow> nat \<Rightarrow> string" where
  "insert_sql table columns rows =
     ''INSERT INTO '' @ table @ '' ('' @ join '', '' columns @ '') VALUES '' @ values_placeholders rows (length columns)"

definition push_clause :: "string \<Rightarrow> string option \<Rightarrow> string \<Rightarrow> string" where
  "push_clause keyword clause sql = (case clause of None \<Rightarrow> sql | Some text \<Rightarrow> sql @ keyword @ text)"

definition upsert_sql ::
  "string \<Rightarrow> string list \<Rightarrow> nat \<Rightarrow> string \<Rightarrow> string \<Rightarrow> string option \<Rightarrow> string option \<Rightarrow> string" where
  "upsert_sql table columns rows conflict_target update_set_sql update_where_sql returning =
     push_clause '' RETURNING '' returning
       (push_clause '' WHERE '' update_where_sql
         (''INSERT INTO '' @ table @ '' ('' @ join '', '' columns @ '') VALUES '' @ values_placeholders rows (length columns) @
          '' ON CONFLICT('' @ conflict_target @ '') DO UPDATE SET '' @ update_set_sql))"

definition update_from_values_sql ::
  "string \<Rightarrow> string \<Rightarrow> string \<Rightarrow> string list \<Rightarrow> nat \<Rightarrow> string \<Rightarrow> string option \<Rightarrow> string" where
  "update_from_values_sql table alias set_sql value_columns rows where_sql returning =
     push_clause '' RETURNING '' returning
       (''WITH '' @ alias @ ''('' @ join '', '' value_columns @ '') AS (VALUES '' @ values_placeholders rows (length value_columns) @
        '') UPDATE '' @ table @ '' SET '' @ set_sql @ '' FROM '' @ alias @ '' WHERE '' @ where_sql)"

section \<open>Reading placeholders\<close>

text \<open>
  A reader of a list of parenthesised rows of numbered placeholders, as SQLite reads it: \<open>n\<close> is the number being read, \<open>row\<close> the
  row, \<open>rows\<close> what is complete; \<open>inside\<close> tells commas between values from commas between rows. It stops at the first character that
  is none of these.
\<close>

fun read_rows :: "bool \<Rightarrow> nat \<Rightarrow> nat list \<Rightarrow> nat list list \<Rightarrow> string \<Rightarrow> nat list list" where
  "read_rows inside n row rows [] = rows"
| "read_rows inside n row rows (c # s) =
     (case digit_val c of
        Some d \<Rightarrow> read_rows inside (10 * n + d) row rows s
      | None \<Rightarrow>
          if c = CHR ''?'' \<or> c = CHR '' '' then read_rows inside 0 row rows s
          else if c = CHR ''('' then read_rows True 0 [] rows s
          else if c = CHR '','' then (if inside then read_rows True 0 (row @ [n]) rows s else read_rows False 0 row rows s)
          else if c = CHR '')'' \<and> inside then read_rows False 0 [] (rows @ [row @ [n]]) s
          else rows)"

lemma read_rows_digits: "parse_digits n ds = Some m \<Longrightarrow> read_rows inside n row rows (ds @ s) = read_rows inside m row rows s"
proof (induction ds arbitrary: n)
  case (Cons c ds)
  then obtain d where "digit_val c = Some d" "parse_digits (10 * n + d) ds = Some m" by (cases "digit_val c") simp_all
  then show ?case using Cons.IH by simp
qed simp

lemma not_digits [simp]:
  "digit_val (CHR ''?'') = None" "digit_val (CHR '' '') = None" "digit_val (CHR ''('') = None" "digit_val (CHR '','') = None" "digit_val (CHR '')'') = None"
  by (simp_all add: digit_val_def)

lemma read_rows_number: "read_rows inside n row rows (CHR ''?'' # show_nat k @ s) = read_rows inside k row rows s"
  using read_rows_digits [OF parse_digits_show_nat] by simp

lemma read_rows_row:
  "ks \<noteq> [] \<Longrightarrow> read_rows True 0 row rows (join '', '' (map (\<lambda>k. ''?'' @ show_nat k) ks) @ CHR '')'' # s) =
     read_rows False 0 [] (rows @ [row @ ks]) s"
proof (induction ks arbitrary: row)
  case (Cons k ks)
  show ?case
  proof (cases ks)
    case Nil
    then show ?thesis by (simp add: read_rows_number del: read_rows.simps) simp
  next
    case (Cons k' ks')
    have "read_rows True 0 row rows (join '', '' (map (\<lambda>k. ''?'' @ show_nat k) (k # ks)) @ CHR '')'' # s) =
        read_rows True 0 (row @ [k]) rows (join '', '' (map (\<lambda>k. ''?'' @ show_nat k) ks) @ CHR '')'' # s)"
      by (simp add: Cons read_rows_number del: read_rows.simps) (simp add: read_rows.simps)
    also have "\<dots> = read_rows False 0 [] (rows @ [row @ k # ks]) s" using Cons.IH [of "row @ [k]"] Cons by simp
    finally show ?thesis .
  qed
qed simp

lemma placeholder_row_eq:
  "placeholder_row start cols = ''('' @ join '', '' (map (\<lambda>k. ''?'' @ show_nat k) [Suc start..<Suc (start + cols)]) @ '')''"
proof -
  have "[Suc start..<Suc (start + cols)] = map (\<lambda>col. start + col) [1..<Suc cols]"
    by (rule nth_equalityI) (simp_all del: upt_Suc)
  then show ?thesis by (simp only: placeholder_row_def map_map comp_def)
qed

lemma read_rows_rows:
  assumes "0 < cols"
  shows "read_rows False 0 [] rows (join '', '' (map (\<lambda>r. placeholder_row (r * cols) cols) rs)) =
    rows @ map (\<lambda>r. [Suc (r * cols)..<Suc (r * cols + cols)]) rs"
proof (induction rs arbitrary: rows)
  case (Cons r rs)
  have ne: "[Suc (r * cols)..<Suc (r * cols + cols)] \<noteq> []" using assms by simp
  have row: "read_rows False 0 [] rows (placeholder_row (r * cols) cols @ s) =
      read_rows False 0 [] (rows @ [[Suc (r * cols)..<Suc (r * cols + cols)]]) s" for s
    using read_rows_row [OF ne, of "[]" rows s] by (simp add: placeholder_row_eq del: upt_Suc)
  show ?case
  proof (cases rs)
    case Nil
    then show ?thesis using row [of "[]"] by (simp del: upt_Suc)
  next
    case (Cons r' rs')
    then show ?thesis using Cons.IH row by (simp del: upt_Suc)
  qed
qed simp

text \<open>
  Every row of a bulk statement gets its own values. The values of all rows are bound as one flat list; reading
  the placeholders that the statement lists for each row and looking their numbers up in that list (numbered from
  one) gives the rows back, and every number is at most the number of values bound.
\<close>

theorem placeholders_bind_rows:
  assumes cols: "0 < cols" and data: "list_all (\<lambda>r. length r = cols) data"
  shows "map (map (\<lambda>k. concat data ! (k - 1))) (read_rows False 0 [] [] (values_placeholders (length data) cols)) = data \<and>
    list_all (list_all (\<lambda>k. 1 \<le> k \<and> k \<le> length (concat data))) (read_rows False 0 [] [] (values_placeholders (length data) cols))"
proof
  have len: "length (concat xs) = length xs * cols" if "list_all (\<lambda>r. length r = cols) xs" for xs :: "'a list list"
    using that by (induction xs) simp_all
  have at: "concat xs ! (r * cols + c) = xs ! r ! c" if "list_all (\<lambda>r. length r = cols) xs" "r < length xs" "c < cols" for xs :: "'a list list" and r c
    using that
  proof (induction xs arbitrary: r)
    case (Cons x xs)
    then show ?case by (cases r) (simp_all add: nth_append add.assoc)
  qed simp
  have read: "read_rows False 0 [] [] (values_placeholders (length data) cols) =
      map (\<lambda>r. [Suc (r * cols)..<Suc (r * cols + cols)]) [0..<length data]"
    by (simp add: values_placeholders_def read_rows_rows [OF cols] del: upt_Suc)
  have "map (\<lambda>k. concat data ! (k - 1)) [Suc (r * cols)..<Suc (r * cols + cols)] = data ! r" if "r < length data" for r
    using that data at [OF data that] by (intro nth_equalityI) (simp_all add: list_all_length del: upt_Suc)
  then show "map (map (\<lambda>k. concat data ! (k - 1))) (read_rows False 0 [] [] (values_placeholders (length data) cols)) = data"
    unfolding read by (intro nth_equalityI) (simp_all del: upt_Suc)
  have "r * cols + cols \<le> length data * cols" if "r < length data" for r
    using mult_le_mono1 [of "Suc r" "length data" cols] that by simp
  then show "list_all (list_all (\<lambda>k. 1 \<le> k \<and> k \<le> length (concat data))) (read_rows False 0 [] [] (values_placeholders (length data) cols))"
    unfolding read len [OF data] by (fastforce simp: list_all_iff)
qed

theorem placeholders_bind_rows_witness:
  "values_placeholders 2 3 = ''(?1, ?2, ?3), (?4, ?5, ?6)'' \<and>
   map (map (\<lambda>k. [10, 11, 12, 20, 21, 22 :: nat] ! (k - 1))) (read_rows False 0 [] [] (values_placeholders 2 3)) = [[10, 11, 12], [20, 21, 22]]"
proof -
  have "values_placeholders 2 3 = ''(?1, ?2, ?3), (?4, ?5, ?6)''"
    by (simp add: values_placeholders_def placeholder_row_def upt_rec show_nat.simps digit_char_def char_of_def bit_0)
  moreover have ok: "0 < (3 :: nat)" "list_all (\<lambda>r. length r = 3) [[10, 11, 12], [20, 21, 22 :: nat]]" by simp_all
  have d: "length [[10, 11, 12], [20, 21, 22 :: nat]] = 2" "concat [[10, 11, 12], [20, 21, 22 :: nat]] = [10, 11, 12, 20, 21, 22]" by simp_all
  ultimately show ?thesis using placeholders_bind_rows [OF ok, unfolded d, THEN conjunct1] by blast
qed

end
