(* ===== verification/Spec2Isabelle.thy ===== *)
theory Spec2Isabelle
  imports Maq_System Maq_Worker Maq_Writers_Runs Maq_Docker_Runs Maq_Http Maq_Open Maq_Bulk
begin

text \<open>
  A verification of maqistor, a durable job executor written in Rust. Clients submit jobs to queues over HTTP; the server
  stores them in two SQLite databases, reserves slots of connected workers, claims jobs for these slots, sends them over a
  framed protocol and records the results, with retries, leases and recovery after a crash. The development follows the
  crates: a group of definitions per component, translated from the source, then what is shown about it.

  \<^bold>\<open>Parts of the program and the theories that model them.\<close>

  \<^item> \<open>Maq_Prelude\<close>, \<open>Maq_Text\<close>, \<open>Maq_Float\<close>: the fixed-width integers, strings and doubles of the Rust standard library as
    far as the sources use them. Doubles are rationals rounded to 53 bits, with overflow, underflow, infinities and NaN;
    the sign of zero is left out, no operation of the program can see it.
  \<^item> \<open>Maq_Types\<close>: \<open>crates/engine/src/types.rs\<close> and the types of \<open>crates/engine/src/lib.rs\<close>: jobs, executions, queues,
    statuses, errors, outcomes, events, dispatch options.
  \<^item> \<open>Maq_Sql\<close>: what the SQL statements of \<open>crates/persistence/src/sqlite\<close> mean on tables as lists of rows. An update with
    a guard that it falsifies itself is the locale \<open>fenced_update\<close>, interpreted on every such statement.
  \<^item> \<open>Maq_Bulk\<close> (\<open>bulk.rs\<close>): the text of the bulk statements, whose placeholders give every row its own values.
  \<^item> \<open>Maq_Ingest\<close> (\<open>ingest.rs\<close>), \<open>Maq_Results\<close> and \<open>Maq_Executions\<close> (\<open>results.rs\<close>): the two databases, the operations of
    their writer connections and the reads. \<open>Maq_Store\<close> (\<open>store.rs\<close>, \<open>common.rs\<close>): the store on top, with the healing
    of orphan claims when it is opened. \<open>Maq_Store_Spec\<close> states the contract: the invariants \<open>store_wf\<close> and \<open>linked\<close>, the
    view a caller has of a job and the life of a job as an abstract relation; \<open>Maq_Store_Life\<close> shows that runs of the store
    refine it, and what crashes and cleanups do.
  \<^item> \<open>Maq_Adaptive\<close>, \<open>Maq_Adaptive_Runs\<close>, \<open>Maq_Rate\<close>: the adaptive batching (\<open>crates/engine/src/adaptive.rs\<close>,
    \<open>sqlite/adaptive.rs\<close>, \<open>sqlite/options.rs\<close>): sizes and waits stay within their limits, the lanes share the turns, and no
    conversion panics.
  \<^item> \<open>Maq_Writers\<close>, \<open>Maq_Writers_Runs\<close>: the loops of the two writer threads. The locales \<open>writer_conn\<close>, \<open>batch_conn\<close>,
    \<open>writer_state\<close> and \<open>writer_iterations\<close> hold what the loops need from a connection and from an iteration; both writers
    interpret them, and every request that enters a channel is answered exactly once.
  \<^item> \<open>Maq_Protocol\<close>: \<open>crates/worker-protocol/src/lib.rs\<close> and the frame readers and writers of the other crates.
  \<^item> \<open>Maq_Registry\<close>, \<open>Maq_Registry_Runs\<close>: the workers, slots, reservations, dispatches and connections of
    \<open>crates/dispatcher/src/lib.rs\<close>, with a step relation and its invariant; the runs let any worker register at any time, and keep
    beside the registry which worker ids were reused while a permit for them was still held.
  \<^item> \<open>Maq_Docker\<close>, \<open>Maq_Docker_Runs\<close>: the supervisor of managed workers in the same file: reconciliation converges with a
    daemon that works, and removes only containers that carry its label with any daemon.
  \<^item> \<open>Maq_Session\<close>: a session of \<open>crates/worker-sdk/src/lib.rs\<close>: every accepted job is reported once, the concurrency
    limit holds, a draining session in which no task has failed can return; handlers may panic, reports fail and the writer die. \<open>Maq_Worker\<close>: both ends of a worker connection, with certificates, the
    listener and \<open>run_until\<close>: a worker that ends well has answered every job it read, and \<open>handle_worker\<close> on its bytes raises exactly these
    results; a read that is dropped half-way ends the session.
  \<^item> \<open>Maq_Scheduler\<close>, \<open>Maq_Engine\<close>, \<open>Maq_Engine_Pass\<close>: \<open>crates/engine/src/lib.rs\<close>. The scheduler state has its own step
    relation (no wake-up is lost). What the engine needs from its ports are the locales \<open>dispatcher_port\<close>, \<open>store_port\<close> and
    \<open>engine_ports\<close>; a scheduling pass is analysed once for all of them.
  \<^item> \<open>Maq_System\<close>: the interpretation of these locales on the registry and the SQLite store, the server as a step relation
    over all components, and the properties that follow slots, budget and wake-ups through it.
  \<^item> \<open>Maq_Http\<close>: \<open>crates/api\<close>, \<open>crates/types\<close> and \<open>crates/client-sdk\<close>: a remote call within the framework's body limit is the call of
    the engine.
  \<^item> \<open>Maq_Config\<close>: \<open>crates/maqistor/src/config.rs\<close>: exactly which configurations are accepted. \<open>Maq_Main\<close>: \<open>main.rs\<close>,
    startup and the cleanup task: an accepted configuration starts on a machine that is ready for it, the purge keeps the retention, the
    task dies only when the clock is before 1970.
    \<open>Maq_Open\<close>: the database files, their schemas and migration, connections, read pools and the start of the writers
    (\<open>common.rs\<close>, \<open>IngestHandle::open\<close>, \<open>ResultsHandle::open\<close>, \<open>SqliteStore::open\<close>): on a working machine, opening the files is the
    opening that startup relies on, and an interrupted migration makes a file unusable. What opening needs from a schema is the
    locale \<open>db_schema\<close>, interpreted on both.
  \<^item> This theory: from the files on disk to the states of the running server.

  \<^bold>\<open>How state and effects correspond.\<close> A struct is a record with the source's fields, an enum a datatype; a table is the
  list of its rows, a hash map whose order matters an association list. Every call whose outcome the program does not decide (whether a
  database call fails, what the clock reads, the random identifiers, the order in which SQLite matches rows) takes its outcome from an environment
  argument, one per call, so every database call may fail on its own. Errors are values of a sum, panics are \<open>None\<close>. Locks, tasks
  and channels are steps of the relations; a channel is the list of what is in it. In the runs of the whole server a delivery
  task takes three steps, so that everything else can happen before its dispatch, while it waits for the acknowledgement, and after it.

  \<^bold>\<open>Bounds and fuel.\<close> The writer loops run on a script of receive outcomes and take as many iterations as there are
  messages and receive attempts; the number is part of the statements. The batch controller is shown not to panic for
  batches of up to \<open>2^24\<close> rows, waits of up to \<open>2^45\<close> seconds, windows of up to \<open>2^40\<close> and readings of the monotonic clock of up to
  \<open>2^28\<close> seconds, far above what a run can produce; the turns of a lane are bounded by 34. All other loops are structural or have a
  measure. Time stamps and limits are kept at 64 or 32 bits where they are stored or converted.

  \<^bold>\<open>Not modelled.\<close> Libraries and the machine are parameters with the documented behaviour as named hypotheses: CBOR,
  JSON, TOML, humantime and chrono, the web framework, the HTTP transport, the Docker client, the PEM reader and the TLS library,
  files, sockets and threads. SQLite is modelled by what its statements mean on tables and by which schema statements
  fail; column types and query plans are not represented. Left out are logging, metrics and the command line, which
  do not touch the state. The panic of \<open>unix_now\<close> on a clock before 1970 is modelled in the cleanup task only, not in the writers and the
  store, whose clock always gives a reading; HTTP headers are left out. In the runs of the whole server an operation of the store, an arm of
  the scheduler task and the end of a delivery (release of the claim, wake-up, budget) are one step each; the interleaving of the scheduler's
  locked sections is covered by the runs of the scheduler, where a wake-up is sent in the section that records it. The dispatcher reads its frames outside a \<open>select!\<close>, so there a frame is
  read as a whole.
\<close>

section \<open>From the files to the running server\<close>

text \<open>Whatever fails on the way, a store that startup hands over is well-formed if the databases on disk are.\<close>

lemma upsert_queues_wf: "store_wf st \<Longrightarrow> store_wf (snd (upsert_queues Es now qs st))"
proof (induction qs arbitrary: Es now st)
  case (Cons q qs)
  then show ?case using upsert_queue_wf [OF Cons.prems, of "Es 0" "configured_queue (now 0) q"]
    by (auto split: prod.split sum.split)
qed simp

lemma prepare_store_wf:
  assumes disk: "open_databases M (ingest_database_path (ac_persistence c)) (results_database_path (ac_persistence c)) = Inr (idb, rdb)"
    and wf: "ingest_wf names idb" "results_wf rdb" and prep: "prepare_store M Es now c = Inr st"
  shows "store_wf st"
proof -
  from prep disk obtain st0 st1 where op: "open_store (Es 0) idb rdb = Inr st0"
    and up: "upsert_queues (\<lambda>n. Es (Suc n)) now (ac_queues c) st0 = (Inr (), st1)"
    and rec: "snd (recover_on_start (Es (Suc (length (ac_queues c)))) (now (length (ac_queues c))) (ps_startup (ac_persistence c)) st1) = st"
    by (auto simp: prepare_store_def open_with_options_pair_def Let_def split: sum.splits prod.splits)
  have "store_wf st1" using upsert_queues_wf [OF open_store_wf [OF wf op], of "\<lambda>n. Es (Suc n)" now "ac_queues c"] up by simp
  then show ?thesis using rec recover_stale_leases_wf by (auto simp: recover_on_start_def case_prod_unfold Let_def split: if_splits)
qed

text \<open>The options of the engine never change.\<close>

lemma fold_schedule_options [simp]: "en_options (fold en_schedule qs e) = en_options e"
  by (induction qs arbitrary: e) (simp_all add: en_schedule_def)

lemma scheduler_arm_options:
  assumes inv: "engine_inv S e" and eq: "scheduler_arm maq_ports arm e = Some e'"
  shows "en_options e' = en_options e"
proof (cases arm)
  case WakeUp
  obtain queues s where tk: "take_queues (en_sched e) = (queues, s)" by fastforce
  from drain_pass_ok [OF inv tk] eq WakeUp tk show ?thesis by (auto simp: scheduler_arm_def pass_effect_def)
next
  case (RecoveryTick now)
  then show ?thesis using eq by (auto simp: scheduler_arm_def recovery_tick_def Let_def split: prod.splits sum.splits)
qed (use eq in \<open>auto simp: scheduler_arm_def\<close>)

lemma delivery_task_options [simp]: "en_options (delivery_task maq_ports ack_id ack k e) = en_options e"
  by (simp add: delivery_task_def delivery_start_def delivery_ack_def delivery_end_def set_stage_def release_job_claim_def en_schedule_def
      Let_def case_prod_unfold split: DeliveryStage.split option.split)

lemma engine_step_options: "engine_step s s' \<Longrightarrow> engine_inv (snd s) (fst s) \<Longrightarrow> en_options (fst s') = en_options (fst s)"
proof (induction rule: engine_step.induct)
  case (en_submit ser now job e r e' S)
  then show ?case by (auto simp: submit_def Let_def en_schedule_def split: sum.splits prod.splits)
next
  case (en_get_job i e r e' S)
  then show ?case by (auto simp: engine_get_job_def Let_def split: sum.splits prod.splits)
next
  case (en_event e S ev)
  then show ?case
    by (auto simp: on_event_def engine_complete_worker_result_def Let_def en_schedule_def split: WorkerEvent.split prod.splits)
next
  case (en_arm arm e e' S)
  then show ?case using scheduler_arm_options [of S e arm e'] by simp
qed (simp_all add: engine_seed_def delivery_pump_def case_prod_unfold Let_def split: list.split)



end
